(* ===== verification/Prelude.thy ===== *)
theory Prelude
  imports Main "HOL-Library.Word"
begin

unbundle bit_operations_syntax

text \<open>
  What the components share: the names of the machine types, the Go error values
  (and the panic, which is an outcome of a call like an error is), sequencing of
  fallible calls, conversions between the unsigned and signed 64-bit integers, and the
  big-endian byte strings that every wire format of the library is made of.
\<close>

section \<open>Machine types\<close>

type_synonym byte = "8 word"
type_synonym u16 = "16 word"
type_synonym u32 = "32 word"
type_synonym u64 = "64 word"

section \<open>Errors and panics\<close>

text \<open>
  A fallible Go call returns \<open>Inl e\<close> or \<open>Inr v\<close>. An error made by \<open>errors.New\<close> or
  \<open>fmt.Errorf\<close> carries its message (the format string, without the formatted numbers); a
  \<open>qerr.TransportError\<close> carries its code, its frame type and its message. A panic does not
  return: it is the error \<open>Panic\<close>, which no model ever handles.
\<close>

datatype transport_error_code =
    NoError | InternalError | ConnectionRefused | FlowControlError | StreamLimitError
  | StreamStateError | FinalSizeError | FrameEncodingError | TransportParameterError
  | ConnectionIDLimitError | ProtocolViolation | InvalidToken | ApplicationErrorErrorCode
  | CryptoBufferExceeded | KeyUpdateError | AEADLimitReached | NoViablePathError

datatype go_error =
    EOF
  | ErrUnexpectedEOF
  | ErrorNew string
  | TransportError transport_error_code u64 string
  | Panic string

type_synonym 'a result = "go_error + 'a"

definition rbind :: "'e + 'a \<Rightarrow> ('a \<Rightarrow> 'e + 'b) \<Rightarrow> 'e + 'b" where
  "rbind r k = (case r of Inl e \<Rightarrow> Inl e | Inr v \<Rightarrow> k v)"

lemma rbind_simps [simp]:
  "rbind (Inl e) k = Inl e"
  "rbind (Inr v) k = k v"
  by (simp_all add: rbind_def)

lemma rbind_eq_Inr: "rbind r k = Inr v \<longleftrightarrow> (\<exists>x. r = Inr x \<and> k x = Inr v)"
  by (cases r) auto

lemma rbind_assoc: "rbind (rbind r k) k' = rbind r (\<lambda>x. rbind (k x) k')"
  by (cases r) auto

definition is_panic :: "'a result \<Rightarrow> bool" where
  "is_panic r \<longleftrightarrow> (\<exists>m. r = Inl (Panic m))"

lemma is_panic_code [code]:
  "is_panic r = (case r of Inl e \<Rightarrow> (case e of Panic m \<Rightarrow> True | _ \<Rightarrow> False) | Inr v \<Rightarrow> False)"
  by (auto simp: is_panic_def split: sum.splits go_error.splits)

lemma is_panic_simps [simp]:
  "\<not> is_panic (Inr v)"
  "is_panic (Inl e) \<longleftrightarrow> (\<exists>m. e = Panic m)"
  "is_panic (if c then r else r') \<longleftrightarrow> c \<and> is_panic r \<or> \<not> c \<and> is_panic r'"
  by (auto simp: is_panic_def)

text \<open>
  Freedom of panics is proved along the structure of a definition: \<open>intro no_panic\<close> walks
  through its sequencing, branches and bindings.
\<close>

named_theorems no_panic "introduction rules for the absence of panics"

lemma rbind_no_panic [no_panic]:
  "\<not> is_panic r \<Longrightarrow> (\<And>x. r = Inr x \<Longrightarrow> \<not> is_panic (k x)) \<Longrightarrow> \<not> is_panic (rbind r k)"
  by (cases r) auto

lemma if_no_panic [no_panic]:
  "(c \<Longrightarrow> \<not> is_panic r) \<Longrightarrow> (\<not> c \<Longrightarrow> \<not> is_panic r') \<Longrightarrow> \<not> is_panic (if c then r else r')"
  by (cases c) simp_all

lemma prod_no_panic [no_panic]:
  "(\<And>x y. p = (x, y) \<Longrightarrow> \<not> is_panic (k x y)) \<Longrightarrow> \<not> is_panic (case p of (x, y) \<Rightarrow> k x y)"
  by (cases p) simp

lemma Let_no_panic [no_panic]:
  "(\<And>x. x = v \<Longrightarrow> \<not> is_panic (k x)) \<Longrightarrow> \<not> is_panic (let x = v in k x)"
  by (simp add: Let_def)

text \<open>
  \<open>returns P r\<close>: if the call returns a value, the value satisfies \<open>P\<close>. The rules compute a
  sufficient condition backwards, again by \<open>intro\<close>.
\<close>

definition returns :: "('a \<Rightarrow> bool) \<Rightarrow> 'e + 'a \<Rightarrow> bool" where
  "returns P r \<longleftrightarrow> (case r of Inl e \<Rightarrow> True | Inr v \<Rightarrow> P v)"

named_theorems returns "backward rules for the values a call returns"

lemma returnsD: "returns P r \<Longrightarrow> r = Inr v \<Longrightarrow> P v"
  by (simp add: returns_def)

lemma returns_mono: "returns P r \<Longrightarrow> (\<And>v. P v \<Longrightarrow> Q v) \<Longrightarrow> returns Q r"
  by (cases r) (simp_all add: returns_def)

lemma returns_Inl [returns]: "returns P (Inl e)"
  by (simp add: returns_def)

lemma returns_Inr [returns]: "P v \<Longrightarrow> returns P (Inr v)"
  by (simp add: returns_def)

lemma returns_rbind [returns]: "returns (\<lambda>x. returns P (k x)) r \<Longrightarrow> returns P (rbind r k)"
  by (cases r) (simp_all add: returns_def)

lemma returns_if [returns]:
  "(c \<Longrightarrow> returns P r) \<Longrightarrow> (\<not> c \<Longrightarrow> returns P r') \<Longrightarrow> returns P (if c then r else r')"
  by simp

lemma returns_prod [returns]:
  "(\<And>x y. p = (x, y) \<Longrightarrow> returns P (k x y)) \<Longrightarrow> returns P (case p of (x, y) \<Rightarrow> k x y)"
  by (cases p) simp

lemma returns_Let [returns]: "(\<And>x. x = v \<Longrightarrow> returns P (k x)) \<Longrightarrow> returns P (let x = v in k x)"
  by (simp add: Let_def)

section \<open>Integer conversions\<close>

text \<open>
  \<open>int64(x)\<close> of an unsigned value is its two's complement reading, \<open>uint64(x)\<close> of a
  signed value is its residue. Byte counts, packet numbers, stream numbers, stream IDs and
  durations are \<open>int64\<close> in the code and \<open>int\<close> in the model.
\<close>

definition int64 :: "u64 \<Rightarrow> int" where
  "int64 w = sint w"

definition uint64 :: "int \<Rightarrow> u64" where
  "uint64 i = word_of_int i"

lemma int64_small: "unat w < 2 ^ 63 \<Longrightarrow> int64 w = int (unat w)"
proof -
  assume "unat w < 2 ^ 63"
  then have "uint w < 2 ^ 63"
    by (metis of_nat_less_iff of_nat_numeral of_nat_power of_nat_unat)
  then show ?thesis
    by (simp add: int64_def sint_uint signed_take_bit_int_eq_self order.trans [OF _ uint_ge_0])
qed

lemma uint64_int64 [simp]: "uint64 (int64 w) = w"
  by (simp add: uint64_def int64_def)

lemma int64_0 [simp]: "int64 0 = 0" "uint64 0 = 0"
  by (simp_all add: int64_def uint64_def)

lemma int64_uint64: "0 \<le> i \<Longrightarrow> i < 2 ^ 63 \<Longrightarrow> int64 (uint64 i) = i"
  by (simp add: uint64_def int64_def sint_uint uint_word_of_int take_bit_int_eq_self
      signed_take_bit_int_eq_self flip: take_bit_eq_mod)

lemma unat_uint64: "0 \<le> i \<Longrightarrow> i < 2 ^ 64 \<Longrightarrow> unat (uint64 i) = nat i"
  by (simp add: uint64_def unat_eq_nat_uint uint_word_of_int)

text \<open>Go's integer division truncates towards zero, and its remainder has the sign of the dividend.\<close>

definition go_div :: "int \<Rightarrow> int \<Rightarrow> int" where
  "go_div a b = sgn a * sgn b * (\<bar>a\<bar> div \<bar>b\<bar>)"

definition go_rem :: "int \<Rightarrow> int \<Rightarrow> int" where
  "go_rem a b = a - go_div a b * b"

lemma go_div_nonneg [simp]: "0 \<le> a \<Longrightarrow> 0 < b \<Longrightarrow> go_div a b = a div b"
  by (cases "a = 0") (simp_all add: go_div_def)

lemma go_rem_nonneg [simp]: "0 \<le> a \<Longrightarrow> 0 < b \<Longrightarrow> go_rem a b = a mod b"
  by (simp add: go_rem_def minus_div_mult_eq_mod)

section \<open>State machines\<close>

text \<open>
  The states that a component reaches from its initial states by any sequence of its steps. A property
  that holds initially and is kept by every step holds in all of them.
\<close>

inductive reachable :: "('s \<Rightarrow> bool) \<Rightarrow> ('s \<Rightarrow> 's \<Rightarrow> bool) \<Rightarrow> 's \<Rightarrow> bool" for init step where
  start: "init s \<Longrightarrow> reachable init step s"
| step: "reachable init step s \<Longrightarrow> step s s' \<Longrightarrow> reachable init step s'"

lemma reachable_invariant:
  assumes "reachable init step s"
    and "\<And>s. init s \<Longrightarrow> I s"
    and "\<And>s s'. reachable init step s \<Longrightarrow> I s \<Longrightarrow> step s s' \<Longrightarrow> I s'"
  shows "I s"
  using assms(1) by induction (auto intro: assms(2,3))

section \<open>Big-endian byte strings\<close>

primrec be_bytes :: "nat \<Rightarrow> nat \<Rightarrow> byte list" where
  "be_bytes 0 n = []"
| "be_bytes (Suc k) n = of_nat (n div 256 ^ k) # be_bytes k n"

primrec be_val :: "byte list \<Rightarrow> nat" where
  "be_val [] = 0"
| "be_val (b # bs) = unat b * 256 ^ length bs + be_val bs"

lemma be_bytes_numeral [simp]:
  "be_bytes (numeral v) n = of_nat (n div 256 ^ pred_numeral v) # be_bytes (pred_numeral v) n"
  by (simp add: numeral_eq_Suc)

lemma length_be_bytes [simp]: "length (be_bytes k n) = k"
  by (induction k) simp_all

lemma unat_byte_of_nat: "unat (of_nat n :: byte) = n mod 256"
  by (simp add: unat_of_nat)

lemma unat_byte_less [simp]: "unat (b :: byte) < 256"
  using unsigned_less [of b] by simp

lemma be_val_be_bytes [simp]: "be_val (be_bytes k n) = n mod 256 ^ k"
proof (induction k)
  case 0
  then show ?case by simp
next
  case (Suc k)
  have "n mod 256 ^ Suc k = 256 ^ k * (n div 256 ^ k mod 256) + n mod 256 ^ k"
    using mod_mult2_eq [of n "256 ^ k" 256] by (simp add: mult.commute)
  with Suc show ?case
    by (simp add: unat_byte_of_nat mult.commute)
qed

lemma be_val_less: "be_val bs < 256 ^ length bs"
proof (induction bs)
  case Nil
  then show ?case by simp
next
  case (Cons b bs)
  have "unat b * 256 ^ length bs + be_val bs < (unat b + 1) * 256 ^ length bs"
    using Cons by (simp add: algebra_simps)
  also have "\<dots> \<le> 256 * 256 ^ length bs"
    using unat_byte_less [of b] by (intro mult_right_mono) linarith+
  finally show ?case by simp
qed

lemma nth_be_bytes: "j < k \<Longrightarrow> be_bytes k n ! j = of_nat (n div 256 ^ (k - 1 - j))"
  by (induction k arbitrary: j) (auto simp: nth_Cons split: nat.split)

lemma be_bytes_pad: "n < 256 ^ l \<Longrightarrow> l \<le> k \<Longrightarrow> be_bytes k n = replicate (k - l) 0 @ be_bytes l n"
proof (induction k)
  case 0
  then show ?case by simp
next
  case (Suc k)
  show ?case
  proof (cases "l = Suc k")
    case False
    then have "l \<le> k"
      using Suc.prems by simp
    moreover from this have "n < 256 ^ k"
      using Suc.prems(1) power_increasing [of l k "256 :: nat"] by linarith
    ultimately show ?thesis
      using Suc by (simp add: Suc_diff_le)
  qed simp
qed

lemma be_bytes_add_mult: "k \<le> m \<Longrightarrow> be_bytes k (n + q * 256 ^ m) = be_bytes k n"
proof (induction k)
  case 0
  then show ?case by simp
next
  case (Suc k)
  then obtain d where m: "m = k + Suc d"
    by (metis add_Suc_right add_Suc_shift le_Suc_ex)
  have "(n + q * 256 ^ m) div 256 ^ k = n div 256 ^ k + q * (256 * 256 ^ d)"
    using div_mult_self1 [of "256 ^ k" n "q * (256 * 256 ^ d)"]
    by (simp add: m power_add ac_simps)
  moreover have "(of_nat (q * (256 * 256 ^ d)) :: byte) = 0"
    by (subst word_unat_eq_iff) (simp add: unat_of_nat del: of_nat_mult of_nat_power)
  ultimately have "(of_nat ((n + q * 256 ^ m) div 256 ^ k) :: byte) = of_nat (n div 256 ^ k)"
    by (simp del: of_nat_mult of_nat_power)
  with Suc show ?case by simp
qed

lemma be_bytes_mod: "k \<le> m \<Longrightarrow> be_bytes k (n mod 256 ^ m) = be_bytes k n"
  using be_bytes_add_mult [of k m "n mod 256 ^ m" "n div 256 ^ m"] by (simp add: mult.commute)

lemma be_bytes_be_val [simp]: "be_bytes (length bs) (be_val bs) = bs"
proof (induction bs)
  case Nil
  then show ?case by simp
next
  case (Cons b bs)
  have "be_bytes (length bs) (be_val bs + unat b * 256 ^ length bs) = bs"
    using Cons be_bytes_add_mult [of "length bs" "length bs" "be_val bs" "unat b"] by simp
  moreover have "(unat b * 256 ^ length bs + be_val bs) div 256 ^ length bs = unat b"
    using be_val_less [of bs] by simp
  ultimately show ?case by (simp add: add.commute)
qed

end
