(* ===== verification/Varint.thy ===== *)
theory Varint
  imports Prelude
begin

text \<open>
  The variable-length integers of QUIC (\<open>quicvarint/varint.go\<close>): parsing from a slice,
  reading from a byte reader, appending in the shortest form or with a given length, and
  the length of the encoding. Values are 64-bit words; a value that does not fit into
  62 bits makes the writers panic.
\<close>

definition maxVarInt1 :: u64 where "maxVarInt1 = 63"
definition maxVarInt2 :: u64 where "maxVarInt2 = 16383"
definition maxVarInt4 :: u64 where "maxVarInt4 = 1073741823"
definition maxVarInt8 :: u64 where "maxVarInt8 = 4611686018427387903"

lemmas maxVarInt_defs = maxVarInt1_def maxVarInt2_def maxVarInt4_def maxVarInt8_def

text \<open>
  A \<open>bytes.Reader\<close> is the list of the bytes it still holds; \<open>ReadByte\<close> fails with
  \<open>io.EOF\<close> when there is none. A call returns its outcome and the reader it leaves behind.
\<close>

definition ReadByte :: "byte list \<Rightarrow> byte result \<times> byte list" where
  "ReadByte r = (case r of [] \<Rightarrow> (Inl EOF, []) | x # xs \<Rightarrow> (Inr x, xs))"

definition read_then :: "byte list \<Rightarrow> (byte \<Rightarrow> byte list \<Rightarrow> 'a result \<times> byte list) \<Rightarrow> 'a result \<times> byte list" where
  "read_then r k = (case ReadByte r of (Inl e, r') \<Rightarrow> (Inl e, r') | (Inr x, r') \<Rightarrow> k x r')"

definition varint_Read :: "byte list \<Rightarrow> u64 result \<times> byte list" where
  "varint_Read r = read_then r (\<lambda>firstByte r.
     let l = (2 :: nat) ^ unat (drop_bit 6 (firstByte AND 0xc0));
         b1 = firstByte AND (0xff - 0xc0) in
     if l = 1 then (Inr (ucast b1), r)
     else read_then r (\<lambda>b2 r.
       if l = 2 then (Inr (ucast b2 + push_bit 8 (ucast b1)), r)
       else read_then r (\<lambda>b3 r. read_then r (\<lambda>b4 r.
         if l = 4 then (Inr (ucast b4 + push_bit 8 (ucast b3) + push_bit 16 (ucast b2) +
             push_bit 24 (ucast b1)), r)
         else read_then r (\<lambda>b5 r. read_then r (\<lambda>b6 r. read_then r (\<lambda>b7 r. read_then r (\<lambda>b8 r.
           (Inr (ucast b8 + push_bit 8 (ucast b7) + push_bit 16 (ucast b6) +
             push_bit 24 (ucast b5) + push_bit 32 (ucast b4) + push_bit 40 (ucast b3) +
             push_bit 48 (ucast b2) + push_bit 56 (ucast b1)), r)))))))))"

definition varint_Parse :: "byte list \<Rightarrow> (u64 \<times> nat) result" where
  "varint_Parse b =
     (if length b = 0 then Inl EOF
      else let firstByte = b ! 0;
               l = (2 :: nat) ^ unat (drop_bit 6 (firstByte AND 0xc0)) in
      if length b < l then Inl ErrUnexpectedEOF
      else let b0 = firstByte AND (0xff - 0xc0) in
      if l = 1 then Inr (ucast b0, 1)
      else if l = 2 then Inr (ucast (b ! 1) + push_bit 8 (ucast b0), 2)
      else if l = 4 then
        Inr (ucast (b ! 3) + push_bit 8 (ucast (b ! 2)) + push_bit 16 (ucast (b ! 1)) +
             push_bit 24 (ucast b0), 4)
      else
        Inr (ucast (b ! 7) + push_bit 8 (ucast (b ! 6)) + push_bit 16 (ucast (b ! 5)) +
             push_bit 24 (ucast (b ! 4)) + push_bit 32 (ucast (b ! 3)) +
             push_bit 40 (ucast (b ! 2)) + push_bit 48 (ucast (b ! 1)) +
             push_bit 56 (ucast b0), 8))"

definition varint_Append :: "byte list \<Rightarrow> u64 \<Rightarrow> byte list result" where
  "varint_Append b i =
     (if i \<le> maxVarInt1 then Inr (b @ [ucast i])
      else if i \<le> maxVarInt2 then
        Inr (b @ [ucast (drop_bit 8 i) OR 0x40, ucast i])
      else if i \<le> maxVarInt4 then
        Inr (b @ [ucast (drop_bit 24 i) OR 0x80, ucast (drop_bit 16 i),
                  ucast (drop_bit 8 i), ucast i])
      else if i \<le> maxVarInt8 then
        Inr (b @ [ucast (drop_bit 56 i) OR 0xc0, ucast (drop_bit 48 i),
                  ucast (drop_bit 40 i), ucast (drop_bit 32 i), ucast (drop_bit 24 i),
                  ucast (drop_bit 16 i), ucast (drop_bit 8 i), ucast i])
      else Inl (Panic ''doesn't fit into 62 bits''))"

definition varint_Len :: "u64 \<Rightarrow> nat result" where
  "varint_Len i =
     (if i \<le> maxVarInt1 then Inr 1
      else if i \<le> maxVarInt2 then Inr 2
      else if i \<le> maxVarInt4 then Inr 4
      else if i \<le> maxVarInt8 then Inr 8
      else Inl (Panic ''value doesn't fit into 62 bits''))"

definition varint_AppendWithLen :: "byte list \<Rightarrow> u64 \<Rightarrow> nat \<Rightarrow> byte list result" where
  "varint_AppendWithLen b i len =
     (if len \<noteq> 1 \<and> len \<noteq> 2 \<and> len \<noteq> 4 \<and> len \<noteq> 8 then Inl (Panic ''invalid varint length'')
      else rbind (varint_Len i) (\<lambda>l.
        if l = len then varint_Append b i
        else if l > len then Inl (Panic ''cannot encode'')
        else
          let b1 = (if len = 2 then b @ [0x40]
                    else if len = 4 then b @ [0x80]
                    else if len = 8 then b @ [0xc0]
                    else b);
              b2 = b1 @ replicate (len - l - 1) 0;
              b3 = b2 @ map (\<lambda>j. ucast (drop_bit (8 * (l - 1 - j)) i)) [0..<l]
          in Inr b3))"

section \<open>What the writers produce\<close>

text \<open>
  The specification of the encoding: the length \<open>k\<close> of a value is 1, 2, 4 or 8, and the
  encoding is the big-endian byte string of the value with the two high bits holding
  \<open>log2 k\<close>. All statements about the code go through this form.
\<close>

definition varint_size :: "nat \<Rightarrow> nat" where
  "varint_size n = (if n < 2 ^ 6 then 1 else if n < 2 ^ 14 then 2 else if n < 2 ^ 30 then 4 else 8)"

definition varint_tag :: "nat \<Rightarrow> byte" where
  "varint_tag k = (if k = 1 then 0 else if k = 2 then 0x40 else if k = 4 then 0x80 else 0xc0)"

definition varint_enc :: "nat \<Rightarrow> nat \<Rightarrow> byte list" where
  "varint_enc k n = (hd (be_bytes k n) OR varint_tag k) # tl (be_bytes k n)"

definition varint_bytes :: "nat \<Rightarrow> byte list" where
  "varint_bytes n = varint_enc (varint_size n) n"

lemma byte_of_u64: "(ucast (i :: u64) :: byte) = of_nat (unat i)"
  by (simp add: word_unat_eq_iff unat_of_nat unsigned_ucast_eq take_bit_eq_mod)

lemma byte_of_shift: "(ucast (drop_bit k (i :: u64)) :: byte) = of_nat (unat i div 2 ^ k)"
  by (simp only: byte_of_u64 unat_drop_bit_eq) (simp only: drop_bit_eq_div)

lemma u64_of_byte: "(ucast (b :: byte) :: u64) = of_nat (unat b)"
  by simp

lemma varint_size_cases: "varint_size n \<in> {1, 2, 4, 8}"
  by (simp add: varint_size_def)

lemma varint_limits:
  "i \<le> maxVarInt1 \<longleftrightarrow> unat i < 2 ^ 6"
  "i \<le> maxVarInt2 \<longleftrightarrow> unat i < 2 ^ 14"
  "i \<le> maxVarInt4 \<longleftrightarrow> unat i < 2 ^ 30"
  "i \<le> maxVarInt8 \<longleftrightarrow> unat i < 2 ^ 62"
  unfolding maxVarInt_defs word_le_nat_alt by simp_all linarith+

lemma varint_enc_numeral:
  "varint_enc 1 n = [of_nat n]" "varint_enc (Suc 0) n = [of_nat n]"
  "varint_enc 2 n = [of_nat (n div 2 ^ 8) OR 0x40, of_nat n]"
  "varint_enc 4 n = [of_nat (n div 2 ^ 24) OR 0x80, of_nat (n div 2 ^ 16), of_nat (n div 2 ^ 8),
     of_nat n]"
  "varint_enc 8 n = [of_nat (n div 2 ^ 56) OR 0xc0, of_nat (n div 2 ^ 48), of_nat (n div 2 ^ 40),
     of_nat (n div 2 ^ 32), of_nat (n div 2 ^ 24), of_nat (n div 2 ^ 16), of_nat (n div 2 ^ 8),
     of_nat n]"
  by (simp_all add: varint_enc_def varint_tag_def)

lemma varint_Append_eq:
  "varint_Append b i =
     (if unat i < 2 ^ 62 then Inr (b @ varint_bytes (unat i))
      else Inl (Panic ''doesn't fit into 62 bits''))"
proof -
  consider "unat i < 2 ^ 6" | "\<not> unat i < 2 ^ 6" "unat i < 2 ^ 14"
    | "\<not> unat i < 2 ^ 14" "unat i < 2 ^ 30" | "\<not> unat i < 2 ^ 30" "unat i < 2 ^ 62"
    | "\<not> unat i < 2 ^ 62"
    by blast
  then show ?thesis
    by cases (simp_all add: varint_Append_def varint_limits varint_bytes_def varint_size_def
      varint_enc_numeral byte_of_shift)
qed

lemma varint_Len_eq:
  "varint_Len i =
     (if unat i < 2 ^ 62 then Inr (varint_size (unat i))
      else Inl (Panic ''value doesn't fit into 62 bits''))"
  by (simp add: varint_Len_def varint_limits varint_size_def)

section \<open>The length bits of the first byte\<close>

lemma unat_low6: "unat ((b :: byte) AND 63) = unat b mod 64"
proof -
  have "b AND 63 = take_bit 6 b"
    by (simp add: take_bit_eq_mask mask_eq_exp_minus_1)
  then have "unat (b AND 63) = take_bit 6 (unat b)"
    by (simp only: unsigned_take_bit_eq)
  then show ?thesis
    by (simp add: take_bit_eq_mod)
qed

lemma unat_high2: "unat (drop_bit 6 ((b :: byte) AND 0xc0)) = unat b div 64"
proof -
  have "bit (3 :: byte) n" if "bit b (6 + n)" for n
    using bit_imp_le_length [OF that] by (cases n) (auto simp: less_Suc_eq)
  then have "drop_bit 6 (b AND 0xc0) = drop_bit 6 b"
    by (intro bit_word_eqI) (auto simp: bit_simps)
  then have "unat (drop_bit 6 (b AND 0xc0)) = drop_bit 6 (unat b)"
    by (simp only: unat_drop_bit_eq)
  then show ?thesis
    by (simp add: drop_bit_eq_div)
qed

lemma or_tag: "unat (x :: byte) < 64 \<Longrightarrow> x OR push_bit 6 c = x + push_bit 6 c"
proof -
  assume "unat x < 64"
  then have "take_bit 6 x = x"
    by (simp only: word_unat_eq_iff unsigned_take_bit_eq) (simp add: take_bit_nat_eq_self)
  then have "bit x n \<Longrightarrow> n < 6" for n
    by (metis bit_take_bit_iff)
  then have "x AND push_bit 6 c = 0"
    by (intro bit_word_eqI) (fastforce simp: bit_simps not_less)
  then show ?thesis
    using word_plus_and_or [of x "push_bit 6 c"] by simp
qed

lemma unat_or_tag:
  assumes "unat (x :: byte) < 64"
  shows "unat (x OR 0x40) = unat x + 64" "unat (x OR 0x80) = unat x + 128"
    "unat (x OR 0xc0) = unat x + 192"
  using or_tag [OF assms, of 1] or_tag [OF assms, of 2] or_tag [OF assms, of 3] assms
  by (simp_all add: push_bit_eq_mult unat_word_ariths)

section \<open>What the parsers accept\<close>

definition varint_first_len :: "byte \<Rightarrow> nat" where
  "varint_first_len b = 2 ^ (unat b div 64)"

lemma varint_first_len_cases: "varint_first_len b \<in> {1, 2, 4, 8}"
proof -
  have "unat b div 64 < 4"
    using unat_byte_less [of b] by linarith
  then consider "unat b div 64 = 0" | "unat b div 64 = 1" | "unat b div 64 = 2" | "unat b div 64 = 3"
    by linarith
  then show ?thesis
    by cases (simp_all add: varint_first_len_def)
qed

lemma first_len_eq: "2 ^ unat (drop_bit 6 ((b :: byte) AND 0xc0)) = varint_first_len b"
  by (simp only: varint_first_len_def unat_high2)

definition varint_dec :: "byte \<Rightarrow> byte list \<Rightarrow> nat" where
  "varint_dec b bs = be_val ((b AND 63) # take (varint_first_len b - 1) bs)"

lemma varint_Parse_Cons:
  "varint_Parse (b # bs) =
     (if Suc (length bs) < varint_first_len b then Inl ErrUnexpectedEOF
      else Inr (of_nat (varint_dec b bs), varint_first_len b))"
proof -
  have two: "take 1 bs = [bs ! 0]" if "\<not> Suc (length bs) < 2"
    using that by (cases bs) auto
  have four: "take 3 bs = [bs ! 0, bs ! 1, bs ! 2]" if "\<not> Suc (length bs) < 4"
    using that by (auto simp: numeral_eq_Suc Suc_le_length_iff not_less)
  have eight: "take 7 bs = [bs ! 0, bs ! 1, bs ! 2, bs ! 3, bs ! 4, bs ! 5, bs ! 6]"
    if "\<not> Suc (length bs) < 8"
    using that by (auto simp: numeral_eq_Suc Suc_le_length_iff not_less)
  have mask: "(0xff - 0xc0 :: byte) = 63"
    by simp
  have eq: "varint_Parse (b # bs) =
     (if Suc (length bs) < varint_first_len b then Inl ErrUnexpectedEOF
      else if varint_first_len b = 1 then Inr (ucast (b AND 63), 1)
      else if varint_first_len b = 2 then Inr (of_nat (be_val [b AND 63, bs ! 0]), 2)
      else if varint_first_len b = 4 then Inr (of_nat (be_val [b AND 63, bs ! 0, bs ! 1, bs ! 2]), 4)
      else Inr (of_nat (be_val [b AND 63, bs ! 0, bs ! 1, bs ! 2, bs ! 3, bs ! 4, bs ! 5, bs ! 6]), 8))"
    unfolding varint_Parse_def Let_def nth_Cons_0 first_len_eq mask
    by (simp add: push_bit_eq_mult)
  consider "varint_first_len b = 1" | "varint_first_len b = 2" | "varint_first_len b = 4"
    | "varint_first_len b = 8"
    using varint_first_len_cases [of b] by blast
  then show ?thesis
    by cases (use two four eight in \<open>simp_all add: eq varint_dec_def\<close>)
qed

lemma varint_dec_less: "varint_dec b bs < 2 ^ 62"
proof -
  let ?k = "varint_first_len b - 1"
  have 1: "unat (b AND 63) < 64"
    by (simp add: unat_low6)
  have 2: "be_val (take ?k bs) < 256 ^ length (take ?k bs)"
    by (rule be_val_less)
  have "varint_dec b bs < 64 * 256 ^ length (take ?k bs)"
  proof -
    have "(unat (b AND 63) + 1) * 256 ^ length (take ?k bs) \<le> 64 * 256 ^ length (take ?k bs)"
      using 1 by (intro mult_right_mono) linarith+
    with 2 show ?thesis unfolding varint_dec_def be_val.simps add_mult_distrib by linarith
  qed
  also have "\<dots> \<le> 64 * 256 ^ 7"
    using varint_first_len_cases [of b] by (intro mult_left_mono power_increasing) auto
  finally show ?thesis by simp
qed

lemma varint_Parse_Nil [simp]: "varint_Parse [] = Inl EOF"
  by (simp add: varint_Parse_def)

lemma varint_Parse_bounds:
  assumes "varint_Parse b = Inr (v, l)"
  shows "unat v < 2 ^ 62" and "l \<le> length b" and "l \<in> {1, 2, 4, 8}"
proof -
  obtain x xs where b: "b = x # xs"
    using assms by (cases b) auto
  have v: "v = of_nat (varint_dec x xs)" and l: "l = varint_first_len x"
    and "\<not> Suc (length xs) < varint_first_len x"
    using assms unfolding b varint_Parse_Cons by (auto split: if_splits)
  then show "l \<le> length b" "l \<in> {1, 2, 4, 8}"
    using varint_first_len_cases [of x] by (auto simp: b)
  show "unat v < 2 ^ 62"
    using varint_dec_less [of x xs] by (simp add: v unat_of_nat)
qed

lemma varint_Parse_never_panics: "varint_Parse b \<noteq> Inl (Panic m)"
  by (cases b) (simp_all add: varint_Parse_Cons)

section \<open>Round trips\<close>

lemma tagged_byte:
  assumes "unat x < 64" and "k \<in> {1, 2, 4, 8}"
  shows "varint_first_len (x OR varint_tag k) = k" and "(x OR varint_tag k) AND 63 = x"
proof -
  have tag: "unat (x OR varint_tag k) = unat x + 64 * (if k = 1 then 0 else if k = 2 then 1 else if k = 4 then 2 else 3)"
    using assms(2) by (auto simp: varint_tag_def unat_or_tag [OF assms(1)])
  show "varint_first_len (x OR varint_tag k) = k"
    unfolding varint_first_len_def tag using assms by auto
  have "unat ((x OR varint_tag k) AND 63) = unat x"
    unfolding unat_low6 tag using assms by simp
  then show "(x OR varint_tag k) AND 63 = x"
    by (simp only: word_unat_eq_iff)
qed

lemma varint_Parse_enc:
  assumes "k \<in> {1, 2, 4, 8}" and "n < 2 ^ (8 * k - 2)"
  shows "varint_Parse (varint_enc k n @ rest) = Inr (of_nat n, k)"
proof -
  obtain j where k: "k = Suc j"
    using assms(1) by auto
  let ?x = "of_nat (n div 256 ^ j) :: byte"
  have pow: "(2 :: nat) ^ (8 * k - 2) = 64 * 256 ^ j"
    using assms(1) k by auto
  then have "n div 256 ^ j < 64"
    using assms(2) by (simp add: less_mult_imp_div_less mult.commute)
  then have x: "unat ?x < 64"
    by (simp add: unat_byte_of_nat)
  have n: "n < 256 ^ k"
    using assms(2) pow k by simp
  have enc: "varint_enc k n = (?x OR varint_tag k) # be_bytes j n"
    by (simp add: varint_enc_def k)
  have "varint_dec (?x OR varint_tag k) (be_bytes j n @ rest) = be_val (be_bytes k n)"
    unfolding varint_dec_def tagged_byte [OF x assms(1)] by (simp add: k)
  then have dec: "varint_dec (?x OR varint_tag k) (be_bytes j n @ rest) = n"
    using n by simp
  show ?thesis
    unfolding enc append_Cons varint_Parse_Cons dec tagged_byte [OF x assms(1)] by (simp add: k)
qed

lemma varint_size_fits: "n < 2 ^ 62 \<Longrightarrow> n < 2 ^ (8 * varint_size n - 2)"
  by (simp add: varint_size_def)

lemma varint_Parse_bytes [simp]:
  "n < 2 ^ 62 \<Longrightarrow> varint_Parse (varint_bytes n @ rest) = Inr (of_nat n, varint_size n)"
  unfolding varint_bytes_def by (rule varint_Parse_enc [OF varint_size_cases varint_size_fits])

lemma length_varint_enc: "0 < k \<Longrightarrow> length (varint_enc k n) = k"
  by (simp add: varint_enc_def)

lemma length_varint_bytes [simp]: "length (varint_bytes n) = varint_size n"
  using varint_size_cases [of n] by (auto simp: varint_bytes_def length_varint_enc)

lemma varint_enc_pad:
  assumes "0 < l" and "l < len" and "n < 256 ^ l"
  shows "varint_enc len n = varint_tag len # replicate (len - l - 1) 0 @ be_bytes l n"
proof -
  have "be_bytes len n = 0 # replicate (len - l - 1) 0 @ be_bytes l n"
    using assms be_bytes_pad [of n l len] by (cases "len - l") auto
  then show ?thesis
    by (simp add: varint_enc_def)
qed

lemma be_bytes_shifts: "map (\<lambda>j. ucast (drop_bit (8 * (l - 1 - j)) i)) [0..<l] = be_bytes l (unat (i :: u64))"
proof (rule nth_equalityI)
  fix j
  assume "j < length (map (\<lambda>j. ucast (drop_bit (8 * (l - 1 - j)) i) :: byte) [0..<l])"
  then have "j < l"
    by simp
  then show "map (\<lambda>j. ucast (drop_bit (8 * (l - 1 - j)) i)) [0..<l] ! j = be_bytes l (unat i) ! j"
    by (simp add: nth_be_bytes byte_of_shift power_mult)
qed simp

lemma varint_AppendWithLen_eq:
  assumes "len \<in> {1, 2, 4, 8}" and "unat i < 2 ^ (8 * len - 2)"
  shows "varint_AppendWithLen b i len = Inr (b @ varint_enc len (unat i))"
proof -
  let ?l = "varint_size (unat i)"
  have "unat i < 2 ^ 62"
    using assms by auto
  then have len: "varint_Len i = Inr ?l"
    and app: "varint_Append b i = Inr (b @ varint_enc ?l (unat i))"
    by (simp_all add: varint_Len_eq varint_Append_eq varint_bytes_def)
  have "unat i < 2 ^ (8 * ?l - 2)"
    by (rule varint_size_fits) fact
  also have "\<dots> \<le> 2 ^ (8 * ?l)"
    by (rule power_increasing) simp_all
  finally have small: "unat i < 256 ^ ?l"
    by (simp add: power_mult)
  have "?l \<le> len"
    using assms by (auto simp: varint_size_def)
  show ?thesis
  proof (cases "?l = len")
    case True
    with assms(1) show ?thesis
      by (auto simp: varint_AppendWithLen_def len app)
  next
    case False
    with \<open>?l \<le> len\<close> have "?l < len"
      by simp
    moreover have "0 < ?l"
      using varint_size_cases [of "unat i"] by auto
    ultimately have enc: "varint_enc len (unat i) = varint_tag len # replicate (len - ?l - 1) 0 @ be_bytes ?l (unat i)"
      using small by (intro varint_enc_pad)
    have tag: "(if len = 2 then b @ [0x40] else if len = 4 then b @ [0x80] else if len = 8 then b @ [0xc0] else b) =
        b @ [varint_tag len]"
      using assms(1) \<open>?l < len\<close> \<open>0 < ?l\<close> by (auto simp: varint_tag_def)
    show ?thesis
      unfolding varint_AppendWithLen_def len rbind_simps Let_def tag be_bytes_shifts enc
      using assms(1) \<open>?l < len\<close> by auto
  qed
qed

lemma read_then_simps [simp]:
  "read_then [] k = (Inl EOF, [])"
  "read_then (x # xs) k = k x xs"
  by (simp_all add: read_then_def ReadByte_def)

lemma varint_Read_Cons:
  "varint_Read (x # xs) =
     (if varint_first_len x = 1 then (Inr (ucast (x AND 63)), xs)
      else read_then xs (\<lambda>b2 r.
        if varint_first_len x = 2 then (Inr (of_nat (be_val [x AND 63, b2])), r)
        else read_then r (\<lambda>b3 r. read_then r (\<lambda>b4 r.
          if varint_first_len x = 4 then (Inr (of_nat (be_val [x AND 63, b2, b3, b4])), r)
          else read_then r (\<lambda>b5 r. read_then r (\<lambda>b6 r. read_then r (\<lambda>b7 r. read_then r (\<lambda>b8 r.
            (Inr (of_nat (be_val [x AND 63, b2, b3, b4, b5, b6, b7, b8])), r)))))))))"
proof -
  have mask: "(0xff - 0xc0 :: byte) = 63"
    by simp
  show ?thesis
    unfolding varint_Read_def read_then_simps Let_def first_len_eq mask
    by (simp add: push_bit_eq_mult ac_simps cong: if_cong)
qed

lemma varint_Read_Parse:
  "varint_Read r = (case varint_Parse r of Inl e \<Rightarrow> (Inl EOF, []) | Inr (v, l) \<Rightarrow> (Inr v, drop l r))"
proof (cases r)
  case Nil
  then show ?thesis
    by (simp add: varint_Read_def)
next
  case (Cons x xs)
  have split: "read_then ys k = (case ys of [] \<Rightarrow> (Inl EOF, []) | y # ys \<Rightarrow> k y ys)" for ys and k :: "byte \<Rightarrow> _ \<Rightarrow> u64 result \<times> _"
    by (cases ys) simp_all
  consider "varint_first_len x = 1" | "varint_first_len x = 2" | "varint_first_len x = 4" | "varint_first_len x = 8"
    using varint_first_len_cases [of x] by blast
  then show ?thesis
    unfolding Cons varint_Read_Cons varint_Parse_Cons varint_dec_def
    by cases (simp_all add: split split: list.split)
qed

section \<open>Properties\<close>

text \<open>
  (C31) Whatever \<open>Append\<close> writes for a value below \<open>2 ^ 62\<close>, both \<open>Parse\<close> and \<open>Read\<close> return
  that value, whatever follows it: \<open>Parse\<close> reports exactly the bytes written, which are as many
  as \<open>Len\<close> announces, and \<open>Read\<close> leaves the reader at the first byte after them.
\<close>

theorem varint_roundtrip:
  assumes "unat i < 2 ^ 62"
  shows "\<exists>e. varint_Append b i = Inr (b @ e) \<and> varint_Len i = Inr (length e) \<and>
    varint_Parse (e @ rest) = Inr (i, length e) \<and> varint_Read (e @ rest) = (Inr i, rest)"
  using assms by (intro exI [of _ "varint_bytes (unat i)"])
    (simp add: varint_Append_eq varint_Len_eq varint_Read_Parse)

theorem varint_roundtrip_witness:
  "unat (15293 :: u64) < 2 ^ 62 \<and>
   (\<exists>e. varint_Append [7] 15293 = Inr (7 # e) \<and> varint_Len 15293 = Inr (length e) \<and>
    varint_Parse (e @ [1]) = Inr (15293, length e) \<and> varint_Read (e @ [1]) = (Inr 15293, [1]))"
  using varint_roundtrip [of 15293 "[7]" "[1]"] by simp

text \<open>
  \<open>AppendWithLen\<close> pads a value to any of the four lengths it fits into: it writes exactly
  \<open>len\<close> bytes and \<open>Parse\<close> gives the value back, although the encoding need not be minimal.
\<close>

theorem varint_AppendWithLen_roundtrip:
  assumes "len \<in> {1, 2, 4, 8}" and "unat i < 2 ^ (8 * len - 2)"
  shows "\<exists>e. varint_AppendWithLen b i len = Inr (b @ e) \<and> length e = len \<and>
    varint_Parse (e @ rest) = Inr (i, len)"
proof -
  have "0 < len"
    using assms(1) by auto
  then show ?thesis
    using assms by (intro exI [of _ "varint_enc len (unat i)"])
      (simp add: varint_AppendWithLen_eq varint_Parse_enc length_varint_enc)
qed

theorem varint_AppendWithLen_roundtrip_witness:
  "\<exists>e. varint_AppendWithLen [] 37 4 = Inr ([] @ e) \<and> length e = 4 \<and>
    varint_Parse (e @ [9, 9]) = Inr (37, 4)"
  by (rule varint_AppendWithLen_roundtrip) simp_all

text \<open>
  The two decoders agree on every input, and neither panics nor reads out of range:
  \<open>Read\<close> returns what \<open>Parse\<close> returns and consumes the bytes \<open>Parse\<close> reports, it fails with
  \<open>io.EOF\<close> exactly where \<open>Parse\<close> fails, and a parsed value is below \<open>2 ^ 62\<close> and was
  taken from 1, 2, 4 or 8 bytes that the input has.
\<close>

theorem varint_decoders_agree:
  "(case varint_Parse r of
      Inl e \<Rightarrow> varint_Read r = (Inl EOF, []) \<and> e = (if r = [] then EOF else ErrUnexpectedEOF)
    | Inr (v, l) \<Rightarrow> varint_Read r = (Inr v, drop l r) \<and> unat v < 2 ^ 62 \<and> l \<le> length r \<and> l \<in> {1, 2, 4, 8})"
proof (cases "varint_Parse r")
  case (Inl e)
  then show ?thesis
    by (cases r) (auto simp: varint_Read_Parse varint_Parse_Cons split: if_splits)
next
  case (Inr vl)
  obtain v l where "vl = (v, l)"
    by (cases vl)
  then show ?thesis
    using Inr varint_Parse_bounds [of r v l] by (simp add: varint_Read_Parse)
qed

end
