(* ===== verification/Protocol.thy ===== *)
theory Protocol
  imports Prelude
begin

text \<open>
  The vocabulary of the protocol (\<open>internal/protocol\<close>): perspectives, stream identifiers and
  their numbering, truncated packet numbers, connection IDs, versions, ECN marks, key phases
  and the constants the other components use. A connection ID is the list of its bytes, which
  is what the code's fixed array and length stand for.
\<close>

section \<open>Perspectives and streams\<close>

datatype Perspective = PerspectiveServer | PerspectiveClient

definition Opposite :: "Perspective \<Rightarrow> Perspective" where
  "Opposite p = (case p of PerspectiveServer \<Rightarrow> PerspectiveClient | PerspectiveClient \<Rightarrow> PerspectiveServer)"

datatype StreamType = StreamTypeUni | StreamTypeBidi

type_synonym StreamID = int
type_synonym StreamNum = int
type_synonym ByteCount = int
type_synonym PacketNumber = int
type_synonym Duration = int
type_synonym Time = int

definition InvalidStreamID :: StreamID where "InvalidStreamID = -1"
definition InvalidStreamNum :: StreamNum where "InvalidStreamNum = -1"
definition MaxStreamCount :: StreamNum where "MaxStreamCount = 2 ^ 60"

definition StreamNum_StreamID :: "StreamNum \<Rightarrow> StreamType \<Rightarrow> Perspective \<Rightarrow> StreamID" where
  "StreamNum_StreamID s stype pers =
     (if s = 0 then InvalidStreamID
      else let first = (case stype of
             StreamTypeBidi \<Rightarrow> (case pers of PerspectiveClient \<Rightarrow> 0 | PerspectiveServer \<Rightarrow> 1)
           | StreamTypeUni \<Rightarrow> (case pers of PerspectiveClient \<Rightarrow> 2 | PerspectiveServer \<Rightarrow> 3))
      in first + 4 * (s - 1))"

definition InitiatedBy :: "StreamID \<Rightarrow> Perspective" where
  "InitiatedBy s = (if go_rem s 2 = 0 then PerspectiveClient else PerspectiveServer)"

definition StreamID_Type :: "StreamID \<Rightarrow> StreamType" where
  "StreamID_Type s = (if go_rem s 4 \<ge> 2 then StreamTypeUni else StreamTypeBidi)"

definition StreamID_StreamNum :: "StreamID \<Rightarrow> StreamNum" where
  "StreamID_StreamNum s = go_div s 4 + 1"

section \<open>Packet numbers\<close>

definition InvalidPacketNumber :: PacketNumber where "InvalidPacketNumber = -1"

definition DecodePacketNumber :: "nat \<Rightarrow> PacketNumber \<Rightarrow> PacketNumber \<Rightarrow> PacketNumber" where
  "DecodePacketNumber len largest truncated =
     (let expected = largest + 1;
          win = 2 ^ (len * 8);
          hwin = go_div win 2;
          mask = win - 1;
          candidate = (expected AND NOT mask) OR truncated in
      if candidate \<le> expected - hwin \<and> candidate < 2 ^ 62 - win then candidate + win
      else if candidate > expected + hwin \<and> candidate \<ge> win then candidate - win
      else candidate)"

definition PacketNumberLengthForHeader :: "PacketNumber \<Rightarrow> PacketNumber \<Rightarrow> nat" where
  "PacketNumberLengthForHeader pn largestAcked =
     (let numUnacked = (if largestAcked = InvalidPacketNumber then pn + 1 else pn - largestAcked) in
      if numUnacked < 2 ^ 15 then 2
      else if numUnacked < 2 ^ 23 then 3
      else 4)"

section \<open>Byte counts and connection IDs\<close>

definition MaxByteCount :: ByteCount where "MaxByteCount = 2 ^ 62 - 1"
definition InvalidByteCount :: ByteCount where "InvalidByteCount = -1"

type_synonym ConnectionID = "byte list"
type_synonym StatelessResetToken = "byte list"

definition maxConnectionIDLen :: nat where "maxConnectionIDLen = 20"
definition MinConnectionIDLenInitial :: nat where "MinConnectionIDLenInitial = 8"
definition ErrInvalidConnectionIDLen :: go_error where
  "ErrInvalidConnectionIDLen = ErrorNew ''invalid Connection ID length''"

definition ParseConnectionID :: "byte list \<Rightarrow> ConnectionID result" where
  "ParseConnectionID b =
     (if length b > maxConnectionIDLen then Inl (Panic ''invalid conn id length'') else Inr b)"

text \<open>\<open>io.ReadFull\<close> on a reader with the bytes \<open>r\<close>; a short read is reported as \<open>io.EOF\<close>.\<close>

definition ReadConnectionID :: "byte list \<Rightarrow> nat \<Rightarrow> ConnectionID result \<times> byte list" where
  "ReadConnectionID r l =
     (if l = 0 then (Inr [], r)
      else if l > maxConnectionIDLen then (Inl ErrInvalidConnectionIDLen, r)
      else if length r < l then (Inl EOF, [])
      else (Inr (take l r), drop l r))"

text \<open>
  The generators take the random bytes as an argument: \<open>rand.Read\<close> fills a slice of the given
  length, so only the first \<open>l\<close> bytes are used.
\<close>

definition GenerateConnectionID :: "byte list \<Rightarrow> nat \<Rightarrow> ConnectionID" where
  "GenerateConnectionID rnd l = take l rnd"

definition GenerateConnectionIDForInitial :: "byte \<Rightarrow> byte list \<Rightarrow> ConnectionID" where
  "GenerateConnectionIDForInitial r rnd =
     GenerateConnectionID rnd (MinConnectionIDLenInitial +
       unat r mod (maxConnectionIDLen - MinConnectionIDLenInitial + 1))"

section \<open>Versions\<close>

type_synonym Version = u32

definition Version1 :: Version where "Version1 = 0x1"
definition Version2 :: Version where "Version2 = 0x6b3343cf"
definition gquicVersion0 :: Version where "gquicVersion0 = 0x51303030"
definition maxGquicVersion :: Version where "maxGquicVersion = 0x51303439"
definition SupportedVersions :: "Version list" where "SupportedVersions = [Version1, Version2]"

fun IsSupportedVersion :: "Version list \<Rightarrow> Version \<Rightarrow> bool" where
  "IsSupportedVersion [] v = False"
| "IsSupportedVersion (t # supported) v = (if t = v then True else IsSupportedVersion supported v)"

definition IsValidVersion :: "Version \<Rightarrow> bool" where
  "IsValidVersion v \<longleftrightarrow> v = Version1 \<or> IsSupportedVersion SupportedVersions v"

definition isGQUIC :: "Version \<Rightarrow> bool" where
  "isGQUIC vn \<longleftrightarrow> vn > gquicVersion0 \<and> vn \<le> maxGquicVersion"

fun ChooseSupportedVersion :: "Version list \<Rightarrow> Version list \<Rightarrow> Version \<times> bool" where
  "ChooseSupportedVersion [] theirs = (0, False)"
| "ChooseSupportedVersion (ourVer # ours) theirs =
     (if ourVer \<in> set theirs then (ourVer, True) else ChooseSupportedVersion ours theirs)"

definition generateReservedVersion :: "u32 \<Rightarrow> Version" where
  "generateReservedVersion rnd = (rnd OR 0x0a0a0a0a) AND 0xfafafafa"

definition GetGreasedVersions :: "nat \<Rightarrow> u32 \<Rightarrow> Version list \<Rightarrow> Version list" where
  "GetGreasedVersions randPos rnd supported =
     take randPos supported @ [generateReservedVersion rnd] @ drop randPos supported"

section \<open>Encryption levels, packet types, ECN and key phases\<close>

datatype EncryptionLevel = EncryptionInitial | EncryptionHandshake | Encryption0RTT | Encryption1RTT

datatype PacketType = PacketTypeInitial | PacketTypeRetry | PacketTypeHandshake | PacketType0RTT

datatype ECN = ECNUnsupported | ECNNon | ECT1 | ECT0 | ECNCE

definition ParseECNHeaderBits :: "byte \<Rightarrow> ECN result" where
  "ParseECNHeaderBits bits =
     (if bits = 0 then Inr ECNNon
      else if bits = 2 then Inr ECT0
      else if bits = 1 then Inr ECT1
      else if bits = 3 then Inr ECNCE
      else Inl (Panic ''invalid ECN bits''))"

fun ToHeaderBits :: "ECN \<Rightarrow> byte result" where
  "ToHeaderBits ECNNon = Inr 0"
| "ToHeaderBits ECT0 = Inr 2"
| "ToHeaderBits ECT1 = Inr 1"
| "ToHeaderBits ECNCE = Inr 3"
| "ToHeaderBits ECNUnsupported = Inl (Panic ''ECN unsupported'')"

datatype KeyPhaseBit = KeyPhaseUndefined | KeyPhaseZero | KeyPhaseOne

definition KeyPhase_Bit :: "u64 \<Rightarrow> KeyPhaseBit" where
  "KeyPhase_Bit p = (if p mod 2 = 0 then KeyPhaseZero else KeyPhaseOne)"

section \<open>Constants\<close>

definition MaxPacketBufferSize :: nat where "MaxPacketBufferSize = 1452"
definition MinStreamFrameBufferSize :: nat where "MinStreamFrameBufferSize = 128"
definition MaxAckFrameSize :: int where "MaxAckFrameSize = 1000"
definition MaxNumAckRanges :: nat where "MaxNumAckRanges = 32"
definition AckDelayExponent :: nat where "AckDelayExponent = 3"
definition DefaultAckDelayExponent :: nat where "DefaultAckDelayExponent = 3"
definition MaxConnIDLen :: nat where "MaxConnIDLen = 20"
definition MaxActiveConnectionIDs :: nat where "MaxActiveConnectionIDs = 4"
definition MaxIssuedConnectionIDs :: u64 where "MaxIssuedConnectionIDs = 6"
definition PacketsPerConnectionID :: u64 where "PacketsPerConnectionID = 10000"
definition MaxStreamFrameSorterGaps :: nat where "MaxStreamFrameSorterGaps = 1000"
definition Millisecond :: Duration where "Millisecond = 1000000"
definition Microsecond :: Duration where "Microsecond = 1000"
definition MaxAckDelay :: Duration where "MaxAckDelay = 25 * Millisecond"
definition TimerGranularity :: Duration where "TimerGranularity = Millisecond"
definition MinPacingDelay :: Duration where "MinPacingDelay = Millisecond"
definition InitialPacketSize :: ByteCount where "InitialPacketSize = 1280"
definition MaxCongestionWindowPackets :: int where "MaxCongestionWindowPackets = 10000"
definition SkipPacketInitialPeriod :: PacketNumber where "SkipPacketInitialPeriod = 256"
definition SkipPacketMaxPeriod :: PacketNumber where "SkipPacketMaxPeriod = 128 * 1024"

section \<open>Stream numbering\<close>

lemma StreamID_of_num:
  assumes "1 \<le> n"
  shows "InitiatedBy (StreamNum_StreamID n t p) = p" and "StreamID_Type (StreamNum_StreamID n t p) = t"
    and "StreamID_StreamNum (StreamNum_StreamID n t p) = n"
    and "0 \<le> StreamNum_StreamID n t p"
proof -
  define m where "m = n - 1"
  have n: "n = m + 1" and m: "0 \<le> m"
    using assms by (simp_all add: m_def)
  show "InitiatedBy (StreamNum_StreamID n t p) = p"
    using m unfolding n by (cases t; cases p) (simp_all add: InitiatedBy_def StreamNum_StreamID_def, presburger+)
  show "StreamID_Type (StreamNum_StreamID n t p) = t"
    using m unfolding n by (cases t; cases p) (simp_all add: StreamID_Type_def StreamNum_StreamID_def)
  show "StreamID_StreamNum (StreamNum_StreamID n t p) = n"
    using m unfolding n by (cases t; cases p) (simp_all add: StreamID_StreamNum_def StreamNum_StreamID_def)
  show "0 \<le> StreamNum_StreamID n t p"
    using m unfolding n by (cases t; cases p) (simp_all add: StreamNum_StreamID_def)
qed

lemma StreamID_of_parts:
  assumes "0 \<le> s"
  shows "StreamNum_StreamID (StreamID_StreamNum s) (StreamID_Type s) (InitiatedBy s) = s"
  using assms unfolding StreamNum_StreamID_def StreamID_StreamNum_def StreamID_Type_def InitiatedBy_def
  by (auto simp: Let_def) presburger+

section \<open>Truncated packet numbers\<close>

lemma and_not_mask: "(e :: int) AND NOT (2 ^ k - 1) = e - e mod 2 ^ k"
proof -
  have "e AND NOT (mask k) = push_bit k (drop_bit k e)"
    by (rule bit_eqI) (auto simp: bit_simps)
  then show ?thesis
    by (simp add: mask_eq_exp_minus_1 push_bit_eq_mult drop_bit_eq_div minus_mod_eq_div_mult)
qed

lemma or_low: "0 \<le> (t :: int) \<Longrightarrow> t < 2 ^ k \<Longrightarrow> (e - e mod 2 ^ k) OR t = (e - e mod 2 ^ k) + t"
proof -
  assume "0 \<le> t" "t < 2 ^ k"
  then have "take_bit k t = t"
    by (simp add: take_bit_int_eq_self)
  then have t: "bit t n \<Longrightarrow> n < k" for n
    by (metis bit_take_bit_iff)
  have "(e - e mod 2 ^ k) AND t = 0"
    unfolding and_not_mask [symmetric]
    using t by (intro bit_eqI) (auto simp: bit_simps simp flip: mask_eq_exp_minus_1)
  then show ?thesis
    by (simp add: disjunctive_add_eq_or)
qed


lemma DecodePacketNumber_window:
  assumes len: "1 \<le> len" "len \<le> 4" and pn: "0 \<le> pn" "pn < 2 ^ 62" and l: "-1 \<le> largest"
    and lo: "largest + 1 - 2 ^ (len * 8 - 1) < pn" and hi: "pn \<le> largest + 1 + 2 ^ (len * 8 - 1)"
  shows "DecodePacketNumber len largest (pn mod 2 ^ (len * 8)) = pn"
proof -
  define w :: int where "w = 2 ^ (len * 8)"
  define h :: int where "h = 2 ^ (len * 8 - 1)"
  define e where "e = largest + 1"
  have w: "w = 2 * h" "0 < h"
    using len(1) by (simp_all add: w_def h_def flip: power_Suc)
  define c where "c = e - e mod w + pn mod w"
  have "(e AND NOT (w - 1)) OR (pn mod w) = c"
    unfolding c_def w_def and_not_mask by (rule or_low) simp_all
  then have eq: "DecodePacketNumber len largest (pn mod 2 ^ (len * 8)) =
      (if c \<le> e - h \<and> c < 2 ^ 62 - w then c + w else if c > e + h \<and> c \<ge> w then c - w else c)"
    using w by (simp add: DecodePacketNumber_def Let_def e_def flip: w_def)
  define k where "k = pn div w - e div w"
  have c: "pn = c + w * k"
    unfolding c_def k_def by (simp add: algebra_simps)
  have lo': "e - h < pn" and hi': "pn \<le> e + h" and e: "0 \<le> e"
    using lo hi l by (simp_all add: e_def h_def)
  have "0 \<le> e mod w" "e mod w < w" "0 \<le> pn mod w" "pn mod w < w" "e mod w \<le> e"
    using w e by (simp_all add: zmod_le_nonneg_dividend)
  then have cb: "e - w < c" "c < e + w" "0 \<le> c"
    unfolding c_def by linarith+
  have "w * k < w * 2" "w * (-2) < w * k"
    using c cb lo' hi' w by linarith+
  then have "k < 2" "-2 < k"
    using w by (simp_all only: mult_less_cancel_left)
  then consider "k = 0" | "k = 1" | "k = -1"
    by linarith
  then show ?thesis
    unfolding eq using c cb lo' hi' w pn by cases (auto)
qed

section \<open>Version selection\<close>

lemma ChooseSupportedVersion_None: "ChooseSupportedVersion ours theirs = (v, False) \<longleftrightarrow> v = 0 \<and> set ours \<inter> set theirs = {}"
  by (induction ours theirs rule: ChooseSupportedVersion.induct) auto

lemma ChooseSupportedVersion_Some: "ChooseSupportedVersion ours theirs = (v, True) \<longleftrightarrow>
    (\<exists>i < length ours. ours ! i = v \<and> v \<in> set theirs \<and> (\<forall>j < i. ours ! j \<notin> set theirs))"
proof (induction ours theirs rule: ChooseSupportedVersion.induct)
  case (2 ourVer ours theirs)
  then show ?case
    by (auto simp: Ex_less_Suc2 All_less_Suc2)
qed simp

lemma IsSupportedVersion_iff [simp]: "IsSupportedVersion supported v \<longleftrightarrow> v \<in> set supported"
  by (induction supported v rule: IsSupportedVersion.induct) auto

section \<open>Properties\<close>

text \<open>
  (C33) Numbering of streams: the identifier of the \<open>n\<close>-th stream of a type and an initiator
  (\<open>n\<close> from 1) is non-negative and determines the three of them, and every non-negative
  identifier is the one of its own number, type and initiator.
\<close>

theorem stream_ids_bijective:
  "(1 \<le> n \<longrightarrow> 0 \<le> StreamNum_StreamID n t p \<and> StreamID_StreamNum (StreamNum_StreamID n t p) = n \<and>
      StreamID_Type (StreamNum_StreamID n t p) = t \<and> InitiatedBy (StreamNum_StreamID n t p) = p) \<and>
   (0 \<le> s \<longrightarrow> StreamNum_StreamID (StreamID_StreamNum s) (StreamID_Type s) (InitiatedBy s) = s \<and>
      1 \<le> StreamID_StreamNum s)"
  using StreamID_of_num [of n t p] StreamID_of_parts [of s] by (auto simp: StreamID_StreamNum_def)

theorem stream_ids_bijective_witness:
  "StreamNum_StreamID 3 StreamTypeUni PerspectiveServer = 11 \<and> StreamID_StreamNum 11 = 3 \<and>
   StreamID_Type 11 = StreamTypeUni \<and> InitiatedBy 11 = PerspectiveServer \<and>
   StreamNum_StreamID (StreamID_StreamNum 6) (StreamID_Type 6) (InitiatedBy 6) = 6"
proof -
  have "StreamNum_StreamID 3 StreamTypeUni PerspectiveServer = 11"
    by (simp add: StreamNum_StreamID_def)
  then show ?thesis
    using stream_ids_bijective [of 3 StreamTypeUni PerspectiveServer 6] by simp
qed



text \<open>
  Version negotiation picks our most preferred common version: the result is the first
  entry of our list that the peer offers, and the flag is unset exactly when the lists have no
  version in common.
\<close>

theorem ChooseSupportedVersion_best:
  "(case ChooseSupportedVersion ours theirs of
      (v, False) \<Rightarrow> v = 0 \<and> set ours \<inter> set theirs = {}
    | (v, True) \<Rightarrow> \<exists>i < length ours. ours ! i = v \<and> v \<in> set theirs \<and> set (take i ours) \<inter> set theirs = {})"
proof (cases "ChooseSupportedVersion ours theirs")
  case (Pair v b)
  show ?thesis
  proof (cases b)
    case True
    then obtain i where i: "i < length ours" "ours ! i = v" "v \<in> set theirs" "\<forall>j < i. ours ! j \<notin> set theirs"
      using Pair ChooseSupportedVersion_Some [of ours theirs v] by auto
    then have "set (take i ours) \<inter> set theirs = {}"
      by (auto simp: set_conv_nth [of "take i ours"])
    with i show ?thesis
      using Pair True by auto
  qed (use Pair ChooseSupportedVersion_None [of ours theirs v] in auto)
qed

end
