(* ===== verification/Wire.thy ===== *)
theory Wire
  imports Varint Protocol
begin

text \<open>
  What all frames of \<open>internal/wire\<close> share: the frame types of \<open>frame_parser.go\<close>, reading one
  varint of a frame, and the contract every frame keeps: \<open>Append\<close> writes a type byte and a body,
  \<open>Length\<close> announces exactly their number, and the parser for that type reads the body back. The
  version argument of the Go functions is never used by them and is left out.
\<close>

named_theorems wire_simps "evaluation of the frame writers and parsers on well-formed frames"

section \<open>Frame types\<close>

definition pingFrameType :: byte where "pingFrameType = 0x1"
definition ackFrameType :: byte where "ackFrameType = 0x2"
definition ackECNFrameType :: byte where "ackECNFrameType = 0x3"
definition resetStreamFrameType :: byte where "resetStreamFrameType = 0x4"
definition stopSendingFrameType :: byte where "stopSendingFrameType = 0x5"
definition cryptoFrameType :: byte where "cryptoFrameType = 0x6"
definition newTokenFrameType :: byte where "newTokenFrameType = 0x7"
definition maxDataFrameType :: byte where "maxDataFrameType = 0x10"
definition maxStreamDataFrameType :: byte where "maxStreamDataFrameType = 0x11"
definition bidiMaxStreamsFrameType :: byte where "bidiMaxStreamsFrameType = 0x12"
definition uniMaxStreamsFrameType :: byte where "uniMaxStreamsFrameType = 0x13"
definition dataBlockedFrameType :: byte where "dataBlockedFrameType = 0x14"
definition streamDataBlockedFrameType :: byte where "streamDataBlockedFrameType = 0x15"
definition bidiStreamBlockedFrameType :: byte where "bidiStreamBlockedFrameType = 0x16"
definition uniStreamBlockedFrameType :: byte where "uniStreamBlockedFrameType = 0x17"
definition newConnectionIDFrameType :: byte where "newConnectionIDFrameType = 0x18"
definition retireConnectionIDFrameType :: byte where "retireConnectionIDFrameType = 0x19"
definition pathChallengeFrameType :: byte where "pathChallengeFrameType = 0x1a"
definition pathResponseFrameType :: byte where "pathResponseFrameType = 0x1b"
definition connectionCloseFrameType :: byte where "connectionCloseFrameType = 0x1c"
definition applicationCloseFrameType :: byte where "applicationCloseFrameType = 0x1d"
definition handshakeDoneFrameType :: byte where "handshakeDoneFrameType = 0x1e"

lemmas frame_type_defs = pingFrameType_def ackFrameType_def ackECNFrameType_def
  resetStreamFrameType_def stopSendingFrameType_def cryptoFrameType_def newTokenFrameType_def
  maxDataFrameType_def maxStreamDataFrameType_def bidiMaxStreamsFrameType_def
  uniMaxStreamsFrameType_def dataBlockedFrameType_def streamDataBlockedFrameType_def
  bidiStreamBlockedFrameType_def uniStreamBlockedFrameType_def newConnectionIDFrameType_def
  retireConnectionIDFrameType_def pathChallengeFrameType_def pathResponseFrameType_def
  connectionCloseFrameType_def applicationCloseFrameType_def handshakeDoneFrameType_def

section \<open>Reading one varint of a frame\<close>

definition replaceUnexpectedEOF :: "go_error \<Rightarrow> go_error" where
  "replaceUnexpectedEOF e = (if e = ErrUnexpectedEOF then EOF else e)"

text \<open>
  The idiom of every frame parser: parse a varint, return its error with \<open>io.ErrUnexpectedEOF\<close>
  replaced, and go on with the value, its length and the slice after it.
\<close>

definition next_varint :: "byte list \<Rightarrow> (u64 \<Rightarrow> nat \<Rightarrow> byte list \<Rightarrow> 'a result) \<Rightarrow> 'a result" where
  "next_varint b k = (case varint_Parse b of
      Inl e \<Rightarrow> Inl (replaceUnexpectedEOF e)
    | Inr (v, l) \<Rightarrow> k v l (drop l b))"

section \<open>Values that fit into a varint\<close>

definition u62 :: "u64 \<Rightarrow> bool" where
  "u62 w \<longleftrightarrow> unat w < 2 ^ 62"

definition in62 :: "int \<Rightarrow> bool" where
  "in62 i \<longleftrightarrow> 0 \<le> i \<and> i < 2 ^ 62"

definition vbytes :: "u64 \<Rightarrow> byte list" where
  "vbytes w = varint_bytes (unat w)"

definition vsize :: "u64 \<Rightarrow> nat" where
  "vsize w = varint_size (unat w)"

lemma length_vbytes [simp]: "length (vbytes w) = vsize w"
  by (simp add: vbytes_def vsize_def)

lemma vsize_pos [simp]: "0 < vsize w"
  using varint_size_cases [of "unat w"] by (auto simp: vsize_def)

lemma vsize_le_8: "vsize w \<le> 8"
  using varint_size_cases [of "unat w"] by (auto simp: vsize_def)

lemma u62_uint64 [simp]: "in62 i \<Longrightarrow> u62 (uint64 i)"
  by (auto simp: in62_def u62_def unat_uint64)

lemma int64_uint64_in62 [simp]: "in62 i \<Longrightarrow> int64 (uint64 i) = i"
  by (auto simp: in62_def int64_uint64)

lemma in62_int64: "u62 w \<Longrightarrow> in62 (int64 w)"
  by (simp add: in62_def u62_def int64_small del: of_nat_unat)

lemma in62_len [simp]: "in62 (int n) \<longleftrightarrow> n < 2 ^ 62"
  by (simp add: in62_def)

lemma unat_uint64_len [simp]: "n < 2 ^ 62 \<Longrightarrow> unat (uint64 (int n)) = n"
  by (simp add: unat_uint64)

lemma varint_Append_u62 [wire_simps]: "u62 w \<Longrightarrow> varint_Append b w = Inr (b @ vbytes w)"
  by (simp add: varint_Append_eq u62_def vbytes_def)

lemma varint_Len_u62 [wire_simps]: "u62 w \<Longrightarrow> varint_Len w = Inr (vsize w)"
  by (simp add: varint_Len_eq u62_def vsize_def)

lemma varint_Parse_vbytes: "u62 w \<Longrightarrow> varint_Parse (vbytes w @ rest) = Inr (w, vsize w)"
  by (simp add: u62_def vbytes_def vsize_def)

lemma next_varint_vbytes [wire_simps]: "u62 w \<Longrightarrow> next_varint (vbytes w @ rest) k = k w (vsize w) rest"
  by (simp add: next_varint_def varint_Parse_vbytes)

lemma next_varint_vbytes_Nil [wire_simps]: "u62 w \<Longrightarrow> next_varint (vbytes w) k = k w (vsize w) []"
  using next_varint_vbytes [of w "[]" k] by simp

lemma next_varint_Inr:
  assumes "next_varint b k = Inr x"
  obtains v l where "k v l (drop l b) = Inr x" and "u62 v" and "0 < l" and "l \<le> length b"
    and "varint_Parse b = Inr (v, l)"
proof -
  obtain v l where "varint_Parse b = Inr (v, l)" "k v l (drop l b) = Inr x"
    using assms by (auto simp: next_varint_def split: sum.splits prod.splits)
  then show ?thesis
    using that [of v l] varint_Parse_bounds [of b v l] by (auto simp: u62_def)
qed

lemma returns_next_varint [returns]:
  assumes "\<And>v l. 0 < l \<Longrightarrow> l \<le> length b \<Longrightarrow> u62 v \<Longrightarrow> returns P (k v l (drop l b))"
  shows "returns P (next_varint b k)"
proof (cases "varint_Parse b")
  case (Inr vl)
  obtain v l where vl: "vl = (v, l)"
    by (cases vl)
  have "returns P (k v l (drop l b))"
    using assms [of l v] varint_Parse_bounds [of b v l] Inr by (auto simp: u62_def vl)
  then show ?thesis
    using Inr by (simp add: next_varint_def vl)
qed (simp add: next_varint_def returns_Inl)

text \<open>A frame parser never panics when what it does with the varints it reads never panics.\<close>

lemma next_varint_no_panic [no_panic]:
  assumes "\<And>v l. l \<le> length b \<Longrightarrow> u62 v \<Longrightarrow> \<not> is_panic (k v l (drop l b))"
  shows "\<not> is_panic (next_varint b k)"
proof (cases "varint_Parse b")
  case (Inl e)
  then show ?thesis
    using varint_Parse_never_panics [of b]
    by (auto simp: next_varint_def replaceUnexpectedEOF_def)
next
  case (Inr vl)
  then show ?thesis
    using assms varint_Parse_bounds [of b "fst vl" "snd vl"]
    by (auto simp: next_varint_def u62_def split: prod.split)
qed

section \<open>The contract of a frame\<close>

text \<open>
  Every parser is safe on every input: it does not panic, and the length it reports does not
  exceed the slice, so the caller can advance by it.
\<close>

locale wire_parser =
  fixes prs :: "u64 \<Rightarrow> byte list \<Rightarrow> ('f \<times> nat) result"
  assumes prs_no_panic: "\<not> is_panic (prs t b)"
    and prs_bounded: "prs t b = Inr (f, l) \<Longrightarrow> l \<le> length b"

text \<open>
  \<open>tag\<close> and \<open>body\<close> say what is on the wire. A frame without an explicit length (\<open>delim\<close> false)
  extends to the end of the packet, so its parser is only asked to read it back from there.
\<close>

locale wire_frame =
  fixes wf :: "'f \<Rightarrow> bool"
    and delim :: "'f \<Rightarrow> bool"
    and tag :: "'f \<Rightarrow> byte"
    and body :: "'f \<Rightarrow> byte list"
    and app :: "byte list \<Rightarrow> 'f \<Rightarrow> byte list result"
    and len :: "'f \<Rightarrow> ByteCount result"
    and prs :: "u64 \<Rightarrow> byte list \<Rightarrow> ('f \<times> nat) result"
  assumes app_eq: "wf f \<Longrightarrow> app b f = Inr (b @ tag f # body f)"
    and len_eq: "wf f \<Longrightarrow> len f = Inr (1 + int (length (body f)))"
    and prs_eq: "wf f \<Longrightarrow> delim f \<or> rest = [] \<Longrightarrow> prs (ucast (tag f)) (body f @ rest) = Inr (f, length (body f))"
begin

lemma app_len: "wf f \<Longrightarrow> app b f = Inr b' \<Longrightarrow> len f = Inr (int (length b') - int (length b))"
  by (auto simp: app_eq len_eq)

lemma prs_app:
  assumes "wf f" and "delim f \<or> rest = []"
  shows "\<exists>e. app b f = Inr (b @ e) \<and> len f = Inr (int (length e)) \<and>
    prs (ucast (hd e)) (tl e @ rest) = Inr (f, length e - 1)"
  using assms by (intro exI [of _ "tag f # body f"]) (simp add: app_eq len_eq prs_eq)

lemma app_inject:
  assumes "wf f" and "wf g" and "app b f = app b g"
  shows "f = g"
  using assms prs_eq [of f "[]"] prs_eq [of g "[]"] by (auto simp: app_eq)

end


text \<open>A codec is a frame whose parser only returns frames the writer accepts.\<close>

locale wire_codec = wire_frame wf delim tag body app len prs + wire_parser prs
  for wf :: "'f \<Rightarrow> bool"
    and delim :: "'f \<Rightarrow> bool"
    and tag :: "'f \<Rightarrow> byte"
    and body :: "'f \<Rightarrow> byte list"
    and app :: "byte list \<Rightarrow> 'f \<Rightarrow> byte list result"
    and len :: "'f \<Rightarrow> ByteCount result"
    and prs :: "u64 \<Rightarrow> byte list \<Rightarrow> ('f \<times> nat) result" +
  assumes prs_wf: "prs t b = Inr (f, l) \<Longrightarrow> wf f"
begin

lemma reencode:
  assumes "prs t b = Inr (f, l)"
  shows "app [] f = Inr (tag f # body f) \<and> prs (ucast (tag f)) (body f) = Inr (f, length (body f))"
  using prs_wf [OF assms] app_eq [of f "[]"] prs_eq [of f "[]"] by simp

end

end
