(* ===== verification/Wire_Frames.thy ===== *)
theory Wire_Frames
  imports Wire
begin

text \<open>
  The control frames of \<open>internal/wire\<close>, one group per file: the frame as a record, its parser,
  \<open>Append\<close> and \<open>Length\<close>. Each group ends with what is on the wire (\<open>wf\<close> and \<open>body\<close>) and the
  interpretation of the frame contract on it. A \<open>Length\<close> can panic (in \<open>quicvarint.Len\<close>), so it
  is fallible here.
\<close>

section \<open>RESET\_STREAM\<close>

record ResetStreamFrame =
  rs_StreamID :: StreamID
  rs_ErrorCode :: u64
  rs_FinalSize :: ByteCount

definition parseResetStreamFrame :: "byte list \<Rightarrow> (ResetStreamFrame \<times> nat) result" where
  "parseResetStreamFrame b =
     (let startLen = length b in
      next_varint b (\<lambda>sid l b.
      next_varint b (\<lambda>errorCode l b.
      next_varint b (\<lambda>bo l _.
        Inr (\<lparr>rs_StreamID = int64 sid, rs_ErrorCode = errorCode, rs_FinalSize = int64 bo\<rparr>,
             startLen - length b + l)))))"

definition ResetStreamFrame_Append :: "byte list \<Rightarrow> ResetStreamFrame \<Rightarrow> byte list result" where
  "ResetStreamFrame_Append b f =
     (let b = b @ [resetStreamFrameType] in
      rbind (varint_Append b (uint64 (rs_StreamID f))) (\<lambda>b.
      rbind (varint_Append b (rs_ErrorCode f)) (\<lambda>b.
      varint_Append b (uint64 (rs_FinalSize f)))))"

definition ResetStreamFrame_Length :: "ResetStreamFrame \<Rightarrow> ByteCount result" where
  "ResetStreamFrame_Length f =
     rbind (varint_Len (uint64 (rs_StreamID f))) (\<lambda>l1.
     rbind (varint_Len (rs_ErrorCode f)) (\<lambda>l2.
     rbind (varint_Len (uint64 (rs_FinalSize f))) (\<lambda>l3.
       Inr (1 + int (l1 + l2 + l3)))))"

definition ResetStreamFrame_wf :: "ResetStreamFrame \<Rightarrow> bool" where
  "ResetStreamFrame_wf f \<longleftrightarrow> in62 (rs_StreamID f) \<and> u62 (rs_ErrorCode f) \<and> in62 (rs_FinalSize f)"

definition ResetStreamFrame_body :: "ResetStreamFrame \<Rightarrow> byte list" where
  "ResetStreamFrame_body f =
     vbytes (uint64 (rs_StreamID f)) @ vbytes (rs_ErrorCode f) @ vbytes (uint64 (rs_FinalSize f))"

interpretation reset_stream: wire_codec ResetStreamFrame_wf "\<lambda>_. True" "\<lambda>_. resetStreamFrameType"
  ResetStreamFrame_body ResetStreamFrame_Append ResetStreamFrame_Length "\<lambda>_. parseResetStreamFrame"
  by unfold_locales (auto simp: ResetStreamFrame_wf_def ResetStreamFrame_body_def
    ResetStreamFrame_Append_def ResetStreamFrame_Length_def parseResetStreamFrame_def Let_def wire_simps
    in62_int64 intro!: next_varint_no_panic elim!: next_varint_Inr)

section \<open>STOP\_SENDING\<close>

record StopSendingFrame =
  ss_StreamID :: StreamID
  ss_ErrorCode :: u64

definition parseStopSendingFrame :: "byte list \<Rightarrow> (StopSendingFrame \<times> nat) result" where
  "parseStopSendingFrame b =
     (let startLen = length b in
      next_varint b (\<lambda>streamID l b.
      next_varint b (\<lambda>errorCode l b.
        Inr (\<lparr>ss_StreamID = int64 streamID, ss_ErrorCode = errorCode\<rparr>, startLen - length b))))"

definition StopSendingFrame_Length :: "StopSendingFrame \<Rightarrow> ByteCount result" where
  "StopSendingFrame_Length f =
     rbind (varint_Len (uint64 (ss_StreamID f))) (\<lambda>l1.
     rbind (varint_Len (ss_ErrorCode f)) (\<lambda>l2.
       Inr (1 + int (l1 + l2))))"

definition StopSendingFrame_Append :: "byte list \<Rightarrow> StopSendingFrame \<Rightarrow> byte list result" where
  "StopSendingFrame_Append b f =
     (let b = b @ [stopSendingFrameType] in
      rbind (varint_Append b (uint64 (ss_StreamID f))) (\<lambda>b.
      varint_Append b (ss_ErrorCode f)))"

definition StopSendingFrame_wf :: "StopSendingFrame \<Rightarrow> bool" where
  "StopSendingFrame_wf f \<longleftrightarrow> in62 (ss_StreamID f) \<and> u62 (ss_ErrorCode f)"

definition StopSendingFrame_body :: "StopSendingFrame \<Rightarrow> byte list" where
  "StopSendingFrame_body f = vbytes (uint64 (ss_StreamID f)) @ vbytes (ss_ErrorCode f)"

interpretation stop_sending: wire_codec StopSendingFrame_wf "\<lambda>_. True" "\<lambda>_. stopSendingFrameType"
  StopSendingFrame_body StopSendingFrame_Append StopSendingFrame_Length "\<lambda>_. parseStopSendingFrame"
  by unfold_locales (auto simp: StopSendingFrame_wf_def StopSendingFrame_body_def
    StopSendingFrame_Append_def StopSendingFrame_Length_def parseStopSendingFrame_def Let_def wire_simps
    in62_int64 intro!: next_varint_no_panic elim!: next_varint_Inr)

section \<open>NEW\_TOKEN\<close>

record NewTokenFrame =
  nt_Token :: "byte list"

definition parseNewTokenFrame :: "byte list \<Rightarrow> (NewTokenFrame \<times> nat) result" where
  "parseNewTokenFrame b =
     next_varint b (\<lambda>tokenLen l b.
       if tokenLen = 0 then Inl (ErrorNew ''token must not be empty'')
       else if length b < unat tokenLen then Inl EOF
       else Inr (\<lparr>nt_Token = take (unat tokenLen) b\<rparr>, l + unat tokenLen))"

definition NewTokenFrame_Append :: "byte list \<Rightarrow> NewTokenFrame \<Rightarrow> byte list result" where
  "NewTokenFrame_Append b f =
     (let b = b @ [newTokenFrameType] in
      rbind (varint_Append b (uint64 (int (length (nt_Token f))))) (\<lambda>b.
      Inr (b @ nt_Token f)))"

definition NewTokenFrame_Length :: "NewTokenFrame \<Rightarrow> ByteCount result" where
  "NewTokenFrame_Length f =
     rbind (varint_Len (uint64 (int (length (nt_Token f))))) (\<lambda>l.
       Inr (1 + int (l + length (nt_Token f))))"

definition NewTokenFrame_wf :: "NewTokenFrame \<Rightarrow> bool" where
  "NewTokenFrame_wf f \<longleftrightarrow> nt_Token f \<noteq> [] \<and> length (nt_Token f) < 2 ^ 62"

definition NewTokenFrame_body :: "NewTokenFrame \<Rightarrow> byte list" where
  "NewTokenFrame_body f = vbytes (uint64 (int (length (nt_Token f)))) @ nt_Token f"

lemma uint64_len_eq_0 [simp]: "n < 2 ^ 62 \<Longrightarrow> uint64 (int n) = 0 \<longleftrightarrow> n = 0"
  by (metis unat_eq_zero unat_uint64_len)

interpretation new_token: wire_codec NewTokenFrame_wf "\<lambda>_. True" "\<lambda>_. newTokenFrameType"
  NewTokenFrame_body NewTokenFrame_Append NewTokenFrame_Length "\<lambda>_. parseNewTokenFrame"
  by unfold_locales (auto simp: NewTokenFrame_wf_def NewTokenFrame_body_def
    NewTokenFrame_Append_def NewTokenFrame_Length_def parseNewTokenFrame_def Let_def wire_simps
    in62_int64 intro!: next_varint_no_panic elim!: next_varint_Inr
    split: if_splits simp: u62_def unat_eq_zero)

section \<open>MAX\_DATA\<close>

record MaxDataFrame =
  md_MaximumData :: ByteCount

definition parseMaxDataFrame :: "byte list \<Rightarrow> (MaxDataFrame \<times> nat) result" where
  "parseMaxDataFrame b =
     next_varint b (\<lambda>byteOffset l _. Inr (\<lparr>md_MaximumData = int64 byteOffset\<rparr>, l))"

definition MaxDataFrame_Append :: "byte list \<Rightarrow> MaxDataFrame \<Rightarrow> byte list result" where
  "MaxDataFrame_Append b f = varint_Append (b @ [maxDataFrameType]) (uint64 (md_MaximumData f))"

definition MaxDataFrame_Length :: "MaxDataFrame \<Rightarrow> ByteCount result" where
  "MaxDataFrame_Length f = rbind (varint_Len (uint64 (md_MaximumData f))) (\<lambda>l. Inr (1 + int l))"

definition MaxDataFrame_wf :: "MaxDataFrame \<Rightarrow> bool" where
  "MaxDataFrame_wf f \<longleftrightarrow> in62 (md_MaximumData f)"

definition MaxDataFrame_body :: "MaxDataFrame \<Rightarrow> byte list" where
  "MaxDataFrame_body f = vbytes (uint64 (md_MaximumData f))"

interpretation max_data: wire_codec MaxDataFrame_wf "\<lambda>_. True" "\<lambda>_. maxDataFrameType"
  MaxDataFrame_body MaxDataFrame_Append MaxDataFrame_Length "\<lambda>_. parseMaxDataFrame"
  by unfold_locales (auto simp: MaxDataFrame_wf_def MaxDataFrame_body_def
    MaxDataFrame_Append_def MaxDataFrame_Length_def parseMaxDataFrame_def wire_simps
    in62_int64 intro!: next_varint_no_panic elim!: next_varint_Inr)

section \<open>MAX\_STREAM\_DATA\<close>

record MaxStreamDataFrame =
  msd_StreamID :: StreamID
  msd_MaximumStreamData :: ByteCount

definition parseMaxStreamDataFrame :: "byte list \<Rightarrow> (MaxStreamDataFrame \<times> nat) result" where
  "parseMaxStreamDataFrame b =
     (let startLen = length b in
      next_varint b (\<lambda>sid l b.
      next_varint b (\<lambda>offset l b.
        Inr (\<lparr>msd_StreamID = int64 sid, msd_MaximumStreamData = int64 offset\<rparr>, startLen - length b))))"

definition MaxStreamDataFrame_Append :: "byte list \<Rightarrow> MaxStreamDataFrame \<Rightarrow> byte list result" where
  "MaxStreamDataFrame_Append b f =
     (let b = b @ [maxStreamDataFrameType] in
      rbind (varint_Append b (uint64 (msd_StreamID f))) (\<lambda>b.
      varint_Append b (uint64 (msd_MaximumStreamData f))))"

definition MaxStreamDataFrame_Length :: "MaxStreamDataFrame \<Rightarrow> ByteCount result" where
  "MaxStreamDataFrame_Length f =
     rbind (varint_Len (uint64 (msd_StreamID f))) (\<lambda>l1.
     rbind (varint_Len (uint64 (msd_MaximumStreamData f))) (\<lambda>l2.
       Inr (1 + int (l1 + l2))))"

definition MaxStreamDataFrame_wf :: "MaxStreamDataFrame \<Rightarrow> bool" where
  "MaxStreamDataFrame_wf f \<longleftrightarrow> in62 (msd_StreamID f) \<and> in62 (msd_MaximumStreamData f)"

definition MaxStreamDataFrame_body :: "MaxStreamDataFrame \<Rightarrow> byte list" where
  "MaxStreamDataFrame_body f =
     vbytes (uint64 (msd_StreamID f)) @ vbytes (uint64 (msd_MaximumStreamData f))"

interpretation max_stream_data: wire_codec MaxStreamDataFrame_wf "\<lambda>_. True" "\<lambda>_. maxStreamDataFrameType"
  MaxStreamDataFrame_body MaxStreamDataFrame_Append MaxStreamDataFrame_Length "\<lambda>_. parseMaxStreamDataFrame"
  by unfold_locales (auto simp: MaxStreamDataFrame_wf_def MaxStreamDataFrame_body_def
    MaxStreamDataFrame_Append_def MaxStreamDataFrame_Length_def parseMaxStreamDataFrame_def Let_def wire_simps
    in62_int64 intro!: next_varint_no_panic elim!: next_varint_Inr)

section \<open>MAX\_STREAMS\<close>

text \<open>A frame type that is neither of the two leaves the stream type at its zero value.\<close>

record MaxStreamsFrame =
  ms_Type :: StreamType
  ms_MaxStreamNum :: StreamNum

definition parseMaxStreamsFrame :: "u64 \<Rightarrow> byte list \<Rightarrow> (MaxStreamsFrame \<times> nat) result" where
  "parseMaxStreamsFrame typ b =
     (let t = (if typ = ucast bidiMaxStreamsFrameType then StreamTypeBidi
               else if typ = ucast uniMaxStreamsFrameType then StreamTypeUni
               else StreamTypeUni) in
      next_varint b (\<lambda>streamID l _.
        if int64 streamID > MaxStreamCount then Inl (ErrorNew ''exceeds the maximum stream count'')
        else Inr (\<lparr>ms_Type = t, ms_MaxStreamNum = int64 streamID\<rparr>, l)))"

definition MaxStreamsFrame_Append :: "byte list \<Rightarrow> MaxStreamsFrame \<Rightarrow> byte list result" where
  "MaxStreamsFrame_Append b f =
     (let b = (case ms_Type f of
          StreamTypeBidi \<Rightarrow> b @ [bidiMaxStreamsFrameType]
        | StreamTypeUni \<Rightarrow> b @ [uniMaxStreamsFrameType]) in
      varint_Append b (uint64 (ms_MaxStreamNum f)))"

definition MaxStreamsFrame_Length :: "MaxStreamsFrame \<Rightarrow> ByteCount result" where
  "MaxStreamsFrame_Length f = rbind (varint_Len (uint64 (ms_MaxStreamNum f))) (\<lambda>l. Inr (1 + int l))"

definition MaxStreamsFrame_wf :: "MaxStreamsFrame \<Rightarrow> bool" where
  "MaxStreamsFrame_wf f \<longleftrightarrow> in62 (ms_MaxStreamNum f) \<and> ms_MaxStreamNum f \<le> MaxStreamCount"

definition MaxStreamsFrame_type :: "MaxStreamsFrame \<Rightarrow> byte" where
  "MaxStreamsFrame_type f =
     (case ms_Type f of StreamTypeBidi \<Rightarrow> bidiMaxStreamsFrameType | StreamTypeUni \<Rightarrow> uniMaxStreamsFrameType)"

definition MaxStreamsFrame_body :: "MaxStreamsFrame \<Rightarrow> byte list" where
  "MaxStreamsFrame_body f = vbytes (uint64 (ms_MaxStreamNum f))"

interpretation max_streams: wire_codec MaxStreamsFrame_wf "\<lambda>_. True" MaxStreamsFrame_type
  MaxStreamsFrame_body MaxStreamsFrame_Append MaxStreamsFrame_Length parseMaxStreamsFrame
  by unfold_locales (auto simp: MaxStreamsFrame_wf_def MaxStreamsFrame_body_def MaxStreamsFrame_type_def
    MaxStreamsFrame_Append_def MaxStreamsFrame_Length_def parseMaxStreamsFrame_def Let_def
    bidiMaxStreamsFrameType_def uniMaxStreamsFrameType_def wire_simps
    in62_int64 intro!: next_varint_no_panic elim!: next_varint_Inr intro: MaxStreamsFrame.equality split: StreamType.splits if_splits)

section \<open>DATA\_BLOCKED\<close>

record DataBlockedFrame =
  db_MaximumData :: ByteCount

definition parseDataBlockedFrame :: "byte list \<Rightarrow> (DataBlockedFrame \<times> nat) result" where
  "parseDataBlockedFrame b =
     next_varint b (\<lambda>offset l _. Inr (\<lparr>db_MaximumData = int64 offset\<rparr>, l))"

definition DataBlockedFrame_Append :: "byte list \<Rightarrow> DataBlockedFrame \<Rightarrow> byte list result" where
  "DataBlockedFrame_Append b f = varint_Append (b @ [dataBlockedFrameType]) (uint64 (db_MaximumData f))"

definition DataBlockedFrame_Length :: "DataBlockedFrame \<Rightarrow> ByteCount result" where
  "DataBlockedFrame_Length f = rbind (varint_Len (uint64 (db_MaximumData f))) (\<lambda>l. Inr (1 + int l))"

definition DataBlockedFrame_wf :: "DataBlockedFrame \<Rightarrow> bool" where
  "DataBlockedFrame_wf f \<longleftrightarrow> in62 (db_MaximumData f)"

definition DataBlockedFrame_body :: "DataBlockedFrame \<Rightarrow> byte list" where
  "DataBlockedFrame_body f = vbytes (uint64 (db_MaximumData f))"

interpretation data_blocked: wire_codec DataBlockedFrame_wf "\<lambda>_. True" "\<lambda>_. dataBlockedFrameType"
  DataBlockedFrame_body DataBlockedFrame_Append DataBlockedFrame_Length "\<lambda>_. parseDataBlockedFrame"
  by unfold_locales (auto simp: DataBlockedFrame_wf_def DataBlockedFrame_body_def
    DataBlockedFrame_Append_def DataBlockedFrame_Length_def parseDataBlockedFrame_def wire_simps
    in62_int64 intro!: next_varint_no_panic elim!: next_varint_Inr)

section \<open>STREAM\_DATA\_BLOCKED\<close>

record StreamDataBlockedFrame =
  sdb_StreamID :: StreamID
  sdb_MaximumStreamData :: ByteCount

definition parseStreamDataBlockedFrame :: "byte list \<Rightarrow> (StreamDataBlockedFrame \<times> nat) result" where
  "parseStreamDataBlockedFrame b =
     (let startLen = length b in
      next_varint b (\<lambda>sid l b.
      next_varint b (\<lambda>offset l _.
        Inr (\<lparr>sdb_StreamID = int64 sid, sdb_MaximumStreamData = int64 offset\<rparr>,
             startLen - length b + l))))"

definition StreamDataBlockedFrame_Append :: "byte list \<Rightarrow> StreamDataBlockedFrame \<Rightarrow> byte list result" where
  "StreamDataBlockedFrame_Append b f =
     (let b = b @ [0x15] in
      rbind (varint_Append b (uint64 (sdb_StreamID f))) (\<lambda>b.
      varint_Append b (uint64 (sdb_MaximumStreamData f))))"

definition StreamDataBlockedFrame_Length :: "StreamDataBlockedFrame \<Rightarrow> ByteCount result" where
  "StreamDataBlockedFrame_Length f =
     rbind (varint_Len (uint64 (sdb_StreamID f))) (\<lambda>l1.
     rbind (varint_Len (uint64 (sdb_MaximumStreamData f))) (\<lambda>l2.
       Inr (1 + int (l1 + l2))))"

definition StreamDataBlockedFrame_wf :: "StreamDataBlockedFrame \<Rightarrow> bool" where
  "StreamDataBlockedFrame_wf f \<longleftrightarrow> in62 (sdb_StreamID f) \<and> in62 (sdb_MaximumStreamData f)"

definition StreamDataBlockedFrame_body :: "StreamDataBlockedFrame \<Rightarrow> byte list" where
  "StreamDataBlockedFrame_body f =
     vbytes (uint64 (sdb_StreamID f)) @ vbytes (uint64 (sdb_MaximumStreamData f))"

interpretation stream_data_blocked: wire_codec StreamDataBlockedFrame_wf "\<lambda>_. True"
  "\<lambda>_. streamDataBlockedFrameType" StreamDataBlockedFrame_body StreamDataBlockedFrame_Append
  StreamDataBlockedFrame_Length "\<lambda>_. parseStreamDataBlockedFrame"
  by unfold_locales (auto simp: StreamDataBlockedFrame_wf_def StreamDataBlockedFrame_body_def
    StreamDataBlockedFrame_Append_def StreamDataBlockedFrame_Length_def
    parseStreamDataBlockedFrame_def streamDataBlockedFrameType_def Let_def wire_simps
    in62_int64 intro!: next_varint_no_panic elim!: next_varint_Inr)

section \<open>STREAMS\_BLOCKED\<close>

record StreamsBlockedFrame =
  sb_Type :: StreamType
  sb_StreamLimit :: StreamNum

definition parseStreamsBlockedFrame :: "u64 \<Rightarrow> byte list \<Rightarrow> (StreamsBlockedFrame \<times> nat) result" where
  "parseStreamsBlockedFrame typ b =
     (let t = (if typ = ucast bidiStreamBlockedFrameType then StreamTypeBidi
               else if typ = ucast uniStreamBlockedFrameType then StreamTypeUni
               else StreamTypeUni) in
      next_varint b (\<lambda>streamLimit l _.
        if int64 streamLimit > MaxStreamCount then Inl (ErrorNew ''exceeds the maximum stream count'')
        else Inr (\<lparr>sb_Type = t, sb_StreamLimit = int64 streamLimit\<rparr>, l)))"

definition StreamsBlockedFrame_Append :: "byte list \<Rightarrow> StreamsBlockedFrame \<Rightarrow> byte list result" where
  "StreamsBlockedFrame_Append b f =
     (let b = (case sb_Type f of
          StreamTypeBidi \<Rightarrow> b @ [bidiStreamBlockedFrameType]
        | StreamTypeUni \<Rightarrow> b @ [uniStreamBlockedFrameType]) in
      varint_Append b (uint64 (sb_StreamLimit f)))"

definition StreamsBlockedFrame_Length :: "StreamsBlockedFrame \<Rightarrow> ByteCount result" where
  "StreamsBlockedFrame_Length f = rbind (varint_Len (uint64 (sb_StreamLimit f))) (\<lambda>l. Inr (1 + int l))"

definition StreamsBlockedFrame_wf :: "StreamsBlockedFrame \<Rightarrow> bool" where
  "StreamsBlockedFrame_wf f \<longleftrightarrow> in62 (sb_StreamLimit f) \<and> sb_StreamLimit f \<le> MaxStreamCount"

definition StreamsBlockedFrame_type :: "StreamsBlockedFrame \<Rightarrow> byte" where
  "StreamsBlockedFrame_type f =
     (case sb_Type f of StreamTypeBidi \<Rightarrow> bidiStreamBlockedFrameType | StreamTypeUni \<Rightarrow> uniStreamBlockedFrameType)"

definition StreamsBlockedFrame_body :: "StreamsBlockedFrame \<Rightarrow> byte list" where
  "StreamsBlockedFrame_body f = vbytes (uint64 (sb_StreamLimit f))"

interpretation streams_blocked: wire_codec StreamsBlockedFrame_wf "\<lambda>_. True" StreamsBlockedFrame_type
  StreamsBlockedFrame_body StreamsBlockedFrame_Append StreamsBlockedFrame_Length parseStreamsBlockedFrame
  by unfold_locales (auto simp: StreamsBlockedFrame_wf_def StreamsBlockedFrame_body_def
    StreamsBlockedFrame_type_def StreamsBlockedFrame_Append_def StreamsBlockedFrame_Length_def
    parseStreamsBlockedFrame_def Let_def bidiStreamBlockedFrameType_def
    uniStreamBlockedFrameType_def wire_simps
    in62_int64 intro!: next_varint_no_panic elim!: next_varint_Inr intro: StreamsBlockedFrame.equality split: StreamType.splits if_splits)

end
