(* ===== verification/Wire_Conn_Frames.thy ===== *)
theory Wire_Conn_Frames
  imports Wire
begin

text \<open>
  The frames that manage the connection: NEW\_CONNECTION\_ID, RETIRE\_CONNECTION\_ID, PATH\_CHALLENGE,
  PATH\_RESPONSE, CONNECTION\_CLOSE, HANDSHAKE\_DONE and PING, in the same form as the control frames.
  A Go string is its bytes; the fixed-size arrays are lists whose length is part of \<open>wf\<close>.
\<close>

section \<open>NEW\_CONNECTION\_ID\<close>

record NewConnectionIDFrame =
  ncid_SequenceNumber :: u64
  ncid_RetirePriorTo :: u64
  ncid_ConnectionID :: ConnectionID
  ncid_StatelessResetToken :: StatelessResetToken

definition parseNewConnectionIDFrame :: "byte list \<Rightarrow> (NewConnectionIDFrame \<times> nat) result" where
  "parseNewConnectionIDFrame b =
     (let startLen = length b in
      next_varint b (\<lambda>seq l b.
      next_varint b (\<lambda>ret l b.
        if ret > seq then Inl (ErrorNew ''Retire Prior To value larger than Sequence Number'')
        else if length b = 0 then Inl EOF
        else let connIDLen = unat (b ! 0); b = drop 1 b in
        if connIDLen = 0 then Inl (ErrorNew ''invalid zero-length connection ID'')
        else if connIDLen > MaxConnIDLen then Inl ErrInvalidConnectionIDLen
        else if length b < connIDLen then Inl EOF
        else rbind (ParseConnectionID (take connIDLen b)) (\<lambda>connID.
          let b = drop connIDLen b in
          if length b < 16 then Inl EOF
          else Inr (\<lparr>ncid_SequenceNumber = seq, ncid_RetirePriorTo = ret,
                     ncid_ConnectionID = connID, ncid_StatelessResetToken = take 16 b\<rparr>,
                    startLen - length b + 16)))))"

definition NewConnectionIDFrame_Append :: "byte list \<Rightarrow> NewConnectionIDFrame \<Rightarrow> byte list result" where
  "NewConnectionIDFrame_Append b f =
     (let b = b @ [newConnectionIDFrameType] in
      rbind (varint_Append b (ncid_SequenceNumber f)) (\<lambda>b.
      rbind (varint_Append b (ncid_RetirePriorTo f)) (\<lambda>b.
        let connIDLen = length (ncid_ConnectionID f) in
        if connIDLen > MaxConnIDLen then Inl (ErrorNew ''invalid connection ID length'')
        else Inr (b @ [of_nat connIDLen] @ ncid_ConnectionID f @ ncid_StatelessResetToken f))))"

definition NewConnectionIDFrame_Length :: "NewConnectionIDFrame \<Rightarrow> ByteCount result" where
  "NewConnectionIDFrame_Length f =
     rbind (varint_Len (ncid_SequenceNumber f)) (\<lambda>l1.
     rbind (varint_Len (ncid_RetirePriorTo f)) (\<lambda>l2.
       Inr (1 + int (l1 + l2 + 1 + length (ncid_ConnectionID f)) + 16)))"

definition NewConnectionIDFrame_wf :: "NewConnectionIDFrame \<Rightarrow> bool" where
  "NewConnectionIDFrame_wf f \<longleftrightarrow> u62 (ncid_SequenceNumber f) \<and>
     ncid_RetirePriorTo f \<le> ncid_SequenceNumber f \<and>
     ncid_ConnectionID f \<noteq> [] \<and> length (ncid_ConnectionID f) \<le> 20 \<and>
     length (ncid_StatelessResetToken f) = 16"

definition NewConnectionIDFrame_body :: "NewConnectionIDFrame \<Rightarrow> byte list" where
  "NewConnectionIDFrame_body f =
     vbytes (ncid_SequenceNumber f) @ vbytes (ncid_RetirePriorTo f) @
     of_nat (length (ncid_ConnectionID f)) # ncid_ConnectionID f @ ncid_StatelessResetToken f"

lemma u62_mono: "v \<le> w \<Longrightarrow> u62 w \<Longrightarrow> u62 v"
  by (auto simp: u62_def word_le_nat_alt)

lemma parseNewConnectionIDFrame_body:
  assumes "NewConnectionIDFrame_wf f"
  shows "parseNewConnectionIDFrame (NewConnectionIDFrame_body f @ rest) =
    Inr (f, length (NewConnectionIDFrame_body f))"
proof -
  have "unat (of_nat (length (ncid_ConnectionID f)) :: byte) = length (ncid_ConnectionID f)"
    using assms by (simp add: NewConnectionIDFrame_wf_def unat_byte_of_nat)
  moreover have "u62 (ncid_RetirePriorTo f)"
    using assms u62_mono by (auto simp: NewConnectionIDFrame_wf_def)
  ultimately show ?thesis
    using assms by (auto simp: NewConnectionIDFrame_wf_def NewConnectionIDFrame_body_def
      parseNewConnectionIDFrame_def ParseConnectionID_def maxConnectionIDLen_def MaxConnIDLen_def
      Let_def wire_simps)
qed

lemma parseNewConnectionIDFrame_sound:
  assumes "parseNewConnectionIDFrame b = Inr (f, l)"
  shows "NewConnectionIDFrame_wf f \<and> l \<le> length b"
  using assms unfolding parseNewConnectionIDFrame_def
  by (auto simp: NewConnectionIDFrame_wf_def ParseConnectionID_def maxConnectionIDLen_def MaxConnIDLen_def
    Let_def elim!: next_varint_Inr split: if_splits)

interpretation new_connection_id: wire_codec NewConnectionIDFrame_wf "\<lambda>_. True"
  "\<lambda>_. newConnectionIDFrameType" NewConnectionIDFrame_body NewConnectionIDFrame_Append
  NewConnectionIDFrame_Length "\<lambda>_. parseNewConnectionIDFrame"
proof unfold_locales
  fix f b
  assume "NewConnectionIDFrame_wf f"
  then show "NewConnectionIDFrame_Append b f = Inr (b @ newConnectionIDFrameType # NewConnectionIDFrame_body f)"
    and "NewConnectionIDFrame_Length f = Inr (1 + int (length (NewConnectionIDFrame_body f)))"
    using u62_mono by (auto simp: NewConnectionIDFrame_wf_def NewConnectionIDFrame_body_def
      NewConnectionIDFrame_Append_def NewConnectionIDFrame_Length_def MaxConnIDLen_def Let_def wire_simps)
next
  fix b
  show "\<not> is_panic (parseNewConnectionIDFrame b)"
    by (auto simp: parseNewConnectionIDFrame_def ParseConnectionID_def maxConnectionIDLen_def
      MaxConnIDLen_def ErrInvalidConnectionIDLen_def Let_def intro!: next_varint_no_panic split: if_splits)
qed (use parseNewConnectionIDFrame_body parseNewConnectionIDFrame_sound in auto)

section \<open>RETIRE\_CONNECTION\_ID\<close>

record RetireConnectionIDFrame =
  rcid_SequenceNumber :: u64

definition parseRetireConnectionIDFrame :: "byte list \<Rightarrow> (RetireConnectionIDFrame \<times> nat) result" where
  "parseRetireConnectionIDFrame b = next_varint b (\<lambda>seq l _. Inr (\<lparr>rcid_SequenceNumber = seq\<rparr>, l))"

definition RetireConnectionIDFrame_Append :: "byte list \<Rightarrow> RetireConnectionIDFrame \<Rightarrow> byte list result" where
  "RetireConnectionIDFrame_Append b f = varint_Append (b @ [retireConnectionIDFrameType]) (rcid_SequenceNumber f)"

definition RetireConnectionIDFrame_Length :: "RetireConnectionIDFrame \<Rightarrow> ByteCount result" where
  "RetireConnectionIDFrame_Length f = rbind (varint_Len (rcid_SequenceNumber f)) (\<lambda>l. Inr (1 + int l))"

definition RetireConnectionIDFrame_wf :: "RetireConnectionIDFrame \<Rightarrow> bool" where
  "RetireConnectionIDFrame_wf f \<longleftrightarrow> u62 (rcid_SequenceNumber f)"

definition RetireConnectionIDFrame_body :: "RetireConnectionIDFrame \<Rightarrow> byte list" where
  "RetireConnectionIDFrame_body f = vbytes (rcid_SequenceNumber f)"

interpretation retire_connection_id: wire_codec RetireConnectionIDFrame_wf "\<lambda>_. True"
  "\<lambda>_. retireConnectionIDFrameType" RetireConnectionIDFrame_body RetireConnectionIDFrame_Append
  RetireConnectionIDFrame_Length "\<lambda>_. parseRetireConnectionIDFrame"
  by unfold_locales (auto simp: RetireConnectionIDFrame_wf_def RetireConnectionIDFrame_body_def
    RetireConnectionIDFrame_Append_def RetireConnectionIDFrame_Length_def
    parseRetireConnectionIDFrame_def wire_simps intro!: next_varint_no_panic elim!: next_varint_Inr)

section \<open>PATH\_CHALLENGE and PATH\_RESPONSE\<close>

record PathChallengeFrame =
  pc_Data :: "byte list"

definition parsePathChallengeFrame :: "byte list \<Rightarrow> (PathChallengeFrame \<times> nat) result" where
  "parsePathChallengeFrame b = (if length b < 8 then Inl EOF else Inr (\<lparr>pc_Data = take 8 b\<rparr>, 8))"

definition PathChallengeFrame_Append :: "byte list \<Rightarrow> PathChallengeFrame \<Rightarrow> byte list result" where
  "PathChallengeFrame_Append b f = Inr (b @ [pathChallengeFrameType] @ pc_Data f)"

definition PathChallengeFrame_Length :: "PathChallengeFrame \<Rightarrow> ByteCount result" where
  "PathChallengeFrame_Length f = Inr (1 + 8)"

definition PathChallengeFrame_wf :: "PathChallengeFrame \<Rightarrow> bool" where
  "PathChallengeFrame_wf f \<longleftrightarrow> length (pc_Data f) = 8"

interpretation path_challenge: wire_codec PathChallengeFrame_wf "\<lambda>_. True" "\<lambda>_. pathChallengeFrameType"
  pc_Data PathChallengeFrame_Append PathChallengeFrame_Length "\<lambda>_. parsePathChallengeFrame"
  by unfold_locales (auto simp: PathChallengeFrame_wf_def PathChallengeFrame_Append_def
    PathChallengeFrame_Length_def parsePathChallengeFrame_def split: if_splits)

record PathResponseFrame =
  pr_Data :: "byte list"

definition parsePathResponseFrame :: "byte list \<Rightarrow> (PathResponseFrame \<times> nat) result" where
  "parsePathResponseFrame b = (if length b < 8 then Inl EOF else Inr (\<lparr>pr_Data = take 8 b\<rparr>, 8))"

definition PathResponseFrame_Append :: "byte list \<Rightarrow> PathResponseFrame \<Rightarrow> byte list result" where
  "PathResponseFrame_Append b f = Inr (b @ [pathResponseFrameType] @ pr_Data f)"

definition PathResponseFrame_Length :: "PathResponseFrame \<Rightarrow> ByteCount result" where
  "PathResponseFrame_Length f = Inr (1 + 8)"

definition PathResponseFrame_wf :: "PathResponseFrame \<Rightarrow> bool" where
  "PathResponseFrame_wf f \<longleftrightarrow> length (pr_Data f) = 8"

interpretation path_response: wire_codec PathResponseFrame_wf "\<lambda>_. True" "\<lambda>_. pathResponseFrameType"
  pr_Data PathResponseFrame_Append PathResponseFrame_Length "\<lambda>_. parsePathResponseFrame"
  by unfold_locales (auto simp: PathResponseFrame_wf_def PathResponseFrame_Append_def
    PathResponseFrame_Length_def parsePathResponseFrame_def split: if_splits)

section \<open>CONNECTION\_CLOSE\<close>

record ConnectionCloseFrame =
  cc_IsApplicationError :: bool
  cc_ErrorCode :: u64
  cc_FrameType :: u64
  cc_ReasonPhrase :: "byte list"

definition parseConnectionCloseFrame :: "u64 \<Rightarrow> byte list \<Rightarrow> (ConnectionCloseFrame \<times> nat) result" where
  "parseConnectionCloseFrame typ b =
     (let startLen = length b;
          isApp = (typ = ucast applicationCloseFrameType);
          reason = (\<lambda>ec ft b.
            next_varint b (\<lambda>reasonPhraseLen l b.
              if int64 reasonPhraseLen > int (length b) then Inl EOF
              else Inr (\<lparr>cc_IsApplicationError = isApp, cc_ErrorCode = ec, cc_FrameType = ft,
                         cc_ReasonPhrase = take (unat reasonPhraseLen) b\<rparr>,
                        startLen - length b + unat reasonPhraseLen))) in
      next_varint b (\<lambda>ec l b.
        if \<not> isApp then next_varint b (\<lambda>ft l b. reason ec ft b)
        else reason ec 0 b))"

definition ConnectionCloseFrame_Length :: "ConnectionCloseFrame \<Rightarrow> ByteCount result" where
  "ConnectionCloseFrame_Length f =
     rbind (varint_Len (cc_ErrorCode f)) (\<lambda>l1.
     rbind (varint_Len (uint64 (int (length (cc_ReasonPhrase f))))) (\<lambda>l2.
       let len = 1 + int (l1 + l2) + int (length (cc_ReasonPhrase f)) in
       if \<not> cc_IsApplicationError f then rbind (varint_Len (cc_FrameType f)) (\<lambda>l3. Inr (len + int l3))
       else Inr len))"

definition ConnectionCloseFrame_Append :: "byte list \<Rightarrow> ConnectionCloseFrame \<Rightarrow> byte list result" where
  "ConnectionCloseFrame_Append b f =
     (let b = (if cc_IsApplicationError f then b @ [applicationCloseFrameType]
               else b @ [connectionCloseFrameType]) in
      rbind (varint_Append b (cc_ErrorCode f)) (\<lambda>b.
      rbind (if \<not> cc_IsApplicationError f then varint_Append b (cc_FrameType f) else Inr b) (\<lambda>b.
      rbind (varint_Append b (uint64 (int (length (cc_ReasonPhrase f))))) (\<lambda>b.
      Inr (b @ cc_ReasonPhrase f)))))"

definition ConnectionCloseFrame_wf :: "ConnectionCloseFrame \<Rightarrow> bool" where
  "ConnectionCloseFrame_wf f \<longleftrightarrow> u62 (cc_ErrorCode f) \<and> u62 (cc_FrameType f) \<and>
     (cc_IsApplicationError f \<longrightarrow> cc_FrameType f = 0) \<and> length (cc_ReasonPhrase f) < 2 ^ 62"

definition ConnectionCloseFrame_type :: "ConnectionCloseFrame \<Rightarrow> byte" where
  "ConnectionCloseFrame_type f =
     (if cc_IsApplicationError f then applicationCloseFrameType else connectionCloseFrameType)"

definition ConnectionCloseFrame_body :: "ConnectionCloseFrame \<Rightarrow> byte list" where
  "ConnectionCloseFrame_body f =
     vbytes (cc_ErrorCode f) @ (if cc_IsApplicationError f then [] else vbytes (cc_FrameType f)) @
     vbytes (uint64 (int (length (cc_ReasonPhrase f)))) @ cc_ReasonPhrase f"

lemma int64_gt_length: "u62 w \<Longrightarrow> int n < int64 w \<longleftrightarrow> n < unat w"
  by (simp add: int64_small u62_def del: of_nat_unat)

interpretation connection_close: wire_codec ConnectionCloseFrame_wf "\<lambda>_. True" ConnectionCloseFrame_type
  ConnectionCloseFrame_body ConnectionCloseFrame_Append ConnectionCloseFrame_Length parseConnectionCloseFrame
proof unfold_locales
  fix f b
  assume wf: "ConnectionCloseFrame_wf f"
  then show "ConnectionCloseFrame_Append b f = Inr (b @ ConnectionCloseFrame_type f # ConnectionCloseFrame_body f)"
    and "ConnectionCloseFrame_Length f = Inr (1 + int (length (ConnectionCloseFrame_body f)))"
    by (auto simp: ConnectionCloseFrame_wf_def ConnectionCloseFrame_body_def ConnectionCloseFrame_type_def
      ConnectionCloseFrame_Append_def ConnectionCloseFrame_Length_def Let_def wire_simps)
next
  fix f rest
  assume "ConnectionCloseFrame_wf f"
  then show "parseConnectionCloseFrame (ucast (ConnectionCloseFrame_type f)) (ConnectionCloseFrame_body f @ rest) =
      Inr (f, length (ConnectionCloseFrame_body f))"
    by (auto simp: ConnectionCloseFrame_wf_def ConnectionCloseFrame_body_def ConnectionCloseFrame_type_def
      parseConnectionCloseFrame_def applicationCloseFrameType_def connectionCloseFrameType_def Let_def
      wire_simps int64_gt_length intro: ConnectionCloseFrame.equality)
next
  fix t b f l
  show "\<not> is_panic (parseConnectionCloseFrame t b)"
    by (cases "t = ucast applicationCloseFrameType")
      (auto simp: parseConnectionCloseFrame_def Let_def intro!: next_varint_no_panic)
  assume "parseConnectionCloseFrame t b = Inr (f, l)"
  then have "ConnectionCloseFrame_wf f \<and> l \<le> length b"
    unfolding parseConnectionCloseFrame_def Let_def
    by (auto simp: ConnectionCloseFrame_wf_def int64_gt_length elim!: next_varint_Inr split: if_splits)
      (auto simp: u62_def)
  then show "ConnectionCloseFrame_wf f" and "l \<le> length b"
    by simp_all
qed

section \<open>HANDSHAKE\_DONE and PING\<close>

definition HandshakeDoneFrame_Append :: "byte list \<Rightarrow> byte list result" where
  "HandshakeDoneFrame_Append b = Inr (b @ [handshakeDoneFrameType])"

definition HandshakeDoneFrame_Length :: "ByteCount result" where
  "HandshakeDoneFrame_Length = Inr 1"

definition PingFrame_Append :: "byte list \<Rightarrow> byte list result" where
  "PingFrame_Append b = Inr (b @ [pingFrameType])"

definition PingFrame_Length :: "ByteCount result" where
  "PingFrame_Length = Inr 1"

end
