(* ===== verification/Wire_Data_Frames.thy ===== *)
theory Wire_Data_Frames
  imports Wire
begin

text \<open>
  The frames that carry data: CRYPTO, STREAM and DATAGRAM, with the computation of how much data
  fits into a frame and the splitting of a frame that does not. The pool that STREAM frames with
  large payloads are taken from only reuses memory and is left out, except for the one thing it
  decides: a payload beyond the capacity of a pooled buffer is refused.
\<close>

section \<open>CRYPTO\<close>

record CryptoFrame =
  cf_Offset :: ByteCount
  cf_Data :: "byte list"

definition parseCryptoFrame :: "byte list \<Rightarrow> (CryptoFrame \<times> nat) result" where
  "parseCryptoFrame b =
     (let startLen = length b in
      next_varint b (\<lambda>offset l b.
      next_varint b (\<lambda>dataLen l b.
        if unat dataLen > length b then Inl EOF
        else Inr (\<lparr>cf_Offset = int64 offset, cf_Data = take (unat dataLen) b\<rparr>,
                  startLen - length b + unat dataLen))))"

definition CryptoFrame_Append :: "byte list \<Rightarrow> CryptoFrame \<Rightarrow> byte list result" where
  "CryptoFrame_Append b f =
     (let b = b @ [cryptoFrameType] in
      rbind (varint_Append b (uint64 (cf_Offset f))) (\<lambda>b.
      rbind (varint_Append b (uint64 (int (length (cf_Data f))))) (\<lambda>b.
      Inr (b @ cf_Data f))))"

definition CryptoFrame_Length :: "CryptoFrame \<Rightarrow> ByteCount result" where
  "CryptoFrame_Length f =
     rbind (varint_Len (uint64 (cf_Offset f))) (\<lambda>l1.
     rbind (varint_Len (uint64 (int (length (cf_Data f))))) (\<lambda>l2.
       Inr (int (1 + l1 + l2 + length (cf_Data f)))))"

definition CryptoFrame_MaxDataLen :: "CryptoFrame \<Rightarrow> ByteCount \<Rightarrow> ByteCount result" where
  "CryptoFrame_MaxDataLen f maxSize =
     rbind (varint_Len (uint64 (cf_Offset f))) (\<lambda>l1.
       let headerLen = int (1 + l1 + 1) in
       if headerLen > maxSize then Inr 0
       else let maxDataLen = maxSize - headerLen in
       rbind (varint_Len (uint64 maxDataLen)) (\<lambda>l2.
         if l2 \<noteq> 1 then Inr (maxDataLen - 1) else Inr maxDataLen))"

text \<open>
  The result is the new frame (if any), the flag, and what the receiver frame has become.
  Slicing beyond the data panics.
\<close>

definition CryptoFrame_MaybeSplitOffFrame ::
  "CryptoFrame \<Rightarrow> ByteCount \<Rightarrow> (CryptoFrame option \<times> bool \<times> CryptoFrame) result" where
  "CryptoFrame_MaybeSplitOffFrame f maxSize =
     rbind (CryptoFrame_Length f) (\<lambda>len.
       if len \<le> maxSize then Inr (None, False, f)
       else rbind (CryptoFrame_MaxDataLen f maxSize) (\<lambda>n.
         if n = 0 then Inr (None, True, f)
         else if n < 0 \<or> n > int (length (cf_Data f)) then Inl (Panic ''slice bounds out of range'')
         else Inr (Some \<lparr>cf_Offset = cf_Offset f, cf_Data = take (nat n) (cf_Data f)\<rparr>, True,
                   f\<lparr>cf_Data := drop (nat n) (cf_Data f), cf_Offset := cf_Offset f + n\<rparr>)))"

section \<open>STREAM\<close>

record StreamFrame =
  sf_StreamID :: StreamID
  sf_Offset :: ByteCount
  sf_Data :: "byte list"
  sf_Fin :: bool
  sf_DataLenPresent :: bool

definition StreamFrame_DataLen :: "StreamFrame \<Rightarrow> ByteCount" where
  "StreamFrame_DataLen f = int (length (sf_Data f))"

definition parseStreamFrame :: "u64 \<Rightarrow> byte list \<Rightarrow> (StreamFrame \<times> nat) result" where
  "parseStreamFrame typ b =
     (let startLen = length b;
          hasOffset = (typ AND 4 > 0);
          fin = (typ AND 1 > 0);
          hasDataLen = (typ AND 2 > 0) in
      next_varint b (\<lambda>streamID l b.
      rbind (if hasOffset then next_varint b (\<lambda>offset l b. Inr (offset, b)) else Inr (0, b)) (\<lambda>(offset, b).
      rbind (if hasDataLen
             then next_varint b (\<lambda>dataLen l b.
               if unat dataLen > length b then Inl EOF else Inr (unat dataLen, b))
             else Inr (length b, b)) (\<lambda>(dataLen, b).
        if \<not> dataLen < MinStreamFrameBufferSize \<and> dataLen > MaxPacketBufferSize then Inl EOF
        else let frame = \<lparr>sf_StreamID = int64 streamID, sf_Offset = int64 offset,
                          sf_Data = take dataLen b, sf_Fin = fin, sf_DataLenPresent = hasDataLen\<rparr> in
        if sf_Offset frame + StreamFrame_DataLen frame > MaxByteCount
        then Inl (ErrorNew ''stream data overflows maximum offset'')
        else Inr (frame, startLen - length b + dataLen)))))"

definition StreamFrame_Append :: "byte list \<Rightarrow> StreamFrame \<Rightarrow> byte list result" where
  "StreamFrame_Append b f =
     (if length (sf_Data f) = 0 \<and> \<not> sf_Fin f
      then Inl (ErrorNew ''StreamFrame: attempting to write empty frame without FIN'')
      else let typ = (0x8 :: byte);
               typ = (if sf_Fin f then typ XOR 1 else typ);
               hasOffset = (sf_Offset f \<noteq> 0);
               typ = (if sf_DataLenPresent f then typ XOR 2 else typ);
               typ = (if hasOffset then typ XOR 4 else typ);
               b = b @ [typ] in
      rbind (varint_Append b (uint64 (sf_StreamID f))) (\<lambda>b.
      rbind (if hasOffset then varint_Append b (uint64 (sf_Offset f)) else Inr b) (\<lambda>b.
      rbind (if sf_DataLenPresent f then varint_Append b (uint64 (StreamFrame_DataLen f)) else Inr b) (\<lambda>b.
      Inr (b @ sf_Data f)))))"

definition StreamFrame_Length :: "StreamFrame \<Rightarrow> ByteCount result" where
  "StreamFrame_Length f =
     rbind (varint_Len (uint64 (sf_StreamID f))) (\<lambda>l1.
     rbind (if sf_Offset f \<noteq> 0 then varint_Len (uint64 (sf_Offset f)) else Inr 0) (\<lambda>l2.
     rbind (if sf_DataLenPresent f then varint_Len (uint64 (StreamFrame_DataLen f)) else Inr 0) (\<lambda>l3.
       Inr (int (1 + l1 + l2 + l3) + StreamFrame_DataLen f))))"

definition StreamFrame_MaxDataLen :: "StreamFrame \<Rightarrow> ByteCount \<Rightarrow> ByteCount result" where
  "StreamFrame_MaxDataLen f maxSize =
     rbind (varint_Len (uint64 (sf_StreamID f))) (\<lambda>l1.
     rbind (if sf_Offset f \<noteq> 0 then varint_Len (uint64 (sf_Offset f)) else Inr 0) (\<lambda>l2.
       let headerLen = 1 + int l1 + int l2 + (if sf_DataLenPresent f then 1 else 0) in
       if headerLen > maxSize then Inr 0
       else let maxDataLen = maxSize - headerLen in
       if sf_DataLenPresent f
       then rbind (varint_Len (uint64 maxDataLen)) (\<lambda>l3.
         if l3 \<noteq> 1 then Inr (maxDataLen - 1) else Inr maxDataLen)
       else Inr maxDataLen))"

text \<open>
  The remainder moves into a buffer of the pool, so a remainder beyond its capacity
  panics, as does slicing beyond the data.
\<close>

definition StreamFrame_MaybeSplitOffFrame ::
  "StreamFrame \<Rightarrow> ByteCount \<Rightarrow> (StreamFrame option \<times> bool \<times> StreamFrame) result" where
  "StreamFrame_MaybeSplitOffFrame f maxSize =
     rbind (StreamFrame_Length f) (\<lambda>len.
       if maxSize \<ge> len then Inr (None, False, f)
       else rbind (StreamFrame_MaxDataLen f maxSize) (\<lambda>n.
         if n = 0 then Inr (None, True, f)
         else if n < 0 \<or> n > StreamFrame_DataLen f \<or> StreamFrame_DataLen f - n > int MaxPacketBufferSize
         then Inl (Panic ''slice bounds out of range'')
         else Inr (Some \<lparr>sf_StreamID = sf_StreamID f, sf_Offset = sf_Offset f,
                         sf_Data = take (nat n) (sf_Data f), sf_Fin = False,
                         sf_DataLenPresent = sf_DataLenPresent f\<rparr>, True,
                   f\<lparr>sf_Data := drop (nat n) (sf_Data f), sf_Offset := sf_Offset f + n\<rparr>)))"

section \<open>DATAGRAM\<close>

record DatagramFrame =
  df_DataLenPresent :: bool
  df_Data :: "byte list"

definition parseDatagramFrame :: "u64 \<Rightarrow> byte list \<Rightarrow> (DatagramFrame \<times> nat) result" where
  "parseDatagramFrame typ b =
     (let startLen = length b;
          dataLenPresent = (typ AND 1 > 0) in
      rbind (if dataLenPresent
             then next_varint b (\<lambda>len l b. if unat len > length b then Inl EOF else Inr (unat len, b))
             else Inr (length b, b)) (\<lambda>(len, b).
        Inr (\<lparr>df_DataLenPresent = dataLenPresent, df_Data = take len b\<rparr>, startLen - length b + len)))"

definition DatagramFrame_Append :: "byte list \<Rightarrow> DatagramFrame \<Rightarrow> byte list result" where
  "DatagramFrame_Append b f =
     (let typ = (0x30 :: byte);
          typ = (if df_DataLenPresent f then typ XOR 1 else typ);
          b = b @ [typ] in
      rbind (if df_DataLenPresent f then varint_Append b (uint64 (int (length (df_Data f)))) else Inr b) (\<lambda>b.
      Inr (b @ df_Data f)))"

definition DatagramFrame_MaxDataLen :: "DatagramFrame \<Rightarrow> ByteCount \<Rightarrow> ByteCount result" where
  "DatagramFrame_MaxDataLen f maxSize =
     (let headerLen = (if df_DataLenPresent f then 1 + 1 else 1) in
      if headerLen > maxSize then Inr 0
      else let maxDataLen = maxSize - headerLen in
      if df_DataLenPresent f
      then rbind (varint_Len (uint64 maxDataLen)) (\<lambda>l.
        if l \<noteq> 1 then Inr (maxDataLen - 1) else Inr maxDataLen)
      else Inr maxDataLen)"

definition DatagramFrame_Length :: "DatagramFrame \<Rightarrow> ByteCount result" where
  "DatagramFrame_Length f =
     (let len = 1 + int (length (df_Data f)) in
      if df_DataLenPresent f
      then rbind (varint_Len (uint64 (int (length (df_Data f))))) (\<lambda>l. Inr (len + int l))
      else Inr len)"

section \<open>The frames keep the contract\<close>

definition CryptoFrame_wf :: "CryptoFrame \<Rightarrow> bool" where
  "CryptoFrame_wf f \<longleftrightarrow> in62 (cf_Offset f) \<and> length (cf_Data f) < 2 ^ 62"

definition CryptoFrame_body :: "CryptoFrame \<Rightarrow> byte list" where
  "CryptoFrame_body f =
     vbytes (uint64 (cf_Offset f)) @ vbytes (uint64 (int (length (cf_Data f)))) @ cf_Data f"

interpretation crypto: wire_codec CryptoFrame_wf "\<lambda>_. True" "\<lambda>_. cryptoFrameType"
  CryptoFrame_body CryptoFrame_Append CryptoFrame_Length "\<lambda>_. parseCryptoFrame"
proof unfold_locales
  fix b f l
  assume "parseCryptoFrame b = Inr (f, l)"
  then have "CryptoFrame_wf f \<and> l \<le> length b"
    unfolding parseCryptoFrame_def Let_def
    by (auto simp: CryptoFrame_wf_def in62_int64 elim!: next_varint_Inr split: if_splits) (simp add: u62_def)
  then show "CryptoFrame_wf f" and "l \<le> length b"
    by simp_all
qed (auto simp: CryptoFrame_wf_def CryptoFrame_body_def CryptoFrame_Append_def CryptoFrame_Length_def
  parseCryptoFrame_def Let_def wire_simps intro!: next_varint_no_panic)

definition StreamFrame_wf :: "StreamFrame \<Rightarrow> bool" where
  "StreamFrame_wf f \<longleftrightarrow> in62 (sf_StreamID f) \<and> in62 (sf_Offset f) \<and>
     (sf_Data f \<noteq> [] \<or> sf_Fin f) \<and> length (sf_Data f) \<le> 1452 \<and>
     sf_Offset f + int (length (sf_Data f)) \<le> MaxByteCount"

definition StreamFrame_type :: "StreamFrame \<Rightarrow> byte" where
  "StreamFrame_type f =
     8 + (if sf_Fin f then 1 else 0) + (if sf_DataLenPresent f then 2 else 0) + (if sf_Offset f \<noteq> 0 then 4 else 0)"

definition StreamFrame_body :: "StreamFrame \<Rightarrow> byte list" where
  "StreamFrame_body f =
     vbytes (uint64 (sf_StreamID f)) @ (if sf_Offset f \<noteq> 0 then vbytes (uint64 (sf_Offset f)) else []) @
     (if sf_DataLenPresent f then vbytes (uint64 (int (length (sf_Data f)))) else []) @ sf_Data f"

lemma StreamFrame_cases:
  obtains "sf_Fin f" "sf_DataLenPresent f" "sf_Offset f = 0"
    | "sf_Fin f" "sf_DataLenPresent f" "sf_Offset f \<noteq> 0"
    | "sf_Fin f" "\<not> sf_DataLenPresent f" "sf_Offset f = 0"
    | "sf_Fin f" "\<not> sf_DataLenPresent f" "sf_Offset f \<noteq> 0"
    | "\<not> sf_Fin f" "sf_DataLenPresent f" "sf_Offset f = 0"
    | "\<not> sf_Fin f" "sf_DataLenPresent f" "sf_Offset f \<noteq> 0"
    | "\<not> sf_Fin f" "\<not> sf_DataLenPresent f" "sf_Offset f = 0"
    | "\<not> sf_Fin f" "\<not> sf_DataLenPresent f" "sf_Offset f \<noteq> 0"
  by blast

lemma StreamFrame_type_bits:
  "0 < (ucast (StreamFrame_type f) :: u64) AND 1 \<longleftrightarrow> sf_Fin f"
  "0 < (ucast (StreamFrame_type f) :: u64) AND 2 \<longleftrightarrow> sf_DataLenPresent f"
  "0 < (ucast (StreamFrame_type f) :: u64) AND 4 \<longleftrightarrow> sf_Offset f \<noteq> 0"
  by (cases f rule: StreamFrame_cases; simp add: StreamFrame_type_def)+

interpretation stream: wire_frame StreamFrame_wf sf_DataLenPresent StreamFrame_type
  StreamFrame_body StreamFrame_Append StreamFrame_Length parseStreamFrame
proof unfold_locales
  fix f b
  assume wf: "StreamFrame_wf f"
  have len: "length (sf_Data f) < 2 ^ 62"
    using wf by (simp add: StreamFrame_wf_def)
  have ne: "\<not> (sf_Data f = [] \<and> \<not> sf_Fin f)" and s: "in62 (sf_StreamID f)" and o: "in62 (sf_Offset f)"
    using wf by (auto simp: StreamFrame_wf_def)
  show "StreamFrame_Append b f = Inr (b @ StreamFrame_type f # StreamFrame_body f)"
    by (cases f rule: StreamFrame_cases) (use ne s o len in \<open>simp_all add: StreamFrame_body_def StreamFrame_type_def
      StreamFrame_Append_def StreamFrame_DataLen_def wire_simps\<close>)
  show "StreamFrame_Length f = Inr (1 + int (length (StreamFrame_body f)))"
    by (cases f rule: StreamFrame_cases) (use s o len in \<open>simp_all add: StreamFrame_body_def
      StreamFrame_Length_def StreamFrame_DataLen_def wire_simps\<close>)
next
  fix f and rest :: "byte list"
  assume wf: "StreamFrame_wf f" and r: "sf_DataLenPresent f \<or> rest = []"
  have len: "length (sf_Data f) < 2 ^ 62" and cap: "\<not> 1452 < length (sf_Data f)"
    using wf by (simp_all add: StreamFrame_wf_def)
  have s: "in62 (sf_StreamID f)" and o: "in62 (sf_Offset f)"
    and m: "\<not> MaxByteCount < sf_Offset f + int (length (sf_Data f))"
    using wf by (auto simp: StreamFrame_wf_def)
  show "parseStreamFrame (ucast (StreamFrame_type f)) (StreamFrame_body f @ rest) =
      Inr (f, length (StreamFrame_body f))"
    unfolding parseStreamFrame_def StreamFrame_type_bits Let_def StreamFrame_DataLen_def MaxPacketBufferSize_def
    by (cases f rule: StreamFrame_cases) (use s o m len cap r in \<open>simp_all add: StreamFrame_body_def wire_simps\<close>)
qed

interpretation stream_parser: wire_parser parseStreamFrame
proof unfold_locales
  fix t b
  show "\<not> is_panic (parseStreamFrame t b)"
    unfolding parseStreamFrame_def by (intro no_panic) simp_all
next
  fix t b f l
  have "returns (\<lambda>(f, l). l \<le> length b) (parseStreamFrame t b)"
    unfolding parseStreamFrame_def by (intro returns) auto
  moreover assume "parseStreamFrame t b = Inr (f, l)"
  ultimately show "l \<le> length b"
    by (auto dest: returnsD)
qed

definition DatagramFrame_wf :: "DatagramFrame \<Rightarrow> bool" where
  "DatagramFrame_wf f \<longleftrightarrow> length (df_Data f) < 2 ^ 62"

definition DatagramFrame_type :: "DatagramFrame \<Rightarrow> byte" where
  "DatagramFrame_type f = (if df_DataLenPresent f then 0x31 else 0x30)"

definition DatagramFrame_body :: "DatagramFrame \<Rightarrow> byte list" where
  "DatagramFrame_body f =
     (if df_DataLenPresent f then vbytes (uint64 (int (length (df_Data f)))) else []) @ df_Data f"

interpretation datagram: wire_frame DatagramFrame_wf df_DataLenPresent DatagramFrame_type
  DatagramFrame_body DatagramFrame_Append DatagramFrame_Length parseDatagramFrame
  by unfold_locales (auto simp: DatagramFrame_wf_def DatagramFrame_type_def DatagramFrame_body_def
    DatagramFrame_Append_def DatagramFrame_Length_def parseDatagramFrame_def Let_def wire_simps
    intro: DatagramFrame.equality)

interpretation datagram_parser: wire_parser parseDatagramFrame
proof unfold_locales
  fix t b
  show "\<not> is_panic (parseDatagramFrame t b)"
    unfolding parseDatagramFrame_def by (intro no_panic) simp_all
next
  fix t b f l
  have "returns (\<lambda>(f, l). l \<le> length b) (parseDatagramFrame t b)"
    unfolding parseDatagramFrame_def by (intro returns) auto
  moreover assume "parseDatagramFrame t b = Inr (f, l)"
  ultimately show "l \<le> length b"
    by (auto dest: returnsD)
qed

section \<open>How much data fits\<close>

text \<open>
  The three \<open>MaxDataLen\<close> functions assume a one-byte length field and take one byte less when the
  length then needs more. As long as sizes stay below \<open>2 ^ 14\<close> the resulting frame fits, and it
  is strictly shorter than a frame that does not fit.
\<close>

definition fit_len :: "bool \<Rightarrow> int \<Rightarrow> int \<Rightarrow> int" where
  "fit_len lenPresent hdr maxSize =
     (let h = hdr + (if lenPresent then 1 else 0) in
      if h > maxSize then 0
      else if lenPresent \<and> vsize (uint64 (maxSize - h)) \<noteq> 1 then maxSize - h - 1
      else maxSize - h)"

lemma vsize_uint64: "0 \<le> n \<Longrightarrow> n < 2 ^ 62 \<Longrightarrow> vsize (uint64 n) =
    (if n < 2 ^ 6 then 1 else if n < 2 ^ 14 then 2 else if n < 2 ^ 30 then 4 else 8)"
  by (auto simp: vsize_def varint_size_def unat_uint64 nat_less_iff)

lemma fit_len_bounds:
  assumes "0 \<le> hdr" and "0 \<le> d" and "d < 2 ^ 14"
    and big: "maxSize < hdr + (if p then int (vsize (uint64 d)) else 0) + d"
    and n: "n = fit_len p hdr maxSize"
  shows "0 \<le> n" and "n \<noteq> 0 \<Longrightarrow> n < d"
    and "n \<noteq> 0 \<Longrightarrow> hdr + (if p then int (vsize (uint64 n)) else 0) + n \<le> maxSize"
proof -
  have "vsize (uint64 d) \<le> 2"
    using assms by (simp add: vsize_uint64)
  then have "maxSize < hdr + 2 + 2 ^ 14"
    using assms by (auto split: if_splits)
  then show "0 \<le> n" "n \<noteq> 0 \<Longrightarrow> n < d"
    "n \<noteq> 0 \<Longrightarrow> hdr + (if p then int (vsize (uint64 n)) else 0) + n \<le> maxSize"
    using assms by (auto simp: fit_len_def vsize_uint64 Let_def split: if_splits)
qed

definition StreamFrame_header :: "StreamFrame \<Rightarrow> int" where
  "StreamFrame_header f =
     1 + int (vsize (uint64 (sf_StreamID f))) + (if sf_Offset f \<noteq> 0 then int (vsize (uint64 (sf_Offset f))) else 0)"

lemma StreamFrame_Length_header:
  assumes "in62 (sf_StreamID f)" and "in62 (sf_Offset f)" and "length (sf_Data f) < 2 ^ 62"
  shows "StreamFrame_Length f = Inr (StreamFrame_header f +
    (if sf_DataLenPresent f then int (vsize (uint64 (StreamFrame_DataLen f))) else 0) + StreamFrame_DataLen f)"
  using assms by (simp add: StreamFrame_Length_def StreamFrame_header_def StreamFrame_DataLen_def wire_simps)

lemma StreamFrame_MaxDataLen_fit:
  assumes "in62 (sf_StreamID f)" and "in62 (sf_Offset f)" and "maxSize < 2 ^ 62"
  shows "StreamFrame_MaxDataLen f maxSize = Inr (fit_len (sf_DataLenPresent f) (StreamFrame_header f) maxSize)"
proof -
  have "in62 n" if "0 \<le> n" "n \<le> maxSize" for n
    using that assms(3) by (simp add: in62_def)
  then show ?thesis
    using assms by (auto simp: StreamFrame_MaxDataLen_def StreamFrame_header_def fit_len_def Let_def wire_simps)
qed

lemma CryptoFrame_MaxDataLen_fit:
  assumes "in62 (cf_Offset f)" and "maxSize < 2 ^ 62"
  shows "CryptoFrame_MaxDataLen f maxSize = Inr (fit_len True (1 + int (vsize (uint64 (cf_Offset f)))) maxSize)"
proof -
  have "in62 n" if "0 \<le> n" "n \<le> maxSize" for n
    using that assms(2) by (simp add: in62_def)
  then show ?thesis
    using assms by (auto simp: CryptoFrame_MaxDataLen_def fit_len_def Let_def wire_simps algebra_simps)
qed

lemma DatagramFrame_MaxDataLen_fit:
  assumes "maxSize < 2 ^ 62"
  shows "DatagramFrame_MaxDataLen f maxSize = Inr (fit_len (df_DataLenPresent f) 1 maxSize)"
proof -
  have "in62 n" if "0 \<le> n" "n \<le> maxSize" for n
    using that assms by (simp add: in62_def)
  then show ?thesis
    by (auto simp: DatagramFrame_MaxDataLen_def fit_len_def Let_def wire_simps algebra_simps)
qed

text \<open>What it means that \<open>g\<close> and \<open>rest\<close> are the two parts of \<open>f\<close>.\<close>

definition StreamFrame_parts :: "StreamFrame \<Rightarrow> StreamFrame \<Rightarrow> StreamFrame \<Rightarrow> bool" where
  "StreamFrame_parts f g rest \<longleftrightarrow>
     sf_Data g \<noteq> [] \<and> sf_Data rest \<noteq> [] \<and> sf_Data g @ sf_Data rest = sf_Data f \<and>
     sf_StreamID g = sf_StreamID f \<and> sf_StreamID rest = sf_StreamID f \<and>
     sf_Offset g = sf_Offset f \<and> sf_Offset rest = sf_Offset g + StreamFrame_DataLen g \<and>
     \<not> sf_Fin g \<and> sf_Fin rest = sf_Fin f \<and>
     sf_DataLenPresent g = sf_DataLenPresent f \<and> sf_DataLenPresent rest = sf_DataLenPresent f"

section \<open>Properties\<close>

text \<open>
  Splitting a STREAM frame. For a frame whose payload fits a pooled buffer, and any size
  limit, \<open>MaybeSplitOffFrame\<close> never panics, and: either the frame already fits and nothing changes;
  or not even one byte fits, no frame is returned and nothing changes; or the returned frame fits,
  is not empty, never carries the FIN, and together with the remainder (not empty, contiguous,
  keeping the FIN) holds exactly the original data at the original offset.
\<close>

theorem StreamFrame_split:
  assumes "in62 (sf_StreamID f)" and "in62 (sf_Offset f)" and "length (sf_Data f) \<le> 1452" and "maxSize < 2 ^ 62"
  shows "\<exists>len. StreamFrame_Length f = Inr len \<and>
    (if len \<le> maxSize then StreamFrame_MaybeSplitOffFrame f maxSize = Inr (None, False, f)
     else StreamFrame_MaybeSplitOffFrame f maxSize = Inr (None, True, f) \<or>
       (\<exists>g rest glen. StreamFrame_MaybeSplitOffFrame f maxSize = Inr (Some g, True, rest) \<and>
          StreamFrame_parts f g rest \<and> StreamFrame_Length g = Inr glen \<and> glen \<le> maxSize))"
proof -
  let ?len = "StreamFrame_header f +
    (if sf_DataLenPresent f then int (vsize (uint64 (StreamFrame_DataLen f))) else 0) + StreamFrame_DataLen f"
  define n where "n = fit_len (sf_DataLenPresent f) (StreamFrame_header f) maxSize"
  have len: "StreamFrame_Length f = Inr ?len"
    using assms by (intro StreamFrame_Length_header) simp_all
  have max: "StreamFrame_MaxDataLen f maxSize = Inr n"
    unfolding n_def using assms by (intro StreamFrame_MaxDataLen_fit)
  consider "?len \<le> maxSize" | "maxSize < ?len" "n = 0" | "maxSize < ?len" "n \<noteq> 0"
    by linarith
  then show ?thesis
  proof cases
    case 3
    let ?g = "\<lparr>sf_StreamID = sf_StreamID f, sf_Offset = sf_Offset f, sf_Data = take (nat n) (sf_Data f),
      sf_Fin = False, sf_DataLenPresent = sf_DataLenPresent f\<rparr>"
    let ?rest = "f\<lparr>sf_Data := drop (nat n) (sf_Data f), sf_Offset := sf_Offset f + n\<rparr>"
    have n: "0 < n" "n < StreamFrame_DataLen f"
      "StreamFrame_header f + (if sf_DataLenPresent f then int (vsize (uint64 n)) else 0) + n \<le> maxSize"
      using 3 assms(3) fit_len_bounds [OF _ _ _ _ n_def, of "StreamFrame_DataLen f"]
      by (simp_all add: StreamFrame_header_def StreamFrame_DataLen_def)
    then have dl: "StreamFrame_DataLen ?g = n"
      by (simp add: StreamFrame_DataLen_def)
    have glen: "\<exists>glen. StreamFrame_Length ?g = Inr glen \<and> glen \<le> maxSize"
      using StreamFrame_Length_header [of ?g, unfolded dl] assms n
      by (simp add: StreamFrame_header_def cong: if_cong)
    have parts: "StreamFrame_parts f ?g ?rest"
      unfolding StreamFrame_parts_def dl using n by (auto simp: StreamFrame_DataLen_def)
    have "StreamFrame_MaybeSplitOffFrame f maxSize = Inr (Some ?g, True, ?rest)"
      using 3 n assms(3)
      by (simp add: StreamFrame_MaybeSplitOffFrame_def len max StreamFrame_DataLen_def MaxPacketBufferSize_def)
    with glen parts show ?thesis
      using 3 len by auto
  qed (simp_all add: StreamFrame_MaybeSplitOffFrame_def len max)
qed

theorem StreamFrame_split_witness:
  "let f = \<lparr>sf_StreamID = 4, sf_Offset = 10, sf_Data = [1, 2, 3, 4], sf_Fin = True, sf_DataLenPresent = True\<rparr> in
   \<exists>len. StreamFrame_Length f = Inr len \<and>
    (if len \<le> 6 then StreamFrame_MaybeSplitOffFrame f 6 = Inr (None, False, f)
     else StreamFrame_MaybeSplitOffFrame f 6 = Inr (None, True, f) \<or>
       (\<exists>g rest glen. StreamFrame_MaybeSplitOffFrame f 6 = Inr (Some g, True, rest) \<and>
          StreamFrame_parts f g rest \<and> StreamFrame_Length g = Inr glen \<and> glen \<le> 6))"
  unfolding Let_def by (rule StreamFrame_split) (simp_all add: in62_def)

end
