(* ===== verification/Wire_Ack.thy ===== *)
theory Wire_Ack
  imports Wire
begin

text \<open>
  ACK frames (\<open>internal/wire/ack_frame.go\<close>, \<open>ack_range.go\<close>): parsing with validation of the
  ranges, writing as many ranges as the size limit allows, and the membership test by binary
  search. Indexing the ranges of a frame without ranges panics.
\<close>

section \<open>The frame\<close>

record AckRange =
  Smallest :: PacketNumber
  Largest :: PacketNumber

definition AckRange_Len :: "AckRange \<Rightarrow> PacketNumber" where
  "AckRange_Len r = Largest r - Smallest r + 1"

record AckFrame =
  AckRanges :: "AckRange list"
  DelayTime :: Duration
  af_ECT0 :: u64
  af_ECT1 :: u64
  af_ECNCE :: u64

definition errInvalidAckRanges :: go_error where
  "errInvalidAckRanges = ErrorNew ''AckFrame: ACK frame contains invalid ACK ranges''"

definition index_panic :: go_error where
  "index_panic = Panic ''index out of range''"

definition AckFrame_Reset :: "AckFrame \<Rightarrow> AckFrame" where
  "AckFrame_Reset f = f\<lparr>DelayTime := 0, af_ECT0 := 0, af_ECT1 := 0, af_ECNCE := 0, AckRanges := []\<rparr>"

text \<open>The consistency loop compares every range with the one before it.\<close>

fun ranges_descending :: "AckRange list \<Rightarrow> bool" where
  "ranges_descending (lastAckRange # ackRange # rs) =
     (if Smallest lastAckRange \<le> Smallest ackRange then False
      else if Smallest lastAckRange \<le> Largest ackRange + 1 then False
      else ranges_descending (ackRange # rs))"
| "ranges_descending rs = True"

definition validateAckRanges :: "AckFrame \<Rightarrow> bool" where
  "validateAckRanges f =
     (if length (AckRanges f) = 0 then False
      else if \<exists>ackRange \<in> set (AckRanges f). Smallest ackRange > Largest ackRange then False
      else ranges_descending (AckRanges f))"

section \<open>Parsing\<close>

text \<open>
  \<open>time.Duration(delay << ackDelayExponent) * time.Microsecond\<close>: the shift wraps at 64 bits, and
  so does the signed multiplication. A negative product is replaced by the largest duration.
\<close>

definition ack_delay :: "u64 \<Rightarrow> nat \<Rightarrow> Duration" where
  "ack_delay delay ackDelayExponent =
     (let delayTime = int64 (push_bit ackDelayExponent delay * 1000) in
      if delayTime < 0 then 2 ^ 63 - 1 else delayTime)"

fun parse_ack_ranges :: "nat \<Rightarrow> PacketNumber \<Rightarrow> AckRange list \<Rightarrow> byte list \<Rightarrow>
    (AckRange list \<times> byte list) result" where
  "parse_ack_ranges 0 smallest ranges b = Inr (ranges, b)"
| "parse_ack_ranges (Suc numBlocks) smallest ranges b =
     next_varint b (\<lambda>g l b.
       let gap = int64 g in
       if smallest < gap + 2 then Inl errInvalidAckRanges
       else let largest = smallest - gap - 2 in
       next_varint b (\<lambda>ab l b.
         let ackBlock = int64 ab in
         if ackBlock > largest then Inl errInvalidAckRanges
         else let smallest = largest - ackBlock in
         parse_ack_ranges numBlocks smallest (ranges @ [\<lparr>Smallest = smallest, Largest = largest\<rparr>]) b))"

definition parseAckFrame :: "AckFrame \<Rightarrow> byte list \<Rightarrow> u64 \<Rightarrow> nat \<Rightarrow> (AckFrame \<times> nat) result" where
  "parseAckFrame frame b typ ackDelayExponent =
     (let startLen = length b;
          ecn = (typ = ucast ackECNFrameType) in
      next_varint b (\<lambda>la l b.
      next_varint b (\<lambda>delay l b.
      next_varint b (\<lambda>numBlocks l b.
      next_varint b (\<lambda>ab l b.
        let largestAcked = int64 la;
            ackBlock = int64 ab;
            frame = frame\<lparr>DelayTime := ack_delay delay ackDelayExponent\<rparr> in
        if ackBlock > largestAcked then Inl (ErrorNew ''invalid first ACK range'')
        else let smallest = largestAcked - ackBlock in
        rbind (parse_ack_ranges (unat numBlocks) smallest
            (AckRanges frame @ [\<lparr>Smallest = smallest, Largest = largestAcked\<rparr>]) b) (\<lambda>(ranges, b).
          let frame = frame\<lparr>AckRanges := ranges\<rparr> in
          if \<not> validateAckRanges frame then Inl errInvalidAckRanges
          else if ecn then
            next_varint b (\<lambda>ect0 l b.
            next_varint b (\<lambda>ect1 l b.
            next_varint b (\<lambda>ecnce l b.
              Inr (frame\<lparr>af_ECT0 := ect0, af_ECT1 := ect1, af_ECNCE := ecnce\<rparr>, startLen - length b))))
          else Inr (frame, startLen - length b)))))))"

section \<open>Writing\<close>

definition LargestAcked :: "AckFrame \<Rightarrow> PacketNumber result" where
  "LargestAcked f = (case AckRanges f of [] \<Rightarrow> Inl index_panic | r # _ \<Rightarrow> Inr (Largest r))"

definition LowestAcked :: "AckFrame \<Rightarrow> PacketNumber result" where
  "LowestAcked f =
     (if AckRanges f = [] then Inl index_panic
      else Inr (Smallest (AckRanges f ! (length (AckRanges f) - 1))))"

definition HasMissingRanges :: "AckFrame \<Rightarrow> bool" where
  "HasMissingRanges f \<longleftrightarrow> length (AckRanges f) > 1"

definition encodeAckDelay :: "Duration \<Rightarrow> u64" where
  "encodeAckDelay delay = uint64 (go_div delay (1000 * 2 ^ AckDelayExponent))"

text \<open>The gap and the length of range \<open>i\<close>, which the callers keep within the list.\<close>

definition encodeAckRange :: "AckFrame \<Rightarrow> nat \<Rightarrow> u64 \<times> u64" where
  "encodeAckRange f i =
     (if i = 0 then (0, uint64 (Largest (AckRanges f ! 0) - Smallest (AckRanges f ! 0)))
      else (uint64 (Smallest (AckRanges f ! (i - 1)) - Largest (AckRanges f ! i) - 2),
            uint64 (Largest (AckRanges f ! i) - Smallest (AckRanges f ! i))))"

fun num_encodable_loop :: "AckFrame \<Rightarrow> nat list \<Rightarrow> nat \<Rightarrow> nat result" where
  "num_encodable_loop f [] len = Inr (length (AckRanges f))"
| "num_encodable_loop f (i # is) len =
     (let (gap, l) = encodeAckRange f i in
      rbind (varint_Len gap) (\<lambda>l1. rbind (varint_Len l) (\<lambda>l2.
        let rangeLen = l1 + l2 in
        if int (len + rangeLen) > MaxAckFrameSize then Inr (i - 1)
        else num_encodable_loop f is (len + rangeLen))))"

definition numEncodableAckRanges :: "AckFrame \<Rightarrow> nat result" where
  "numEncodableAckRanges f =
     rbind (LargestAcked f) (\<lambda>la.
     rbind (varint_Len (uint64 la)) (\<lambda>l1.
     rbind (varint_Len (encodeAckDelay (DelayTime f))) (\<lambda>l2.
       num_encodable_loop f [1..<length (AckRanges f)] (1 + l1 + l2 + 2))))"

fun append_ack_ranges :: "AckFrame \<Rightarrow> nat list \<Rightarrow> byte list \<Rightarrow> byte list result" where
  "append_ack_ranges f [] b = Inr b"
| "append_ack_ranges f (i # is) b =
     (let (gap, len) = encodeAckRange f i in
      rbind (varint_Append b gap) (\<lambda>b. rbind (varint_Append b len) (\<lambda>b. append_ack_ranges f is b)))"

definition AckFrame_Append :: "byte list \<Rightarrow> AckFrame \<Rightarrow> byte list result" where
  "AckFrame_Append b f =
     (let hasECN = (af_ECT0 f > 0 \<or> af_ECT1 f > 0 \<or> af_ECNCE f > 0);
          b = (if hasECN then b @ [ackECNFrameType] else b @ [ackFrameType]) in
      rbind (LargestAcked f) (\<lambda>la.
      rbind (varint_Append b (uint64 la)) (\<lambda>b.
      rbind (varint_Append b (encodeAckDelay (DelayTime f))) (\<lambda>b.
      rbind (numEncodableAckRanges f) (\<lambda>numRanges.
      rbind (varint_Append b (uint64 (int numRanges - 1))) (\<lambda>b.
      rbind (varint_Append b (snd (encodeAckRange f 0))) (\<lambda>b.
      rbind (append_ack_ranges f [1..<numRanges] b) (\<lambda>b.
      if hasECN then
        rbind (varint_Append b (af_ECT0 f)) (\<lambda>b.
        rbind (varint_Append b (af_ECT1 f)) (\<lambda>b.
        varint_Append b (af_ECNCE f)))
      else Inr b))))))))"

fun ack_ranges_length :: "AckFrame \<Rightarrow> nat list \<Rightarrow> nat \<Rightarrow> nat result" where
  "ack_ranges_length f [] len = Inr len"
| "ack_ranges_length f (i # is) len =
     (let (gap, l) = encodeAckRange f i in
      rbind (varint_Len gap) (\<lambda>l1. rbind (varint_Len l) (\<lambda>l2.
        ack_ranges_length f is (len + l1 + l2))))"

definition AckFrame_Length :: "AckFrame \<Rightarrow> ByteCount result" where
  "AckFrame_Length f =
     (if AckRanges f = [] then Inl index_panic
      else let largestAcked = Largest (AckRanges f ! 0) in
      rbind (numEncodableAckRanges f) (\<lambda>numRanges.
      rbind (varint_Len (uint64 largestAcked)) (\<lambda>l1.
      rbind (varint_Len (encodeAckDelay (DelayTime f))) (\<lambda>l2.
      rbind (varint_Len (uint64 (int numRanges - 1))) (\<lambda>l3.
        let lowestInFirstRange = Smallest (AckRanges f ! 0) in
        rbind (varint_Len (uint64 (largestAcked - lowestInFirstRange))) (\<lambda>l4.
        rbind (ack_ranges_length f [1..<numRanges] (1 + l1 + l2 + l3 + l4)) (\<lambda>len.
          if af_ECT0 f > 0 \<or> af_ECT1 f > 0 \<or> af_ECNCE f > 0 then
            rbind (varint_Len (af_ECT0 f)) (\<lambda>l5.
            rbind (varint_Len (af_ECT1 f)) (\<lambda>l6.
            rbind (varint_Len (af_ECNCE f)) (\<lambda>l7.
              Inr (int (len + l5 + l6 + l7)))))
          else Inr (int len))))))))"

section \<open>Membership\<close>

text \<open>\<open>sort.Search\<close>: binary search for the least index in \<open>[i, j)\<close> that satisfies \<open>p\<close>, or \<open>j\<close>.\<close>

function sort_Search :: "(nat \<Rightarrow> bool) \<Rightarrow> nat \<Rightarrow> nat \<Rightarrow> nat" where
  "sort_Search p i j =
     (if i < j then
        let h = (i + j) div 2 in
        if \<not> p h then sort_Search p (h + 1) j else sort_Search p i h
      else i)"
  by pat_completeness auto
termination by (relation "measure (\<lambda>(p, i, j). j - i)") auto

declare sort_Search.simps [simp del]

definition AcksPacket :: "AckFrame \<Rightarrow> PacketNumber \<Rightarrow> bool result" where
  "AcksPacket f p =
     rbind (LowestAcked f) (\<lambda>lowest.
     rbind (LargestAcked f) (\<lambda>largest.
       if p < lowest \<or> p > largest then Inr False
       else let i = sort_Search (\<lambda>i. p \<ge> Smallest (AckRanges f ! i)) 0 (length (AckRanges f)) in
       if i < length (AckRanges f) then Inr (p \<le> Largest (AckRanges f ! i)) else Inl index_panic))"

section \<open>Valid ranges\<close>

text \<open>
  What validation guarantees: every range is non-empty, and each lies strictly below the one
  before it with at least one packet number missing in between.
\<close>

fun ack_chain :: "AckRange list \<Rightarrow> bool" where
  "ack_chain [] = True"
| "ack_chain [r] = (Smallest r \<le> Largest r)"
| "ack_chain (r # s # rs) = (Smallest r \<le> Largest r \<and> Largest s + 1 < Smallest r \<and> ack_chain (s # rs))"

lemma validateAckRanges_iff: "validateAckRanges f \<longleftrightarrow> AckRanges f \<noteq> [] \<and> ack_chain (AckRanges f)"
proof -
  have "rs \<noteq> [] \<Longrightarrow> (\<forall>r \<in> set rs. Smallest r \<le> Largest r) \<and> ranges_descending rs \<longleftrightarrow> ack_chain rs" for rs
    by (induction rs rule: ack_chain.induct) auto
  from this [of "AckRanges f"] show ?thesis
    unfolding validateAckRanges_def by (force simp: not_less)
qed

definition ack_set :: "AckRange list \<Rightarrow> PacketNumber set" where
  "ack_set rs = (\<Union>r \<in> set rs. {Smallest r..Largest r})"

lemma ack_chain_Cons: "ack_chain (r # rs) \<longleftrightarrow> Smallest r \<le> Largest r \<and> ack_chain rs \<and>
    (rs \<noteq> [] \<longrightarrow> Largest (hd rs) + 1 < Smallest r)"
  by (cases rs) auto

lemma ack_chain_below: "ack_chain (r # rs) \<Longrightarrow> s \<in> set rs \<Longrightarrow> Largest s + 1 < Smallest r"
proof (induction rs arbitrary: r)
  case (Cons a rs)
  then have "s \<in> set rs \<Longrightarrow> Largest s + 1 < Smallest a"
    by simp
  then show ?case
    using Cons.prems by (auto simp: ack_chain_Cons)
qed simp

lemma ack_chain_nth:
  assumes "ack_chain rs" and "i < j" and "j < length rs"
  shows "Largest (rs ! j) + 1 < Smallest (rs ! i)"
  using assms
proof (induction rs arbitrary: i j)
  case (Cons a rs)
  then show ?case
    using ack_chain_below [of a rs] by (cases i; cases j) (auto simp: ack_chain_Cons)
qed simp

lemma ack_chain_nonempty: "ack_chain rs \<Longrightarrow> r \<in> set rs \<Longrightarrow> Smallest r \<le> Largest r"
  by (induction rs rule: ack_chain.induct) auto

lemma sort_Search_least:
  assumes "i \<le> j" and "\<And>a b. a \<le> b \<Longrightarrow> b < j \<Longrightarrow> p a \<Longrightarrow> p b"
  shows "i \<le> sort_Search p i j \<and> sort_Search p i j \<le> j \<and>
    (\<forall>k. i \<le> k \<longrightarrow> k < sort_Search p i j \<longrightarrow> \<not> p k) \<and> (sort_Search p i j < j \<longrightarrow> p (sort_Search p i j))"
  using assms
proof (induction p i j rule: sort_Search.induct)
  case (1 p i j)
  define h where "h = (i + j) div 2"
  show ?case
  proof (cases "i < j")
    case True
    then have h: "i \<le> h" "h < j"
      by (auto simp: h_def)
    show ?thesis
    proof (cases "p h")
      case p: True
      have eq: "sort_Search p i j = sort_Search p i h"
        using True p by (subst sort_Search.simps) (simp add: h_def)
      have IH: "i \<le> sort_Search p i h \<and> sort_Search p i h \<le> h \<and>
          (\<forall>k. i \<le> k \<longrightarrow> k < sort_Search p i h \<longrightarrow> \<not> p k) \<and>
          (sort_Search p i h < h \<longrightarrow> p (sort_Search p i h))"
        using "1.IH"(2) [OF True h_def] p h "1.prems"(2) by simp
      then have "p (sort_Search p i h)"
        using p by (cases "sort_Search p i h = h") auto
      then show ?thesis
        using IH h by (simp add: eq)
    next
      case p: False
      have eq: "sort_Search p i j = sort_Search p (h + 1) j"
        using True p by (subst sort_Search.simps) (simp add: h_def)
      have IH: "h + 1 \<le> sort_Search p (h + 1) j \<and> sort_Search p (h + 1) j \<le> j \<and>
          (\<forall>k. h + 1 \<le> k \<longrightarrow> k < sort_Search p (h + 1) j \<longrightarrow> \<not> p k) \<and>
          (sort_Search p (h + 1) j < j \<longrightarrow> p (sort_Search p (h + 1) j))"
        using "1.IH"(1) [OF True h_def p] h "1.prems"(2) by simp
      have "\<not> p k" if "i \<le> k" "k < sort_Search p (h + 1) j" for k
      proof (cases "k \<le> h")
        case True
        then show ?thesis
          using p "1.prems"(2) [of k h] h by auto
      next
        case False
        then show ?thesis
          using IH that by simp
      qed
      then show ?thesis
        using IH h by (simp add: eq)
    qed
  next
    case False
    then show ?thesis
      using "1.prems"(1) by (simp add: sort_Search.simps [of p j j])
  qed
qed

lemma ack_chain_Smallest_antimono:
  assumes "ack_chain rs" and "i \<le> j" and "j < length rs"
  shows "Smallest (rs ! j) \<le> Smallest (rs ! i)"
  using ack_chain_nth [of rs i j] ack_chain_nonempty [of rs "rs ! j"] assms by (cases "i = j") auto

lemma AcksPacket_iff:
  assumes "validateAckRanges f"
  shows "AcksPacket f p = Inr (p \<in> ack_set (AckRanges f))"
proof -
  define rs where "rs = AckRanges f"
  have rs: "rs \<noteq> []" "ack_chain rs"
    using assms by (auto simp: validateAckRanges_iff rs_def)
  let ?n = "length rs" and ?P = "\<lambda>i. p \<ge> Smallest (rs ! i)"
  have low: "LowestAcked f = Inr (Smallest (rs ! (?n - 1)))"
    and large: "LargestAcked f = Inr (Largest (rs ! 0))"
    using rs by (auto simp: LowestAcked_def LargestAcked_def split: list.split simp flip: rs_def)
  have mem: "p \<in> ack_set rs \<longleftrightarrow> (\<exists>k < ?n. Smallest (rs ! k) \<le> p \<and> p \<le> Largest (rs ! k))"
    by (auto simp: ack_set_def set_conv_nth)
  show ?thesis
  proof (cases "p < Smallest (rs ! (?n - 1)) \<or> p > Largest (rs ! 0)")
    case True
    have "\<not> (Smallest (rs ! k) \<le> p \<and> p \<le> Largest (rs ! k))" if "k < ?n" "k \<le> ?n - 1" for k
      using True that ack_chain_Smallest_antimono [OF rs(2), of k "?n - 1"] ack_chain_nth [OF rs(2), of 0 k]
        ack_chain_nonempty [OF rs(2), of "rs ! 0"] rs(1) by (cases "k = 0") auto
    then show ?thesis
      using True by (simp add: AcksPacket_def low large mem flip: rs_def)
  next
    case False
    define i where "i = sort_Search ?P 0 ?n"
    have "?P b" if "a \<le> b" "b < ?n" "?P a" for a b
      using that ack_chain_Smallest_antimono [OF rs(2), of a b] by simp
    then have S: "i \<le> ?n" "\<And>k. k < i \<Longrightarrow> \<not> ?P k" "i < ?n \<Longrightarrow> ?P i"
      using sort_Search_least [of 0 ?n ?P] by (simp_all add: i_def)
    have i: "i < ?n"
      using S(1) S(2) [of "?n - 1"] False rs(1) by (cases "i = ?n") auto
    have "p \<in> ack_set rs \<longleftrightarrow> p \<le> Largest (rs ! i)"
    proof
      assume "p \<in> ack_set rs"
      then obtain k where k: "k < ?n" "Smallest (rs ! k) \<le> p" "p \<le> Largest (rs ! k)"
        by (auto simp: mem)
      have "\<not> k < i" "\<not> i < k"
        using S(2) [of k] k ack_chain_nth [OF rs(2), of i k] S(3) i by auto
      then show "p \<le> Largest (rs ! i)"
        using k by simp
    qed (use S(3) i mem in auto)
    then show ?thesis
      using False i by (simp add: AcksPacket_def low large i_def flip: rs_def)
  qed
qed

section \<open>Ranges on the wire\<close>

definition pn_range :: "AckRange \<Rightarrow> bool" where
  "pn_range r \<longleftrightarrow> 0 \<le> Smallest r \<and> Largest r < 2 ^ 62"

fun enc_ranges :: "AckRange list \<Rightarrow> byte list" where
  "enc_ranges (r # s # rs) =
     vbytes (uint64 (Smallest r - Largest s - 2)) @ vbytes (uint64 (Largest s - Smallest s)) @ enc_ranges (s # rs)"
| "enc_ranges rs = []"

lemma ack_chain_in62:
  assumes "ack_chain (r # s # rs)" and "pn_range r" and "pn_range s"
  shows "in62 (Smallest r - Largest s - 2)" and "in62 (Largest s - Smallest s)" and "in62 (Largest s)"
    and "in62 (Largest r - Smallest r)" and "in62 (Largest r)"
  using assms ack_chain_nonempty [of "r # s # rs" s] by (auto simp: pn_range_def in62_def)

lemma parse_ack_ranges_enc:
  "ack_chain (r # ss) \<Longrightarrow> \<forall>s \<in> set (r # ss). pn_range s \<Longrightarrow>
    parse_ack_ranges (length ss) (Smallest r) acc (enc_ranges (r # ss) @ rest) = Inr (acc @ ss, rest)"
proof (induction ss arbitrary: r acc)
  case (Cons s ss)
  have "in62 (Smallest r - Largest s - 2)" "in62 (Largest s - Smallest s)"
    using ack_chain_in62 [of r s ss] Cons.prems by simp_all
  moreover have "0 \<le> Largest s" "0 \<le> Smallest s"
    using Cons.prems ack_chain_nonempty [of "r # s # ss" s] by (auto simp: pn_range_def)
  moreover have "\<lparr>Smallest = Smallest s, Largest = Largest s\<rparr> = s"
    by simp
  ultimately show ?case
    using Cons by (simp add: wire_simps)
qed simp

lemma encodeAckRange_Suc:
  assumes "Suc i < length (AckRanges f)" and "ack_chain (AckRanges f)" and "\<forall>r \<in> set (AckRanges f). pn_range r"
  obtains r s where "AckRanges f ! i = r" and "AckRanges f ! Suc i = s"
    and "encodeAckRange f (Suc i) = (uint64 (Smallest r - Largest s - 2), uint64 (Largest s - Smallest s))"
    and "in62 (Smallest r - Largest s - 2)" and "in62 (Largest s - Smallest s)"
proof -
  let ?rs = "AckRanges f"
  have "Largest (?rs ! Suc i) + 1 < Smallest (?rs ! i)"
    using ack_chain_nth [of ?rs i "Suc i"] assms by simp
  moreover have "Smallest (?rs ! Suc i) \<le> Largest (?rs ! Suc i)" "Smallest (?rs ! i) \<le> Largest (?rs ! i)"
    using ack_chain_nonempty [of ?rs] assms by simp_all
  moreover have "pn_range (?rs ! Suc i)" "pn_range (?rs ! i)"
    using assms by simp_all
  ultimately have "in62 (Smallest (?rs ! i) - Largest (?rs ! Suc i) - 2)"
    "in62 (Largest (?rs ! Suc i) - Smallest (?rs ! Suc i))"
    by (auto simp: in62_def pn_range_def)
  then show ?thesis
    using that by (simp add: encodeAckRange_def)
qed

lemma enc_ranges_nth:
  assumes "Suc i < length rs"
  shows "enc_ranges (take (Suc (Suc k)) (drop i rs)) =
    vbytes (uint64 (Smallest (rs ! i) - Largest (rs ! Suc i) - 2)) @
    vbytes (uint64 (Largest (rs ! Suc i) - Smallest (rs ! Suc i))) @ enc_ranges (take (Suc k) (drop (Suc i) rs))"
  using assms by (simp add: Cons_nth_drop_Suc [symmetric])

lemma append_ack_ranges_eq:
  assumes "ack_chain (AckRanges f)" and "\<forall>r \<in> set (AckRanges f). pn_range r" and "i + k < length (AckRanges f)"
  shows "append_ack_ranges f [Suc i..<Suc i + k] b = Inr (b @ enc_ranges (take (Suc k) (drop i (AckRanges f)))) \<and>
    ack_ranges_length f [Suc i..<Suc i + k] len =
      Inr (len + length (enc_ranges (take (Suc k) (drop i (AckRanges f)))))"
  using assms(3)
proof (induction k arbitrary: i b len)
  case 0
  then have "drop i (AckRanges f) \<noteq> []"
    by simp
  then have "take (Suc 0) (drop i (AckRanges f)) = [hd (drop i (AckRanges f))]"
    by (cases "drop i (AckRanges f)") auto
  then show ?case
    by (simp only: enc_ranges.simps) simp
next
  case (Suc k)
  have i: "Suc i < length (AckRanges f)" "Suc i + k < length (AckRanges f)"
    using Suc.prems by simp_all
  have upt: "[Suc i..<Suc i + Suc k] = Suc i # [Suc (Suc i)..<Suc (Suc i) + k]"
    by (simp add: upt_rec)
  obtain r s where rs: "AckRanges f ! i = r" "AckRanges f ! Suc i = s"
    "encodeAckRange f (Suc i) = (uint64 (Smallest r - Largest s - 2), uint64 (Largest s - Smallest s))"
    "in62 (Smallest r - Largest s - 2)" "in62 (Largest s - Smallest s)"
    by (rule encodeAckRange_Suc [OF i(1) assms(1,2)])
  show ?case
    unfolding upt enc_ranges_nth [OF i(1)] rs(1,2)
    by (simp add: rs(3-5) wire_simps conjunct1 [OF Suc.IH [OF i(2)], simplified add_Suc] conjunct2 [OF Suc.IH [OF i(2)], simplified add_Suc] del: upt_Suc)
qed

section \<open>How many ranges are written\<close>

lemma num_encodable_loop_bounds:
  assumes "ack_chain (AckRanges f)" and "\<forall>r \<in> set (AckRanges f). pn_range r" and "i + k < length (AckRanges f)"
    and "length (AckRanges f) = Suc (i + k)"
  shows "\<exists>n. num_encodable_loop f [Suc i..<Suc i + k] len = Inr n \<and> i \<le> n \<and> n \<le> length (AckRanges f)"
  using assms(3,4)
proof (induction k arbitrary: i len)
  case (Suc k)
  have i: "Suc i < length (AckRanges f)"
    using Suc.prems by simp
  have upt: "[Suc i..<Suc i + Suc k] = Suc i # [Suc (Suc i)..<Suc (Suc i) + k]"
    by (simp add: upt_rec)
  obtain r s where nth: "AckRanges f ! i = r" "AckRanges f ! Suc i = s" and
    rs: "encodeAckRange f (Suc i) = (uint64 (Smallest r - Largest s - 2), uint64 (Largest s - Smallest s))"
    "in62 (Smallest r - Largest s - 2)" "in62 (Largest s - Smallest s)"
    by (rule encodeAckRange_Suc [OF i assms(1,2)])
  let ?len = "len + (vsize (uint64 (Smallest r - Largest s - 2)) + vsize (uint64 (Largest s - Smallest s)))"
  obtain n where n: "num_encodable_loop f [Suc (Suc i)..<Suc (Suc i) + k] ?len = Inr n" "Suc i \<le> n" "n \<le> length (AckRanges f)"
    using Suc.IH [of "Suc i" ?len] Suc.prems by auto
  show ?case
  proof (cases "int ?len > MaxAckFrameSize")
    case True
    then show ?thesis
      unfolding upt using i by (simp add: rs wire_simps del: upt_Suc)
  next
    case False
    then show ?thesis
      unfolding upt using n by (simp add: rs wire_simps del: upt_Suc)
  qed
qed simp

definition ack_ok :: "AckFrame \<Rightarrow> bool" where
  "ack_ok f \<longleftrightarrow> validateAckRanges f \<and> (\<forall>r \<in> set (AckRanges f). pn_range r) \<and>
     0 \<le> DelayTime f \<and> DelayTime f < 2 ^ 63 \<and> length (AckRanges f) < 2 ^ 62 \<and>
     u62 (af_ECT0 f) \<and> u62 (af_ECT1 f) \<and> u62 (af_ECNCE f)"

lemma u62_encodeAckDelay: "0 \<le> d \<Longrightarrow> d < 2 ^ 63 \<Longrightarrow> u62 (encodeAckDelay d)"
  unfolding encodeAckDelay_def by (rule u62_uint64) (simp add: in62_def AckDelayExponent_def, linarith)

lemma ack_ok_first:
  assumes "ack_ok f"
  obtains r rs where "AckRanges f = r # rs" and "ack_chain (r # rs)" and "in62 (Largest r)"
    and "in62 (Largest r - Smallest r)" and "u62 (encodeAckDelay (DelayTime f))"
proof -
  obtain r rs where r: "AckRanges f = r # rs" "ack_chain (r # rs)" "pn_range r"
    using assms by (cases "AckRanges f") (auto simp: ack_ok_def validateAckRanges_iff)
  moreover have "u62 (encodeAckDelay (DelayTime f))"
    using assms by (auto simp: ack_ok_def intro!: u62_encodeAckDelay)
  ultimately show ?thesis
    using that [of r rs] by (auto simp: pn_range_def in62_def ack_chain_Cons)
qed

lemma numEncodableAckRanges_bounds:
  assumes "ack_ok f"
  obtains n where "numEncodableAckRanges f = Inr n" and "1 \<le> n" and "n \<le> length (AckRanges f)"
proof -
  obtain r rs where r: "AckRanges f = r # rs" "ack_chain (r # rs)" "in62 (Largest r)"
    "u62 (encodeAckDelay (DelayTime f))"
    using ack_ok_first [OF assms] by metis
  have pn: "ack_chain (AckRanges f)" "\<forall>r \<in> set (AckRanges f). pn_range r"
    using assms r by (auto simp: ack_ok_def)
  let ?len = "1 + vsize (uint64 (Largest r)) + vsize (encodeAckDelay (DelayTime f)) + 2"
  have eq: "numEncodableAckRanges f = num_encodable_loop f [1..<length (AckRanges f)] ?len"
    using r by (simp add: numEncodableAckRanges_def LargestAcked_def wire_simps)
  show ?thesis
  proof (cases rs)
    case Nil
    then show ?thesis
      using that [of 1] r eq by simp
  next
    case (Cons s ss)
    then have i: "Suc 0 < length (AckRanges f)"
      using r by simp
    have upt: "[1..<length (AckRanges f)] = Suc 0 # [Suc (Suc 0)..<Suc (Suc 0) + length ss]"
      using i Cons r by (simp add: upt_rec)
    obtain a c where e: "encodeAckRange f (Suc 0) = (uint64 a, uint64 c)" "in62 a" "in62 c"
      using encodeAckRange_Suc [OF i pn] by metis
    have "\<not> int (?len + (vsize (uint64 a) + vsize (uint64 c))) > MaxAckFrameSize"
      using vsize_le_8 [of "uint64 a"] vsize_le_8 [of "uint64 c"] vsize_le_8 [of "uint64 (Largest r)"]
        vsize_le_8 [of "encodeAckDelay (DelayTime f)"] by (simp add: MaxAckFrameSize_def)
    then have "numEncodableAckRanges f = num_encodable_loop f [Suc (Suc 0)..<Suc (Suc 0) + length ss]
        (?len + (vsize (uint64 a) + vsize (uint64 c)))"
      unfolding eq upt by (simp add: e wire_simps del: upt_Suc)
    then show ?thesis
      using num_encodable_loop_bounds [OF pn, of "Suc 0" "length ss"] Cons r that by auto
  qed
qed

section \<open>The bytes of an ACK frame\<close>

definition hasECN :: "AckFrame \<Rightarrow> bool" where
  "hasECN f \<longleftrightarrow> af_ECT0 f > 0 \<or> af_ECT1 f > 0 \<or> af_ECNCE f > 0"

definition AckFrame_type :: "AckFrame \<Rightarrow> byte" where
  "AckFrame_type f = (if hasECN f then ackECNFrameType else ackFrameType)"

definition AckFrame_enc :: "nat \<Rightarrow> AckFrame \<Rightarrow> byte list" where
  "AckFrame_enc n f =
     vbytes (uint64 (Largest (hd (AckRanges f)))) @ vbytes (encodeAckDelay (DelayTime f)) @
     vbytes (uint64 (int (n - 1))) @ vbytes (uint64 (Largest (hd (AckRanges f)) - Smallest (hd (AckRanges f)))) @
     enc_ranges (take n (AckRanges f)) @
     (if hasECN f then vbytes (af_ECT0 f) @ vbytes (af_ECT1 f) @ vbytes (af_ECNCE f) else [])"

lemma AckFrame_Append_enc:
  assumes "ack_ok f" and n: "numEncodableAckRanges f = Inr n" "1 \<le> n" "n \<le> length (AckRanges f)"
  shows "AckFrame_Append b f = Inr (b @ AckFrame_type f # AckFrame_enc n f)"
    and "AckFrame_Length f = Inr (1 + int (length (AckFrame_enc n f)))"
proof -
  obtain r rs where r: "AckRanges f = r # rs" "ack_chain (r # rs)" "in62 (Largest r)"
    "in62 (Largest r - Smallest r)" "u62 (encodeAckDelay (DelayTime f))"
    using ack_ok_first [OF assms(1)] by metis
  obtain k where k: "n = Suc k"
    using n(2) by (cases n) auto
  have ok: "ack_chain (AckRanges f)" "\<forall>r \<in> set (AckRanges f). pn_range r" "0 + k < length (AckRanges f)"
    "u62 (af_ECT0 f)" "u62 (af_ECT1 f)" "u62 (af_ECNCE f)" "k < 2 ^ 62"
    using assms r k by (auto simp: ack_ok_def)
  have eqs: "append_ack_ranges f [Suc 0..<Suc k] c = Inr (c @ enc_ranges (take (Suc k) (AckRanges f)))"
    "ack_ranges_length f [Suc 0..<Suc k] l = Inr (l + length (enc_ranges (take (Suc k) (AckRanges f))))" for c l
    using append_ack_ranges_eq [OF ok(1-3)] by (simp_all del: upt_Suc)
  show "AckFrame_Append b f = Inr (b @ AckFrame_type f # AckFrame_enc n f)"
    using r ok k by (simp add: AckFrame_Append_def AckFrame_enc_def AckFrame_type_def LargestAcked_def n(1)
      encodeAckRange_def eqs wire_simps del: upt_Suc flip: hasECN_def)
  show "AckFrame_Length f = Inr (1 + int (length (AckFrame_enc n f)))"
    using r ok k by (simp add: AckFrame_Length_def AckFrame_enc_def Let_def n(1) eqs wire_simps del: upt_Suc flip: hasECN_def)
qed

lemma ack_chain_take: "ack_chain rs \<Longrightarrow> ack_chain (take n rs)"
proof (induction rs arbitrary: n)
  case (Cons a rs)
  then show ?case
    by (cases n) (auto simp: ack_chain_Cons)
qed simp

lemma ack_delay_encode:
  assumes "0 \<le> d" and "d < 2 ^ 63"
  shows "ack_delay (encodeAckDelay d) 3 = 8000 * (d div 8000)"
proof -
  have "push_bit 3 (encodeAckDelay d) * 1000 = uint64 (8000 * (d div 8000))"
    using assms(1) by (simp add: encodeAckDelay_def AckDelayExponent_def uint64_def push_bit_eq_mult)
  moreover have "0 \<le> 8000 * (d div 8000)" "8000 * (d div 8000) < 2 ^ 63"
    using assms pos_mod_sign [of 8000 d] mult_div_mod_eq [of 8000 d] by (simp, linarith)
  ultimately show ?thesis
    by (simp add: ack_delay_def int64_uint64)
qed

lemma parseAckFrame_enc:
  assumes "ack_ok f" and n: "1 \<le> n" "n \<le> length (AckRanges f)"
  shows "parseAckFrame (AckFrame_Reset g) (AckFrame_enc n f @ rest) (ucast (AckFrame_type f)) 3 =
    Inr (f\<lparr>AckRanges := take n (AckRanges f), DelayTime := 8000 * (DelayTime f div 8000)\<rparr>,
      length (AckFrame_enc n f))"
proof -
  obtain r rs where r: "AckRanges f = r # rs" "ack_chain (r # rs)" "in62 (Largest r)"
    "in62 (Largest r - Smallest r)" "u62 (encodeAckDelay (DelayTime f))"
    using ack_ok_first [OF assms(1)] by metis
  obtain k where k: "n = Suc k"
    using n(1) by (cases n) auto
  let ?t = "r # take k rs"
  have t: "ack_chain ?t" "\<forall>s \<in> set ?t. pn_range s" "length (take k rs) = k" "k < 2 ^ 62"
    using assms r k ack_chain_take [of "r # rs" "Suc k"] by (auto simp: ack_ok_def dest: in_set_takeD)
  have ranges: "parse_ack_ranges k (Smallest r) acc (enc_ranges ?t @ bs) = Inr (acc @ take k rs, bs)" for acc bs
    using parse_ack_ranges_enc [OF t(1,2), of acc bs] t(3) by simp
  have ecn: "u62 (af_ECT0 f)" "u62 (af_ECT1 f)" "u62 (af_ECNCE f)"
    "\<not> hasECN f \<Longrightarrow> af_ECT0 f = 0 \<and> af_ECT1 f = 0 \<and> af_ECNCE f = 0"
    using assms(1) by (auto simp: ack_ok_def hasECN_def word_gt_0)
  have delay: "ack_delay (encodeAckDelay (DelayTime f)) 3 = 8000 * (DelayTime f div 8000)"
    using assms(1) by (intro ack_delay_encode) (auto simp: ack_ok_def)
  have "0 \<le> Smallest r"
    using assms(1) r by (auto simp: ack_ok_def pn_range_def)
  have "\<lparr>Smallest = Smallest r, Largest = Largest r\<rparr> = r"
    by simp
  then show ?thesis
    using r ecn t \<open>0 \<le> Smallest r\<close> unfolding parseAckFrame_def AckFrame_enc_def AckFrame_type_def AckFrame_Reset_def
    by (cases "hasECN f") (simp_all add: k Let_def wire_simps ranges delay validateAckRanges_iff
      ackECNFrameType_def ackFrameType_def ack_chain_Cons)
qed


section \<open>What the parser guarantees\<close>

lemma parse_ack_ranges_returns:
  "\<forall>r \<in> set ranges. pn_range r \<Longrightarrow> smallest < 2 ^ 62 \<Longrightarrow>
    returns (\<lambda>(rs, b'). (\<forall>r \<in> set rs. pn_range r) \<and> length b' \<le> length b) (parse_ack_ranges n smallest ranges b)"
proof (induction n arbitrary: smallest ranges b)
  case 0
  then show ?case
    by (simp add: returns_def)
next
  case (Suc n)
  show ?case
    unfolding parse_ack_ranges.simps
  proof (intro returns)
    fix g l gap largest ab l' ackBlock smallest'
    assume gap: "gap = int64 g" "u62 g" "\<not> smallest < gap + 2" "largest = smallest - gap - 2"
      and b: "ackBlock = int64 ab" "u62 ab" "\<not> largest < ackBlock" "smallest' = largest - ackBlock"
    have "0 \<le> gap" "0 \<le> ackBlock"
      using gap b in62_int64 by (auto simp: in62_def)
    then have "pn_range \<lparr>Smallest = smallest', Largest = largest\<rparr>" "smallest' < 2 ^ 62"
      using gap b Suc.prems by (auto simp: pn_range_def)
    then show "returns (\<lambda>(rs, b'). (\<forall>r \<in> set rs. pn_range r) \<and> length b' \<le> length b)
        (parse_ack_ranges n smallest' (ranges @ [\<lparr>Smallest = smallest', Largest = largest\<rparr>]) (drop l' (drop l b)))"
      using Suc.prems by (intro returns_mono [OF Suc.IH]) auto
  qed
qed

lemma parse_ack_ranges_no_panic: "\<not> is_panic (parse_ack_ranges n smallest ranges b)"
proof (induction n arbitrary: smallest ranges b)
  case (Suc n)
  then show ?case
    unfolding parse_ack_ranges.simps by (intro no_panic) (simp_all add: errInvalidAckRanges_def)
qed simp

lemma parseAckFrame_no_panic: "\<not> is_panic (parseAckFrame g b t e)"
  unfolding parseAckFrame_def
  by (intro no_panic) (simp_all add: errInvalidAckRanges_def parse_ack_ranges_no_panic)

lemma parseAckFrame_returns:
  "returns (\<lambda>(f, l). validateAckRanges f \<and> (\<forall>r \<in> set (AckRanges f). pn_range r) \<and> l \<le> length b)
    (parseAckFrame (AckFrame_Reset g) b t e)"
  unfolding parseAckFrame_def
proof (intro returns, rule returns_mono [OF parse_ack_ranges_returns])
  fix startLen ecn la l delay l1 numBlocks l2 ab l3 largestAcked ackBlock smallest and frame :: AckFrame
  assume u: "u62 la" "u62 ab" and eqs: "largestAcked = int64 la" "ackBlock = int64 ab" "\<not> largestAcked < ackBlock"
    "smallest = largestAcked - ackBlock" "frame = AckFrame_Reset g\<lparr>DelayTime := ack_delay delay e\<rparr>"
  have "0 \<le> ackBlock" "largestAcked < 2 ^ 62"
    using in62_int64 u eqs by (auto simp: in62_def)
  then show "\<forall>r \<in> set (AckRanges frame @ [\<lparr>Smallest = smallest, Largest = largestAcked\<rparr>]). pn_range r"
    and "smallest < 2 ^ 62"
    using eqs by (auto simp: AckFrame_Reset_def pn_range_def)
qed (intro returns, auto simp: validateAckRanges_iff)

section \<open>The frame keeps the contract\<close>

text \<open>
  A frame survives the wire unchanged when all its ranges are written and its delay is a
  multiple of the unit of \<open>AckDelayExponent\<close>. The parser starts from a reset frame, whatever
  the parser's frame held before.
\<close>

definition AckFrame_wf :: "AckFrame \<Rightarrow> bool" where
  "AckFrame_wf f \<longleftrightarrow> ack_ok f \<and> numEncodableAckRanges f = Inr (length (AckRanges f)) \<and> 8000 dvd DelayTime f"

definition AckFrame_body :: "AckFrame \<Rightarrow> byte list" where
  "AckFrame_body f = AckFrame_enc (length (AckRanges f)) f"

lemma AckFrame_wf_length: "AckFrame_wf f \<Longrightarrow> 1 \<le> length (AckRanges f)"
  using numEncodableAckRanges_bounds [of f] by (auto simp: AckFrame_wf_def)

lemma parseAckFrame_body:
  assumes "AckFrame_wf f"
  shows "parseAckFrame (AckFrame_Reset g) (AckFrame_body f @ rest) (ucast (AckFrame_type f)) 3 =
    Inr (f, length (AckFrame_body f))"
  using assms parseAckFrame_enc [of f "length (AckRanges f)" g rest] AckFrame_wf_length [OF assms]
  by (simp add: AckFrame_wf_def AckFrame_body_def)

interpretation ack: wire_frame AckFrame_wf "\<lambda>_. True" AckFrame_type AckFrame_body AckFrame_Append
  AckFrame_Length "\<lambda>t b. parseAckFrame (AckFrame_Reset g) b t 3" for g
proof unfold_locales
  fix f b
  assume wf: "AckFrame_wf f"
  then show "AckFrame_Append b f = Inr (b @ AckFrame_type f # AckFrame_body f)"
    and "AckFrame_Length f = Inr (1 + int (length (AckFrame_body f)))"
    using AckFrame_Append_enc [of f "length (AckRanges f)"] AckFrame_wf_length [OF wf]
    by (simp_all add: AckFrame_wf_def AckFrame_body_def)
qed (rule parseAckFrame_body)

interpretation ack_parser: wire_parser "\<lambda>t b. parseAckFrame (AckFrame_Reset g) b t e" for g e
proof unfold_locales
  fix t b f l
  show "\<not> is_panic (parseAckFrame (AckFrame_Reset g) b t e)"
    by (rule parseAckFrame_no_panic)
  assume "parseAckFrame (AckFrame_Reset g) b t e = Inr (f, l)"
  then show "l \<le> length b"
    using returnsD [OF parseAckFrame_returns [of b g t e]] by auto
qed

section \<open>Properties\<close>

text \<open>
  (C29) Every ACK frame the parser accepts is safe to use. Parsing never panics, whatever the
  bytes; an accepted frame has at least one range, every range is a non-empty interval of packet
  numbers between 0 and \<open>2 ^ 62\<close>, the ranges descend with a gap between any two of them; and on
  such a frame \<open>AcksPacket\<close> (a binary search) does not panic and decides exactly whether
  a packet number lies in one of the ranges.
\<close>

theorem parsed_ack_ranges_valid:
  "\<not> is_panic (parseAckFrame (AckFrame_Reset g) b t e) \<and>
   (parseAckFrame (AckFrame_Reset g) b t e = Inr (f, l) \<longrightarrow>
      AckRanges f \<noteq> [] \<and> ack_chain (AckRanges f) \<and>
      (\<forall>r \<in> set (AckRanges f). 0 \<le> Smallest r \<and> Smallest r \<le> Largest r \<and> Largest r < 2 ^ 62) \<and>
      AcksPacket f p = Inr (\<exists>r \<in> set (AckRanges f). Smallest r \<le> p \<and> p \<le> Largest r) \<and> l \<le> length b)"
proof -
  have "validateAckRanges f \<and> (\<forall>r \<in> set (AckRanges f). pn_range r) \<and> l \<le> length b"
    if "parseAckFrame (AckFrame_Reset g) b t e = Inr (f, l)"
    using returnsD [OF parseAckFrame_returns [of b g t e] that] by simp
  then show ?thesis
    using ack_chain_nonempty [of "AckRanges f"] AcksPacket_iff [of f p] parseAckFrame_no_panic
    by (auto simp: validateAckRanges_iff pn_range_def ack_set_def)
qed

theorem parsed_ack_ranges_valid_witness:
  "AcksPacket \<lparr>AckRanges = [\<lparr>Smallest = 8, Largest = 10\<rparr>, \<lparr>Smallest = 3, Largest = 5\<rparr>], DelayTime = 0,
     af_ECT0 = 0, af_ECT1 = 0, af_ECNCE = 0\<rparr> 4 = Inr True"
proof -
  let ?z = "\<lparr>AckRanges = [], DelayTime = 0, af_ECT0 = 0, af_ECT1 = 0, af_ECNCE = 0\<rparr>"
  let ?f = "\<lparr>AckRanges = [\<lparr>Smallest = 8, Largest = 10\<rparr>, \<lparr>Smallest = 3, Largest = 5\<rparr>], DelayTime = 0,
     af_ECT0 = 0, af_ECT1 = 0, af_ECNCE = 0\<rparr>"
  have "parseAckFrame (AckFrame_Reset ?z) [10, 0, 1, 2, 1, 2] 2 3 = Inr (?f, 6)"
    by code_simp
  then show ?thesis
    using parsed_ack_ranges_valid [of ?z "[10, 0, 1, 2, 1, 2]" 2 3 ?f 6 4] by simp
qed

text \<open>
  (C30) Writing and parsing an ACK frame: for a valid frame \<open>Append\<close> succeeds, writes as many bytes as
  \<open>Length\<close> announces, and the parser (with the default exponent) returns the frame with only the
  \<open>numEncodableAckRanges\<close> highest ranges kept, at least one, and the delay rounded down to
  a multiple of 8 microseconds; ECN counts are kept exactly.
\<close>

theorem ack_frame_roundtrip:
  assumes "ack_ok f"
  shows "\<exists>n e. numEncodableAckRanges f = Inr n \<and> 1 \<le> n \<and> n \<le> length (AckRanges f) \<and>
    AckFrame_Append b f = Inr (b @ e) \<and> AckFrame_Length f = Inr (int (length e)) \<and>
    parseAckFrame (AckFrame_Reset g) (tl e @ rest) (ucast (hd e)) 3 =
      Inr (f\<lparr>AckRanges := take n (AckRanges f), DelayTime := DelayTime f - DelayTime f mod 8000\<rparr>, length e - 1)"
proof -
  obtain n where n: "numEncodableAckRanges f = Inr n" "1 \<le> n" "n \<le> length (AckRanges f)"
    using numEncodableAckRanges_bounds [OF assms] .
  have "8000 * (DelayTime f div 8000) = DelayTime f - DelayTime f mod 8000"
    by (simp add: minus_mod_eq_mult_div)
  then show ?thesis
    using n AckFrame_Append_enc [OF assms n] parseAckFrame_enc [OF assms n(2,3), of g rest]
    by (intro exI [of _ n] exI [of _ "AckFrame_type f # AckFrame_enc n f"]) simp
qed

theorem ack_frame_roundtrip_witness:
  "let f = \<lparr>AckRanges = [\<lparr>Smallest = 8, Largest = 10\<rparr>, \<lparr>Smallest = 3, Largest = 5\<rparr>], DelayTime = 12345,
     af_ECT0 = 0, af_ECT1 = 7, af_ECNCE = 0\<rparr> in
   \<exists>n e. numEncodableAckRanges f = Inr n \<and> 1 \<le> n \<and> n \<le> length (AckRanges f) \<and>
    AckFrame_Append [1] f = Inr ([1] @ e) \<and> AckFrame_Length f = Inr (int (length e)) \<and>
    parseAckFrame (AckFrame_Reset f) (tl e @ [5]) (ucast (hd e)) 3 =
      Inr (f\<lparr>AckRanges := take n (AckRanges f), DelayTime := DelayTime f - DelayTime f mod 8000\<rparr>, length e - 1)"
  unfolding Let_def
  by (rule ack_frame_roundtrip) (simp add: ack_ok_def validateAckRanges_iff pn_range_def u62_def)

text \<open>
  The overflow check of the ACK delay is incomplete. The comment in \<open>parseAckFrame\<close> says that
  an overflowing delay becomes the largest duration, but only results that come out negative are
  caught: for every exponent from 3 on, a delay of \<open>2 ^ 61\<close> units overflows to a delay of zero.
\<close>

theorem ack_delay_overflow_missed:
  "ack_delay (2 ^ 61) (3 + k) = 0 \<and> (2 :: int) ^ 61 * 2 ^ (3 + k) * 1000 \<ge> 2 ^ 63"
proof -
  have "push_bit (3 + k) (2 ^ 61 :: u64) = push_bit k (push_bit 3 (2 ^ 61))"
    by (simp only: push_bit_push_bit add.commute [of k])
  also have "push_bit 3 (2 ^ 61 :: u64) = 0"
    by (simp add: push_bit_eq_mult)
  finally have "ack_delay (2 ^ 61) (3 + k) = 0"
    by (simp add: ack_delay_def)
  moreover have "(2 :: int) ^ 61 * 2 ^ 3 * 1000 \<le> 2 ^ 61 * 2 ^ (3 + k) * 1000"
    by (intro mult_right_mono mult_left_mono power_increasing) simp_all
  ultimately show ?thesis
    by simp
qed

end
