(* ===== verification/Frame_Parser.thy ===== *)
theory Frame_Parser
  imports Wire_Frames Wire_Conn_Frames Wire_Data_Frames Wire_Ack
begin

text \<open>
  The frame parser (\<open>internal/wire/frame_parser.go\<close>, \<open>frame.go\<close>): dispatch on the frame type,
  the table of frames allowed per encryption level, skipping of PADDING and the wrapping of
  errors. An error is returned without the number of bytes consumed before it, which
  no caller uses. A panic is not an error value and is passed on.
\<close>

section \<open>Frames\<close>

datatype Frame =
    FPing
  | FAck AckFrame
  | FResetStream ResetStreamFrame
  | FStopSending StopSendingFrame
  | FCrypto CryptoFrame
  | FNewToken NewTokenFrame
  | FStream StreamFrame
  | FMaxData MaxDataFrame
  | FMaxStreamData MaxStreamDataFrame
  | FMaxStreams MaxStreamsFrame
  | FDataBlocked DataBlockedFrame
  | FStreamDataBlocked StreamDataBlockedFrame
  | FStreamsBlocked StreamsBlockedFrame
  | FNewConnectionID NewConnectionIDFrame
  | FRetireConnectionID RetireConnectionIDFrame
  | FPathChallenge PathChallengeFrame
  | FPathResponse PathResponseFrame
  | FConnectionClose ConnectionCloseFrame
  | FHandshakeDone
  | FDatagram DatagramFrame

fun Frame_Append :: "byte list \<Rightarrow> Frame \<Rightarrow> byte list result" where
  "Frame_Append b FPing = PingFrame_Append b"
| "Frame_Append b (FAck f) = AckFrame_Append b f"
| "Frame_Append b (FResetStream f) = ResetStreamFrame_Append b f"
| "Frame_Append b (FStopSending f) = StopSendingFrame_Append b f"
| "Frame_Append b (FCrypto f) = CryptoFrame_Append b f"
| "Frame_Append b (FNewToken f) = NewTokenFrame_Append b f"
| "Frame_Append b (FStream f) = StreamFrame_Append b f"
| "Frame_Append b (FMaxData f) = MaxDataFrame_Append b f"
| "Frame_Append b (FMaxStreamData f) = MaxStreamDataFrame_Append b f"
| "Frame_Append b (FMaxStreams f) = MaxStreamsFrame_Append b f"
| "Frame_Append b (FDataBlocked f) = DataBlockedFrame_Append b f"
| "Frame_Append b (FStreamDataBlocked f) = StreamDataBlockedFrame_Append b f"
| "Frame_Append b (FStreamsBlocked f) = StreamsBlockedFrame_Append b f"
| "Frame_Append b (FNewConnectionID f) = NewConnectionIDFrame_Append b f"
| "Frame_Append b (FRetireConnectionID f) = RetireConnectionIDFrame_Append b f"
| "Frame_Append b (FPathChallenge f) = PathChallengeFrame_Append b f"
| "Frame_Append b (FPathResponse f) = PathResponseFrame_Append b f"
| "Frame_Append b (FConnectionClose f) = ConnectionCloseFrame_Append b f"
| "Frame_Append b FHandshakeDone = HandshakeDoneFrame_Append b"
| "Frame_Append b (FDatagram f) = DatagramFrame_Append b f"

fun Frame_Length :: "Frame \<Rightarrow> ByteCount result" where
  "Frame_Length FPing = PingFrame_Length"
| "Frame_Length (FAck f) = AckFrame_Length f"
| "Frame_Length (FResetStream f) = ResetStreamFrame_Length f"
| "Frame_Length (FStopSending f) = StopSendingFrame_Length f"
| "Frame_Length (FCrypto f) = CryptoFrame_Length f"
| "Frame_Length (FNewToken f) = NewTokenFrame_Length f"
| "Frame_Length (FStream f) = StreamFrame_Length f"
| "Frame_Length (FMaxData f) = MaxDataFrame_Length f"
| "Frame_Length (FMaxStreamData f) = MaxStreamDataFrame_Length f"
| "Frame_Length (FMaxStreams f) = MaxStreamsFrame_Length f"
| "Frame_Length (FDataBlocked f) = DataBlockedFrame_Length f"
| "Frame_Length (FStreamDataBlocked f) = StreamDataBlockedFrame_Length f"
| "Frame_Length (FStreamsBlocked f) = StreamsBlockedFrame_Length f"
| "Frame_Length (FNewConnectionID f) = NewConnectionIDFrame_Length f"
| "Frame_Length (FRetireConnectionID f) = RetireConnectionIDFrame_Length f"
| "Frame_Length (FPathChallenge f) = PathChallengeFrame_Length f"
| "Frame_Length (FPathResponse f) = PathResponseFrame_Length f"
| "Frame_Length (FConnectionClose f) = ConnectionCloseFrame_Length f"
| "Frame_Length FHandshakeDone = HandshakeDoneFrame_Length"
| "Frame_Length (FDatagram f) = DatagramFrame_Length f"

definition IsProbingFrame :: "Frame \<Rightarrow> bool" where
  "IsProbingFrame f = (case f of
      FPathChallenge _ \<Rightarrow> True | FPathResponse _ \<Rightarrow> True | FNewConnectionID _ \<Rightarrow> True | _ \<Rightarrow> False)"

section \<open>The parser\<close>

record FrameParser =
  fp_ackDelayExponent :: byte
  fp_supportsDatagrams :: bool
  fp_ackFrame :: AckFrame

definition NewFrameParser :: "bool \<Rightarrow> FrameParser" where
  "NewFrameParser supportsDatagrams =
     \<lparr>fp_ackDelayExponent = 0, fp_supportsDatagrams = supportsDatagrams,
      fp_ackFrame = \<lparr>AckRanges = [], DelayTime = 0, af_ECT0 = 0, af_ECT1 = 0, af_ECNCE = 0\<rparr>\<rparr>"

definition SetAckDelayExponent :: "FrameParser \<Rightarrow> byte \<Rightarrow> FrameParser" where
  "SetAckDelayExponent p e = p\<lparr>fp_ackDelayExponent := e\<rparr>"

definition isAllowedAtEncLevel :: "Frame \<Rightarrow> EncryptionLevel \<Rightarrow> bool" where
  "isAllowedAtEncLevel f encLevel = (case encLevel of
      EncryptionInitial \<Rightarrow>
        (case f of FCrypto _ \<Rightarrow> True | FAck _ \<Rightarrow> True | FConnectionClose _ \<Rightarrow> True | FPing \<Rightarrow> True | _ \<Rightarrow> False)
    | EncryptionHandshake \<Rightarrow>
        (case f of FCrypto _ \<Rightarrow> True | FAck _ \<Rightarrow> True | FConnectionClose _ \<Rightarrow> True | FPing \<Rightarrow> True | _ \<Rightarrow> False)
    | Encryption0RTT \<Rightarrow>
        (case f of FCrypto _ \<Rightarrow> False | FAck _ \<Rightarrow> False | FConnectionClose _ \<Rightarrow> False
         | FNewToken _ \<Rightarrow> False | FPathResponse _ \<Rightarrow> False | FRetireConnectionID _ \<Rightarrow> False | _ \<Rightarrow> True)
    | Encryption1RTT \<Rightarrow> True)"

definition wrap_frame :: "('a \<Rightarrow> Frame) \<Rightarrow> ('a \<times> nat) result \<Rightarrow> (Frame \<times> nat) result" where
  "wrap_frame C r = rbind r (\<lambda>(f, l). Inr (C f, l))"

definition dispatchFrame :: "FrameParser \<Rightarrow> byte list \<Rightarrow> u64 \<Rightarrow> EncryptionLevel \<Rightarrow> (Frame \<times> nat) result" where
  "dispatchFrame p b typ encLevel =
     (if typ AND 0xf8 = 0x8 then wrap_frame FStream (parseStreamFrame typ b)
      else if typ = ucast pingFrameType then Inr (FPing, 0)
      else if typ = ucast ackFrameType \<or> typ = ucast ackECNFrameType then
        let ackDelayExponent = (if encLevel \<noteq> Encryption1RTT then DefaultAckDelayExponent
                                else unat (fp_ackDelayExponent p)) in
        wrap_frame FAck (parseAckFrame (AckFrame_Reset (fp_ackFrame p)) b typ ackDelayExponent)
      else if typ = ucast resetStreamFrameType then wrap_frame FResetStream (parseResetStreamFrame b)
      else if typ = ucast stopSendingFrameType then wrap_frame FStopSending (parseStopSendingFrame b)
      else if typ = ucast cryptoFrameType then wrap_frame FCrypto (parseCryptoFrame b)
      else if typ = ucast newTokenFrameType then wrap_frame FNewToken (parseNewTokenFrame b)
      else if typ = ucast maxDataFrameType then wrap_frame FMaxData (parseMaxDataFrame b)
      else if typ = ucast maxStreamDataFrameType then wrap_frame FMaxStreamData (parseMaxStreamDataFrame b)
      else if typ = ucast bidiMaxStreamsFrameType \<or> typ = ucast uniMaxStreamsFrameType then
        wrap_frame FMaxStreams (parseMaxStreamsFrame typ b)
      else if typ = ucast dataBlockedFrameType then wrap_frame FDataBlocked (parseDataBlockedFrame b)
      else if typ = ucast streamDataBlockedFrameType then
        wrap_frame FStreamDataBlocked (parseStreamDataBlockedFrame b)
      else if typ = ucast bidiStreamBlockedFrameType \<or> typ = ucast uniStreamBlockedFrameType then
        wrap_frame FStreamsBlocked (parseStreamsBlockedFrame typ b)
      else if typ = ucast newConnectionIDFrameType then
        wrap_frame FNewConnectionID (parseNewConnectionIDFrame b)
      else if typ = ucast retireConnectionIDFrameType then
        wrap_frame FRetireConnectionID (parseRetireConnectionIDFrame b)
      else if typ = ucast pathChallengeFrameType then wrap_frame FPathChallenge (parsePathChallengeFrame b)
      else if typ = ucast pathResponseFrameType then wrap_frame FPathResponse (parsePathResponseFrame b)
      else if typ = ucast connectionCloseFrameType \<or> typ = ucast applicationCloseFrameType then
        wrap_frame FConnectionClose (parseConnectionCloseFrame typ b)
      else if typ = ucast handshakeDoneFrameType then Inr (FHandshakeDone, 0)
      else if (typ = 0x30 \<or> typ = 0x31) \<and> fp_supportsDatagrams p then
        wrap_frame FDatagram (parseDatagramFrame typ b)
      else Inl (ErrorNew ''unknown frame type''))"

definition parseFrame :: "FrameParser \<Rightarrow> byte list \<Rightarrow> u64 \<Rightarrow> EncryptionLevel \<Rightarrow> (Frame \<times> nat) result" where
  "parseFrame p b typ encLevel =
     rbind (dispatchFrame p b typ encLevel) (\<lambda>(frame, l).
       if \<not> isAllowedAtEncLevel frame encLevel
       then Inl (ErrorNew ''not allowed at encryption level'')
       else Inr (frame, l))"

fun Error :: "go_error \<Rightarrow> string" where
  "Error EOF = ''EOF''"
| "Error ErrUnexpectedEOF = ''unexpected EOF''"
| "Error (ErrorNew m) = m"
| "Error (TransportError c t m) = m"
| "Error (Panic m) = m"

definition frame_error :: "u64 \<Rightarrow> go_error \<Rightarrow> go_error" where
  "frame_error typ e = (case e of Panic m \<Rightarrow> Panic m | _ \<Rightarrow> TransportError FrameEncodingError typ (Error e))"

text \<open>The loop carries the number of bytes parsed so far; no frame is left when only PADDING is.\<close>

function parseNext :: "FrameParser \<Rightarrow> byte list \<Rightarrow> EncryptionLevel \<Rightarrow> nat \<Rightarrow> (Frame option \<times> nat) result" where
  "parseNext p b encLevel parsed =
     (if length b = 0 then Inr (None, parsed)
      else case varint_Parse b of
          Inl e \<Rightarrow> Inl (frame_error 0 e)
        | Inr (typ, l) \<Rightarrow>
            if typ = 0 then parseNext p (drop l b) encLevel (parsed + l)
            else (case parseFrame p (drop l b) typ encLevel of
                Inl e \<Rightarrow> Inl (frame_error typ e)
              | Inr (f, l') \<Rightarrow> Inr (Some f, parsed + l + l')))"
  by pat_completeness auto
termination
proof (relation "measure (\<lambda>(p, b, e, n). length b)")
  fix p :: FrameParser and b :: "byte list" and e :: EncryptionLevel and parsed l :: nat and vl and t :: u64
  assume "length b \<noteq> 0" and "varint_Parse b = Inr vl" and "(t, l) = vl"
  then show "((p, drop l b, e, parsed + l), p, b, e, parsed) \<in> measure (\<lambda>(p, b, e, n). length b)"
    using varint_Parse_bounds [of b t l] by auto
qed simp

declare parseNext.simps [simp del]

definition ParseNext :: "FrameParser \<Rightarrow> byte list \<Rightarrow> EncryptionLevel \<Rightarrow> (Frame option \<times> nat) result" where
  "ParseNext p data encLevel = parseNext p data encLevel 0"

section \<open>The parser is safe on every input\<close>

lemma wrap_frame_no_panic [no_panic]: "\<not> is_panic r \<Longrightarrow> \<not> is_panic (wrap_frame C r)"
  unfolding wrap_frame_def by (intro no_panic) simp_all

lemma returns_wrap_frame [returns]: "returns (\<lambda>(f, l). P (C f, l)) r \<Longrightarrow> returns P (wrap_frame C r)"
  unfolding wrap_frame_def by (intro returns) (auto elim!: returns_mono intro: returns_Inr)

lemmas parsers_no_panic = stream_parser.prs_no_panic ack_parser.prs_no_panic reset_stream.prs_no_panic
  stop_sending.prs_no_panic crypto.prs_no_panic new_token.prs_no_panic max_data.prs_no_panic
  max_stream_data.prs_no_panic max_streams.prs_no_panic data_blocked.prs_no_panic
  stream_data_blocked.prs_no_panic streams_blocked.prs_no_panic new_connection_id.prs_no_panic
  retire_connection_id.prs_no_panic path_challenge.prs_no_panic path_response.prs_no_panic
  connection_close.prs_no_panic datagram_parser.prs_no_panic

lemmas parsers_bounded = stream_parser.prs_bounded ack_parser.prs_bounded reset_stream.prs_bounded
  stop_sending.prs_bounded crypto.prs_bounded new_token.prs_bounded max_data.prs_bounded
  max_stream_data.prs_bounded max_streams.prs_bounded data_blocked.prs_bounded
  stream_data_blocked.prs_bounded streams_blocked.prs_bounded new_connection_id.prs_bounded
  retire_connection_id.prs_bounded path_challenge.prs_bounded path_response.prs_bounded
  connection_close.prs_bounded datagram_parser.prs_bounded

lemma dispatchFrame_no_panic: "\<not> is_panic (dispatchFrame p b t e)"
  unfolding dispatchFrame_def by (intro no_panic parsers_no_panic) simp_all

lemma returns_bounded: "(\<And>f l. r = Inr (f, l) \<Longrightarrow> l \<le> n) \<Longrightarrow> returns (\<lambda>(f, l). l \<le> n) r"
  by (cases r) (auto simp: returns_def)

lemma dispatchFrame_bounded: "returns (\<lambda>(f, l). l \<le> length b) (dispatchFrame p b t e)"
proof -
  have wrap: "returns (\<lambda>(f, l). l \<le> n) r \<Longrightarrow> returns (\<lambda>(f, l). l \<le> n) (wrap_frame C r)" for n C and r :: "('a \<times> nat) result"
    by (intro returns) simp
  show ?thesis
    unfolding dispatchFrame_def
    by (intro returns_if returns_Let returns_Inl wrap returns_bounded) (auto dest: parsers_bounded)
qed

lemma parseFrame_no_panic: "\<not> is_panic (parseFrame p b t e)"
  unfolding parseFrame_def by (intro no_panic dispatchFrame_no_panic) simp_all

lemma parseFrame_bounded: "parseFrame p b t e = Inr (f, l) \<Longrightarrow> l \<le> length b"
  using dispatchFrame_bounded [of b p t e]
  by (auto simp: parseFrame_def rbind_eq_Inr returns_def split: if_splits)

lemma frame_error_cases: "frame_error t e = Panic m \<longleftrightarrow> e = Panic m"
  by (cases e) (auto simp: frame_error_def)

lemma parseNext_Nil [simp]: "parseNext p [] e n = Inr (None, n)"
  by (simp add: parseNext.simps)

lemma parseNext_Inl: "b \<noteq> [] \<Longrightarrow> varint_Parse b = Inl err \<Longrightarrow> parseNext p b e n = Inl (frame_error 0 err)"
  by (simp add: parseNext.simps)

lemma parseNext_Inr:
  "varint_Parse b = Inr (t, l) \<Longrightarrow> parseNext p b e n =
     (if t = 0 then parseNext p (drop l b) e (n + l)
      else case parseFrame p (drop l b) t e of
          Inl err \<Rightarrow> Inl (frame_error t err)
        | Inr (f, l') \<Rightarrow> Inr (Some f, n + l + l'))"
  by (subst parseNext.simps) (auto split: sum.splits)

lemma parseNext_cases:
  obtains (none) "parseNext p b e n = Inr (None, n + length b)"
    | (err) t err where "parseNext p b e n = Inl (frame_error t err)" and "\<And>m. err \<noteq> Panic m"
    | (frame) k t f l where "parseNext p b e n = Inr (Some f, n + k + l)"
      and "parseFrame p (drop k b) t e = Inr (f, l)" and "0 < k" and "k \<le> length b"
proof (induction p b e n arbitrary: thesis rule: parseNext.induct)
  case (1 p b e n)
  consider "b = []" | v where "b \<noteq> []" "varint_Parse b = Inl v" | t k where "varint_Parse b = Inr (t, k)"
    by (cases "varint_Parse b") auto
  then show ?case
  proof cases
    case 2
    then show ?thesis
      using "1.prems"(2) [of 0 v] varint_Parse_never_panics [of b] by (auto simp: parseNext_Inl)
  next
    case (3 t k)
    have k: "0 < k" "k \<le> length b" "b \<noteq> []"
      using varint_Parse_bounds [OF 3] 3 by auto
    show ?thesis
    proof (cases "t = 0")
      case True
      then have eq: "parseNext p b e n = parseNext p (drop k b) e (n + k)"
        using 3 by (simp add: parseNext_Inr)
      show ?thesis
      proof (rule "1.IH" [of "(t, k)" t k])
        fix k' t' f l
        assume "parseNext p (drop k b) e (n + k) = Inr (Some f, n + k + k' + l)"
          "parseFrame p (drop k' (drop k b)) t' e = Inr (f, l)" "0 < k'" "k' \<le> length (drop k b)"
        then show thesis
          using "1.prems"(3) [of f "k + k'" l t'] eq k by (simp add: add.assoc add.commute)
      qed (use 3 k True eq "1.prems"(1,2) in simp_all)
    next
      case False
      then show ?thesis
        using 3 k parseFrame_no_panic [of p "drop k b" t e] "1.prems"(2) [of t] "1.prems"(3) [of _ k _ t]
        by (cases "parseFrame p (drop k b) t e") (auto simp: parseNext_Inr)
    qed
  qed (use "1.prems"(1) in simp)
qed

lemma parseNext_progress: "parseNext p b e n = Inr (Some f, l) \<Longrightarrow> n < l"
  by (cases rule: parseNext_cases [of p b e n]) auto

section \<open>Frames on the wire\<close>

text \<open>Well-formedness depends on the parser's configuration and on the encryption level.\<close>

fun Frame_wf :: "FrameParser \<Rightarrow> EncryptionLevel \<Rightarrow> Frame \<Rightarrow> bool" where
  "Frame_wf p e FPing = True"
| "Frame_wf p e (FAck f) = (AckFrame_wf f \<and> (e = Encryption1RTT \<longrightarrow> fp_ackDelayExponent p = 3))"
| "Frame_wf p e (FResetStream f) = ResetStreamFrame_wf f"
| "Frame_wf p e (FStopSending f) = StopSendingFrame_wf f"
| "Frame_wf p e (FCrypto f) = CryptoFrame_wf f"
| "Frame_wf p e (FNewToken f) = NewTokenFrame_wf f"
| "Frame_wf p e (FStream f) = StreamFrame_wf f"
| "Frame_wf p e (FMaxData f) = MaxDataFrame_wf f"
| "Frame_wf p e (FMaxStreamData f) = MaxStreamDataFrame_wf f"
| "Frame_wf p e (FMaxStreams f) = MaxStreamsFrame_wf f"
| "Frame_wf p e (FDataBlocked f) = DataBlockedFrame_wf f"
| "Frame_wf p e (FStreamDataBlocked f) = StreamDataBlockedFrame_wf f"
| "Frame_wf p e (FStreamsBlocked f) = StreamsBlockedFrame_wf f"
| "Frame_wf p e (FNewConnectionID f) = NewConnectionIDFrame_wf f"
| "Frame_wf p e (FRetireConnectionID f) = RetireConnectionIDFrame_wf f"
| "Frame_wf p e (FPathChallenge f) = PathChallengeFrame_wf f"
| "Frame_wf p e (FPathResponse f) = PathResponseFrame_wf f"
| "Frame_wf p e (FConnectionClose f) = ConnectionCloseFrame_wf f"
| "Frame_wf p e FHandshakeDone = True"
| "Frame_wf p e (FDatagram f) = (DatagramFrame_wf f \<and> fp_supportsDatagrams p)"

fun Frame_delim :: "Frame \<Rightarrow> bool" where
  "Frame_delim (FStream f) = sf_DataLenPresent f"
| "Frame_delim (FDatagram f) = df_DataLenPresent f"
| "Frame_delim _ = True"

fun Frame_type :: "Frame \<Rightarrow> byte" where
  "Frame_type FPing = pingFrameType"
| "Frame_type (FAck f) = AckFrame_type f"
| "Frame_type (FResetStream f) = resetStreamFrameType"
| "Frame_type (FStopSending f) = stopSendingFrameType"
| "Frame_type (FCrypto f) = cryptoFrameType"
| "Frame_type (FNewToken f) = newTokenFrameType"
| "Frame_type (FStream f) = StreamFrame_type f"
| "Frame_type (FMaxData f) = maxDataFrameType"
| "Frame_type (FMaxStreamData f) = maxStreamDataFrameType"
| "Frame_type (FMaxStreams f) = MaxStreamsFrame_type f"
| "Frame_type (FDataBlocked f) = dataBlockedFrameType"
| "Frame_type (FStreamDataBlocked f) = streamDataBlockedFrameType"
| "Frame_type (FStreamsBlocked f) = StreamsBlockedFrame_type f"
| "Frame_type (FNewConnectionID f) = newConnectionIDFrameType"
| "Frame_type (FRetireConnectionID f) = retireConnectionIDFrameType"
| "Frame_type (FPathChallenge f) = pathChallengeFrameType"
| "Frame_type (FPathResponse f) = pathResponseFrameType"
| "Frame_type (FConnectionClose f) = ConnectionCloseFrame_type f"
| "Frame_type FHandshakeDone = handshakeDoneFrameType"
| "Frame_type (FDatagram f) = DatagramFrame_type f"

fun Frame_body :: "Frame \<Rightarrow> byte list" where
  "Frame_body FPing = []"
| "Frame_body (FAck f) = AckFrame_body f"
| "Frame_body (FResetStream f) = ResetStreamFrame_body f"
| "Frame_body (FStopSending f) = StopSendingFrame_body f"
| "Frame_body (FCrypto f) = CryptoFrame_body f"
| "Frame_body (FNewToken f) = NewTokenFrame_body f"
| "Frame_body (FStream f) = StreamFrame_body f"
| "Frame_body (FMaxData f) = MaxDataFrame_body f"
| "Frame_body (FMaxStreamData f) = MaxStreamDataFrame_body f"
| "Frame_body (FMaxStreams f) = MaxStreamsFrame_body f"
| "Frame_body (FDataBlocked f) = DataBlockedFrame_body f"
| "Frame_body (FStreamDataBlocked f) = StreamDataBlockedFrame_body f"
| "Frame_body (FStreamsBlocked f) = StreamsBlockedFrame_body f"
| "Frame_body (FNewConnectionID f) = NewConnectionIDFrame_body f"
| "Frame_body (FRetireConnectionID f) = RetireConnectionIDFrame_body f"
| "Frame_body (FPathChallenge f) = pc_Data f"
| "Frame_body (FPathResponse f) = pr_Data f"
| "Frame_body (FConnectionClose f) = ConnectionCloseFrame_body f"
| "Frame_body FHandshakeDone = []"
| "Frame_body (FDatagram f) = DatagramFrame_body f"

lemmas frames_app = ack.app_eq reset_stream.app_eq stop_sending.app_eq crypto.app_eq new_token.app_eq
  stream.app_eq max_data.app_eq max_stream_data.app_eq max_streams.app_eq data_blocked.app_eq
  stream_data_blocked.app_eq streams_blocked.app_eq new_connection_id.app_eq retire_connection_id.app_eq
  path_challenge.app_eq path_response.app_eq connection_close.app_eq datagram.app_eq

lemmas frames_len = ack.len_eq reset_stream.len_eq stop_sending.len_eq crypto.len_eq new_token.len_eq
  stream.len_eq max_data.len_eq max_stream_data.len_eq max_streams.len_eq data_blocked.len_eq
  stream_data_blocked.len_eq streams_blocked.len_eq new_connection_id.len_eq retire_connection_id.len_eq
  path_challenge.len_eq path_response.len_eq connection_close.len_eq datagram.len_eq

lemma Frame_app_eq: "Frame_wf p e f \<Longrightarrow> Frame_Append b f = Inr (b @ Frame_type f # Frame_body f)"
  by (cases f) (auto simp: frames_app PingFrame_Append_def HandshakeDoneFrame_Append_def)

lemma Frame_len_eq: "Frame_wf p e f \<Longrightarrow> Frame_Length f = Inr (1 + int (length (Frame_body f)))"
  by (cases f) (auto simp: frames_len PingFrame_Length_def HandshakeDoneFrame_Length_def)

lemma stream_type_mask: "(ucast (StreamFrame_type f) :: u64) AND 0xf8 = 8"
  by (cases f rule: StreamFrame_cases) (simp_all add: StreamFrame_type_def)

lemma Frame_type_range: "0 < Frame_type f \<and> Frame_type f < 64"
  by (cases f) (auto simp: frame_type_defs AckFrame_type_def MaxStreamsFrame_type_def StreamsBlockedFrame_type_def
    ConnectionCloseFrame_type_def DatagramFrame_type_def StreamFrame_type_def split: StreamType.splits)

text \<open>The parsers that look at the frame type, at the type their frame is written with.\<close>

lemma dispatchFrame_body:
  assumes "Frame_wf p e f" and "Frame_delim f \<or> rest = []"
  shows "dispatchFrame p (Frame_body f @ rest) (ucast (Frame_type f)) e = Inr (f, length (Frame_body f))"
proof (cases f)
  case (FAck g)
  then have "(if e \<noteq> Encryption1RTT then DefaultAckDelayExponent else unat (fp_ackDelayExponent p)) = 3"
    using assms(1) by (simp add: DefaultAckDelayExponent_def)
  then show ?thesis
    using FAck assms ack.prs_eq [of g rest] unfolding dispatchFrame_def wrap_frame_def
    by (cases "hasECN g") (simp_all add: AckFrame_type_def frame_type_defs)
next
  case (FStream g)
  then show ?thesis
    using assms stream.prs_eq [of g rest] by (simp add: dispatchFrame_def wrap_frame_def stream_type_mask)
next
  case (FMaxStreams g)
  then show ?thesis
    using assms max_streams.prs_eq [of g rest] unfolding dispatchFrame_def wrap_frame_def
    by (cases "ms_Type g") (simp_all add: MaxStreamsFrame_type_def frame_type_defs)
next
  case (FStreamsBlocked g)
  then show ?thesis
    using assms streams_blocked.prs_eq [of g rest] unfolding dispatchFrame_def wrap_frame_def
    by (cases "sb_Type g") (simp_all add: StreamsBlockedFrame_type_def frame_type_defs)
next
  case (FConnectionClose g)
  then show ?thesis
    using assms connection_close.prs_eq [of g rest] unfolding dispatchFrame_def wrap_frame_def
    by (cases "cc_IsApplicationError g") (simp_all add: ConnectionCloseFrame_type_def frame_type_defs)
next
  case (FDatagram g)
  then show ?thesis
    using assms datagram.prs_eq [of g rest] unfolding dispatchFrame_def wrap_frame_def
    by (cases "df_DataLenPresent g") (simp_all add: DatagramFrame_type_def frame_type_defs)
qed (use assms in \<open>simp_all add: dispatchFrame_def wrap_frame_def frame_type_defs
  reset_stream.prs_eq stop_sending.prs_eq crypto.prs_eq new_token.prs_eq max_data.prs_eq
  max_stream_data.prs_eq data_blocked.prs_eq stream_data_blocked.prs_eq new_connection_id.prs_eq
  retire_connection_id.prs_eq path_challenge.prs_eq path_response.prs_eq\<close>)

definition Frame_ok :: "FrameParser \<Rightarrow> EncryptionLevel \<Rightarrow> Frame \<Rightarrow> bool" where
  "Frame_ok p e f \<longleftrightarrow> Frame_wf p e f \<and> isAllowedAtEncLevel f e"

interpretation frames: wire_frame "Frame_ok p e" Frame_delim Frame_type Frame_body Frame_Append Frame_Length
  "\<lambda>t b. parseFrame p b t e" for p e
  by unfold_locales (auto simp: Frame_ok_def parseFrame_def Frame_app_eq Frame_len_eq dispatchFrame_body)

interpretation frames_parser: wire_parser "\<lambda>t b. parseFrame p b t e" for p e
  by unfold_locales (simp_all add: parseFrame_no_panic parseFrame_bounded)

section \<open>The frames of a packet\<close>

text \<open>The loop of \<open>handleFrames\<close> in \<open>connection.go\<close> that takes the frames out of a packet.\<close>

function parse_frames :: "FrameParser \<Rightarrow> byte list \<Rightarrow> EncryptionLevel \<Rightarrow> Frame list result" where
  "parse_frames p data encLevel =
     (if data = [] then Inr []
      else case ParseNext p data encLevel of
          Inl err \<Rightarrow> Inl err
        | Inr (None, l) \<Rightarrow> Inr []
        | Inr (Some frame, l) \<Rightarrow>
            rbind (parse_frames p (drop l data) encLevel) (\<lambda>frames. Inr (frame # frames)))"
  by pat_completeness auto
termination
proof (relation "measure (\<lambda>(p, b, e). length b)")
  fix p :: FrameParser and b :: "byte list" and e :: EncryptionLevel and fl f g and l :: nat
  assume "b \<noteq> []" and "ParseNext p b e = Inr fl" and "(f, l) = fl" and "f = Some g"
  then show "((p, drop l b, e), p, b, e) \<in> measure (\<lambda>(p, b, e). length b)"
    using parseNext_progress [of p b e 0 g l] by (simp add: ParseNext_def)
qed simp

declare parse_frames.simps [simp del]

lemma vbytes_small: "t < 64 \<Longrightarrow> vbytes (ucast t) = [t]"
proof -
  assume "t < 64"
  then have "unat t < 64"
    by (simp add: word_less_nat_alt)
  then show ?thesis
    by (simp add: vbytes_def varint_bytes_def varint_size_def varint_enc_numeral unsigned_ucast_eq take_bit_nat_eq_self)
qed

lemma ucast_byte_eq_0: "(ucast (t :: byte) :: u64) = 0 \<longleftrightarrow> t = 0"
proof -
  have "unat t < 2 ^ 64"
    by (rule less_trans [OF unat_byte_less]) simp
  then show ?thesis
    by (simp add: word_unat_eq_iff unsigned_ucast_eq take_bit_nat_eq_self)
qed

lemma varint_Parse_small: "t < 64 \<Longrightarrow> varint_Parse (t # b) = Inr (ucast t, 1)"
proof -
  assume t: "t < 64"
  then have "unat (ucast t :: u64) < 64"
    by (simp add: word_less_nat_alt unsigned_ucast_eq take_bit_nat_eq_self)
  then have "u62 (ucast t)" "vsize (ucast t) = 1"
    by (simp_all add: u62_def vsize_def varint_size_def)
  then show ?thesis
    using varint_Parse_vbytes [of "ucast t" b] vbytes_small [OF t] by simp
qed

lemma parseNext_padding: "parseNext p (replicate k 0 @ b) e n = parseNext p b e (n + k)"
  by (induction k arbitrary: n) (simp_all add: parseNext_Inr [OF varint_Parse_small])

lemma parseNext_frame:
  assumes "Frame_ok p e f" and "Frame_delim f \<or> rest = []"
  shows "parseNext p (Frame_type f # Frame_body f @ rest) e n = Inr (Some f, n + (1 + length (Frame_body f)))"
proof -
  have t: "Frame_type f < 64" "(ucast (Frame_type f) :: u64) \<noteq> 0"
    using Frame_type_range [of f] by (auto simp: word_gt_0 ucast_byte_eq_0)
  have "varint_Parse (Frame_type f # Frame_body f @ rest) = Inr (ucast (Frame_type f), 1)"
    by (rule varint_Parse_small) fact
  from parseNext_Inr [OF this, of p e n] show ?thesis
    using frames.prs_eq [OF assms] t(2) by simp
qed

text \<open>A payload: every frame may be preceded by PADDING, and PADDING may follow the last one.\<close>

fun payload :: "(nat \<times> Frame) list \<Rightarrow> nat \<Rightarrow> byte list" where
  "payload [] k = replicate k 0"
| "payload ((j, f) # fs) k = replicate j 0 @ Frame_type f # Frame_body f @ payload fs k"

fun payload_ok :: "FrameParser \<Rightarrow> EncryptionLevel \<Rightarrow> (nat \<times> Frame) list \<Rightarrow> nat \<Rightarrow> bool" where
  "payload_ok p e [] k = True"
| "payload_ok p e ((j, f) # fs) k \<longleftrightarrow> Frame_ok p e f \<and> (Frame_delim f \<or> fs = [] \<and> k = 0) \<and> payload_ok p e fs k"

lemma parse_frames_payload: "payload_ok p e fs k \<Longrightarrow> parse_frames p (payload fs k) e = Inr (map snd fs)"
proof (induction fs)
  case Nil
  have "ParseNext p (replicate k 0) e = Inr (None, k)"
    using parseNext_padding [of p k "[]" e 0] by (simp add: ParseNext_def)
  then show ?case
    by (simp add: parse_frames.simps [of p "replicate k 0"])
next
  case (Cons jf fs)
  obtain j f where jf: "jf = (j, f)"
    by (cases jf)
  let ?rest = "payload fs k"
  let ?b = "replicate j 0 @ Frame_type f # Frame_body f @ ?rest"
  have "Frame_delim f \<or> ?rest = []" "Frame_ok p e f" and IH: "parse_frames p ?rest e = Inr (map snd fs)"
    using Cons by (auto simp: jf)
  then have "ParseNext p ?b e = Inr (Some f, j + (1 + length (Frame_body f)))"
    by (simp add: ParseNext_def parseNext_padding parseNext_frame)
  moreover have "drop (j + (1 + length (Frame_body f))) ?b = ?rest"
    by simp
  ultimately have "parse_frames p ?b e = Inr (f # map snd fs)"
    by (subst parse_frames.simps) (simp add: IH)
  then show ?case
    by (simp add: jf)
qed

section \<open>Properties\<close>


text \<open>
  (C3) What is written is what is parsed, for whole packets: take any list of frames that the
  writers accept and that are allowed at the encryption level, append them with any amount
  of PADDING before, between and after them (a STREAM or DATAGRAM frame without a length only in last
  place, with nothing after it); then the parsing loop returns exactly these frames in this order.
\<close>

theorem packet_roundtrip:
  assumes "payload_ok p encLevel fs k"
  shows "(\<forall>(j, f) \<in> set fs. \<forall>b. Frame_Append b f = Inr (b @ Frame_type f # Frame_body f) \<and>
      Frame_Length f = Inr (int (length (Frame_type f # Frame_body f)))) \<and>
    parse_frames p (payload fs k) encLevel = Inr (map snd fs)"
proof -
  have "Frame_ok p encLevel f" if "(j, f) \<in> set fs" for j f
    using assms that by (induction fs) auto
  then show ?thesis
    using assms parse_frames_payload [OF assms] frames.app_eq frames.len_eq by fastforce
qed

theorem packet_roundtrip_witness:
  "parse_frames (NewFrameParser True)
     (payload [(2, FPing), (0, FStream \<lparr>sf_StreamID = 4, sf_Offset = 9, sf_Data = [1, 2], sf_Fin = True, sf_DataLenPresent = False\<rparr>)] 0)
     Encryption1RTT =
   Inr [FPing, FStream \<lparr>sf_StreamID = 4, sf_Offset = 9, sf_Data = [1, 2], sf_Fin = True, sf_DataLenPresent = False\<rparr>]"
  using packet_roundtrip [of "NewFrameParser True" Encryption1RTT
    "[(2, FPing), (0, FStream \<lparr>sf_StreamID = 4, sf_Offset = 9, sf_Data = [1, 2], sf_Fin = True, sf_DataLenPresent = False\<rparr>)]" 0]
  by (simp add: Frame_ok_def StreamFrame_wf_def in62_def MaxByteCount_def isAllowedAtEncLevel_def)

text \<open>
  (C35) No frame escapes the table of encryption levels: a frame that the parser returns is allowed
  at the level of the packet it came in. In Initial and Handshake packets it is a PING, ACK, CRYPTO
  or CONNECTION\_CLOSE frame.
\<close>

theorem parsed_frame_allowed:
  "ParseNext p data encLevel = Inr (Some f, l) \<longrightarrow> isAllowedAtEncLevel f encLevel \<and>
     (encLevel \<in> {EncryptionInitial, EncryptionHandshake} \<longrightarrow>
        f = FPing \<or> (\<exists>g. f = FAck g) \<or> (\<exists>g. f = FCrypto g) \<or> (\<exists>g. f = FConnectionClose g))"
proof -
  have "isAllowedAtEncLevel f encLevel" if "ParseNext p data encLevel = Inr (Some f, l)"
    using that unfolding ParseNext_def
    by (cases rule: parseNext_cases [of p data encLevel 0]) (auto simp: parseFrame_def rbind_eq_Inr split: if_splits)
  then show ?thesis
    by (cases f) (auto simp: isAllowedAtEncLevel_def)
qed

theorem parsed_frame_allowed_witness:
  "ParseNext (NewFrameParser False) [0, 1] EncryptionInitial = Inr (Some FPing, 2) \<and>
   isAllowedAtEncLevel FPing EncryptionInitial"
proof -
  have "ParseNext (NewFrameParser False) [0, 1] EncryptionInitial = Inr (Some FPing, 2)"
    by code_simp
  then show ?thesis
    using parsed_frame_allowed [of "NewFrameParser False" "[0, 1]" EncryptionInitial FPing 2] by simp
qed

text \<open>
  The test for STREAM frames looks at the low byte of the type only. A varint type such as
  \<open>0x108\<close>, which is no frame type of the protocol, is not rejected as unknown but parsed as
  a STREAM frame, and the same holds for every type whose bits 3 to 7 are those of a STREAM type.
\<close>

theorem unknown_type_parsed_as_stream:
  "(t AND 0xf8 = 0x8 \<longrightarrow> dispatchFrame p b t e = wrap_frame FStream (parseStreamFrame t b)) \<and>
   ParseNext (NewFrameParser False) [0x41, 0x08, 0x04, 0x61] Encryption1RTT =
     Inr (Some (FStream \<lparr>sf_StreamID = 4, sf_Offset = 0, sf_Data = [0x61], sf_Fin = False, sf_DataLenPresent = False\<rparr>), 4)"
proof (rule conjI)
  show "ParseNext (NewFrameParser False) [0x41, 0x08, 0x04, 0x61] Encryption1RTT =
     Inr (Some (FStream \<lparr>sf_StreamID = 4, sf_Offset = 0, sf_Data = [0x61], sf_Fin = False, sf_DataLenPresent = False\<rparr>), 4)"
    by code_simp
qed (simp add: dispatchFrame_def)

theorem unknown_type_parsed_as_stream_witness:
  "dispatchFrame (NewFrameParser False) [] 0x1008 Encryption1RTT = Inl EOF"
  using unknown_type_parsed_as_stream [of "0x1008" "NewFrameParser False" "[]" Encryption1RTT]
  by (simp add: wrap_frame_def parseStreamFrame_def next_varint_def replaceUnexpectedEOF_def)

end
