(* ===== verification/Received_History.thy ===== *)
theory Received_History
  imports Wire_Ack
begin

text \<open>
  The history of received packet numbers (\<open>internal/ackhandler/received_packet_history.go\<close>): a short
  list of intervals that stands for a set of packet numbers. The intervals are kept in
  ascending order, and the loops run from the highest one down.
\<close>

section \<open>The history\<close>

record interval =
  Start :: PacketNumber
  End :: PacketNumber

record receivedPacketHistory =
  ranges :: "interval list"
  deletedBelow :: PacketNumber

definition newReceivedPacketHistory :: receivedPacketHistory where
  "newReceivedPacketHistory = \<lparr>ranges = [], deletedBelow = 0\<rparr>"

definition slices_Insert :: "'a list \<Rightarrow> nat \<Rightarrow> 'a \<Rightarrow> 'a list" where
  "slices_Insert xs i x = take i xs @ [x] @ drop i xs"

definition slices_Delete :: "'a list \<Rightarrow> nat \<Rightarrow> nat \<Rightarrow> 'a list" where
  "slices_Delete xs i j = take i xs @ drop j xs"

text \<open>One iteration of the loop of \<open>addToRanges\<close> looks at index \<open>i\<close> when \<open>Suc i\<close> indices are left.\<close>

fun add_to_ranges_loop :: "interval list \<Rightarrow> PacketNumber \<Rightarrow> nat \<Rightarrow> interval list \<times> bool" where
  "add_to_ranges_loop rs p 0 = (slices_Insert rs 0 \<lparr>Start = p, End = p\<rparr>, True)"
| "add_to_ranges_loop rs p (Suc i) =
     (if p \<ge> Start (rs ! i) \<and> p \<le> End (rs ! i) then (rs, False)
      else if End (rs ! i) = p - 1 then (rs[i := (rs ! i)\<lparr>End := p\<rparr>], True)
      else if Start (rs ! i) = p + 1 then
        let rs = rs[i := (rs ! i)\<lparr>Start := p\<rparr>] in
        if i > 0 \<and> End (rs ! (i - 1)) + 1 = Start (rs ! i) then
          (slices_Delete (rs[i - 1 := (rs ! (i - 1))\<lparr>End := End (rs ! i)\<rparr>]) i (i + 1), True)
        else (rs, True)
      else if p > End (rs ! i) then (slices_Insert rs (i + 1) \<lparr>Start = p, End = p\<rparr>, True)
      else add_to_ranges_loop rs p i)"

definition addToRanges :: "interval list \<Rightarrow> PacketNumber \<Rightarrow> interval list \<times> bool" where
  "addToRanges rs p =
     (if length rs = 0 then (rs @ [\<lparr>Start = p, End = p\<rparr>], True)
      else add_to_ranges_loop rs p (length rs))"

definition history_ReceivedPacket :: "receivedPacketHistory \<Rightarrow> PacketNumber \<Rightarrow> receivedPacketHistory \<times> bool" where
  "history_ReceivedPacket h p =
     (if p < deletedBelow h then (h, False)
      else let (rs, isNew) = addToRanges (ranges h) p;
               rs = (if length rs > MaxNumAckRanges then slices_Delete rs 0 (length rs - MaxNumAckRanges) else rs)
      in (h\<lparr>ranges := rs\<rparr>, isNew))"

text \<open>The loop of \<open>DeleteBelow\<close> over the remaining intervals, at index \<open>i\<close>, with the last index to delete.\<close>

fun delete_below_loop :: "PacketNumber \<Rightarrow> interval list \<Rightarrow> int \<Rightarrow> int \<Rightarrow> interval list \<times> int" where
  "delete_below_loop p [] i idx = ([], idx)"
| "delete_below_loop p (r # rs) i idx =
     (if End r < p then
        let (rs', idx') = delete_below_loop p rs (i + 1) i in (r # rs', idx')
      else if p > Start r \<and> p \<le> End r then (r\<lparr>Start := p\<rparr> # rs, idx)
      else (r # rs, idx))"

definition DeleteBelow :: "receivedPacketHistory \<Rightarrow> PacketNumber \<Rightarrow> receivedPacketHistory" where
  "DeleteBelow h p =
     (if p < deletedBelow h then h
      else let h = h\<lparr>deletedBelow := p\<rparr> in
      if length (ranges h) = 0 then h
      else let (rs, idx) = delete_below_loop p (ranges h) 0 (-1) in
      if idx \<ge> 0 then h\<lparr>ranges := slices_Delete rs 0 (nat (idx + 1))\<rparr> else h\<lparr>ranges := rs\<rparr>)"

definition AppendAckRanges :: "receivedPacketHistory \<Rightarrow> AckRange list \<Rightarrow> AckRange list" where
  "AppendAckRanges h ackRanges =
     ackRanges @ map (\<lambda>r. \<lparr>Smallest = Start r, Largest = End r\<rparr>) (rev (ranges h))"

definition GetHighestAckRange :: "receivedPacketHistory \<Rightarrow> AckRange" where
  "GetHighestAckRange h =
     (if length (ranges h) > 0
      then \<lparr>Smallest = Start (ranges h ! (length (ranges h) - 1)), Largest = End (ranges h ! (length (ranges h) - 1))\<rparr>
      else \<lparr>Smallest = 0, Largest = 0\<rparr>)"

fun duplicate_loop :: "PacketNumber \<Rightarrow> interval list \<Rightarrow> bool" where
  "duplicate_loop p [] = False"
| "duplicate_loop p (r # rs) =
     (if p > End r then False
      else if p \<le> End r \<and> p \<ge> Start r then True
      else duplicate_loop p rs)"

definition history_IsPotentiallyDuplicate :: "receivedPacketHistory \<Rightarrow> PacketNumber \<Rightarrow> bool" where
  "history_IsPotentiallyDuplicate h p = (if p < deletedBelow h then True else duplicate_loop p (rev (ranges h)))"

section \<open>The set of packet numbers it stands for\<close>

definition iv_set :: "interval list \<Rightarrow> PacketNumber set" where
  "iv_set rs = (\<Union>r \<in> set rs. {Start r..End r})"

definition iv_ok :: "interval list \<Rightarrow> bool" where
  "iv_ok rs \<longleftrightarrow> sorted_wrt (\<lambda>r s. End r + 1 < Start s) rs \<and> (\<forall>r \<in> set rs. Start r \<le> End r)"

lemma iv_set_simps [simp]:
  "iv_set [] = {}"
  "iv_set (r # rs) = {Start r..End r} \<union> iv_set rs"
  "iv_set (rs @ ss) = iv_set rs \<union> iv_set ss"
  "iv_set (rev rs) = iv_set rs"
  by (auto simp: iv_set_def)

lemma iv_ok_append: "iv_ok (rs @ ss) \<longleftrightarrow> iv_ok rs \<and> iv_ok ss \<and> (\<forall>r \<in> set rs. \<forall>s \<in> set ss. End r + 1 < Start s)"
  by (auto simp: iv_ok_def sorted_wrt_append)

lemma iv_ok_Cons: "iv_ok (r # rs) \<longleftrightarrow> Start r \<le> End r \<and> (\<forall>s \<in> set rs. End r + 1 < Start s) \<and> iv_ok rs"
  by (auto simp: iv_ok_def)

lemma iv_ok_Nil [simp]: "iv_ok []"
  by (simp add: iv_ok_def)

lemma iv_set_memD: "q \<in> iv_set rs \<Longrightarrow> \<exists>r \<in> set rs. Start r \<le> q \<and> q \<le> End r"
  by (auto simp: iv_set_def)

lemma add_to_ranges_loop_spec:
  "iv_ok (pre @ post) \<Longrightarrow> \<forall>r \<in> set post. p + 1 < Start r \<Longrightarrow>
   (let (rs', new) = add_to_ranges_loop (pre @ post) p (length pre) in
    iv_ok rs' \<and> iv_set rs' = insert p (iv_set (pre @ post)) \<and> (new \<longleftrightarrow> p \<notin> iv_set (pre @ post)))"
proof (induction pre arbitrary: post rule: rev_induct)
  case Nil
  then show ?case
    by (auto simp: slices_Insert_def iv_ok_Cons dest!: iv_set_memD)
next
  case (snoc r pre)
  let ?rs = "(pre @ [r]) @ post"
  have nth: "?rs ! length pre = r"
    by (simp add: nth_append)
  have upd: "?rs[length pre := x] = pre @ x # post" for x
    by (simp add: list_update_append)
  have ok: "iv_ok pre" "Start r \<le> End r" "iv_ok post" "\<forall>s \<in> set pre. End s + 1 < Start r"
    "\<forall>s \<in> set post. End r + 1 < Start s" "\<forall>s \<in> set pre. \<forall>t \<in> set post. End s + 1 < Start t"
    using snoc.prems(1) by (auto simp: iv_ok_append iv_ok_Cons)
  have post: "p \<notin> iv_set post" "\<forall>s \<in> set post. p + 1 < Start s"
    using snoc.prems(2) by (auto dest!: iv_set_memD)
  consider "Start r \<le> p" "p \<le> End r" | "End r = p - 1" | "Start r = p + 1" | "End r + 1 < p" | "p + 1 < Start r"
    by linarith
  then show ?case
  proof cases
    case 1
    then show ?thesis
      using snoc.prems by (auto simp: nth)
  next
    case 2
    then have "add_to_ranges_loop ?rs p (length (pre @ [r])) = (pre @ r\<lparr>End := p\<rparr> # post, True)"
      using ok(2) by (simp add: nth upd)
    moreover have "iv_ok (pre @ r\<lparr>End := p\<rparr> # post)"
      using ok post 2 by (simp add: iv_ok_append iv_ok_Cons)
    moreover have "p \<notin> iv_set pre"
      using ok(2,4) 2 by (fastforce dest!: iv_set_memD)
    ultimately show ?thesis
      using 2 post ok(2) by auto
  next
    case 3
    have pre: "\<forall>s \<in> set pre. End s < p" "p \<notin> iv_set pre"
      using ok(4) 3 by (fastforce dest!: iv_set_memD)+
    show ?thesis
    proof (cases "pre \<noteq> [] \<and> End (last pre) + 1 = p")
      case True
      then obtain pre' q where pre': "pre = pre' @ [q]" "End q + 1 = p"
        by (metis append_butlast_last_id)
      then have "add_to_ranges_loop ?rs p (length (pre @ [r])) = (pre' @ q\<lparr>End := End r\<rparr> # post, True)"
        using 3 ok(2) by (simp add: nth upd nth_append list_update_append slices_Delete_def)
      moreover have "iv_ok (pre' @ q\<lparr>End := End r\<rparr> # post)"
        using ok 3 pre' by (auto simp: iv_ok_append iv_ok_Cons)
      moreover have "{Start q..End r} = insert p ({Start q..End q} \<union> {Start r..End r})"
        using ok 3 pre' by (auto simp: iv_ok_append iv_ok_Cons)
      ultimately show ?thesis
        using pre pre' post 3 by auto
    next
      case False
      then have "add_to_ranges_loop ?rs p (length (pre @ [r])) = (pre @ r\<lparr>Start := p\<rparr> # post, True)"
        using 3 ok(2) by (cases pre rule: rev_cases) (auto simp: nth upd nth_append list_update_append)
      moreover have "\<forall>s \<in> set pre. End s + 1 < p"
        using ok(1) pre(1) False by (cases pre rule: rev_cases) (fastforce simp: iv_ok_append iv_ok_Cons)+
      then have "iv_ok (pre @ r\<lparr>Start := p\<rparr> # post)"
        using ok 3 by (auto simp: iv_ok_append iv_ok_Cons)
      moreover have "{p..End r} = insert p {Start r..End r}"
        using ok(2) 3 by auto
      ultimately show ?thesis
        using pre post 3 by auto
    qed
  next
    case 4
    then have "add_to_ranges_loop ?rs p (length (pre @ [r])) = (pre @ r # \<lparr>Start = p, End = p\<rparr> # post, True)"
      using ok(2) by (simp add: nth slices_Insert_def)
    moreover have "iv_ok (pre @ r # \<lparr>Start = p, End = p\<rparr> # post)"
      using ok post 4 by (auto simp: iv_ok_append iv_ok_Cons)
    moreover have "p \<notin> iv_set pre"
      using ok(2,4) 4 by (fastforce dest!: iv_set_memD)
    ultimately show ?thesis
      using 4 post by auto
  next
    case 5
    then have "add_to_ranges_loop ?rs p (length (pre @ [r])) = add_to_ranges_loop (pre @ r # post) p (length pre)"
      using ok(2) by (simp add: nth)
    then show ?thesis
      using snoc.IH [of "r # post"] snoc.prems 5 by simp
  qed
qed

lemma addToRanges_spec:
  assumes "iv_ok rs" and "addToRanges rs p = (rs', new)"
  shows "iv_ok rs'" and "iv_set rs' = insert p (iv_set rs)" and "new \<longleftrightarrow> p \<notin> iv_set rs"
proof -
  have "iv_ok rs' \<and> iv_set rs' = insert p (iv_set rs) \<and> (new \<longleftrightarrow> p \<notin> iv_set rs)"
  proof (cases "rs = []")
    case True
    then show ?thesis
      using assms(2) by (auto simp: addToRanges_def iv_ok_Cons)
  next
    case False
    then have "add_to_ranges_loop (rs @ []) p (length rs) = (rs', new)"
      using assms(2) by (simp add: addToRanges_def)
    then show ?thesis
      using add_to_ranges_loop_spec [of rs "[]" p] assms(1) by simp
  qed
  then show "iv_ok rs'" "iv_set rs' = insert p (iv_set rs)" "new \<longleftrightarrow> p \<notin> iv_set rs"
    by simp_all
qed

lemma iv_set_drop_ok:
  assumes "iv_ok rs"
  shows "iv_ok (drop n rs)"
  using assms iv_ok_append [of "take n rs" "drop n rs"] by simp

lemma iv_set_drop:
  assumes "iv_ok rs" and "n < length rs"
  shows "iv_set (drop n rs) = {q \<in> iv_set rs. Start (rs ! n) \<le> q}"
proof -
  define xs ys where "xs = take n rs" and "ys = drop n rs"
  have rs: "rs = xs @ ys" and hd: "ys = rs ! n # drop (Suc n) rs"
    using assms(2) by (simp_all add: xs_def ys_def Cons_nth_drop_Suc)
  have ok: "iv_ok ys" "\<forall>x \<in> set xs. \<forall>y \<in> set ys. End x + 1 < Start y"
    using assms(1) by (simp_all add: rs iv_ok_append)
  have n: "rs ! n \<in> set ys"
    by (subst hd) simp
  have "q < Start (rs ! n)" if q: "q \<in> iv_set xs" for q
  proof -
    obtain x where "x \<in> set xs" "q \<le> End x"
      using iv_set_memD [OF q] by blast
    then show ?thesis
      using ok(2) n by fastforce
  qed
  moreover have "Start (rs ! n) \<le> q" if q: "q \<in> iv_set ys" for q
  proof -
    obtain y where "y \<in> set (rs ! n # drop (Suc n) rs)" "Start y \<le> q"
      using iv_set_memD [OF q] unfolding hd by blast
    then show ?thesis
      using ok(1) unfolding hd by (fastforce simp: iv_ok_Cons)
  qed
  moreover have "iv_set rs = iv_set xs \<union> iv_set ys"
    by (subst rs) simp
  ultimately show ?thesis
    unfolding ys_def [symmetric] by fastforce
qed

section \<open>What the operations do to the set\<close>

definition history_ok :: "receivedPacketHistory \<Rightarrow> bool" where
  "history_ok h \<longleftrightarrow> iv_ok (ranges h) \<and> length (ranges h) \<le> MaxNumAckRanges \<and>
     (\<forall>q \<in> iv_set (ranges h). deletedBelow h \<le> q)"

abbreviation tracked :: "receivedPacketHistory \<Rightarrow> PacketNumber set" where
  "tracked h \<equiv> iv_set (ranges h)"

lemma history_ok_new: "history_ok newReceivedPacketHistory"
  by (simp add: history_ok_def newReceivedPacketHistory_def)

lemma history_ReceivedPacket_cases:
  assumes "history_ok h" and "history_ReceivedPacket h p = (h', new)"
  shows "history_ok h'" and "new \<longleftrightarrow> deletedBelow h \<le> p \<and> p \<notin> tracked h"
    and "deletedBelow h' = deletedBelow h"
    and "\<exists>low. tracked h' = {q \<in> (if new then insert p (tracked h) else tracked h). low \<le> q}"
    and "new \<Longrightarrow> length (fst (addToRanges (ranges h) p)) \<le> MaxNumAckRanges \<Longrightarrow> tracked h' = insert p (tracked h)"
proof -
  obtain rs n where add: "addToRanges (ranges h) p = (rs, n)"
    by (cases "addToRanges (ranges h) p")
  have ok: "iv_ok rs" "iv_set rs = insert p (tracked h)" "n \<longleftrightarrow> p \<notin> tracked h"
    using addToRanges_spec [OF _ add] assms(1) by (auto simp: history_ok_def)
  let ?d = "length rs - MaxNumAckRanges"
  have "rs \<noteq> []"
    using ok(2) by auto
  then have drop: "iv_set (drop ?d rs) = {q \<in> insert p (tracked h). Start (rs ! ?d) \<le> q}"
    using iv_set_drop [OF ok(1), of ?d] ok(2) by (simp add: MaxNumAckRanges_def)
  have res: "if p < deletedBelow h then h' = h \<and> \<not> new else h' = h\<lparr>ranges := drop ?d rs\<rparr> \<and> new = n"
    using assms(2) add by (auto simp: history_ReceivedPacket_def slices_Delete_def split: if_splits)
  have low: "\<forall>q \<in> tracked h. deletedBelow h \<le> q" "length (ranges h) \<le> MaxNumAckRanges"
    using assms(1) by (auto simp: history_ok_def)
  show "history_ok h'"
  proof (cases "p < deletedBelow h")
    case False
    then show ?thesis
      using res iv_set_drop_ok [OF ok(1)] low by (auto simp: history_ok_def drop)
  qed (use res assms(1) in simp)
  show "new \<longleftrightarrow> deletedBelow h \<le> p \<and> p \<notin> tracked h"
    using res ok(3) by (cases "p < deletedBelow h") auto
  show "deletedBelow h' = deletedBelow h"
    using res by (cases "p < deletedBelow h") auto
  show "\<exists>low. tracked h' = {q \<in> (if new then insert p (tracked h) else tracked h). low \<le> q}"
  proof (cases "p < deletedBelow h")
    case True
    then show ?thesis
      using res low(1) by (intro exI [of _ "deletedBelow h"]) auto
  next
    case False
    then show ?thesis
      using res ok(3) by (intro exI [of _ "Start (rs ! ?d)"]) (auto simp: drop)
  qed
  show "tracked h' = insert p (tracked h)" if "new" "length (fst (addToRanges (ranges h) p)) \<le> MaxNumAckRanges"
    using that res ok add by (cases "p < deletedBelow h") auto
qed

lemma delete_below_loop_spec:
  "delete_below_loop p rs i idx = (rs', idx') \<Longrightarrow> iv_ok rs \<Longrightarrow>
   \<exists>k \<le> length rs. idx' = (if k = 0 then idx else i + int k - 1) \<and> length rs' = length rs \<and>
     iv_ok (drop k rs') \<and> iv_set (drop k rs') = {q \<in> iv_set rs. p \<le> q}"
proof (induction p rs i idx arbitrary: rs' idx' rule: delete_below_loop.induct)
  case (1 p i idx)
  then show ?case
    by simp
next
  case (2 p r rs i idx)
  have ok: "iv_ok rs" "Start r \<le> End r" "\<forall>s \<in> set rs. End r + 1 < Start s"
    using "2.prems"(2) by (auto simp: iv_ok_Cons)
  have above: "End r < q" if "q \<in> iv_set rs" for q
    using ok(3) that by (fastforce dest!: iv_set_memD)
  show ?case
  proof (cases "End r < p")
    case True
    then obtain rs1 where rs1: "delete_below_loop p rs (i + 1) i = (rs1, idx')" "rs' = r # rs1"
      using "2.prems"(1) by (auto split: prod.splits)
    obtain k where k: "k \<le> length rs" "idx' = (if k = 0 then i else i + 1 + int k - 1)" "length rs1 = length rs"
      "iv_ok (drop k rs1)" "iv_set (drop k rs1) = {q \<in> iv_set rs. p \<le> q}"
      using "2.IH" [OF True rs1(1) ok(1)] by auto
    have "{q \<in> iv_set (r # rs). p \<le> q} = {q \<in> iv_set rs. p \<le> q}"
      using True by auto
    then show ?thesis
      using k rs1 by (intro exI [of _ "Suc k"]) auto
  next
    case False
    then have keep: "p \<le> q" if "q \<in> iv_set rs" for q
      using above [OF that] by simp
    have "iv_ok rs' \<and> iv_set rs' = {q \<in> iv_set (r # rs). p \<le> q} \<and> idx' = idx \<and> length rs' = Suc (length rs)"
    proof (cases "p > Start r")
      case True
      then have "rs' = r\<lparr>Start := p\<rparr> # rs" "idx' = idx"
        using "2.prems"(1) False by auto
      then show ?thesis
        using ok keep True False by (auto simp: iv_ok_Cons)
    next
      case ge: False
      then have "rs' = r # rs" "idx' = idx"
        using "2.prems"(1) False by auto
      then show ?thesis
        using "2.prems"(2) keep ge by auto
    qed
    then show ?thesis
      by (intro exI [of _ 0]) simp
  qed
qed

lemma DeleteBelow_spec:
  assumes "history_ok h" and "deletedBelow h \<le> p"
  shows "history_ok (DeleteBelow h p)" and "tracked (DeleteBelow h p) = {q \<in> tracked h. p \<le> q}"
    and "deletedBelow (DeleteBelow h p) = p"
proof -
  obtain rs idx where loop: "delete_below_loop p (ranges h) 0 (-1) = (rs, idx)"
    by (cases "delete_below_loop p (ranges h) 0 (-1)")
  obtain k where k: "k \<le> length (ranges h)" "idx = int k - 1" "length rs = length (ranges h)"
     "iv_ok (drop k rs)" "iv_set (drop k rs) = {q \<in> tracked h. p \<le> q}"
    using delete_below_loop_spec [OF loop] assms(1) by (auto simp: history_ok_def split: if_splits)
  have eq: "DeleteBelow h p = h\<lparr>deletedBelow := p, ranges := drop k rs\<rparr>"
  proof (cases "ranges h = []")
    case True
    then show ?thesis
      using k(3) assms(2) by (cases h) (simp add: DeleteBelow_def)
  next
    case False
    then show ?thesis
      using k(2) loop assms(2) by (auto simp: DeleteBelow_def slices_Delete_def Let_def)
  qed
  show "tracked (DeleteBelow h p) = {q \<in> tracked h. p \<le> q}" "deletedBelow (DeleteBelow h p) = p"
    using k by (simp_all add: eq)
  show "history_ok (DeleteBelow h p)"
    using k assms(1) by (auto simp: eq history_ok_def)
qed

lemma duplicate_loop_iff:
  "iv_ok (rev rs) \<Longrightarrow> duplicate_loop p rs \<longleftrightarrow> p \<in> iv_set rs"
proof (induction p rs rule: duplicate_loop.induct)
  case (2 p r rs)
  then have "iv_ok (rev rs)" "\<forall>s \<in> set rs. End s + 1 < Start r" "Start r \<le> End r"
    by (auto simp: iv_ok_append iv_ok_Cons)
  moreover from this have "p \<in> iv_set rs \<Longrightarrow> p < Start r"
    by (fastforce dest!: iv_set_memD)
  ultimately show ?case
    using "2.IH" by (cases "p > End r"; cases "p \<ge> Start r") auto
qed simp

lemma history_IsPotentiallyDuplicate_iff:
  "history_ok h \<Longrightarrow> history_IsPotentiallyDuplicate h p \<longleftrightarrow> p < deletedBelow h \<or> p \<in> tracked h"
  by (simp add: history_IsPotentiallyDuplicate_def duplicate_loop_iff history_ok_def)

section \<open>The interface of a packet history\<close>

text \<open>
  What the packet trackers rely on: a finite memory of packet numbers that may forget its lowest
  ones, a limit below which everything counts as seen, and a duplicate test.
\<close>

locale packet_history =
  fixes ok :: "'h \<Rightarrow> bool"
    and mem :: "'h \<Rightarrow> PacketNumber set"
    and low :: "'h \<Rightarrow> PacketNumber"
    and received :: "'h \<Rightarrow> PacketNumber \<Rightarrow> 'h \<times> bool"
    and delete :: "'h \<Rightarrow> PacketNumber \<Rightarrow> 'h"
    and dup :: "'h \<Rightarrow> PacketNumber \<Rightarrow> bool"
  assumes received_ok: "ok h \<Longrightarrow> ok (fst (received h p))"
    and received_new: "ok h \<Longrightarrow> snd (received h p) \<longleftrightarrow> low h \<le> p \<and> p \<notin> mem h"
    and received_low: "ok h \<Longrightarrow> low (fst (received h p)) = low h"
    and received_mem: "ok h \<Longrightarrow> \<exists>l. mem (fst (received h p)) = {q \<in> mem h \<union> (if low h \<le> p then {p} else {}). l \<le> q}"
    and delete_ok: "ok h \<Longrightarrow> low h \<le> p \<Longrightarrow> ok (delete h p)"
    and delete_low: "ok h \<Longrightarrow> low h \<le> p \<Longrightarrow> low (delete h p) = p"
    and delete_mem: "ok h \<Longrightarrow> low h \<le> p \<Longrightarrow> mem (delete h p) = {q \<in> mem h. p \<le> q}"
    and dup_iff: "ok h \<Longrightarrow> dup h p \<longleftrightarrow> p < low h \<or> p \<in> mem h"
begin

lemma received_iff_not_dup: "ok h \<Longrightarrow> snd (received h p) \<longleftrightarrow> \<not> dup h p"
  by (auto simp: received_new dup_iff)

lemma received_mem_subset: "ok h \<Longrightarrow> mem (fst (received h p)) \<subseteq> insert p (mem h)"
  using received_mem [of h p] by (auto split: if_splits)

text \<open>Any number of packets later, only packets that were received count as duplicates.\<close>

lemma foldl_received:
  assumes "ok h"
  shows "ok (foldl (\<lambda>h p. fst (received h p)) h ps) \<and> low (foldl (\<lambda>h p. fst (received h p)) h ps) = low h \<and>
    mem (foldl (\<lambda>h p. fst (received h p)) h ps) \<subseteq> mem h \<union> set ps"
  using assms
proof (induction ps arbitrary: h)
  case (Cons p ps)
  then show ?case
    using received_ok [of h p] received_low [of h p] received_mem_subset [of h p] by fastforce
qed simp

lemma dup_sound:
  assumes "ok h" and "dup (foldl (\<lambda>h p. fst (received h p)) h ps) q"
  shows "q < low h \<or> q \<in> mem h \<or> q \<in> set ps"
  using foldl_received [OF assms(1), of ps] assms(2) by (auto simp: dup_iff)

lemma delete_dup: "ok h \<Longrightarrow> low h \<le> p \<Longrightarrow> dup (delete h p) q \<longleftrightarrow> q < p \<or> dup h q"
  by (auto simp: dup_iff delete_ok delete_low delete_mem)

end

interpretation history: packet_history history_ok tracked deletedBelow history_ReceivedPacket DeleteBelow
  history_IsPotentiallyDuplicate
proof unfold_locales
  fix h p
  assume ok: "history_ok h"
  note r = history_ReceivedPacket_cases [OF ok prod.collapse [symmetric]]
  show "history_ok (fst (history_ReceivedPacket h p))"
    "snd (history_ReceivedPacket h p) \<longleftrightarrow> deletedBelow h \<le> p \<and> p \<notin> tracked h"
    "deletedBelow (fst (history_ReceivedPacket h p)) = deletedBelow h"
    by (rule r)+
  obtain l where "tracked (fst (history_ReceivedPacket h p)) =
      {q \<in> (if snd (history_ReceivedPacket h p) then insert p (tracked h) else tracked h). l \<le> q}"
    using r(4) [of p] by blast
  moreover have "(if snd (history_ReceivedPacket h p) then insert p (tracked h) else tracked h) =
      tracked h \<union> (if deletedBelow h \<le> p then {p} else {})"
    using r(2) [of p] by auto
  ultimately show "\<exists>l. tracked (fst (history_ReceivedPacket h p)) =
      {q \<in> tracked h \<union> (if deletedBelow h \<le> p then {p} else {}). l \<le> q}"
    by auto
qed (simp_all add: DeleteBelow_spec history_IsPotentiallyDuplicate_iff)

section \<open>The ranges of an ACK frame\<close>

lemma ack_chain_rev:
  "iv_ok rs \<Longrightarrow> ack_chain (map (\<lambda>r. \<lparr>Smallest = Start r, Largest = End r\<rparr>) (rev rs))"
proof (induction rs rule: rev_induct)
  case (snoc r rs)
  then show ?case
    by (cases rs rule: rev_cases) (auto simp: iv_ok_append iv_ok_Cons ack_chain_Cons)
qed simp

lemma AppendAckRanges_set: "ack_set (AppendAckRanges h []) = tracked h"
  by (auto simp: AppendAckRanges_def ack_set_def iv_set_def)

lemma AppendAckRanges_chain: "history_ok h \<Longrightarrow> ack_chain (AppendAckRanges h [])"
  by (simp add: AppendAckRanges_def history_ok_def ack_chain_rev)

lemma AppendAckRanges_length: "history_ok h \<Longrightarrow> length (AppendAckRanges h []) \<le> 32"
  by (simp add: AppendAckRanges_def history_ok_def MaxNumAckRanges_def)

lemma AppendAckRanges_empty: "history_ok h \<Longrightarrow> AppendAckRanges h [] = [] \<longleftrightarrow> tracked h = {}"
  by (cases "ranges h") (auto simp: AppendAckRanges_def history_ok_def iv_ok_Cons)

section \<open>Properties\<close>



text \<open>
  Nothing is dropped as a duplicate by mistake: after receiving any sequence of packets on a fresh
  history, and then deleting below some limit, a packet counts as a duplicate only if it is below the limit
  or really was in the sequence.
\<close>

theorem history_duplicates_sound:
  assumes "0 \<le> limit"
    and "history_IsPotentiallyDuplicate
      (DeleteBelow (foldl (\<lambda>h p. fst (history_ReceivedPacket h p)) newReceivedPacketHistory ps) limit) q"
  shows "q < limit \<or> q \<in> set ps"
proof -
  let ?h = "foldl (\<lambda>h p. fst (history_ReceivedPacket h p)) newReceivedPacketHistory ps"
  have ok: "history_ok ?h" "deletedBelow ?h = 0"
    using history.foldl_received [OF history_ok_new, of ps] by (simp_all add: newReceivedPacketHistory_def)
  then have "q < limit \<or> history_IsPotentiallyDuplicate ?h q"
    using history.delete_dup [of ?h limit q] assms by simp
  then show ?thesis
    using history.dup_sound [OF history_ok_new, of ps q] assms(1) by (auto simp: newReceivedPacketHistory_def)
qed

theorem history_duplicates_sound_witness:
  "history_IsPotentiallyDuplicate
     (DeleteBelow (foldl (\<lambda>h p. fst (history_ReceivedPacket h p)) newReceivedPacketHistory [3, 5, 4]) 2) 4 \<and>
   4 \<in> set [3, 5, 4 :: PacketNumber]"
proof -
  have "history_IsPotentiallyDuplicate
     (DeleteBelow (foldl (\<lambda>h p. fst (history_ReceivedPacket h p)) newReceivedPacketHistory [3, 5, 4]) 2) 4"
    by code_simp
  then show ?thesis
    using history_duplicates_sound [of 2 "[3, 5, 4]" 4] by simp
qed

text \<open>
  The history forgets received packets without raising its limit. The comment on the type says that it
  stores whether a packet number has already been received; but when a 33rd range appears, the
  lowest range is removed while \<open>deletedBelow\<close> stays, so a copy of a removed packet is
  taken for a new one: after the packets 0, 2, ..., 64 the packet 0 is accepted again.
\<close>

theorem history_forgets_trimmed_packets:
  "(let h = foldl (\<lambda>h p. fst (history_ReceivedPacket h p)) newReceivedPacketHistory (map (\<lambda>i. 2 * int i) [0..<33]) in
    \<not> history_IsPotentiallyDuplicate h 0 \<and> snd (history_ReceivedPacket h 0))"
  by code_simp

end
