(* ===== verification/Received_Packets.thy ===== *)
theory Received_Packets
  imports Received_History
begin

text \<open>
  The trackers of received packets and the handler that owns one per packet number space
  (\<open>internal/ackhandler/received_packet_tracker.go\<close>, \<open>received_packet_handler.go\<close>). A time is a number of
  nanoseconds, zero being Go's zero time; logging is left out. The handler asks the tracker of sent
  packets for the lowest packet not confirmed as acknowledged; that answer is an argument here.
  An operation that returns an error leaves the connection to be closed, so no state comes with it.
\<close>

section \<open>Tracking of the Initial and Handshake spaces\<close>

record receivedPacketTracker =
  rt_ect0 :: u64
  rt_ect1 :: u64
  rt_ecnce :: u64
  packetHistory :: receivedPacketHistory
  lastAck :: "AckFrame option"
  hasNewAck :: bool

definition newReceivedPacketTracker :: receivedPacketTracker where
  "newReceivedPacketTracker =
     \<lparr>rt_ect0 = 0, rt_ect1 = 0, rt_ecnce = 0, packetHistory = newReceivedPacketHistory, lastAck = None, hasNewAck = False\<rparr>"

definition tracker_ReceivedPacket ::
  "receivedPacketTracker \<Rightarrow> PacketNumber \<Rightarrow> ECN \<Rightarrow> bool \<Rightarrow> receivedPacketTracker result" where
  "tracker_ReceivedPacket h pn ecn ackEliciting =
     (let (hist, isNew) = history_ReceivedPacket (packetHistory h) pn;
          h = h\<lparr>packetHistory := hist\<rparr> in
      if \<not> isNew
      then Inl (ErrorNew ''recevedPacketTracker BUG: ReceivedPacket called for old / duplicate packet'')
      else let h = (case ecn of
               ECT0 \<Rightarrow> h\<lparr>rt_ect0 := rt_ect0 h + 1\<rparr>
             | ECT1 \<Rightarrow> h\<lparr>rt_ect1 := rt_ect1 h + 1\<rparr>
             | ECNCE \<Rightarrow> h\<lparr>rt_ecnce := rt_ecnce h + 1\<rparr>
             | _ \<Rightarrow> h) in
      if \<not> ackEliciting then Inr h else Inr (h\<lparr>hasNewAck := True\<rparr>))"

definition zero_AckFrame :: AckFrame where
  "zero_AckFrame = \<lparr>AckRanges = [], DelayTime = 0, af_ECT0 = 0, af_ECT1 = 0, af_ECNCE = 0\<rparr>"

text \<open>The returned frame is the one the tracker keeps as its last ACK.\<close>

definition tracker_GetAckFrame :: "receivedPacketTracker \<Rightarrow> AckFrame option \<times> receivedPacketTracker" where
  "tracker_GetAckFrame h =
     (if \<not> hasNewAck h then (None, h)
      else let ack = (case lastAck h of None \<Rightarrow> zero_AckFrame | Some a \<Rightarrow> a);
               ack = AckFrame_Reset ack;
               ack = ack\<lparr>af_ECT0 := rt_ect0 h, af_ECT1 := rt_ect1 h, af_ECNCE := rt_ecnce h\<rparr>;
               ack = ack\<lparr>AckRanges := AppendAckRanges (packetHistory h) (AckRanges ack)\<rparr>
      in (Some ack, h\<lparr>lastAck := Some ack, hasNewAck := False\<rparr>))"

definition tracker_IsPotentiallyDuplicate :: "receivedPacketTracker \<Rightarrow> PacketNumber \<Rightarrow> bool" where
  "tracker_IsPotentiallyDuplicate h pn = history_IsPotentiallyDuplicate (packetHistory h) pn"

section \<open>Tracking of the application data space\<close>

definition packetsBeforeAck :: int where "packetsBeforeAck = 2"

record appDataReceivedPacketTracker =
  base :: receivedPacketTracker
  largestObservedRcvdTime :: Time
  largestObserved :: PacketNumber
  ignoreBelow :: PacketNumber
  maxAckDelay :: Duration
  ackQueued :: bool
  ackElicitingPacketsReceivedSinceLastAck :: int
  ackAlarm :: Time

definition newAppDataReceivedPacketTracker :: appDataReceivedPacketTracker where
  "newAppDataReceivedPacketTracker =
     \<lparr>base = newReceivedPacketTracker, largestObservedRcvdTime = 0, largestObserved = 0, ignoreBelow = 0,
      maxAckDelay = MaxAckDelay, ackQueued = False, ackElicitingPacketsReceivedSinceLastAck = 0, ackAlarm = 0\<rparr>"

definition IgnoreBelow :: "appDataReceivedPacketTracker \<Rightarrow> PacketNumber \<Rightarrow> appDataReceivedPacketTracker" where
  "IgnoreBelow h pn =
     (if pn \<le> ignoreBelow h then h
      else h\<lparr>ignoreBelow := pn, base := (base h)\<lparr>packetHistory := DeleteBelow (packetHistory (base h)) pn\<rparr>\<rparr>)"

definition isMissing :: "appDataReceivedPacketTracker \<Rightarrow> PacketNumber \<Rightarrow> bool result" where
  "isMissing h p =
     (case lastAck (base h) of
        None \<Rightarrow> Inr False
      | Some ack \<Rightarrow>
          if p < ignoreBelow h then Inr False
          else rbind (LargestAcked ack) (\<lambda>largest.
            if p < largest then rbind (AcksPacket ack p) (\<lambda>a. Inr (\<not> a)) else Inr False))"

definition hasNewMissingPackets :: "appDataReceivedPacketTracker \<Rightarrow> bool result" where
  "hasNewMissingPackets h =
     (case lastAck (base h) of
        None \<Rightarrow> Inr False
      | Some ack \<Rightarrow>
          let highestRange = GetHighestAckRange (packetHistory (base h)) in
          rbind (LargestAcked ack) (\<lambda>largest.
            Inr (Smallest highestRange > largest + 1 \<and> AckRange_Len highestRange = 1)))"

definition shouldQueueACK :: "appDataReceivedPacketTracker \<Rightarrow> PacketNumber \<Rightarrow> ECN \<Rightarrow> bool \<Rightarrow> bool result" where
  "shouldQueueACK h pn ecn wasMissing =
     (if lastAck (base h) = None then Inr True
      else if wasMissing then Inr True
      else if ackElicitingPacketsReceivedSinceLastAck h \<ge> packetsBeforeAck then Inr True
      else rbind (hasNewMissingPackets h) (\<lambda>newMissing.
        if newMissing then Inr True
        else if ecn = ECNCE then Inr True
        else Inr False))"

definition appData_ReceivedPacket ::
  "appDataReceivedPacketTracker \<Rightarrow> PacketNumber \<Rightarrow> ECN \<Rightarrow> Time \<Rightarrow> bool \<Rightarrow> appDataReceivedPacketTracker result" where
  "appData_ReceivedPacket h pn ecn rcvTime ackEliciting =
     rbind (tracker_ReceivedPacket (base h) pn ecn ackEliciting) (\<lambda>b.
       let h = h\<lparr>base := b\<rparr>;
           h = (if pn \<ge> largestObserved h then h\<lparr>largestObserved := pn, largestObservedRcvdTime := rcvTime\<rparr> else h) in
       if \<not> ackEliciting then Inr h
       else let h = h\<lparr>ackElicitingPacketsReceivedSinceLastAck := ackElicitingPacketsReceivedSinceLastAck h + 1\<rparr> in
       rbind (isMissing h pn) (\<lambda>missing.
       rbind (if \<not> ackQueued h then shouldQueueACK h pn ecn missing else Inr False) (\<lambda>queue.
         let h = (if queue then h\<lparr>ackQueued := True, ackAlarm := 0\<rparr> else h) in
         if \<not> ackQueued h then Inr (h\<lparr>ackAlarm := rcvTime + maxAckDelay h\<rparr>) else Inr h)))"

definition appData_GetAckFrame ::
  "appDataReceivedPacketTracker \<Rightarrow> Time \<Rightarrow> bool \<Rightarrow> AckFrame option \<times> appDataReceivedPacketTracker" where
  "appData_GetAckFrame h now onlyIfQueued =
     (if onlyIfQueued \<and> \<not> ackQueued h \<and> (ackAlarm h = 0 \<or> ackAlarm h > now) then (None, h)
      else let (ack, b) = tracker_GetAckFrame (base h) in
      case ack of
        None \<Rightarrow> (None, h\<lparr>base := b\<rparr>)
      | Some a \<Rightarrow>
          let a = a\<lparr>DelayTime := max 0 (now - largestObservedRcvdTime h)\<rparr> in
          (Some a, h\<lparr>base := b\<lparr>lastAck := Some a\<rparr>, ackQueued := False, ackAlarm := 0,
                      ackElicitingPacketsReceivedSinceLastAck := 0\<rparr>))"

definition appData_GetAlarmTimeout :: "appDataReceivedPacketTracker \<Rightarrow> Time" where
  "appData_GetAlarmTimeout h = ackAlarm h"

section \<open>The handler\<close>

record receivedPacketHandler =
  initialPackets :: "receivedPacketTracker option"
  handshakePackets :: "receivedPacketTracker option"
  appDataPackets :: appDataReceivedPacketTracker
  lowest1RTTPacket :: PacketNumber

definition newReceivedPacketHandler :: receivedPacketHandler where
  "newReceivedPacketHandler =
     \<lparr>initialPackets = Some newReceivedPacketTracker, handshakePackets = Some newReceivedPacketTracker,
      appDataPackets = newAppDataReceivedPacketTracker, lowest1RTTPacket = InvalidPacketNumber\<rparr>"

definition nil_deref :: go_error where
  "nil_deref = Panic ''nil pointer dereference''"

definition handler_ReceivedPacket ::
  "PacketNumber \<Rightarrow> receivedPacketHandler \<Rightarrow> PacketNumber \<Rightarrow> ECN \<Rightarrow> EncryptionLevel \<Rightarrow> Time \<Rightarrow> bool \<Rightarrow>
   receivedPacketHandler result" where
  "handler_ReceivedPacket lowestNotConfirmed h pn ecn encLevel rcvTime ackEliciting =
     (case encLevel of
        EncryptionInitial \<Rightarrow>
          (case initialPackets h of
             None \<Rightarrow> Inl nil_deref
           | Some t \<Rightarrow> rbind (tracker_ReceivedPacket t pn ecn ackEliciting) (\<lambda>t. Inr (h\<lparr>initialPackets := Some t\<rparr>)))
      | EncryptionHandshake \<Rightarrow>
          (case handshakePackets h of
             None \<Rightarrow> Inr h
           | Some t \<Rightarrow> rbind (tracker_ReceivedPacket t pn ecn ackEliciting) (\<lambda>t. Inr (h\<lparr>handshakePackets := Some t\<rparr>)))
      | Encryption0RTT \<Rightarrow>
          if lowest1RTTPacket h \<noteq> InvalidPacketNumber \<and> pn > lowest1RTTPacket h
          then Inl (ErrorNew ''received packet number on a 0-RTT packet after receiving on a 1-RTT packet'')
          else rbind (appData_ReceivedPacket (appDataPackets h) pn ecn rcvTime ackEliciting) (\<lambda>t.
            Inr (h\<lparr>appDataPackets := t\<rparr>))
      | Encryption1RTT \<Rightarrow>
          let h = (if lowest1RTTPacket h = InvalidPacketNumber \<or> pn < lowest1RTTPacket h
                   then h\<lparr>lowest1RTTPacket := pn\<rparr> else h) in
          rbind (appData_ReceivedPacket (appDataPackets h) pn ecn rcvTime ackEliciting) (\<lambda>t.
            Inr (h\<lparr>appDataPackets := IgnoreBelow t lowestNotConfirmed\<rparr>)))"

definition handler_DropPackets :: "receivedPacketHandler \<Rightarrow> EncryptionLevel \<Rightarrow> receivedPacketHandler result" where
  "handler_DropPackets h encLevel =
     (case encLevel of
        EncryptionInitial \<Rightarrow> Inr (h\<lparr>initialPackets := None\<rparr>)
      | EncryptionHandshake \<Rightarrow> Inr (h\<lparr>handshakePackets := None\<rparr>)
      | Encryption0RTT \<Rightarrow> Inr h
      | _ \<Rightarrow> Inl (Panic ''Cannot drop keys for encryption level''))"

definition handler_GetAlarmTimeout :: "receivedPacketHandler \<Rightarrow> Time" where
  "handler_GetAlarmTimeout h = appData_GetAlarmTimeout (appDataPackets h)"

definition handler_GetAckFrame ::
  "receivedPacketHandler \<Rightarrow> EncryptionLevel \<Rightarrow> Time \<Rightarrow> bool \<Rightarrow> AckFrame option \<times> receivedPacketHandler" where
  "handler_GetAckFrame h encLevel now onlyIfQueued =
     (case encLevel of
        EncryptionInitial \<Rightarrow>
          (case initialPackets h of
             None \<Rightarrow> (None, h)
           | Some t \<Rightarrow> let (ack, t) = tracker_GetAckFrame t in (ack, h\<lparr>initialPackets := Some t\<rparr>))
      | EncryptionHandshake \<Rightarrow>
          (case handshakePackets h of
             None \<Rightarrow> (None, h)
           | Some t \<Rightarrow> let (ack, t) = tracker_GetAckFrame t in (ack, h\<lparr>handshakePackets := Some t\<rparr>))
      | Encryption1RTT \<Rightarrow>
          let (ack, t) = appData_GetAckFrame (appDataPackets h) now onlyIfQueued in
          (ack, h\<lparr>appDataPackets := t\<rparr>)
      | _ \<Rightarrow> (None, h))"

definition handler_IsPotentiallyDuplicate :: "receivedPacketHandler \<Rightarrow> PacketNumber \<Rightarrow> EncryptionLevel \<Rightarrow> bool result" where
  "handler_IsPotentiallyDuplicate h pn encLevel =
     (case encLevel of
        EncryptionInitial \<Rightarrow>
          (case initialPackets h of
             Some t \<Rightarrow> Inr (tracker_IsPotentiallyDuplicate t pn)
           | None \<Rightarrow> Inl (Panic ''unexpected encryption level''))
      | EncryptionHandshake \<Rightarrow>
          (case handshakePackets h of
             Some t \<Rightarrow> Inr (tracker_IsPotentiallyDuplicate t pn)
           | None \<Rightarrow> Inl (Panic ''unexpected encryption level''))
      | _ \<Rightarrow> Inr (tracker_IsPotentiallyDuplicate (base (appDataPackets h)) pn))"

section \<open>Invariants\<close>

lemma history_ReceivedPacket_top:
  assumes "history_ok h" and "deletedBelow h \<le> p"
  shows "\<exists>q \<in> tracked (fst (history_ReceivedPacket h p)). p \<le> q"
proof -
  let ?h = "fst (history_ReceivedPacket h p)"
  obtain rs n where add: "addToRanges (ranges h) p = (rs, n)"
    by (cases "addToRanges (ranges h) p")
  have rs: "iv_ok rs" "iv_set rs = insert p (tracked h)"
    using addToRanges_spec [OF _ add] assms(1) by (auto simp: history_ok_def)
  have h: "ranges ?h = drop (length rs - MaxNumAckRanges) rs"
    using assms(2) add by (auto simp: history_ReceivedPacket_def slices_Delete_def)
  have "length rs > 0"
    using rs(2) by auto
  then have "length rs - MaxNumAckRanges < length rs"
    by (simp add: MaxNumAckRanges_def)
  then have "ranges ?h \<noteq> []"
    unfolding h by (simp only: drop_eq_Nil not_le)
  then obtain r where r: "r \<in> set (ranges ?h)" "Start r \<le> End r"
    using iv_set_drop_ok [OF rs(1)] unfolding h by (metis iv_ok_def last_in_set)
  obtain l where l: "tracked ?h = {q \<in> tracked h \<union> (if deletedBelow h \<le> p then {p} else {}). l \<le> q}"
    using history.received_mem [OF assms(1)] by blast
  have "End r \<in> tracked ?h"
    using r by (auto simp: iv_set_def)
  then show ?thesis
    using l assms(2) by (cases "l \<le> p") auto
qed

lemma add_to_ranges_loop_length: "i \<le> length rs \<Longrightarrow> length (fst (add_to_ranges_loop rs p i)) \<le> Suc (length rs)"
  by (induction i) (auto simp: Let_def slices_Insert_def slices_Delete_def)

lemma addToRanges_length: "length (fst (addToRanges rs p)) \<le> Suc (length rs)"
  using add_to_ranges_loop_length [of "length rs" rs p] by (simp add: addToRanges_def)

lemma history_ReceivedPacket_kept:
  assumes "history_ok h" and "deletedBelow h \<le> p" and "length (ranges h) < MaxNumAckRanges"
  shows "p \<in> tracked (fst (history_ReceivedPacket h p))"
proof -
  obtain rs n where add: "addToRanges (ranges h) p = (rs, n)"
    by (cases "addToRanges (ranges h) p")
  have "iv_set rs = insert p (tracked h)" "length rs \<le> Suc (length (ranges h))"
    using addToRanges_spec [OF _ add] assms(1) addToRanges_length [of "ranges h" p] add by (auto simp: history_ok_def)
  then show ?thesis
    using assms(2,3) add by (auto simp: history_ReceivedPacket_def slices_Delete_def)
qed

text \<open>The last ACK that was sent is never empty, and neither is the next one.\<close>

definition ack_valid :: "AckFrame option \<Rightarrow> bool" where
  "ack_valid a = (case a of None \<Rightarrow> True | Some a \<Rightarrow> validateAckRanges a)"

definition tracker_ok :: "receivedPacketTracker \<Rightarrow> bool" where
  "tracker_ok h \<longleftrightarrow> history_ok (packetHistory h) \<and> (hasNewAck h \<longrightarrow> tracked (packetHistory h) \<noteq> {}) \<and> ack_valid (lastAck h)"

definition appData_ok :: "appDataReceivedPacketTracker \<Rightarrow> bool" where
  "appData_ok h \<longleftrightarrow> tracker_ok (base h) \<and> deletedBelow (packetHistory (base h)) = ignoreBelow h \<and>
     (hasNewAck (base h) \<longrightarrow> ackQueued h \<or> 0 < ackAlarm h) \<and> 0 \<le> maxAckDelay h"

lemma tracker_ReceivedPacket_ok:
  assumes "tracker_ok h" and "\<not> tracker_IsPotentiallyDuplicate h pn"
  obtains h' where "tracker_ReceivedPacket h pn ecn ae = Inr h'" and "tracker_ok h'"
    and "packetHistory h' = fst (history_ReceivedPacket (packetHistory h) pn)"
    and "hasNewAck h' \<longleftrightarrow> hasNewAck h \<or> ae" and "lastAck h' = lastAck h"
proof -
  let ?r = "history_ReceivedPacket (packetHistory h) pn"
  have ok: "history_ok (packetHistory h)" "ack_valid (lastAck h)"
    using assms(1) by (auto simp: tracker_ok_def)
  have new: "snd ?r" "deletedBelow (packetHistory h) \<le> pn"
    using assms(2) history.received_iff_not_dup [OF ok(1)] history.dup_iff [OF ok(1)]
    by (auto simp: tracker_IsPotentiallyDuplicate_def)
  have hist: "history_ok (fst ?r)" "tracked (fst ?r) \<noteq> {}"
    using history.received_ok [OF ok(1)] history_ReceivedPacket_top [OF ok(1) new(2)] by auto
  obtain hist' where r: "?r = (hist', True)"
    using new(1) by (cases ?r) auto
  show ?thesis
    using that hist ok(2) unfolding tracker_ReceivedPacket_def r
    by (cases ae; cases ecn) (simp_all add: tracker_ok_def)
qed

definition next_ack :: "receivedPacketTracker \<Rightarrow> AckFrame" where
  "next_ack h = \<lparr>AckRanges = AppendAckRanges (packetHistory h) [], DelayTime = 0,
     af_ECT0 = rt_ect0 h, af_ECT1 = rt_ect1 h, af_ECNCE = rt_ecnce h\<rparr>"

lemma tracker_GetAckFrame_eq:
  "tracker_GetAckFrame h =
     (if hasNewAck h then (Some (next_ack h), h\<lparr>lastAck := Some (next_ack h), hasNewAck := False\<rparr>) else (None, h))"
  by (simp add: tracker_GetAckFrame_def next_ack_def AckFrame_Reset_def Let_def)

lemma next_ack_valid:
  assumes "tracker_ok h" and "hasNewAck h"
  shows "validateAckRanges (next_ack h)" and "ack_set (AckRanges (next_ack h)) = tracked (packetHistory h)"
    and "length (AckRanges (next_ack h)) \<le> 32"
  using assms AppendAckRanges_chain AppendAckRanges_length AppendAckRanges_set AppendAckRanges_empty
  by (simp_all add: tracker_ok_def next_ack_def validateAckRanges_iff)

lemma tracker_GetAckFrame_ok:
  assumes "tracker_ok h"
  shows "tracker_ok (snd (tracker_GetAckFrame h))"
  using assms next_ack_valid [OF assms]
  by (simp add: tracker_GetAckFrame_eq tracker_ok_def ack_valid_def)

lemma valid_ack_total:
  assumes "validateAckRanges a"
  obtains l where "LargestAcked a = Inr l" and "AcksPacket a p = Inr (p \<in> ack_set (AckRanges a))"
  using assms AcksPacket_iff [OF assms, of p]
  by (cases "AckRanges a") (auto simp: validateAckRanges_iff LargestAcked_def)

lemma isMissing_total: "tracker_ok (base h) \<Longrightarrow> \<exists>b. isMissing h p = Inr b"
  by (cases "lastAck (base h)") (auto simp: isMissing_def tracker_ok_def ack_valid_def elim!: valid_ack_total [where p = p])

lemma shouldQueueACK_total: "tracker_ok (base h) \<Longrightarrow> \<exists>b. shouldQueueACK h p ecn w = Inr b"
  by (cases "lastAck (base h)") (auto simp: shouldQueueACK_def hasNewMissingPackets_def tracker_ok_def ack_valid_def
    Let_def elim!: valid_ack_total [where p = p])

lemma appData_ReceivedPacket_ok:
  assumes "appData_ok h" and "\<not> tracker_IsPotentiallyDuplicate (base h) pn" and "0 < rcvTime"
  obtains h' where "appData_ReceivedPacket h pn ecn rcvTime ae = Inr h'" and "appData_ok h'"
    and "packetHistory (base h') = fst (history_ReceivedPacket (packetHistory (base h)) pn)"
    and "ignoreBelow h' = ignoreBelow h" and "ae \<Longrightarrow> hasNewAck (base h')"
    and "ae \<Longrightarrow> ackQueued h' \<or> ackAlarm h' = rcvTime + maxAckDelay h'" and "maxAckDelay h' = maxAckDelay h"
proof -
  obtain b where b: "tracker_ReceivedPacket (base h) pn ecn ae = Inr b" "tracker_ok b"
    "packetHistory b = fst (history_ReceivedPacket (packetHistory (base h)) pn)"
    "hasNewAck b \<longleftrightarrow> hasNewAck (base h) \<or> ae" "lastAck b = lastAck (base h)"
    using tracker_ReceivedPacket_ok [of "base h" pn ecn ae] assms by (auto simp: appData_ok_def)
  define h0 where "h0 = (if pn \<ge> largestObserved (h\<lparr>base := b\<rparr>)
    then h\<lparr>base := b, largestObserved := pn, largestObservedRcvdTime := rcvTime\<rparr> else h\<lparr>base := b\<rparr>)"
  define h1 where "h1 = h0\<lparr>ackElicitingPacketsReceivedSinceLastAck := ackElicitingPacketsReceivedSinceLastAck h0 + 1\<rparr>"
  have f: "base h0 = b" "base h1 = b" "ignoreBelow h0 = ignoreBelow h" "ignoreBelow h1 = ignoreBelow h"
    "ackQueued h0 = ackQueued h" "ackQueued h1 = ackQueued h" "ackAlarm h0 = ackAlarm h" "ackAlarm h1 = ackAlarm h"
    "maxAckDelay h0 = maxAckDelay h" "maxAckDelay h1 = maxAckDelay h"
    by (simp_all add: h0_def h1_def)
  obtain m where m: "isMissing h1 pn = Inr m"
    using isMissing_total [of h1 pn] b(2) f by auto
  obtain q where q: "shouldQueueACK h1 pn ecn m = Inr q"
    using shouldQueueACK_total [of h1 pn ecn m] b(2) f by auto
  let ?q = "\<not> ackQueued h \<and> q"
  let ?h2 = "if ?q then h1\<lparr>ackQueued := True, ackAlarm := 0\<rparr> else h1"
  let ?h3 = "if \<not> ae then h0 else if ackQueued ?h2 then ?h2 else ?h2\<lparr>ackAlarm := rcvTime + maxAckDelay h\<rparr>"
  have eq: "appData_ReceivedPacket h pn ecn rcvTime ae = Inr ?h3"
    unfolding appData_ReceivedPacket_def b(1) rbind_simps Let_def h0_def [symmetric] h1_def [symmetric] m
    by (simp add: q f)
  have low: "deletedBelow (packetHistory b) = ignoreBelow h"
    using history.received_low [of "packetHistory (base h)" pn] assms(1) b(3)
    by (simp add: appData_ok_def tracker_ok_def)
  have "appData_ok ?h3" and "packetHistory (base ?h3) = fst (history_ReceivedPacket (packetHistory (base h)) pn)"
    and "ignoreBelow ?h3 = ignoreBelow h" and "ae \<Longrightarrow> hasNewAck (base ?h3)"
    and "ae \<Longrightarrow> ackQueued ?h3 \<or> ackAlarm ?h3 = rcvTime + maxAckDelay ?h3" and "maxAckDelay ?h3 = maxAckDelay h"
    using assms(1,3) b low f by (auto simp: appData_ok_def)
  with eq show ?thesis
    by (rule that)
qed

text \<open>
  Dropping old packets keeps the invariant as long as the highest tracked packet is not
  dropped with them; this is what an honest peer guarantees.
\<close>

lemma IgnoreBelow_ok:
  assumes "appData_ok h" and "q \<in> tracked (packetHistory (base h))" and "pn \<le> q"
  shows "appData_ok (IgnoreBelow h pn)"
proof (cases "pn \<le> ignoreBelow h")
  case True
  then show ?thesis
    using assms(1) by (simp add: IgnoreBelow_def)
next
  case False
  then have "history_ok (packetHistory (base h))" "deletedBelow (packetHistory (base h)) \<le> pn"
    using assms(1) by (auto simp: appData_ok_def tracker_ok_def)
  then show ?thesis
    using False assms DeleteBelow_spec [of "packetHistory (base h)" pn]
    by (auto simp: IgnoreBelow_def appData_ok_def tracker_ok_def)
qed

lemma appData_GetAckFrame_ok:
  assumes "appData_ok h"
  shows "appData_ok (snd (appData_GetAckFrame h now queued))"
    and "hasNewAck (base h) \<Longrightarrow> \<not> queued \<or> ackQueued h \<or> ackAlarm h \<le> now \<Longrightarrow> fst (appData_GetAckFrame h now queued) \<noteq> None"
    and "fst (appData_GetAckFrame h now queued) = Some a \<Longrightarrow>
      validateAckRanges a \<and> ack_set (AckRanges a) = tracked (packetHistory (base h)) \<and>
      length (AckRanges a) \<le> 32 \<and> 0 \<le> DelayTime a"
proof -
  have ok: "tracker_ok (base h)"
    using assms by (simp add: appData_ok_def)
  define n where "n = (next_ack (base h))\<lparr>DelayTime := max 0 (now - largestObservedRcvdTime h)\<rparr>"
  have n: "validateAckRanges n = validateAckRanges (next_ack (base h))" "AckRanges n = AckRanges (next_ack (base h))" "0 \<le> DelayTime n"
    by (simp_all add: n_def validateAckRanges_iff)
  define none where "none = (queued \<and> \<not> ackQueued h \<and> (ackAlarm h = 0 \<or> ackAlarm h > now) \<or> \<not> hasNewAck (base h))"
  have eq: "appData_GetAckFrame h now queued =
      (if none then (None, h)
       else (Some n, h\<lparr>base := (base h)\<lparr>lastAck := Some n, hasNewAck := False\<rparr>, ackQueued := False, ackAlarm := 0,
         ackElicitingPacketsReceivedSinceLastAck := 0\<rparr>))"
    by (auto simp: appData_GetAckFrame_def tracker_GetAckFrame_eq Let_def n_def none_def)
  have new: "hasNewAck (base h)" if "\<not> none"
    using that by (simp add: none_def)
  show "appData_ok (snd (appData_GetAckFrame h now queued))"
  proof (cases none)
    case False
    then have "validateAckRanges n"
      using next_ack_valid(1) [OF ok new] n(1) by simp
    then show ?thesis
      using assms False by (simp add: eq appData_ok_def tracker_ok_def ack_valid_def)
  qed (simp add: eq assms)
  show "fst (appData_GetAckFrame h now queued) \<noteq> None" if "hasNewAck (base h)" "\<not> queued \<or> ackQueued h \<or> ackAlarm h \<le> now"
  proof -
    have "\<not> none"
      using that assms unfolding none_def appData_ok_def by linarith
    then show ?thesis
      by (simp add: eq)
  qed
  show "validateAckRanges a \<and> ack_set (AckRanges a) = tracked (packetHistory (base h)) \<and>
      length (AckRanges a) \<le> 32 \<and> 0 \<le> DelayTime a" if "fst (appData_GetAckFrame h now queued) = Some a"
  proof -
    have "a = n" "\<not> none"
      using that by (auto simp: eq split: if_splits)
    then show ?thesis
      using next_ack_valid [OF ok new] n by simp
  qed
qed

section \<open>The handler as a state machine\<close>

text \<open>
  The steps are the calls that the connection makes. A packet is handed over only when it is not a
  potential duplicate; \<open>low\<close> is what the tracker of sent packets answers, and it never exceeds the
  packet number of the packet that carried the acknowledgment. Beside the handler runs the set of the packet
  numbers received in each packet number space (0-RTT and 1-RTT share one).
\<close>

fun pn_space :: "EncryptionLevel \<Rightarrow> EncryptionLevel" where
  "pn_space Encryption0RTT = Encryption1RTT"
| "pn_space l = l"

type_synonym handler_state = "receivedPacketHandler \<times> (EncryptionLevel \<Rightarrow> PacketNumber set)"

inductive handler_step :: "handler_state \<Rightarrow> handler_state \<Rightarrow> bool" where
  receive: "handler_IsPotentiallyDuplicate h pn l = Inr False \<Longrightarrow> low \<le> pn \<Longrightarrow> 0 < t \<Longrightarrow>
    handler_ReceivedPacket low h pn ecn l t ae = Inr h' \<Longrightarrow>
    handler_step (h, R) (h', R(pn_space l := insert pn (R (pn_space l))))"
| ack: "handler_GetAckFrame h l now q = (a, h') \<Longrightarrow> handler_step (h, R) (h', R)"
| drop: "handler_DropPackets h l = Inr h' \<Longrightarrow> handler_step (h, R) (h', R)"

definition handler_init :: "handler_state \<Rightarrow> bool" where
  "handler_init s \<longleftrightarrow> s = (newReceivedPacketHandler, \<lambda>_. {})"

definition space_ok :: "receivedPacketTracker option \<Rightarrow> PacketNumber set \<Rightarrow> bool" where
  "space_ok t R \<longleftrightarrow> (\<forall>x. t = Some x \<longrightarrow> tracker_ok x \<and> tracked (packetHistory x) \<subseteq> R)"

definition handler_ok :: "handler_state \<Rightarrow> bool" where
  "handler_ok s \<longleftrightarrow> (case s of (h, R) \<Rightarrow>
     space_ok (initialPackets h) (R EncryptionInitial) \<and> space_ok (handshakePackets h) (R EncryptionHandshake) \<and>
     appData_ok (appDataPackets h) \<and> tracked (packetHistory (base (appDataPackets h))) \<subseteq> R Encryption1RTT)"

lemma space_okI: "tracker_ok x \<Longrightarrow> tracked (packetHistory x) \<subseteq> R \<Longrightarrow> space_ok (Some x) R"
  by (simp add: space_ok_def)

lemma tracker_ReceivedPacket_space:
  assumes "space_ok (Some x) R" and "\<not> tracker_IsPotentiallyDuplicate x pn"
  obtains x' where "tracker_ReceivedPacket x pn ecn ae = Inr x'" and "space_ok (Some x') (insert pn R)"
proof -
  have ok: "tracker_ok x" "tracked (packetHistory x) \<subseteq> R"
    using assms(1) by (auto simp: space_ok_def)
  obtain x' where x': "tracker_ReceivedPacket x pn ecn ae = Inr x'" "tracker_ok x'"
    "packetHistory x' = fst (history_ReceivedPacket (packetHistory x) pn)"
    using tracker_ReceivedPacket_ok [OF ok(1) assms(2)] by metis
  have "tracked (packetHistory x') \<subseteq> insert pn R"
    using history.received_mem_subset [of "packetHistory x" pn] ok x'(3) by (auto simp: tracker_ok_def)
  then show ?thesis
    using that x' by (blast intro: space_okI)
qed

lemma IgnoreBelow_tracked:
  assumes "appData_ok h"
  shows "tracked (packetHistory (base (IgnoreBelow h pn))) = {q \<in> tracked (packetHistory (base h)). pn \<le> ignoreBelow h \<or> pn \<le> q}"
  using assms history.delete_mem [of "packetHistory (base h)" pn]
  by (cases "pn \<le> ignoreBelow h") (auto simp: IgnoreBelow_def appData_ok_def tracker_ok_def)

text \<open>Receiving a 0-RTT or 1-RTT packet and then forgetting the packets below the confirmed ones.\<close>

lemma appData_receive:
  assumes "appData_ok h" and "\<not> tracker_IsPotentiallyDuplicate (base h) pn" and "0 < t" and "low \<le> pn"
  obtains h' where "appData_ReceivedPacket h pn ecn t ae = Inr h'"
    and "appData_ok h'" and "appData_ok (IgnoreBelow h' low)"
    and "tracked (packetHistory (base h')) \<subseteq> insert pn (tracked (packetHistory (base h)))"
    and "ae \<Longrightarrow> hasNewAck (base h') \<and> (ackQueued h' \<or> ackAlarm h' = t + maxAckDelay h)"
    and "length (ranges (packetHistory (base h))) < MaxNumAckRanges \<Longrightarrow> pn \<in> tracked (packetHistory (base h'))"
proof -
  have ok: "history_ok (packetHistory (base h))"
    using assms(1) by (simp add: appData_ok_def tracker_ok_def)
  obtain h' where h': "appData_ReceivedPacket h pn ecn t ae = Inr h'" "appData_ok h'"
    "packetHistory (base h') = fst (history_ReceivedPacket (packetHistory (base h)) pn)"
    "ae \<Longrightarrow> hasNewAck (base h')" "ae \<Longrightarrow> ackQueued h' \<or> ackAlarm h' = t + maxAckDelay h'"
    "maxAckDelay h' = maxAckDelay h"
    using appData_ReceivedPacket_ok [OF assms(1-3)] by metis
  have new: "deletedBelow (packetHistory (base h)) \<le> pn"
    using assms(2) history.dup_iff [OF ok] by (auto simp: tracker_IsPotentiallyDuplicate_def)
  obtain q where q: "q \<in> tracked (packetHistory (base h'))" "pn \<le> q"
    using history_ReceivedPacket_top [OF ok new] h'(3) by auto
  show ?thesis
  proof (rule that [of h'])
    show "appData_ok (IgnoreBelow h' low)"
      using IgnoreBelow_ok [OF h'(2) q(1)] q(2) assms(4) by simp
    show "tracked (packetHistory (base h')) \<subseteq> insert pn (tracked (packetHistory (base h)))"
      using history.received_mem_subset [OF ok] h'(3) by simp
    show "pn \<in> tracked (packetHistory (base h'))" if "length (ranges (packetHistory (base h))) < MaxNumAckRanges"
      using history_ReceivedPacket_kept [OF ok new that] h'(3) by simp
  qed (use h' in simp_all)
qed

lemma handler_ReceivedPacket_ok:
  assumes "handler_ok (h, R)" and "handler_IsPotentiallyDuplicate h pn l = Inr False" and "low \<le> pn" and "0 < t"
  shows "\<not> is_panic (handler_ReceivedPacket low h pn ecn l t ae)"
    and "handler_ReceivedPacket low h pn ecn l t ae = Inr h' \<Longrightarrow> handler_ok (h', R(pn_space l := insert pn (R (pn_space l))))"
proof -
  let ?r = "handler_ReceivedPacket low h pn ecn l t ae"
  let ?R = "R(pn_space l := insert pn (R (pn_space l)))"
  have ok: "space_ok (initialPackets h) (R EncryptionInitial)" "space_ok (handshakePackets h) (R EncryptionHandshake)"
    "appData_ok (appDataPackets h)" "tracked (packetHistory (base (appDataPackets h))) \<subseteq> R Encryption1RTT"
    using assms(1) by (auto simp: handler_ok_def)
  have "\<not> is_panic ?r \<and> (?r = Inr h' \<longrightarrow> handler_ok (h', ?R))"
  proof (cases l)
    case EncryptionInitial
    then obtain x where x: "initialPackets h = Some x" "\<not> tracker_IsPotentiallyDuplicate x pn"
      using assms(2) by (auto simp: handler_IsPotentiallyDuplicate_def split: option.splits)
    obtain x' where "tracker_ReceivedPacket x pn ecn ae = Inr x'" "space_ok (Some x') (insert pn (R EncryptionInitial))"
      by (rule tracker_ReceivedPacket_space [OF ok(1) [unfolded x(1)] x(2)])
    then show ?thesis
      using EncryptionInitial x ok by (auto simp: handler_ReceivedPacket_def handler_ok_def)
  next
    case EncryptionHandshake
    then obtain x where x: "handshakePackets h = Some x" "\<not> tracker_IsPotentiallyDuplicate x pn"
      using assms(2) by (auto simp: handler_IsPotentiallyDuplicate_def split: option.splits)
    obtain x' where "tracker_ReceivedPacket x pn ecn ae = Inr x'" "space_ok (Some x') (insert pn (R EncryptionHandshake))"
      by (rule tracker_ReceivedPacket_space [OF ok(2) [unfolded x(1)] x(2)])
    then show ?thesis
      using EncryptionHandshake x ok by (auto simp: handler_ReceivedPacket_def handler_ok_def)
  next
    case Encryption0RTT
    then have dup: "\<not> tracker_IsPotentiallyDuplicate (base (appDataPackets h)) pn"
      using assms(2) by (simp add: handler_IsPotentiallyDuplicate_def)
    obtain a where "appData_ReceivedPacket (appDataPackets h) pn ecn t ae = Inr a" "appData_ok a"
      "tracked (packetHistory (base a)) \<subseteq> insert pn (tracked (packetHistory (base (appDataPackets h))))"
      by (rule appData_receive [OF ok(3) dup assms(4,3)])
    then show ?thesis
      using Encryption0RTT ok by (auto simp: handler_ReceivedPacket_def handler_ok_def)
  next
    case Encryption1RTT
    then have dup: "\<not> tracker_IsPotentiallyDuplicate (base (appDataPackets h)) pn"
      using assms(2) by (simp add: handler_IsPotentiallyDuplicate_def)
    obtain a where a: "appData_ReceivedPacket (appDataPackets h) pn ecn t ae = Inr a" "appData_ok a" "appData_ok (IgnoreBelow a low)"
      "tracked (packetHistory (base a)) \<subseteq> insert pn (tracked (packetHistory (base (appDataPackets h))))"
      by (rule appData_receive [OF ok(3) dup assms(4,3)])
    moreover have "tracked (packetHistory (base (IgnoreBelow a low))) \<subseteq> insert pn (R Encryption1RTT)"
      using IgnoreBelow_tracked [OF a(2)] a(4) ok(4) by auto
    ultimately show ?thesis
      using Encryption1RTT ok by (simp add: handler_ReceivedPacket_def handler_ok_def Let_def) (intro conjI impI; hypsubst; simp)
  qed
  then show "\<not> is_panic ?r" and "?r = Inr h' \<Longrightarrow> handler_ok (h', ?R)"
    by auto
qed

lemma handler_GetAckFrame_ok:
  assumes "handler_ok (h, R)" and "handler_GetAckFrame h l now q = (a, h')"
  shows "handler_ok (h', R)"
    and "a = Some f \<Longrightarrow> validateAckRanges f \<and> length (AckRanges f) \<le> 32 \<and> ack_set (AckRanges f) \<subseteq> R l"
proof -
  have tracker: "space_ok (Some t') S \<and>
      (b = Some f \<longrightarrow> validateAckRanges f \<and> length (AckRanges f) \<le> 32 \<and> ack_set (AckRanges f) \<subseteq> S)"
    if "space_ok (Some t) S" "tracker_GetAckFrame t = (b, t')" for t S b t'
  proof -
    have t: "tracker_ok t" "tracked (packetHistory t) \<subseteq> S"
      using that(1) by (auto simp: space_ok_def)
    then show ?thesis
      using tracker_GetAckFrame_ok [OF t(1)] next_ack_valid [OF t(1)] that(2)
      by (auto simp: tracker_GetAckFrame_eq space_ok_def split: if_splits)
  qed
  have ok: "space_ok (initialPackets h) (R EncryptionInitial)" "space_ok (handshakePackets h) (R EncryptionHandshake)"
    "appData_ok (appDataPackets h)" "tracked (packetHistory (base (appDataPackets h))) \<subseteq> R Encryption1RTT"
    using assms(1) by (auto simp: handler_ok_def)
  have app: "appData_ok x \<and> tracked (packetHistory (base x)) \<subseteq> R Encryption1RTT \<and>
      (b = Some f \<longrightarrow> validateAckRanges f \<and> length (AckRanges f) \<le> 32 \<and> ack_set (AckRanges f) \<subseteq> R Encryption1RTT)"
    if "appData_GetAckFrame (appDataPackets h) now q = (b, x)" for b x
  proof -
    have "packetHistory (base x) = packetHistory (base (appDataPackets h))"
      using that by (auto simp: appData_GetAckFrame_def tracker_GetAckFrame_eq Let_def split: if_splits)
    then show ?thesis
      using appData_GetAckFrame_ok(1,3) [OF ok(3), where now = now and queued = q, unfolded that] ok(4) by auto
  qed
  have "handler_ok (h', R) \<and>
     (a = Some f \<longrightarrow> validateAckRanges f \<and> length (AckRanges f) \<le> 32 \<and> ack_set (AckRanges f) \<subseteq> R l)"
  proof (cases l)
    case EncryptionInitial
    then show ?thesis
      using assms ok tracker [of _ "R EncryptionInitial"]
      by (cases "initialPackets h") (auto simp: handler_GetAckFrame_def handler_ok_def split: prod.splits)
  next
    case EncryptionHandshake
    then show ?thesis
      using assms ok tracker [of _ "R EncryptionHandshake"]
      by (cases "handshakePackets h") (auto simp: handler_GetAckFrame_def handler_ok_def split: prod.splits)
  next
    case Encryption1RTT
    then obtain x where x: "appData_GetAckFrame (appDataPackets h) now q = (a, x)" "h' = h\<lparr>appDataPackets := x\<rparr>"
      using assms(2) by (auto simp: handler_GetAckFrame_def split: prod.splits)
    show ?thesis
      using ok app [OF x(1)] x(2) Encryption1RTT by (simp add: handler_ok_def)
  qed (use assms in \<open>auto simp: handler_GetAckFrame_def\<close>)
  then show "handler_ok (h', R)"
    and "a = Some f \<Longrightarrow> validateAckRanges f \<and> length (AckRanges f) \<le> 32 \<and> ack_set (AckRanges f) \<subseteq> R l"
    by auto
qed

lemma handler_ok_init: "handler_init s \<Longrightarrow> handler_ok s"
  using history_ok_new
  by (auto simp: handler_init_def handler_ok_def newReceivedPacketHandler_def space_ok_def tracker_ok_def ack_valid_def
      newReceivedPacketTracker_def newReceivedPacketHistory_def appData_ok_def newAppDataReceivedPacketTracker_def MaxAckDelay_def
      Millisecond_def)

lemma handler_DropPackets_ok: "handler_ok (h, R) \<Longrightarrow> handler_DropPackets h l = Inr h' \<Longrightarrow> handler_ok (h', R)"
  by (cases l) (auto simp: handler_DropPackets_def handler_ok_def space_ok_def)

lemma handler_step_ok: "handler_ok s \<Longrightarrow> handler_step s s' \<Longrightarrow> handler_ok s'"
  by (auto elim!: handler_step.cases intro: handler_ReceivedPacket_ok(2) handler_GetAckFrame_ok(1) handler_DropPackets_ok)

lemma handler_reachable_ok: "reachable handler_init handler_step s \<Longrightarrow> handler_ok s"
  by (erule reachable_invariant) (auto intro: handler_ok_init handler_step_ok)

section \<open>Properties\<close>


definition sample_handler :: receivedPacketHandler where
  "sample_handler = newReceivedPacketHandler\<lparr>appDataPackets := newAppDataReceivedPacketTracker\<lparr>base := newReceivedPacketTracker\<lparr>
     packetHistory := \<lparr>ranges = [\<lparr>Start = 10, End = 10\<rparr>], deletedBelow = 0\<rparr>, hasNewAck := True\<rparr>,
     largestObservedRcvdTime := 100, largestObserved := 10, ackQueued := True,
     ackElicitingPacketsReceivedSinceLastAck := 1\<rparr>, lowest1RTTPacket := 10\<rparr>"

lemma sample_handler_reachable:
  "reachable handler_init handler_step (sample_handler, (\<lambda>_. {})(Encryption1RTT := {10}))"
proof -
  have "handler_step (newReceivedPacketHandler, \<lambda>_. {})
      (sample_handler, (\<lambda>_. {})(pn_space Encryption1RTT := insert 10 ((\<lambda>_. {}) (pn_space Encryption1RTT))))"
    by (rule handler_step.receive [where low = 0 and t = 100 and ecn = ECNNon and ae = True]; code_simp)
  then show ?thesis
    using reachable.step [of handler_init handler_step, OF reachable.start] by (simp add: handler_init_def)
qed


text \<open>
  In every state that the handler reaches, a packet that is not a potential duplicate is accepted without a
  panic, provided that the acknowledged packets the handler is told to forget do not include it.
\<close>

theorem handler_ReceivedPacket_safe:
  assumes "reachable handler_init handler_step (h, R)" and "handler_IsPotentiallyDuplicate h pn l = Inr False"
    and "low \<le> pn" and "0 < t"
  shows "\<not> is_panic (handler_ReceivedPacket low h pn ecn l t ae)"
  using handler_ReceivedPacket_ok(1) [OF handler_reachable_ok [OF assms(1)] assms(2-4)] .

theorem handler_ReceivedPacket_safe_witness:
  "\<not> is_panic (handler_ReceivedPacket 3 sample_handler 5 ECNNon Encryption1RTT 200 True)"
proof -
  have "handler_IsPotentiallyDuplicate sample_handler 5 Encryption1RTT = Inr False"
    by code_simp
  then show ?thesis
    using handler_ReceivedPacket_safe [OF sample_handler_reachable, of 5 Encryption1RTT 3 200] by simp
qed




end
