(* ===== verification/Frame_Sorter.thy ===== *)
theory Frame_Sorter
  imports Prelude Protocol "HOL-Library.AList" "HOL-Library.Multiset"
begin

text \<open>
  The frame sorter of a receive stream (\<open>frame_sorter.go\<close>): it takes the data of STREAM and CRYPTO frames in any
  order, with any overlaps, and returns the bytes in order. The queue is the map of the code as an association list with
  distinct keys. The gaps are a linked list; a pointer to an element is its position, so removing
  an element shifts the pointers behind it. A callback that releases the buffer of a frame is
  represented by a number, and every operation returns the callbacks it called, in order.
\<close>

section \<open>Definitions\<close>

record byteInterval =
  bi_Start :: ByteCount
  bi_End :: ByteCount

type_synonym callback = nat

record frameSorterEntry =
  fse_Data :: "byte list"
  fse_DoneCb :: "callback option"

type_synonym sorter_queue = "(ByteCount \<times> frameSorterEntry) list"

record frameSorter =
  fs_queue :: sorter_queue
  fs_readPos :: ByteCount
  fs_gaps :: "byteInterval list"

definition errDuplicateStreamData :: go_error where
  "errDuplicateStreamData = ErrorNew ''duplicate stream data''"

definition newFrameSorter :: frameSorter where
  "newFrameSorter = \<lparr>fs_queue = [], fs_readPos = 0, fs_gaps = [\<lparr>bi_Start = 0, bi_End = MaxByteCount\<rparr>]\<rparr>"

definition call :: "callback option \<Rightarrow> callback list" where
  "call cb = (case cb of None \<Rightarrow> [] | Some c \<Rightarrow> [c])"

fun findStartGap :: "byteInterval list \<Rightarrow> nat \<Rightarrow> ByteCount \<Rightarrow> (nat \<times> bool) result" where
  "findStartGap [] i offset = Inl (Panic ''no gap found'')"
| "findStartGap (g # gs) i offset =
     (if offset \<ge> bi_Start g \<and> offset \<le> bi_End g then Inr (i, True)
      else if offset < bi_Start g then Inr (i, False)
      else findStartGap gs (i + 1) offset)"

text \<open>The elements from \<open>startGap\<close> on, which stands at position \<open>i\<close>. The element before the first one is \<open>nil\<close>.\<close>

fun findEndGap :: "byteInterval list \<Rightarrow> nat \<Rightarrow> ByteCount \<Rightarrow> (nat option \<times> bool) result" where
  "findEndGap [] i offset = Inl (Panic ''no gap found'')"
| "findEndGap (g # gs) i offset =
     (if offset \<ge> bi_Start g \<and> offset < bi_End g then Inr (Some i, True)
      else if offset < bi_Start g then Inr (if i = 0 then None else Some (i - 1), False)
      else findEndGap gs (i + 1) offset)"

lemma AList_delete_shorter: "map_of q k = Some v \<Longrightarrow> length (AList.delete k q) < length q"
  by (induction q) (auto split: if_splits simp: AList.length_delete_le less_Suc_eq_le)

function deleteConsecutive :: "sorter_queue \<Rightarrow> ByteCount \<Rightarrow> sorter_queue \<times> callback list" where
  "deleteConsecutive q pos =
     (case map_of q pos of
        None \<Rightarrow> (q, [])
      | Some oldEntry \<Rightarrow>
          let (q', called) = deleteConsecutive (AList.delete pos q) (pos + int (length (fse_Data oldEntry))) in
          (q', call (fse_DoneCb oldEntry) @ called))"
  by pat_completeness auto
termination
  by (relation "measure (length \<circ> fst)") (auto intro: AList_delete_shorter)

declare deleteConsecutive.simps [simp del]

text \<open>
  The loop of \<open>push\<close> that replaces the entries which start where the new frame does: the queue, the
  end of the frame, whether an entry was replaced, whether the frame was cut, and the called
  callbacks. It fails when the frame is a duplicate.
\<close>

function replace_entries ::
  "sorter_queue \<Rightarrow> ByteCount \<Rightarrow> ByteCount \<Rightarrow> bool \<Rightarrow> (sorter_queue \<times> ByteCount \<times> bool \<times> bool \<times> callback list) result" where
  "replace_entries q end pos hasReplacedAtLeastOne =
     (case map_of q pos of
        None \<Rightarrow> Inr (q, end, hasReplacedAtLeastOne, False, [])
      | Some oldEntry \<Rightarrow>
          let oldEntryLen = int (length (fse_Data oldEntry)) in
          if end - pos > oldEntryLen \<or> (hasReplacedAtLeastOne \<and> end - pos = oldEntryLen) then
            rbind (replace_entries (AList.delete pos q) end (pos + oldEntryLen) True) (\<lambda>(q', end', has', cut', called).
              Inr (q', end', has', cut', call (fse_DoneCb oldEntry) @ called))
          else if \<not> hasReplacedAtLeastOne then Inl errDuplicateStreamData
          else Inr (q, pos, True, True, []))"
  by pat_completeness auto
termination
  by (relation "measure (length \<circ> fst)") (auto intro: AList_delete_shorter)

declare replace_entries.simps [simp del]

definition remove_at :: "nat \<Rightarrow> 'a list \<Rightarrow> 'a list" where
  "remove_at k xs = take k xs @ drop (Suc k) xs"

text \<open>The loop that removes the gaps from \<open>startGapNext\<close> (position \<open>k\<close>) up to \<open>endGap\<close> with the data behind them.\<close>

function delete_gaps ::
  "byteInterval list \<Rightarrow> sorter_queue \<Rightarrow> nat \<Rightarrow> ByteCount \<Rightarrow> (byteInterval list \<times> sorter_queue \<times> callback list) result" where
  "delete_gaps gs q k endGapStart =
     (if k \<ge> length gs then Inl (Panic ''nil pointer dereference'')
      else if bi_End (gs ! k) < endGapStart then
        let (q', called) = deleteConsecutive q (bi_End (gs ! k)) in
        rbind (delete_gaps (remove_at k gs) q' k endGapStart) (\<lambda>(gs', q'', called').
          Inr (gs', q'', called @ called'))
      else Inr (gs, q, []))"
  by pat_completeness auto
termination
  by (relation "measure (\<lambda>(gs, q, k, e). length gs)") (auto simp: remove_at_def)

declare delete_gaps.simps [simp del]

text \<open>The end of \<open>push\<close>: a short cut frame is copied and its buffer released, then the frame is queued.\<close>

definition push_insert ::
  "frameSorter \<Rightarrow> byteInterval list \<Rightarrow> sorter_queue \<Rightarrow> byte list \<Rightarrow> ByteCount \<Rightarrow> callback option \<Rightarrow> bool \<Rightarrow> callback list \<Rightarrow>
   (frameSorter \<times> callback list) result" where
  "push_insert s gs q data start doneCb wasCut called =
     (let copied = (wasCut \<and> length data < MinStreamFrameBufferSize);
          called' = (if copied then call doneCb else []);
          doneCb = (if copied then None else doneCb) in
      if length gs > MaxStreamFrameSorterGaps then Inl (ErrorNew ''too many gaps in received data'')
      else Inr (s\<lparr>fs_gaps := gs, fs_queue := AList.update start \<lparr>fse_Data = data, fse_DoneCb = doneCb\<rparr> q\<rparr>,
                called @ called'))"

text \<open>
  The last part of \<open>push\<close>, once the start of the frame and of its gap are settled: \<open>gs\<close> and \<open>q\<close> are the gaps and the queue so far, and the
  positions are those in \<open>gs\<close>.
\<close>

definition push_end ::
  "frameSorter \<Rightarrow> byteInterval list \<Rightarrow> sorter_queue \<Rightarrow> byte list \<Rightarrow> ByteCount \<Rightarrow> ByteCount \<Rightarrow> callback option \<Rightarrow> bool \<Rightarrow>
   nat \<Rightarrow> nat \<Rightarrow> nat \<Rightarrow> bool \<Rightarrow> bool \<Rightarrow> bool \<Rightarrow> ByteCount \<Rightarrow> ByteCount \<Rightarrow> ByteCount \<Rightarrow> callback list \<Rightarrow>
   (frameSorter \<times> callback list) result" where
  "push_end s gs0 q data start end doneCb wasCut startGap startGapNext endGap startGapEqualsEndGap adjustedStartGapEnd
     endsInGap startGapEnd endGapStart endGapEnd called1 =
     rbind (if \<not> startGapEqualsEndGap then
              let (q, called) = deleteConsecutive q startGapEnd in
              rbind (delete_gaps gs0 q startGapNext endGapStart) (\<lambda>(gs, q, called').
                Inr (gs, q, called @ called'))
            else Inr (gs0, q, [])) (\<lambda>(gs, q, called2).
     let endGap = endGap - (length gs0 - length gs);
         cutEnd = (\<not> endsInGap \<and> start \<noteq> endGapEnd \<and> end > endGapEnd);
         data = (if cutEnd then take (nat (endGapEnd - start)) data else data);
         end = (if cutEnd then endGapEnd else end);
         wasCut = (wasCut \<or> cutEnd);
         gs = (if end = endGapEnd then (if \<not> startGapEqualsEndGap then remove_at endGap gs else gs)
               else if startGapEqualsEndGap \<and> adjustedStartGapEnd then
                 take (startGap + 1) gs @ \<lparr>bi_Start = end, bi_End = startGapEnd\<rparr> # drop (startGap + 1) gs
               else if \<not> startGapEqualsEndGap then gs[endGap := (gs ! endGap)\<lparr>bi_Start := end\<rparr>]
               else gs) in
     push_insert s gs q data start doneCb wasCut (called1 @ called2))"

text \<open>The middle part of \<open>push\<close>, for a frame that is known to start at or before \<open>startGap\<close> and to end at or behind \<open>endGap\<close>.\<close>

definition push_start ::
  "frameSorter \<Rightarrow> byte list \<Rightarrow> ByteCount \<Rightarrow> ByteCount \<Rightarrow> callback option \<Rightarrow> nat \<Rightarrow> bool \<Rightarrow> nat \<Rightarrow> bool \<Rightarrow>
   (frameSorter \<times> callback list) result" where
  "push_start s data start end doneCb startGap startsInGap endGap endsInGap =
     (let gs = fs_gaps s; g = gs ! startGap;
          startGapEnd = bi_End g;
          endGapStart = bi_Start (gs ! endGap);
          endGapEnd = bi_End (gs ! endGap) in
      rbind (replace_entries (fs_queue s) end start False) (\<lambda>(q, end', hasReplacedAtLeastOne, wasCut, called1).
      let data = (if wasCut then take (nat (end' - start)) data else data);
          end = end';
          cutStart = (\<not> startsInGap \<and> \<not> hasReplacedAtLeastOne);
          data = (if cutStart then drop (nat (bi_Start g - start)) data else data);
          start = (if cutStart then bi_Start g else start);
          wasCut = (wasCut \<or> cutStart);
          removeStart = (start \<le> bi_Start g \<and> end \<ge> bi_End g);
          adjustedStartGapEnd = (\<not> start \<le> bi_Start g \<and> \<not> hasReplacedAtLeastOne);
          gs' = (if start \<le> bi_Start g then
                   (if end \<ge> bi_End g then remove_at startGap gs
                    else gs[startGap := g\<lparr>bi_Start := end\<rparr>])
                 else if \<not> hasReplacedAtLeastOne then gs[startGap := g\<lparr>bi_End := start\<rparr>]
                 else gs) in
      push_end s gs' q data start end doneCb wasCut startGap (if removeStart then startGap else startGap + 1)
        (endGap - (length gs - length gs')) (startGap = endGap) adjustedStartGapEnd endsInGap startGapEnd endGapStart endGapEnd
        called1))"

definition sorter_push ::
  "frameSorter \<Rightarrow> byte list \<Rightarrow> ByteCount \<Rightarrow> callback option \<Rightarrow> (frameSorter \<times> callback list) result" where
  "sorter_push s data offset doneCb =
     (if length data = 0 then Inl errDuplicateStreamData
      else let start = offset; end = offset + int (length data); gs = fs_gaps s in
      if gs = [] then Inl (Panic ''nil pointer dereference'')
      else if end \<le> bi_Start (hd gs) then Inl errDuplicateStreamData
      else rbind (findStartGap gs 0 start) (\<lambda>(startGap, startsInGap).
      rbind (findEndGap (drop startGap gs) startGap end) (\<lambda>(endGap', endsInGap).
      case endGap' of None \<Rightarrow> Inl (Panic ''nil pointer dereference'') | Some endGap \<Rightarrow>
      if (startGap = endGap \<and> end \<le> bi_Start (gs ! startGap)) \<or>
         (startGap \<noteq> endGap \<and> bi_End (gs ! startGap) \<ge> bi_Start (gs ! endGap) \<and> end \<le> bi_Start (gs ! startGap))
      then Inl errDuplicateStreamData
      else push_start s data start end doneCb startGap startsInGap endGap endsInGap)))"

definition sorter_Push ::
  "frameSorter \<Rightarrow> byte list \<Rightarrow> ByteCount \<Rightarrow> callback option \<Rightarrow> (frameSorter \<times> callback list) result" where
  "sorter_Push s data offset doneCb =
     (case sorter_push s data offset doneCb of
        Inl e \<Rightarrow> if e = errDuplicateStreamData then Inr (s, call doneCb) else Inl e
      | Inr r \<Rightarrow> Inr r)"

definition sorter_Pop :: "frameSorter \<Rightarrow> (frameSorter \<times> ByteCount \<times> byte list \<times> callback option) result" where
  "sorter_Pop s =
     (case map_of (fs_queue s) (fs_readPos s) of
        None \<Rightarrow> Inr (s, fs_readPos s, [], None)
      | Some entry \<Rightarrow>
          let offset = fs_readPos s;
              s = s\<lparr>fs_queue := AList.delete offset (fs_queue s), fs_readPos := offset + int (length (fse_Data entry))\<rparr> in
          if fs_gaps s = [] then Inl (Panic ''nil pointer dereference'')
          else if bi_End (hd (fs_gaps s)) \<le> fs_readPos s
          then Inl (Panic ''frame sorter BUG: read position higher than a gap'')
          else Inr (s, offset, fse_Data entry, fse_DoneCb entry))"

definition HasMoreData :: "frameSorter \<Rightarrow> bool" where
  "HasMoreData s \<longleftrightarrow> length (fs_queue s) > 0"

section \<open>The bytes in the queue and the gaps\<close>

abbreviation entry_len :: "frameSorterEntry \<Rightarrow> int" where
  "entry_len e \<equiv> int (length (fse_Data e))"

text \<open>The offsets whose bytes are queued, and the offsets in the gaps.\<close>

definition queued :: "(ByteCount \<rightharpoonup> frameSorterEntry) \<Rightarrow> ByteCount set" where
  "queued m = {p. \<exists>k e. m k = Some e \<and> k \<le> p \<and> p < k + entry_len e}"

definition gap_set :: "byteInterval list \<Rightarrow> ByteCount set" where
  "gap_set gs = (\<Union>g \<in> set gs. {bi_Start g..<bi_End g})"

text \<open>
  The entries are nonempty, do not overlap and hold the bytes of the stream \<open>S\<close>; the gaps are
  ordered, nonempty and separated.
\<close>

definition entries_ok :: "(ByteCount \<Rightarrow> byte) \<Rightarrow> (ByteCount \<rightharpoonup> frameSorterEntry) \<Rightarrow> bool" where
  "entries_ok S m \<longleftrightarrow>
     (\<forall>k e. m k = Some e \<longrightarrow> fse_Data e \<noteq> [] \<and> (\<forall>i < length (fse_Data e). fse_Data e ! i = S (k + int i))) \<and>
     (\<forall>k e k' e'. m k = Some e \<longrightarrow> m k' = Some e' \<longrightarrow> k < k' \<longrightarrow> k + entry_len e \<le> k')"

definition gaps_ok :: "byteInterval list \<Rightarrow> bool" where
  "gaps_ok gs \<longleftrightarrow> sorted_wrt (\<lambda>g h. bi_End g < bi_Start h) gs \<and> (\<forall>g \<in> set gs. bi_Start g < bi_End g)"

definition boundary :: "(ByteCount \<rightharpoonup> frameSorterEntry) \<Rightarrow> ByteCount \<Rightarrow> bool" where
  "boundary m p \<longleftrightarrow> (\<forall>k e. m k = Some e \<longrightarrow> k < p \<longrightarrow> k + entry_len e \<le> p)"

lemma gap_set_simps [simp]:
  "gap_set [] = {}"
  "gap_set (g # gs) = {bi_Start g..<bi_End g} \<union> gap_set gs"
  "gap_set (gs @ hs) = gap_set gs \<union> gap_set hs"
  by (auto simp: gap_set_def)

lemma gaps_ok_Cons: "gaps_ok (g # gs) \<longleftrightarrow> bi_Start g < bi_End g \<and> (\<forall>h \<in> set gs. bi_End g < bi_Start h) \<and> gaps_ok gs"
  by (auto simp: gaps_ok_def)

lemma gaps_ok_append:
  "gaps_ok (gs @ hs) \<longleftrightarrow> gaps_ok gs \<and> gaps_ok hs \<and> (\<forall>g \<in> set gs. \<forall>h \<in> set hs. bi_End g < bi_Start h)"
  by (auto simp: gaps_ok_def sorted_wrt_append)

lemma queued_empty [simp]: "queued Map.empty = {}"
  by (simp add: queued_def)

lemma queuedI: "m k = Some e \<Longrightarrow> k \<le> p \<Longrightarrow> p < k + entry_len e \<Longrightarrow> p \<in> queued m"
  by (auto simp: queued_def)

lemma entries_apart:
  "entries_ok S m \<Longrightarrow> m k = Some e \<Longrightarrow> m k' = Some e' \<Longrightarrow> k < k' \<Longrightarrow> k + entry_len e \<le> k'"
  by (simp add: entries_ok_def)

lemma entries_disjoint:
  assumes "entries_ok S m" and "m k = Some e" and "m k' = Some e'" and "k \<le> p" "p < k + entry_len e" "k' \<le> p" "p < k' + entry_len e'"
  shows "k = k'"
  using entries_apart [OF assms(1,2,3)] entries_apart [OF assms(1,3,2)] assms(4-7)
  by (cases k k' rule: linorder_cases) auto

lemma entries_ok_delete: "entries_ok S m \<Longrightarrow> entries_ok S (m(k := None))"
  unfolding entries_ok_def by simp

lemma queued_delete:
  assumes "entries_ok S m" and "m k = Some e"
  shows "queued (m(k := None)) = queued m - {k..<k + entry_len e}"
proof (intro equalityI subsetI)
  fix p
  assume "p \<in> queued (m(k := None))"
  then obtain k' e' where "k' \<noteq> k" "m k' = Some e'" "k' \<le> p" "p < k' + entry_len e'"
    by (auto simp: queued_def split: if_splits)
  then show "p \<in> queued m - {k..<k + entry_len e}"
    using entries_disjoint [OF assms(1) assms(2), of k' e' p] by (auto intro: queuedI)
next
  fix p
  assume "p \<in> queued m - {k..<k + entry_len e}"
  then obtain k' e' where "m k' = Some e'" "k' \<le> p" "p < k' + entry_len e'" "k' = k \<longrightarrow> \<not> p < k + entry_len e"
    by (auto simp: queued_def)
  then show "p \<in> queued (m(k := None))"
    using assms(2) by (intro queuedI [of _ k' e']) auto
qed

lemma queued_insert:
  assumes "m k = None"
  shows "queued (m(k \<mapsto> e)) = queued m \<union> {k..<k + entry_len e}"
  using assms by (auto simp: queued_def split: if_splits)

lemma entries_ok_insert:
  assumes "entries_ok S m" and "queued m \<inter> {k..<k + entry_len e} = {}" and "fse_Data e \<noteq> []"
    and "\<And>i. i < length (fse_Data e) \<Longrightarrow> fse_Data e ! i = S (k + int i)"
  shows "entries_ok S (m(k \<mapsto> e))"
proof -
  have ne: "fse_Data e' \<noteq> []" if "m k' = Some e'" for k' e'
    using assms(1) that by (auto simp: entries_ok_def)
  have "k' + entry_len e' \<le> k" if "m k' = Some e'" "k' < k" for k' e'
  proof (rule ccontr)
    assume "\<not> k' + entry_len e' \<le> k"
    then have "k \<in> queued m"
      using that by (intro queuedI) auto
    then show False
      using assms(2,3) by auto
  qed
  moreover have "k + entry_len e \<le> k'" if "m k' = Some e'" "k < k'" for k' e'
  proof (rule ccontr)
    assume "\<not> k + entry_len e \<le> k'"
    moreover have "k' \<in> queued m"
      using that(1) ne [OF that(1)] by (intro queuedI) auto
    ultimately show False
      using assms(2) that(2) by auto
  qed
  ultimately show ?thesis
    using assms(1,3,4) unfolding entries_ok_def by auto
qed

lemma boundary_not_queued:
  assumes "entries_ok S m" and "boundary m p" and "m p = None"
  shows "p \<notin> queued m"
  using assms by (force simp: queued_def boundary_def)

lemma boundary_after_gap: "p - 1 \<notin> queued m \<Longrightarrow> boundary m p"
proof -
  assume "p - 1 \<notin> queued m"
  then have "k + entry_len e \<le> p" if "m k = Some e" "k < p" for k e
    using queuedI [of m k e "p - 1"] that by linarith
  then show ?thesis
    by (simp add: boundary_def)
qed

lemma boundary_next:
  assumes "entries_ok S m" and "m p = Some e" and "boundary m p"
  shows "boundary (m(p := None)) (p + entry_len e)"
  unfolding boundary_def
proof (intro allI impI)
  fix k e'
  assume k: "(m(p := None)) k = Some e'" "k < p + entry_len e"
  then have m: "m k = Some e'" "k \<noteq> p"
    by (auto split: if_splits)
  have "\<not> p < k"
    using assms(1,2) m k(2) by (force simp: entries_ok_def)
  then have "k + entry_len e' \<le> p"
    using assms(3) m by (simp add: boundary_def)
  then show "k + entry_len e' \<le> p + entry_len e"
    by simp
qed

lemma boundary_entry: "entries_ok S m \<Longrightarrow> m p = Some e \<Longrightarrow> boundary m p"
  unfolding boundary_def using entries_apart by blast

text \<open>The callbacks of the queued entries.\<close>

definition callbacks :: "sorter_queue \<Rightarrow> callback multiset" where
  "callbacks q = mset (concat (map (\<lambda>(k, e). call (fse_DoneCb e)) q))"

definition queue_ok :: "(ByteCount \<Rightarrow> byte) \<Rightarrow> sorter_queue \<Rightarrow> bool" where
  "queue_ok S q \<longleftrightarrow> distinct (map fst q) \<and> entries_ok S (map_of q)"

lemma callbacks_delete:
  "distinct (map fst q) \<Longrightarrow> map_of q k = Some e \<Longrightarrow> callbacks q = mset (call (fse_DoneCb e)) + callbacks (AList.delete k q)"
proof (induction q)
  case (Cons x q)
  show ?case
  proof (cases "fst x = k")
    case True
    then have "AList.delete k q = q"
      using Cons.prems(1) by (auto simp: delete_idem)
    then show ?thesis
      using True Cons.prems(2) by (cases x) (simp add: callbacks_def)
  next
    case False
    then show ?thesis
      using Cons by (cases x) (simp add: callbacks_def)
  qed
qed simp

lemma map_of_delete: "map_of (AList.delete k q) = (map_of q)(k := None)"
  by (simp add: delete_conv')

lemma queue_ok_delete:
  assumes "queue_ok S q" and "map_of q k = Some e"
  shows "queue_ok S (AList.delete k q)"
    and "queued (map_of (AList.delete k q)) = queued (map_of q) - {k..<k + entry_len e}"
    and "callbacks q = mset (call (fse_DoneCb e)) + callbacks (AList.delete k q)"
    and "boundary (map_of q) k \<Longrightarrow> boundary (map_of (AList.delete k q)) (k + entry_len e)"
    and "{k..<k + entry_len e} \<subseteq> queued (map_of q)"
  using assms callbacks_delete [OF _ assms(2)] queued_delete [of S "map_of q" k e]
    boundary_next [of S "map_of q" k e] queuedI [of "map_of q" k e]
  by (auto simp: queue_ok_def map_of_delete entries_ok_delete distinct_delete)

lemma deleteConsecutive_spec:
  assumes "queue_ok S q" and "boundary (map_of q) p" and "deleteConsecutive q p = (q', c)"
  obtains p' where "queue_ok S q'" and "p \<le> p'" and "{p..<p'} \<subseteq> queued (map_of q)" and "p' \<notin> queued (map_of q)"
    and "queued (map_of q') = queued (map_of q) - {p..<p'}" and "callbacks q = mset c + callbacks q'"
  using assms
proof (induction q p arbitrary: q' c thesis rule: deleteConsecutive.induct)
  case (1 q p)
  show ?case
  proof (cases "map_of q p")
    case None
    then have "p \<notin> queued (map_of q)"
      using 1(3,4) boundary_not_queued by (auto simp: queue_ok_def)
    then show ?thesis
      using 1(2) [of p] 1(3,5) None by (simp add: deleteConsecutive.simps [of q p])
  next
    case (Some e)
    obtain q1 c1 where r: "deleteConsecutive (AList.delete p q) (p + entry_len e) = (q1, c1)"
      by fastforce
    then have q': "q' = q1" "c = call (fse_DoneCb e) @ c1"
      using 1(5) Some by (auto simp: deleteConsecutive.simps [of q p])
    note del = queue_ok_delete [OF 1(3) Some]
    obtain p' where p': "queue_ok S q1" "p + entry_len e \<le> p'" "{p + entry_len e..<p'} \<subseteq> queued (map_of (AList.delete p q))"
        "p' \<notin> queued (map_of (AList.delete p q))"
        "queued (map_of q1) = queued (map_of (AList.delete p q)) - {p + entry_len e..<p'}"
        "callbacks (AList.delete p q) = mset c1 + callbacks q1"
      using 1(1) [OF Some _ del(1) del(4) [OF 1(4)] r] by metis
    have split: "{p..<p'} = {p..<p + entry_len e} \<union> {p + entry_len e..<p'}"
      using p'(2) by auto
    show ?thesis
      by (rule 1(2) [of p']) (use p' q' del in \<open>auto simp: split\<close>)
  qed
qed

lemma replace_entries_None:
  "map_of q pos = None \<Longrightarrow> replace_entries q end pos has = Inr (q, end, has, False, [])"
  by (subst replace_entries.simps) simp

lemma replace_entries_Some:
  assumes "map_of q pos = Some e"
  shows "replace_entries q end pos has =
    (if end - pos > entry_len e \<or> (has \<and> end - pos = entry_len e) then
       rbind (replace_entries (AList.delete pos q) end (pos + entry_len e) True) (\<lambda>(q', end', has', ct', called).
         Inr (q', end', has', ct', call (fse_DoneCb e) @ called))
     else if \<not> has then Inl errDuplicateStreamData
     else Inr (q, pos, True, True, []))"
  using assms by (subst replace_entries.simps) simp

definition replaced where
  "replaced S q end pos has q' end' has' ct c p' \<longleftrightarrow>
     has' \<and> queue_ok S q' \<and> callbacks q = mset c + callbacks q' \<and>
     pos \<le> p' \<and> p' \<le> end \<and> (has \<or> pos < p') \<and> {pos..<p'} \<subseteq> queued (map_of q) \<and>
     queued (map_of q') = queued (map_of q) - {pos..<p'} \<and>
     (ct \<longrightarrow> end' = p' \<and> {pos..end} \<subseteq> queued (map_of q)) \<and> (\<not> ct \<longrightarrow> end' = end \<and> p' \<notin> queued (map_of q))"

lemma replace_entries_spec:
  assumes "queue_ok S q" and "boundary (map_of q) pos" and "pos \<le> end" and "has \<or> map_of q pos \<noteq> None"
  shows "(replace_entries q end pos has = Inl errDuplicateStreamData \<and> \<not> has \<and> {pos..<end} \<subseteq> queued (map_of q)) \<or>
    (\<exists>q' end' has' ct c p'. replace_entries q end pos has = Inr (q', end', has', ct, c) \<and>
      replaced S q end pos has q' end' has' ct c p')"
  using assms
proof (induction q "end" pos has rule: replace_entries.induct)
  case (1 q "end" pos has)
  show ?case
  proof (cases "map_of q pos")
    case None
    then have "pos \<notin> queued (map_of q)"
      using 1(2,3) boundary_not_queued by (auto simp: queue_ok_def)
    then have "replaced S q end pos has q end has False [] pos"
      using 1(2-5) None by (simp add: replaced_def)
    then show ?thesis
      using replace_entries_None [OF None] by blast
  next
    case (Some e)
    note del = queue_ok_delete [OF 1(2) Some]
    have len: "0 < entry_len e"
      using 1(2) Some by (auto simp: queue_ok_def entries_ok_def)
    show ?thesis
    proof (cases "end - pos > entry_len e \<or> (has \<and> end - pos = entry_len e)")
      case True
      let ?q = "AList.delete pos q" and ?p = "pos + entry_len e"
      have "?p \<le> end"
        using True by auto
      then obtain q' end' has' ct c p' where r: "replace_entries ?q end ?p True = Inr (q', end', has', ct, c)"
          and p': "replaced S ?q end ?p True q' end' has' ct c p'"
        using 1(1) [OF Some refl True del(1) del(4) [OF 1(3)]] by blast
      have split: "{pos..<p'} = {pos..<?p} \<union> {?p..<p'}" "{pos..end} = {pos..<?p} \<union> {?p..end}"
        using p' len by (auto simp: replaced_def)
      have "pos < p'"
        using p' len unfolding replaced_def by linarith
      then have "replaced S q end pos has q' end' has' ct (call (fse_DoneCb e) @ c) p'"
        unfolding replaced_def using p' [unfolded replaced_def] del by (intro conjI impI) (auto simp: split)
      moreover have "replace_entries q end pos has = Inr (q', end', has', ct, call (fse_DoneCb e) @ c)"
        using True r by (simp add: replace_entries_Some [OF Some])
      ultimately show ?thesis
        by blast
    next
      case False
      then have sub: "{pos..<end} \<subseteq> queued (map_of q)" "has \<Longrightarrow> {pos..end} \<subseteq> queued (map_of q)"
        using del(5) by auto
      show ?thesis
      proof (cases has)
        case True
        then have "replaced S q end pos has q pos True True [] pos"
          using 1(2-5) sub by (simp add: replaced_def)
        moreover have "replace_entries q end pos has = Inr (q, pos, True, True, [])"
          using False True by (simp add: replace_entries_Some [OF Some])
        ultimately show ?thesis
          by blast
      next
        case no: False
        have "replace_entries q end pos has = Inl errDuplicateStreamData"
          using False no by (simp add: replace_entries_Some [OF Some])
        then show ?thesis
          using no sub(1) by blast
      qed
    qed
  qed
qed

section \<open>The gaps of a frame\<close>

lemma findStartGap_spec:
  assumes "gs \<noteq> []" and "gaps_ok gs" and "start \<le> bi_End (last gs)"
  obtains A g B b where "gs = A @ g # B" and "findStartGap gs i start = Inr (i + length A, b)"
    and "\<forall>a \<in> set A. bi_End a < start" and "b \<longleftrightarrow> bi_Start g \<le> start" and "start \<le> bi_End g"
  using assms
proof (induction gs i start arbitrary: thesis rule: findStartGap.induct)
  case (2 g gs i start)
  show ?case
  proof (cases "start \<le> bi_End g")
    case True
    then show ?thesis
      using 2(2) [of "[]" g gs "bi_Start g \<le> start"] by simp
  next
    case False
    then have "gs \<noteq> []" "gaps_ok gs" "start \<le> bi_End (last gs)" "\<not> start < bi_Start g"
      using 2(4,5) by (auto simp: gaps_ok_Cons split: if_splits)
    then obtain A h B b where "gs = A @ h # B" "findStartGap gs (i + 1) start = Inr (i + 1 + length A, b)"
      "\<forall>a \<in> set A. bi_End a < start" "b \<longleftrightarrow> bi_Start h \<le> start" "start \<le> bi_End h"
      using 2(1) False by (metis (no_types, lifting))
    then show ?thesis
      using 2(2) [of "g # A" h B b] False \<open>\<not> start < bi_Start g\<close> by simp
  qed
qed simp

lemma findEndGap_spec:
  assumes "gs \<noteq> []" and "gaps_ok gs" and "end < bi_End (last gs)" and "bi_Start (hd gs) \<le> end"
  obtains M e B b where "gs = M @ e # B" and "findEndGap gs i end = Inr (Some (i + length M), b)"
    and "bi_Start e \<le> end" and "b \<longrightarrow> end < bi_End e"
    and "\<not> b \<longrightarrow> bi_End e \<le> end \<and> (\<forall>g \<in> set B. end < bi_Start g)"
  using assms
proof (induction gs i "end" arbitrary: thesis rule: findEndGap.induct)
  case (2 g gs i "end")
  show ?case
  proof (cases "end < bi_End g")
    case True
    then show ?thesis
      using 2(2) [of "[]" g gs True] 2(6) by simp
  next
    case False
    then have gs: "gs \<noteq> []" "gaps_ok gs" "end < bi_End (last gs)"
      using 2(4,5) by (auto simp: gaps_ok_Cons split: if_splits)
    show ?thesis
    proof (cases "bi_Start (hd gs) \<le> end")
      case True
      have c: "\<not> (bi_Start g \<le> end \<and> end < bi_End g)" "\<not> end < bi_Start g"
        using False 2(6) by auto
      obtain M e B b where "gs = M @ e # B" "findEndGap gs (i + 1) end = Inr (Some (i + 1 + length M), b)"
        "bi_Start e \<le> end" "b \<longrightarrow> end < bi_End e" "\<not> b \<longrightarrow> bi_End e \<le> end \<and> (\<forall>g \<in> set B. end < bi_Start g)"
        by (rule 2(1) [OF c _ gs True])
      then show ?thesis
        using 2(2) [of "g # M" e B b] 2(6) False by simp
    next
      case no: False
      then obtain h hs where h: "gs = h # hs" "end < bi_Start h"
        using gs(1) by (cases gs) auto
      then have "\<forall>x \<in> set gs. end < bi_Start x"
        using gs(2) by (force simp: gaps_ok_Cons)
      then show ?thesis
        using 2(2) [of "[]" g gs False] 2(6) False h by simp
    qed
  qed
qed simp

lemma deleteConsecutive_run:
  assumes "queue_ok S q" and "a - 1 \<notin> queued (map_of q)" and "a \<le> b" and "{a..<b} \<subseteq> queued (map_of q)" and "b \<notin> queued (map_of q)"
  obtains q' c where "deleteConsecutive q a = (q', c)" and "queue_ok S q'" and "queued (map_of q') = queued (map_of q) - {a..<b}"
    and "callbacks q = mset c + callbacks q'"
proof -
  obtain q' c where r: "deleteConsecutive q a = (q', c)"
    by fastforce
  obtain p' where p': "queue_ok S q'" "a \<le> p'" "{a..<p'} \<subseteq> queued (map_of q)" "p' \<notin> queued (map_of q)"
      "queued (map_of q') = queued (map_of q) - {a..<p'}" "callbacks q = mset c + callbacks q'"
    by (rule deleteConsecutive_spec [OF assms(1) boundary_after_gap [OF assms(2)] r])
  have "\<not> p' < b" "\<not> b < p'"
    using assms(3-5) p'(2-4) by auto
  then show ?thesis
    using that r p' by (metis linorder_less_linear)
qed

lemma delete_gaps_spec:
  assumes "gaps_ok (M @ [e])" and "queue_ok S q" and "queued (map_of q) \<inter> gap_set (M @ [e]) = {}"
    and "{bi_Start (hd (M @ [e]))..<bi_Start e} \<subseteq> queued (map_of q) \<union> gap_set M"
  obtains q' c where "delete_gaps (A @ M @ e # B) q (length A) (bi_Start e) = Inr (A @ e # B, q', c)" and "queue_ok S q'"
    and "queued (map_of q') = queued (map_of q) - {bi_Start (hd (M @ [e]))..<bi_Start e}" and "callbacks q = mset c + callbacks q'"
  using assms
proof (induction M arbitrary: q thesis)
  case Nil
  have "bi_Start e < bi_End e"
    using Nil(2) by (simp add: gaps_ok_Cons)
  then show ?case
    using Nil(1) [of q "[]"] Nil(3) by (simp add: delete_gaps.simps)
next
  case (Cons m M)
  let ?n = "bi_Start (hd (M @ [e]))"
  have m: "bi_Start m < bi_End m" "\<forall>h \<in> set (M @ [e]). bi_End m < bi_Start h" "gaps_ok (M @ [e])"
    using Cons(3) by (auto simp: gaps_ok_Cons)
  have n: "hd (M @ [e]) \<in> set (M @ [e])" "bi_End m < ?n" "?n \<le> bi_Start e"
    using m by (cases M; auto simp: gaps_ok_Cons)+
  have "?n < bi_End (hd (M @ [e]))"
    using m(3) n(1) by (auto simp: gaps_ok_def)
  then have gap_n: "?n \<in> gap_set (M @ [e])"
    using n(1) unfolding gap_set_def by fastforce
  have low: "\<forall>p \<in> gap_set (M @ [e]). ?n \<le> p"
    using m(3) by (cases M) (auto simp: gaps_ok_Cons gap_set_def)
  have run: "{bi_End m..<?n} \<subseteq> queued (map_of q)"
  proof
    fix p
    assume p: "p \<in> {bi_End m..<?n}"
    then have "p \<in> {bi_Start (hd ((m # M) @ [e]))..<bi_Start e}"
      using m(1) n(3) by simp
    then have "p \<in> queued (map_of q) \<union> gap_set (m # M)"
      using Cons(6) by blast
    moreover have "p \<notin> gap_set (m # M)"
      using p low [THEN bspec, of p] by auto
    ultimately show "p \<in> queued (map_of q)"
      by blast
  qed
  have edges: "bi_End m - 1 \<notin> queued (map_of q)" "?n \<notin> queued (map_of q)"
    using Cons(5) m(1) gap_n by auto
  obtain q1 c1 where q1: "deleteConsecutive q (bi_End m) = (q1, c1)" "queue_ok S q1"
      "queued (map_of q1) = queued (map_of q) - {bi_End m..<?n}" "callbacks q = mset c1 + callbacks q1"
    by (rule deleteConsecutive_run [OF Cons(4) edges(1) _ run edges(2)]) (use n in auto)
  have "{?n..<bi_Start e} \<subseteq> {bi_Start (hd ((m # M) @ [e]))..<bi_Start e}"
    using m(1) n by simp
  then have "{?n..<bi_Start e} \<subseteq> queued (map_of q) \<union> gap_set (m # M)"
    using Cons(6) by blast
  then have pre: "queued (map_of q1) \<inter> gap_set (M @ [e]) = {}" "{?n..<bi_Start e} \<subseteq> queued (map_of q1) \<union> gap_set M"
    using Cons(5) n(2) q1(3) by auto
  obtain q2 c2 where q2: "delete_gaps (A @ M @ e # B) q1 (length A) (bi_Start e) = Inr (A @ e # B, q2, c2)" "queue_ok S q2"
      "queued (map_of q2) = queued (map_of q1) - {?n..<bi_Start e}" "callbacks q1 = mset c2 + callbacks q2"
    by (rule Cons(1) [OF _ m(3) q1(2) pre])
  have "delete_gaps (A @ (m # M) @ e # B) q (length A) (bi_Start e) = Inr (A @ e # B, q2, c1 @ c2)"
    using q1(1) q2(1) m(2) by (subst delete_gaps.simps) (simp add: remove_at_def nth_append)
  moreover have "queued (map_of q2) = queued (map_of q) - {bi_Start m..<bi_Start e}"
    using q1(3) q2(3) n m(1) Cons(5) by auto
  ultimately show ?case
    using Cons(2) [of q2 "c1 @ c2"] q1(4) q2(2,4) by simp
qed

end
