(* ===== verification/Frame_Sorter_Push.thy ===== *)
theory Frame_Sorter_Push
  imports Frame_Sorter
begin

text \<open>
  Pushing a frame into the frame sorter keeps its invariant: the queued entries tile exactly the received bytes that were not
  read yet, the gaps are the rest, and every callback was called or is still with its entry.
\<close>

section \<open>Pushing a frame\<close>

definition sorter_ok :: "(ByteCount \<Rightarrow> byte) \<Rightarrow> frameSorter \<Rightarrow> bool" where
  "sorter_ok S s \<longleftrightarrow> queue_ok S (fs_queue s) \<and> gaps_ok (fs_gaps s) \<and> fs_gaps s \<noteq> [] \<and>
     bi_End (last (fs_gaps s)) = MaxByteCount \<and> 0 \<le> fs_readPos s \<and> fs_readPos s \<le> bi_Start (hd (fs_gaps s)) \<and>
     queued (map_of (fs_queue s)) = {fs_readPos s..<MaxByteCount} - gap_set (fs_gaps s)"

text \<open>The outcome of pushing the bytes from \<open>start\<close> to \<open>end\<close>.\<close>

definition push_ok ::
  "(ByteCount \<Rightarrow> byte) \<Rightarrow> frameSorter \<Rightarrow> ByteCount \<Rightarrow> ByteCount \<Rightarrow> callback option \<Rightarrow> (frameSorter \<times> callback list) result \<Rightarrow> bool" where
  "push_ok S s start end cb r \<longleftrightarrow>
     r = Inl (ErrorNew ''too many gaps in received data'') \<or>
     (\<exists>s' c. r = Inr (s', c) \<and> sorter_ok S s' \<and> fs_readPos s' = fs_readPos s \<and>
       gap_set (fs_gaps s') = gap_set (fs_gaps s) - {start..<end} \<and>
       callbacks (fs_queue s) + mset (call cb) = callbacks (fs_queue s') + mset c)"

definition frame_bytes :: "(ByteCount \<Rightarrow> byte) \<Rightarrow> byte list \<Rightarrow> ByteCount \<Rightarrow> bool" where
  "frame_bytes S data start \<longleftrightarrow> (\<forall>i < length data. data ! i = S (start + int i))"

lemma frame_bytes_take: "frame_bytes S data start \<Longrightarrow> frame_bytes S (take n data) start"
  by (simp add: frame_bytes_def)

lemma frame_bytes_drop: "frame_bytes S data start \<Longrightarrow> n \<le> length data \<Longrightarrow> frame_bytes S (drop n data) (start + int n)"
  by (simp add: frame_bytes_def add.assoc)

text \<open>What is left of the first and the last gap that a frame touches.\<close>

definition left_gap :: "byteInterval \<Rightarrow> ByteCount \<Rightarrow> byteInterval list" where
  "left_gap g start = (if bi_Start g < start then [g\<lparr>bi_End := start\<rparr>] else [])"

definition right_gap :: "byteInterval \<Rightarrow> ByteCount \<Rightarrow> byteInterval list" where
  "right_gap h end = (if end < bi_End h then [h\<lparr>bi_Start := end\<rparr>] else [])"

lemma AList_update_new: "k \<notin> fst ` set q \<Longrightarrow> AList.update k v q = q @ [(k, v)]"
  by (induction q) auto

lemma insert_entry:
  assumes "queue_ok S q" and "queued (map_of q) \<inter> {start..<start + int (length data)} = {}" and "data \<noteq> []" and "frame_bytes S data start"
  shows "queue_ok S (AList.update start \<lparr>fse_Data = data, fse_DoneCb = cb\<rparr> q)" 
    and "queued (map_of (AList.update start \<lparr>fse_Data = data, fse_DoneCb = cb\<rparr> q)) = queued (map_of q) \<union> {start..<start + int (length data)}"
    and "callbacks (AList.update start \<lparr>fse_Data = data, fse_DoneCb = cb\<rparr> q) = callbacks q + mset (call cb)"
proof -
  let ?q = "AList.update start \<lparr>fse_Data = data, fse_DoneCb = cb\<rparr> q"
  have "map_of q start = None"
  proof (rule ccontr)
    assume "map_of q start \<noteq> None"
    then obtain e where "map_of q start = Some e" "fse_Data e \<noteq> []"
      using assms(1) by (auto simp: queue_ok_def entries_ok_def)
    then have "start \<in> queued (map_of q)"
      by (intro queuedI [of _ start e]) auto
    then show False
      using assms(2,3) by auto
  qed
  then have new: "start \<notin> fst ` set q" "map_of ?q = (map_of q)(start \<mapsto> \<lparr>fse_Data = data, fse_DoneCb = cb\<rparr>)"
    by (auto simp: map_of_eq_None_iff update_conv')
  show "queued (map_of ?q) = queued (map_of q) \<union> {start..<start + int (length data)}"
    using \<open>map_of q start = None\<close> by (simp add: new(2) queued_insert)
  show "callbacks ?q = callbacks q + mset (call cb)"
    by (simp add: AList_update_new [OF new(1)] callbacks_def)
  have "entries_ok S (map_of ?q)"
    unfolding new(2) using assms by (intro entries_ok_insert) (auto simp: queue_ok_def frame_bytes_def)
  then show "queue_ok S ?q"
    using assms(1) by (simp add: queue_ok_def distinct_update)
qed

lemma gaps_ok_Nil [simp]: "gaps_ok []"
  by (simp add: gaps_ok_def)

lemma gaps_after:
  assumes "gaps_ok (A @ T @ B)" and "T \<noteq> []" and "s1 \<le> bi_End (hd T)" and "bi_Start (last T) \<le> e1" and "s1 < e1"
    and "\<forall>a \<in> set A. bi_End a < s1" and "\<forall>b \<in> set B. e1 < bi_Start b"
  shows "gaps_ok (A @ left_gap (hd T) s1 @ right_gap (last T) e1 @ B)"
    and "gap_set (A @ left_gap (hd T) s1 @ right_gap (last T) e1 @ B) = gap_set (A @ T @ B) - {s1..<e1}"
proof -
  have T: "gaps_ok T" "hd T \<in> set T" "last T \<in> set T" "gaps_ok A" "gaps_ok B"
    using assms(1,2) by (auto simp: gaps_ok_append)
  have ne: "bi_Start (hd T) < bi_End (hd T)" "bi_Start (last T) < bi_End (last T)"
    using T(1-3) by (auto simp: gaps_ok_def)
  have AT: "bi_End a < bi_Start g" if "a \<in> set A" "g \<in> set T \<union> set B" for a g
    using assms(1) that by (auto simp: gaps_ok_append)
  have TB: "bi_End g < bi_Start b" if "g \<in> set T" "b \<in> set B" for g b
    using assms(1) that by (auto simp: gaps_ok_append)
  show "gaps_ok (A @ left_gap (hd T) s1 @ right_gap (last T) e1 @ B)"
    using T ne AT TB assms(5-7) by (auto simp: gaps_ok_append gaps_ok_Cons left_gap_def right_gap_def)
  have first: "g = hd T \<or> bi_End (hd T) < bi_Start g" and final: "g = last T \<or> bi_End g < bi_Start (last T)" if "g \<in> set T" for g
  proof -
    show "g = hd T \<or> bi_End (hd T) < bi_Start g"
      using that T(1) by (cases T) (auto simp: gaps_ok_Cons)
    show "g = last T \<or> bi_End g < bi_Start (last T)"
      using that T(1) by (cases T rule: rev_cases) (auto simp: gaps_ok_append)
  qed
  have low: "p \<in> gap_set T \<and> p < s1 \<longleftrightarrow> bi_Start (hd T) \<le> p \<and> p < s1" for p
  proof
    assume p: "p \<in> gap_set T \<and> p < s1"
    then obtain g where "g \<in> set T" "bi_Start g \<le> p" "p < bi_End g"
      by (auto simp: gap_set_def)
    then show "bi_Start (hd T) \<le> p \<and> p < s1"
      using first [of g] p assms(3) by auto
  qed (use assms(3) T(2) in \<open>auto simp: gap_set_def intro!: bexI [of _ "hd T"]\<close>)
  have high: "p \<in> gap_set T \<and> e1 \<le> p \<longleftrightarrow> e1 \<le> p \<and> p < bi_End (last T)" for p
  proof
    assume p: "p \<in> gap_set T \<and> e1 \<le> p"
    then obtain g where "g \<in> set T" "bi_Start g \<le> p" "p < bi_End g"
      by (auto simp: gap_set_def)
    then show "e1 \<le> p \<and> p < bi_End (last T)"
      using final [of g] p assms(4) by auto
  qed (use assms(4) T(3) in \<open>auto simp: gap_set_def intro!: bexI [of _ "last T"]\<close>)
  have away: "p \<notin> {s1..<e1}" if "p \<in> gap_set A \<union> gap_set B" for p
    using that assms(6,7) unfolding gap_set_def by fastforce
  have ends: "gap_set (left_gap (hd T) s1) = {bi_Start (hd T)..<s1}" "gap_set (right_gap (last T) e1) = {e1..<bi_End (last T)}"
    by (simp_all add: left_gap_def right_gap_def)
  show "gap_set (A @ left_gap (hd T) s1 @ right_gap (last T) e1 @ B) = gap_set (A @ T @ B) - {s1..<e1}"
  proof (rule set_eqI)
    fix p
    show "p \<in> gap_set (A @ left_gap (hd T) s1 @ right_gap (last T) e1 @ B) \<longleftrightarrow> p \<in> gap_set (A @ T @ B) - {s1..<e1}"
      using low [of p] high [of p] away [of p] assms(5) unfolding gap_set_simps ends by auto
  qed
qed

lemma push_insert_spec:
  assumes ok: "sorter_ok S s" and gaps: "fs_gaps s = A @ T @ B" and T: "T \<noteq> []"
    and s1: "s1 \<le> bi_End (hd T)" "\<forall>a \<in> set A. bi_End a < s1" "fs_readPos s \<le> s1"
    and e1: "bi_Start (last T) \<le> e1" "\<forall>b \<in> set B. e1 < bi_Start b" "e1 < MaxByteCount" "s1 < e1" "bi_Start (hd T) < e1"
    and q: "queue_ok S q" "queued (map_of q) = queued (map_of (fs_queue s)) - {s1..<e1}" "callbacks (fs_queue s) = callbacks q + mset c"
    and data: "int (length data) = e1 - s1" "frame_bytes S data s1"
    and inside: "gap_set (fs_gaps s) \<inter> {start..<end} = gap_set (fs_gaps s) \<inter> {s1..<e1}"
  shows "push_ok S s start end cb (push_insert s (A @ left_gap (hd T) s1 @ right_gap (last T) e1 @ B) q data s1 cb w c)"
proof -
  let ?gs = "A @ left_gap (hd T) s1 @ right_gap (last T) e1 @ B"
  let ?cb = "if w \<and> length data < MinStreamFrameBufferSize then None else cb"
  let ?q = "AList.update s1 \<lparr>fse_Data = data, fse_DoneCb = ?cb\<rparr> q"
  let ?s = "s\<lparr>fs_gaps := ?gs, fs_queue := ?q\<rparr>"
  note ok' = ok [unfolded sorter_ok_def]
  have ends: "s1 + int (length data) = e1" "data \<noteq> []"
    using data(1) e1(4) by auto
  have "queued (map_of q) \<inter> {s1..<s1 + int (length data)} = {}"
    unfolding ends(1) q(2) by blast
  note ins = insert_entry [OF q(1) this ends(2) data(2), of ?cb]
  note after = gaps_after [OF _ T s1(1) e1(1,4) s1(2) e1(2)]
  have gs: "gaps_ok ?gs" "gap_set ?gs = gap_set (fs_gaps s) - {s1..<e1}"
    using after ok' by (simp_all add: gaps)
  have last: "B = [] \<Longrightarrow> bi_End (last T) = MaxByteCount" "B \<noteq> [] \<Longrightarrow> bi_End (last B) = MaxByteCount"
    using ok' T by (auto simp: gaps)
  then have gs_last: "?gs \<noteq> []" "bi_End (last ?gs) = MaxByteCount"
    using e1(3) by (cases "B = []"; auto simp: right_gap_def)+
  have "bi_Start (hd T) \<ge> fs_readPos s"
  proof (cases A)
    case (Cons a A')
    then have "bi_Start a < bi_End a" "bi_End a < bi_Start (hd T)" "fs_readPos s \<le> bi_Start a"
      using ok' hd_in_set [OF T] by (auto simp: gaps gaps_ok_Cons)
    then show ?thesis
      by simp
  qed (use ok' T in \<open>simp add: gaps\<close>)
  then have gs_hd: "fs_readPos s \<le> bi_Start (hd ?gs)"
    using ok' e1 s1 by (cases A; cases B; auto simp: gaps left_gap_def right_gap_def)
  have "queued (map_of ?q) = {fs_readPos s..<MaxByteCount} - gap_set ?gs"
    using ins(2) q(2) ok' s1(3) e1(3) unfolding gs(2) ends(1) by auto
  then have "sorter_ok S ?s"
    using ok' gs(1) gs_last gs_hd ins(1) by (simp add: sorter_ok_def)
  moreover have "gap_set (fs_gaps ?s) = gap_set (fs_gaps s) - {start..<end}"
    using gs(2) inside by auto
  moreover have "callbacks (fs_queue s) + mset (call cb) =
      callbacks (fs_queue ?s) + mset (c @ (if w \<and> length data < MinStreamFrameBufferSize then call cb else []))"
    using q(3) ins(3) by (simp add: call_def)
  moreover have "push_insert s ?gs q data s1 cb w c =
      (if length ?gs > MaxStreamFrameSorterGaps then Inl (ErrorNew ''too many gaps in received data'')
       else Inr (?s, c @ (if w \<and> length data < MinStreamFrameBufferSize then call cb else [])))"
    by (simp only: push_insert_def Let_def)
  ultimately show ?thesis
    unfolding push_ok_def by (auto simp del: AList.update.simps)
qed

lemma remove_at_append [simp]: "remove_at (length A) (A @ x # B) = A @ B"
  by (simp add: remove_at_def)

lemma nth_length_append [simp]: "(A @ x # B) ! length A = x"
  by simp

text \<open>Where the end of the frame is cut, and what remains of the last gap.\<close>

lemma cut_end:
  assumes "in_gap \<Longrightarrow> end < bi_End h" and "\<not> in_gap \<Longrightarrow> bi_End h \<le> end"
  shows "(if \<not> in_gap \<and> end > bi_End h then bi_End h else end) = min end (bi_End h)"
  using assms by auto

lemma push_end_diff:
  assumes ok: "sorter_ok S s" and gaps: "fs_gaps s = A @ g # M @ h # B"
    and s1: "s1 \<le> bi_End g" "\<forall>a \<in> set A. bi_End a < s1" "fs_readPos s \<le> s1"
    and e: "bi_Start h \<le> end" "end < MaxByteCount" "in_gap \<longrightarrow> end < bi_End h"
      "\<not> in_gap \<longrightarrow> bi_End h \<le> end \<and> (\<forall>b \<in> set B. end < bi_Start b)"
    and q: "queue_ok S q" "queued (map_of q) = queued (map_of (fs_queue s)) - {s1..<p1}" "callbacks (fs_queue s) = mset c + callbacks q"
      "p1 \<le> bi_End g \<or> (s1 = bi_End g \<and> p1 = bi_Start (hd (M @ [h])))"
      "queued (map_of (fs_queue s)) \<inter> {s1..<bi_End g} \<subseteq> {..<p1}"
    and data: "int (length data) = end - s1" "frame_bytes S data s1"
    and inside: "start \<le> s1" "gap_set (fs_gaps s) \<inter> {start..<s1} = {}"
  shows "push_ok S s start end cb (push_end s (A @ left_gap g s1 @ M @ h # B) q data s1 end cb w i (length (A @ left_gap g s1))
    (length (A @ left_gap g s1 @ M)) False adj in_gap (bi_End g) (bi_Start h) (bi_End h) c)"
proof -
  let ?A = "A @ left_gap g s1" and ?n = "bi_Start (hd (M @ [h]))" and ?e = "min end (bi_End h)" and ?Q = "queued (map_of (fs_queue s))"
  note ok' = ok [unfolded sorter_ok_def]
  have gok: "gaps_ok (A @ (g # M @ [h]) @ B)"
    using ok' by (simp add: gaps)
  then have g: "bi_Start g < bi_End g" "gaps_ok (M @ [h])" "\<forall>x \<in> set (M @ [h]). bi_End g < bi_Start x" "bi_Start h < bi_End h"
      "\<forall>x \<in> set B. bi_End h < bi_Start x"
    by (auto simp: gaps_ok_append gaps_ok_Cons)
  have Q: "?Q = {fs_readPos s..<MaxByteCount} - gap_set (fs_gaps s)"
    using ok' by simp
  have n: "bi_End g < ?n" "?n \<le> bi_Start h" "?n \<in> gap_set (M @ [h])"
    using g by (cases M; auto simp: gaps_ok_Cons gaps_ok_append)+
  have qn: "?Q \<inter> gap_set (M @ [h]) = {}" "bi_End g - 1 \<notin> ?Q"
    using Q g(1) by (auto simp: gaps)
  have high: "?n \<le> p" if "p \<in> gap_set (M @ h # B)" for p
    using that g(2,5) n(2) by (cases M) (fastforce simp: gaps_ok_Cons gap_set_def gaps_ok_append)+
  have low: "p < s1" if "p \<in> gap_set A" for p
    using that s1(2) unfolding gap_set_def by fastforce
  have above: "bi_End h < p" "?e \<le> p" "end < p \<or> in_gap" if "p \<in> gap_set B" for p
    using that g(5) e(4) unfolding gap_set_def by fastforce+
  have below: "p < bi_End h" if "p \<in> gap_set M" for p
    using that g(2,4) unfolding gap_set_def by (fastforce simp: gaps_ok_append gaps_ok_Cons)
  have mid: "{bi_End g..<?n} \<subseteq> ?Q"
  proof
    fix p
    assume p: "p \<in> {bi_End g..<?n}"
    then have "p \<notin> gap_set (fs_gaps s)"
      using low [of p] high [of p] s1(1) by (auto simp: gaps)
    then show "p \<in> ?Q"
      using p s1 e n(2) unfolding Q by auto
  qed
  obtain q2 c2 where q2: "deleteConsecutive q (bi_End g) = (q2, c2)" "queue_ok S q2"
      "queued (map_of q2) = ?Q - {s1..<p1} - {bi_End g..<?n}" "callbacks q = mset c2 + callbacks q2"
  proof (cases "p1 \<le> bi_End g")
    case True
    have pre: "bi_End g - 1 \<notin> queued (map_of q)" "bi_End g \<le> ?n" "{bi_End g..<?n} \<subseteq> queued (map_of q)" "?n \<notin> queued (map_of q)"
      using True qn n mid unfolding q(2) by auto
    show ?thesis
      by (rule deleteConsecutive_run [OF q(1) pre]) (use that q(2) in blast)
  next
    case False
    then have p1: "s1 = bi_End g" "p1 = ?n"
      using q(4) by auto
    have pre: "bi_End g - 1 \<notin> queued (map_of q)" "bi_End g \<le> bi_End g" "{bi_End g..<bi_End g} \<subseteq> queued (map_of q)" "bi_End g \<notin> queued (map_of q)"
      using qn n(1) p1 unfolding q(2) by auto
    show ?thesis
      by (rule deleteConsecutive_run [OF q(1) pre]) (use that q(2) p1 in auto)
  qed
  have tile: "{?n..<bi_Start h} \<subseteq> queued (map_of q2) \<union> gap_set M"
  proof
    fix p
    assume p: "p \<in> {?n..<bi_Start h}"
    then have "p \<in> gap_set (fs_gaps s) \<Longrightarrow> p \<in> gap_set M"
      using low [of p] above [of p] n(1) s1(1) g(4) by (auto simp: gaps)
    moreover have "p \<in> {fs_readPos s..<MaxByteCount}" "p \<notin> {s1..<p1}" "p \<notin> {bi_End g..<?n}"
      using p n(1) s1 e(1,2) q(4) by auto
    ultimately show "p \<in> queued (map_of q2) \<union> gap_set M"
      unfolding q2(3) Q by blast
  qed
  obtain q3 c3 where q3: "delete_gaps (?A @ M @ h # B) q2 (length ?A) (bi_Start h) = Inr (?A @ h # B, q3, c3)" "queue_ok S q3"
      "queued (map_of q3) = queued (map_of q2) - {?n..<bi_Start h}" "callbacks q2 = mset c3 + callbacks q3"
  proof (rule delete_gaps_spec [OF g(2) q2(2) _ tile, of ?A B])
    show "queued (map_of q2) \<inter> gap_set (M @ [h]) = {}"
      using q2(3) qn(1) by blast
  qed (rule that)
  let ?data = "if \<not> in_gap \<and> end > bi_End h then take (nat (bi_End h - s1)) data else data"
  have eq: "push_end s (?A @ M @ h # B) q data s1 end cb w i (length ?A) (length (?A @ M)) False adj in_gap (bi_End g) (bi_Start h) (bi_End h) c =
      push_insert s (?A @ right_gap h ?e @ B) q3 ?data s1 cb (w \<or> \<not> in_gap \<and> end > bi_End h) (c @ c2 @ c3)"
  proof -
    have "s1 \<noteq> bi_End h"
      using s1(1) n(1,2) g(4) by simp
    then show ?thesis
      unfolding push_end_def using q2(1) q3(1) e remove_at_append [of ?A h B] list_update_length [of ?A h B]
      by (cases in_gap) (auto simp: Let_def right_gap_def min_def)
  qed
  have "push_ok S s start end cb
      (push_insert s (A @ left_gap (hd (g # M @ [h])) s1 @ right_gap (last (g # M @ [h])) ?e @ B) q3 ?data s1 cb
        (w \<or> \<not> in_gap \<and> end > bi_End h) (c @ c2 @ c3))"
  proof (rule push_insert_spec [OF ok])
    show "queued (map_of q3) = ?Q - {s1..<?e}"
    proof (rule set_eqI)
      fix p
      have "p \<in> ?Q \<Longrightarrow> \<not> (bi_Start h \<le> p \<and> p < bi_End h)"
        using qn(1) by auto
      then show "p \<in> queued (map_of q3) \<longleftrightarrow> p \<in> ?Q - {s1..<?e}"
        using subsetD [OF q(5), of p] q(4) n(1,2) s1(1) e(1) g(4) unfolding q3(3) q2(3) by auto
    qed
    show "gap_set (fs_gaps s) \<inter> {start..<end} = gap_set (fs_gaps s) \<inter> {s1..<?e}"
    proof (rule set_eqI)
      fix p
      have "p \<in> gap_set (fs_gaps s) \<Longrightarrow> p < bi_End h \<or> p \<in> gap_set B"
        using low [of p] below [of p] s1(1) n(1,2) g(4) by (auto simp: gaps)
      moreover have "p \<in> gap_set (fs_gaps s) \<Longrightarrow> \<not> (start \<le> p \<and> p < s1)"
        using inside(2) by auto
      ultimately show "p \<in> gap_set (fs_gaps s) \<inter> {start..<end} \<longleftrightarrow> p \<in> gap_set (fs_gaps s) \<inter> {s1..<?e}"
        using above(3) [of p] e(3) inside(1) by auto
    qed
    show "int (length ?data) = ?e - s1"
      using data(1) e(1,3,4) s1(1) n(1,2) g(4) by auto
    show "frame_bytes S ?data s1"
      using data(2) by (simp add: frame_bytes_take)
  qed (use gaps s1 e g n q q2 q3 in auto)
  then show ?thesis
    using eq by simp
qed

lemma interval_eq: "\<lparr>bi_Start = a, bi_End = bi_End g\<rparr> = g\<lparr>bi_Start := a\<rparr>" "g\<lparr>bi_End := bi_End g\<rparr> = g"
  by simp_all

text \<open>The frame touches one gap only, and starts in it or is extended by it.\<close>

lemma push_end_same:
  assumes ok: "sorter_ok S s" and gaps: "fs_gaps s = A @ g # B"
    and s1: "s1 < bi_End g" "\<forall>a \<in> set A. bi_End a < s1" "fs_readPos s \<le> s1"
    and e: "bi_Start g < end" "s1 < end" "end < MaxByteCount" "in_gap \<longrightarrow> end < bi_End g"
      "\<not> in_gap \<longrightarrow> bi_End g \<le> end \<and> (\<forall>b \<in> set B. end < bi_Start b)"
    and q: "queue_ok S q" "queued (map_of q) = queued (map_of (fs_queue s)) - {s1..<bi_Start g}" "callbacks (fs_queue s) = mset c + callbacks q"
    and data: "int (length data) = end - s1" "frame_bytes S data s1"
    and inside: "start \<le> s1" "gap_set (fs_gaps s) \<inter> {start..<s1} = {}"
    and gs: "gs = (if s1 \<le> bi_Start g then if end \<ge> bi_End g then A @ B else A @ g\<lparr>bi_Start := end\<rparr> # B
      else A @ g\<lparr>bi_End := s1\<rparr> # B)"
  shows "push_ok S s start end cb (push_end s gs q data s1 end cb w (length A) j k True (\<not> s1 \<le> bi_Start g)
    in_gap (bi_End g) (bi_Start g) (bi_End g) c)"
proof -
  let ?e = "min end (bi_End g)" and ?Q = "queued (map_of (fs_queue s))"
  let ?data = "if \<not> in_gap \<and> end > bi_End g then take (nat (bi_End g - s1)) data else data"
  note ok' = ok [unfolded sorter_ok_def]
  have g: "bi_Start g < bi_End g" "\<forall>x \<in> set B. bi_End g < bi_Start x"
    using ok' by (auto simp: gaps gaps_ok_append gaps_ok_Cons)
  have Q: "?Q = {fs_readPos s..<MaxByteCount} - gap_set (fs_gaps s)"
    using ok' by simp
  have low: "p < s1" if "p \<in> gap_set A" for p
    using that s1(2) unfolding gap_set_def by fastforce
  have above: "bi_End g < p" "end < p \<or> in_gap" if "p \<in> gap_set B" for p
    using that g(2) e(5) unfolding gap_set_def by fastforce+
  have eq: "push_end s gs q data s1 end cb w (length A) j k True (\<not> s1 \<le> bi_Start g) in_gap (bi_End g) (bi_Start g) (bi_End g) c =
      push_insert s (A @ left_gap g s1 @ right_gap g ?e @ B) q ?data s1 cb (w \<or> \<not> in_gap \<and> end > bi_End g) c"
    unfolding push_end_def using s1(1) e
    by (cases in_gap; cases "s1 \<le> bi_Start g") (auto simp: Let_def gs left_gap_def right_gap_def min_def interval_eq)
  have "push_ok S s start end cb
      (push_insert s (A @ left_gap (hd [g]) s1 @ right_gap (last [g]) ?e @ B) q ?data s1 cb (w \<or> \<not> in_gap \<and> end > bi_End g) c)"
  proof (rule push_insert_spec [OF ok])
    show "queued (map_of q) = ?Q - {s1..<?e}"
      using e(1) g(1) by (auto simp: q(2) Q gaps)
    show "gap_set (fs_gaps s) \<inter> {start..<end} = gap_set (fs_gaps s) \<inter> {s1..<?e}"
    proof (rule set_eqI)
      fix p
      have "p \<in> gap_set (fs_gaps s) \<Longrightarrow> p < bi_End g \<or> p \<in> gap_set B"
        using low [of p] s1(1) by (auto simp: gaps)
      moreover have "p \<in> gap_set (fs_gaps s) \<Longrightarrow> \<not> (start \<le> p \<and> p < s1)"
        using inside(2) by auto
      ultimately show "p \<in> gap_set (fs_gaps s) \<inter> {start..<end} \<longleftrightarrow> p \<in> gap_set (fs_gaps s) \<inter> {s1..<?e}"
        using above(2) [of p] e(4) inside(1) by auto
    qed
    show "int (length ?data) = ?e - s1"
      using data(1) e(4,5) s1(1) by auto
    show "frame_bytes S ?data s1"
      using data(2) by (simp add: frame_bytes_take)
  qed (use gaps s1 e g q in auto)
  then show ?thesis
    using eq by simp
qed

text \<open>Either the frame is a duplicate and touches no gap, or it is pushed.\<close>

definition push_or_dup ::
  "(ByteCount \<Rightarrow> byte) \<Rightarrow> frameSorter \<Rightarrow> ByteCount \<Rightarrow> ByteCount \<Rightarrow> callback option \<Rightarrow> (frameSorter \<times> callback list) result \<Rightarrow> bool" where
  "push_or_dup S s start end cb r \<longleftrightarrow>
     r = Inl errDuplicateStreamData \<and> gap_set (fs_gaps s) \<inter> {start..<end} = {} \<or> push_ok S s start end cb r"

lemma queued_iff:
  "sorter_ok S s \<Longrightarrow> p \<in> queued (map_of (fs_queue s)) \<longleftrightarrow> fs_readPos s \<le> p \<and> p < MaxByteCount \<and> p \<notin> gap_set (fs_gaps s)"
  by (auto simp: sorter_ok_def)

text \<open>An entry starts right behind every gap.\<close>

lemma entry_after_gap:
  assumes "sorter_ok S s" and "p - 1 \<in> gap_set (fs_gaps s)" and "p \<notin> gap_set (fs_gaps s)" and "fs_readPos s \<le> p" and "p < MaxByteCount"
  shows "map_of (fs_queue s) p \<noteq> None"
proof
  assume "map_of (fs_queue s) p = None"
  moreover have "boundary (map_of (fs_queue s)) p"
    using assms(2) queued_iff [OF assms(1)] by (intro boundary_after_gap) auto
  moreover have "entries_ok S (map_of (fs_queue s))"
    using assms(1) by (simp add: sorter_ok_def queue_ok_def)
  ultimately have "p \<notin> queued (map_of (fs_queue s))"
    using boundary_not_queued by blast
  then show False
    using assms(3-5) queued_iff [OF assms(1)] by auto
qed

text \<open>The cases of the replacing loop on a state that satisfies the invariant.\<close>

lemma replace_entries_cases:
  assumes "sorter_ok S s" and "start < end"
  obtains (none) "map_of (fs_queue s) start = None" and "replace_entries (fs_queue s) end start False = Inr (fs_queue s, end, False, False, [])"
  | (dup) "replace_entries (fs_queue s) end start False = Inl errDuplicateStreamData" and "{start..<end} \<subseteq> queued (map_of (fs_queue s))"
  | (full) q end' ct c p' where "replace_entries (fs_queue s) end start False = Inr (q, end', True, ct, c)"
    and "replaced S (fs_queue s) end start False q end' True ct c p'" and "start \<in> queued (map_of (fs_queue s))"
proof (cases "map_of (fs_queue s) start")
  case None
  then show ?thesis
    using none replace_entries_None by blast
next
  case (Some e)
  have ok: "queue_ok S (fs_queue s)"
    using assms(1) by (simp add: sorter_ok_def)
  then have entries: "entries_ok S (map_of (fs_queue s))"
    by (simp add: queue_ok_def)
  then have "boundary (map_of (fs_queue s)) start" "0 < entry_len e"
    using boundary_entry [OF entries Some] Some unfolding entries_ok_def by auto
  moreover from this have "start \<in> queued (map_of (fs_queue s))"
    using queuedI [of "map_of (fs_queue s)" start e start] Some by simp
  ultimately show ?thesis
    using replace_entries_spec [OF ok, of start "end" False] Some assms(2) dup full by (fastforce simp: replaced_def)
qed

lemma low_gaps: "\<forall>a \<in> set A. bi_End a < start \<Longrightarrow> p \<in> gap_set A \<Longrightarrow> p < start"
  unfolding gap_set_def by fastforce

lemma high_gaps: "\<forall>b \<in> set B. end < bi_Start b \<Longrightarrow> p \<in> gap_set B \<Longrightarrow> end < p"
  unfolding gap_set_def by fastforce

lemma readPos_le_gap:
  assumes "sorter_ok S s" and "g \<in> set (fs_gaps s)"
  shows "fs_readPos s \<le> bi_Start g"
proof (cases "fs_gaps s")
  case (Cons x xs)
  then have "g = x \<or> bi_Start x < bi_End x \<and> bi_End x < bi_Start g" "fs_readPos s \<le> bi_Start x"
    using assms by (auto simp: sorter_ok_def gaps_ok_Cons)
  then show ?thesis
    by auto
qed (use assms in simp)

lemma push_start_same:
  assumes ok: "sorter_ok S s" and gaps: "fs_gaps s = A @ g # B"
    and start: "0 \<le> start" "start \<le> bi_End g" "\<forall>a \<in> set A. bi_End a < start"
    and e: "end = start + int (length data)" "data \<noteq> []" "bi_Start g < end" "end < MaxByteCount" "in_gap \<longrightarrow> end < bi_End g"
      "\<not> in_gap \<longrightarrow> bi_End g \<le> end \<and> (\<forall>b \<in> set B. end < bi_Start b)"
    and data: "frame_bytes S data start"
  shows "push_or_dup S s start end cb (push_start s data start end cb (length A) (bi_Start g \<le> start) (length A) in_gap)"
proof -
  let ?Q = "queued (map_of (fs_queue s))" and ?r = "push_start s data start end cb (length A) (bi_Start g \<le> start) (length A) in_gap"
  let ?gs = "\<lambda>s1. if s1 \<le> bi_Start g then if end \<ge> bi_End g then A @ B else A @ g\<lparr>bi_Start := end\<rparr> # B else A @ g\<lparr>bi_End := s1\<rparr> # B"
  note Q = queued_iff [OF ok]
  have se: "start < end" and len: "int (length data) = end - start"
    using e(1,2) by simp_all
  have g: "bi_Start g < bi_End g" "\<forall>a \<in> set A. bi_End a < bi_Start g" "\<forall>b \<in> set B. bi_End g < bi_Start b" "fs_readPos s \<le> bi_Start g"
    using ok readPos_le_gap [OF ok, of g] by (auto simp: sorter_ok_def gaps gaps_ok_append gaps_ok_Cons)
  note away = low_gaps [OF start(3)] low_gaps [OF g(2)] high_gaps [OF g(3)]
  have free: "gap_set (fs_gaps s) \<inter> {start..<bi_Start g} = {}"
    using away g(1) by (force simp: gaps)
  have behind: "p \<notin> gap_set (fs_gaps s)" if "bi_End g \<le> p" "p \<le> end" for p
    using that away(2,3) [of p] e(5,6) high_gaps [of B "end" p] g(1) by (force simp: gaps)
  from ok se show ?thesis
  proof (cases rule: replace_entries_cases)
    case none
    have lt: "start < bi_End g"
    proof (rule ccontr)
      assume "\<not> start < bi_End g"
      then have "start = bi_End g"
        using start(2) by simp
      then show False
        using entry_after_gap [OF ok, of start] behind [of start] se e(4) none(1) g(1,4) by (simp add: gaps)
    qed
    have ok_q: "queue_ok S (fs_queue s)"
      using ok by (simp add: sorter_ok_def)
    show ?thesis
    proof (cases "bi_Start g \<le> start")
      case True
      have "?r = push_end s (?gs start) (fs_queue s) data start end cb False (length A)
          (if start \<le> bi_Start g \<and> end \<ge> bi_End g then length A else length A + 1) (length A - (length (fs_gaps s) - length (?gs start))) True (\<not> start \<le> bi_Start g)
          in_gap (bi_End g) (bi_Start g) (bi_End g) []"
        using True by (simp add: push_start_def none(2) gaps Let_def)
      moreover have "push_ok S s start end cb \<dots>"
        by (rule push_end_same [OF ok gaps]) (use True lt start g e(3-6) se ok_q data len in auto)
      ultimately show ?thesis
        by (simp add: push_or_dup_def)
    next
      case False
      let ?data = "drop (nat (bi_Start g - start)) data"
      have "?r = push_end s (?gs (bi_Start g)) (fs_queue s) ?data (bi_Start g) end cb True (length A)
          (if end \<ge> bi_End g then length A else length A + 1) (length A - (length (fs_gaps s) - length (?gs (bi_Start g)))) True (\<not> bi_Start g \<le> bi_Start g)
          in_gap (bi_End g) (bi_Start g) (bi_End g) []"
        using False by (simp add: push_start_def none(2) gaps Let_def)
      moreover have "push_ok S s start end cb \<dots>"
      proof (rule push_end_same [OF ok gaps])
        show "int (length ?data) = end - bi_Start g"
          using False e(1,3) by (simp add: nat_le_iff)
        show "frame_bytes S ?data (bi_Start g)"
          using frame_bytes_drop [OF data, of "nat (bi_Start g - start)"] False e(1,3) by (simp add: nat_le_iff)
      qed (use False lt start g e(3-6) se ok_q free in auto)
      ultimately show ?thesis
        by (simp add: push_or_dup_def)
    qed
  next
    case dup
    then show ?thesis
      using Q by (auto simp: push_or_dup_def push_start_def)
  next
    case (full q end' ct c p')
    note r = full(2) [unfolded replaced_def]
    show ?thesis
    proof (cases "start < bi_Start g")
      case True
      have "\<not> ct"
        using subsetD [of "{start..end}" ?Q "bi_Start g"] r True e(3) Q [of "bi_Start g"] g(1) by (auto simp: gaps)
      have "\<not> bi_Start g < p'"
        using subsetD [of "{start..<p'}" ?Q "bi_Start g"] r True Q [of "bi_Start g"] g(1) by (auto simp: gaps)
      moreover have "\<not> p' < bi_Start g"
        using r \<open>\<not> ct\<close> Q [of p'] Q [of start] full(3) free e(3,4) by auto
      ultimately have p': "p' = bi_Start g"
        by simp
      have "?r = push_end s (?gs start) q data start end cb False (length A)
          (if end \<ge> bi_End g then length A else length A + 1) (length A - (length (fs_gaps s) - length (?gs start))) True (\<not> start \<le> bi_Start g)
          in_gap (bi_End g) (bi_Start g) (bi_End g) c"
        using True r \<open>\<not> ct\<close> by (simp add: push_start_def full(1) gaps Let_def)
      moreover have "push_ok S s start end cb \<dots>"
        by (rule push_end_same [OF ok gaps]) (use True r p' start g e(3-6) se data len full(3) Q in auto)
      ultimately show ?thesis
        by (simp add: push_or_dup_def)
    next
      case False
      then have start_eq: "start = bi_End g"
        using full(3) Q [of start] start(2) by (auto simp: gaps)
      then have "\<not> in_gap"
        using e(5) se by auto
      have ct
      proof (rule ccontr)
        assume "\<not> ct"
        then show False
          using r Q [of p'] behind [of p'] start_eq g(1,4) e(4) by auto
      qed
      then have end': "end' = p'" "start < p'" "p' \<le> end"
        using r by auto
      let ?data = "take (nat (end' - start)) data"
      have "?r = push_insert s (A @ left_gap g start @ right_gap g p' @ B) q ?data start cb True c"
        unfolding push_start_def Let_def gaps full(1) using False end' start_eq \<open>ct\<close> \<open>\<not> in_gap\<close> g(1)
        by (simp add: Let_def push_end_def left_gap_def right_gap_def)
      moreover have "push_ok S s start end cb (push_insert s (A @ left_gap (hd [g]) start @ right_gap (last [g]) p' @ B) q ?data start cb True c)"
      proof (rule push_insert_spec [OF ok])
        show "gap_set (fs_gaps s) \<inter> {start..<end} = gap_set (fs_gaps s) \<inter> {start..<p'}"
          using behind start_eq end'(3) by auto
        show "frame_bytes S ?data start"
          using data by (rule frame_bytes_take)
      qed (use gaps start_eq end' r g e(3-6) start \<open>\<not> in_gap\<close> len in auto)
      ultimately show ?thesis
        by (simp add: push_or_dup_def)
    qed
  qed
qed

lemma first_gap: "gaps_ok (M @ h # B) \<Longrightarrow> p \<in> gap_set (M @ h # B) \<Longrightarrow> bi_Start (hd (M @ [h])) \<le> p"
  using high_gaps [of B "bi_End h" p] high_gaps [of "tl M @ h # B" "bi_End (hd M)" p]
  by (cases M) (auto simp: gaps_ok_Cons)

lemma push_start_diff:
  assumes ok: "sorter_ok S s" and gaps: "fs_gaps s = A @ g # M @ h # B"
    and start: "0 \<le> start" "start \<le> bi_End g" "\<forall>a \<in> set A. bi_End a < start"
    and e: "end = start + int (length data)" "data \<noteq> []" "bi_Start h \<le> end" "end < MaxByteCount" "in_gap \<longrightarrow> end < bi_End h"
      "\<not> in_gap \<longrightarrow> bi_End h \<le> end \<and> (\<forall>b \<in> set B. end < bi_Start b)"
    and data: "frame_bytes S data start"
  shows "push_or_dup S s start end cb (push_start s data start end cb (length A) (bi_Start g \<le> start) (length A + Suc (length M)) in_gap)"
proof -
  let ?Q = "queued (map_of (fs_queue s))" and ?n = "bi_Start (hd (M @ [h]))"
  let ?r = "push_start s data start end cb (length A) (bi_Start g \<le> start) (length A + Suc (length M)) in_gap"
  let ?p = "\<lambda>q data s1 w c. push_end s (A @ left_gap g s1 @ M @ h # B) q data s1 end cb w (length A) (length (A @ left_gap g s1))
    (length (A @ left_gap g s1 @ M)) False (\<not> s1 \<le> bi_Start g \<and> \<not> s1 = bi_End g) in_gap (bi_End g) (bi_Start h) (bi_End h) c"
  note Q = queued_iff [OF ok]
  have se: "start < end" and len: "int (length data) = end - start"
    using e(1,2) by simp_all
  have g: "bi_Start g < bi_End g" "\<forall>a \<in> set A. bi_End a < bi_Start g" "gaps_ok (M @ [h])" "\<forall>x \<in> set (M @ [h]). bi_End g < bi_Start x" "bi_Start h < bi_End h"
      "\<forall>b \<in> set (M @ h # B). bi_End g < bi_Start b" "fs_readPos s \<le> bi_Start g" "gaps_ok (M @ h # B)"
    using ok readPos_le_gap [OF ok, of g] by (auto simp: sorter_ok_def gaps gaps_ok_append gaps_ok_Cons)
  note away = low_gaps [OF start(3)] low_gaps [OF g(2)] high_gaps [OF g(6)]
  have free: "gap_set (fs_gaps s) \<inter> {start..<bi_Start g} = {}"
    using away g(1) by (force simp: gaps)
  have n: "bi_End g < ?n" "?n \<le> bi_Start h" "?n \<in> gap_set (M @ [h])"
    using g by (cases M; auto simp: gaps_ok_Cons gaps_ok_append)+
  have past: "bi_End g < end" "bi_Start g < end"
    using n e(3) g(1) by auto
  have nth: "fs_gaps s ! length A = g" "fs_gaps s ! (length A + Suc (length M)) = h"
    using nth_append_length [of "A @ g # M" h B] by (simp_all add: gaps)
  have eq: "?r = ?p q data' s1 w' c'"
    if "replace_entries (fs_queue s) end start False = Inr (q, end, has, False, c')"
      and "s1 = (if \<not> bi_Start g \<le> start \<and> \<not> has then bi_Start g else start)"
      and "data' = (if \<not> bi_Start g \<le> start \<and> \<not> has then drop (nat (bi_Start g - start)) data else data)"
      and "w' = (\<not> bi_Start g \<le> start \<and> \<not> has)" and "has \<Longrightarrow> start < bi_Start g \<or> start = bi_End g" and "\<not> has \<Longrightarrow> start < bi_End g"
    for q data' s1 w' c' has
  proof (cases "s1 \<le> bi_Start g")
    case True
    then show ?thesis
      using that past g(1) unfolding push_start_def Let_def nth that(1) by (auto simp: gaps left_gap_def)
  next
    case False
    then show ?thesis
      using that past g(1) unfolding push_start_def Let_def nth that(1) by (cases has) (auto simp: gaps left_gap_def)
  qed
  from ok se show ?thesis
  proof (cases rule: replace_entries_cases)
    case none
    have lt: "start < bi_End g"
    proof (rule ccontr)
      assume "\<not> start < bi_End g"
      then have "start = bi_End g"
        using start(2) by simp
      moreover have "bi_End g \<notin> gap_set (fs_gaps s)"
        using away(2,3) [of "bi_End g"] g(1) by (auto simp: gaps)
      ultimately show False
        using entry_after_gap [OF ok, of start] se e(4) none(1) g(1,7) by (simp add: gaps)
    qed
    let ?s1 = "if bi_Start g \<le> start then start else bi_Start g"
    let ?data = "if bi_Start g \<le> start then data else drop (nat (bi_Start g - start)) data"
    have "?r = ?p (fs_queue s) ?data ?s1 (\<not> bi_Start g \<le> start) []"
      by (rule eq [OF none(2)]) (use lt in auto)
    moreover have "push_ok S s start end cb \<dots>"
    proof (rule push_end_diff [OF ok gaps, where ?p1.0 = ?s1])
      show "int (length ?data) = end - ?s1"
        using e(1) past(2) by (simp add: nat_le_iff)
      show "frame_bytes S ?data ?s1"
        using frame_bytes_drop [OF data, of "nat (bi_Start g - start)"] data e(1) past(2)
        by (cases "bi_Start g \<le> start") (simp_all add: nat_le_iff)
      show "?Q \<inter> {?s1..<bi_End g} \<subseteq> {..<?s1}"
      proof
        fix p
        assume "p \<in> ?Q \<inter> {?s1..<bi_End g}"
        then show "p \<in> {..<?s1}"
          using Q [of p] by (auto simp: gaps split: if_splits)
      qed
      show "queue_ok S (fs_queue s)"
        using ok by (simp add: sorter_ok_def)
    qed (use lt start g e(3-6) free in auto)
    ultimately show ?thesis
      by (simp add: push_or_dup_def)
  next
    case dup
    then show ?thesis
      using Q by (auto simp: push_or_dup_def push_start_def)
  next
    case (full q end' ct c p')
    note r = full(2) [unfolded replaced_def]
    have nQ: "?n \<notin> ?Q"
      using Q [of ?n] n(3) by (auto simp: gaps)
    have pos: "start < bi_Start g \<or> start = bi_End g"
      using full(3) Q [of start] start(2) by (auto simp: gaps)
    have "\<not> ct"
      using subsetD [of "{start..end}" ?Q ?n] r nQ n(1,2) e(3) start(2) by auto
    then have end': "end' = end" "p' \<notin> ?Q" "start < p'"
      using r by auto
    let ?b = "if start < bi_Start g then bi_Start g else ?n"
    have p': "p' = ?b"
    proof (rule antisym)
      have "?b \<notin> ?Q" "start < ?b"
        using nQ Q [of "bi_Start g"] g(1) pos n(1) by (auto simp: gaps)
      then show "p' \<le> ?b"
        using subsetD [of "{start..<p'}" ?Q ?b] r by fastforce
      have "p' \<in> ?Q" if "p' < ?b"
      proof -
        have "p' \<notin> gap_set (fs_gaps s)"
          using that end'(3) pos free away(2) [of p'] first_gap [OF g(8), of p'] g(1)
          by (cases "start < bi_Start g") (auto simp: gaps)
        then show ?thesis
          using that end'(3) full(3) Q n(2) past e(3,4) by (auto split: if_splits)
      qed
      then show "?b \<le> p'"
        using end'(2) by fastforce
    qed
    have "?r = ?p q data start False c"
      by (rule eq [of q True c]) (use full(1) end'(1) \<open>\<not> ct\<close> pos in auto)
    moreover have "push_ok S s start end cb \<dots>"
    proof (rule push_end_diff [OF ok gaps, where ?p1.0 = p'])
      show "?Q \<inter> {start..<bi_End g} \<subseteq> {..<p'}"
      proof
        fix p
        assume "p \<in> ?Q \<inter> {start..<bi_End g}"
        then show "p \<in> {..<p'}"
          using Q [of p] p' pos by (auto simp: gaps split: if_splits)
      qed
      show "p' \<le> bi_End g \<or> start = bi_End g \<and> p' = ?n"
        using p' pos g(1) by auto
      show "fs_readPos s \<le> start"
        using full(3) Q [of start] by simp
    qed (use start e(3-6) data len r in auto)
    ultimately show ?thesis
      by (simp add: push_or_dup_def)
  qed
qed

lemma sorter_push_spec:
  assumes ok: "sorter_ok S s" and off: "0 \<le> offset" "offset + int (length data) < MaxByteCount" and data: "frame_bytes S data offset"
  shows "push_or_dup S s offset (offset + int (length data)) cb (sorter_push s data offset cb)"
proof (cases "data = [] \<or> offset + int (length data) \<le> bi_Start (hd (fs_gaps s))")
  case True
  note ok' = ok [unfolded sorter_ok_def]
  have "gap_set (fs_gaps s) \<inter> {..<bi_Start (hd (fs_gaps s))} = {}"
  proof (cases "fs_gaps s")
    case (Cons g gs)
    then show ?thesis
      using ok' high_gaps [of gs "bi_End g"] by (fastforce simp: gaps_ok_Cons)
  qed simp
  then show ?thesis
    using True ok' by (auto simp: push_or_dup_def sorter_push_def)
next
  case False
  let ?eo = "offset + int (length data)" and ?gs = "fs_gaps s"
  note ok' = ok [unfolded sorter_ok_def]
  obtain A g B b where g: "?gs = A @ g # B" "findStartGap ?gs 0 offset = Inr (0 + length A, b)"
      "\<forall>a \<in> set A. bi_End a < offset" "b \<longleftrightarrow> bi_Start g \<le> offset" "offset \<le> bi_End g"
    by (rule findStartGap_spec [of ?gs offset 0]) (use ok' off False in auto)
  have gok: "gaps_ok (g # B)" "bi_Start g < bi_End g" "\<forall>b \<in> set B. bi_End g < bi_Start b"
    using ok' by (auto simp: g(1) gaps_ok_append gaps_ok_Cons)
  have push: "sorter_push s data offset cb = rbind (findEndGap (g # B) (length A) ?eo) (\<lambda>(endGap', endsInGap).
      case endGap' of None \<Rightarrow> Inl (Panic ''nil pointer dereference'') | Some endGap \<Rightarrow>
      if (length A = endGap \<and> ?eo \<le> bi_Start (?gs ! length A)) \<or>
         (length A \<noteq> endGap \<and> bi_End (?gs ! length A) \<ge> bi_Start (?gs ! endGap) \<and> ?eo \<le> bi_Start (?gs ! length A))
      then Inl errDuplicateStreamData
      else push_start s data offset ?eo cb (length A) (bi_Start g \<le> offset) endGap endsInGap)"
  proof -
    have "drop (length A) ?gs = g # B"
      by (simp add: g(1))
    then show ?thesis
      using False ok' g(2,4) by (simp add: sorter_push_def Let_def del: findEndGap.simps)
  qed
  have nth: "?gs ! length A = g"
    by (simp add: g(1))
  have free: "gap_set ?gs \<inter> {offset..<?eo} = {}" if "?eo \<le> bi_Start g"
    using that low_gaps [OF g(3)] high_gaps [OF gok(3)] gok(2) by (force simp: g(1))
  show ?thesis
  proof (cases "?eo < bi_Start g")
    case True
    then obtain A' a where A: "A = A' @ [a]"
      using False g(1) by (cases A rule: rev_cases) auto
    then have "bi_Start a \<le> bi_End g"
      using ok' gok(2) by (auto simp: g(1) gaps_ok_append gaps_ok_Cons)
    moreover have "findEndGap (g # B) (length A) ?eo = Inr (Some (length A'), False)" "?gs ! length A' = a" "length A \<noteq> length A'"
      using True by (simp_all add: A g(1))
    ultimately show ?thesis
      using True free by (simp add: push_or_dup_def push nth del: findEndGap.simps)
  next
    case no: False
    obtain M e B' d where e: "g # B = M @ e # B'" "findEndGap (g # B) (length A) ?eo = Inr (Some (length A + length M), d)"
        "bi_Start e \<le> ?eo" "d \<longrightarrow> ?eo < bi_End e" "\<not> d \<longrightarrow> bi_End e \<le> ?eo \<and> (\<forall>g \<in> set B'. ?eo < bi_Start g)"
      by (rule findEndGap_spec [of "g # B" ?eo "length A"]) (use ok' off gok no in \<open>auto simp: g(1)\<close>)
    show ?thesis
    proof (cases M)
      case Nil
      then show ?thesis
        using e free False off data g(1,3,5) push_start_same [OF ok g(1) off(1) g(5,3), of ?eo data d cb]
        by (cases "?eo = bi_Start g") (auto simp: push push_or_dup_def nth)
    next
      case (Cons m M')
      then have gs: "?gs = A @ g # M' @ e # B'" "M = g # M'" "bi_End g < bi_Start e"
        using e(1) g(1) gok(3) by auto
      have "?gs ! (length A + length M) = e"
        using nth_append_length [of "A @ g # M'" e B'] gs by simp
      then show ?thesis
        using e gs False off data push_start_diff [OF ok gs(1) off(1) g(5,3), of ?eo data d cb] gok(2)
        by (auto simp: push nth)
    qed
  qed
qed

end
