(* ===== verification/Frame_Sorter_Run.thy ===== *)
theory Frame_Sorter_Run
  imports Frame_Sorter_Push
begin

text \<open>
  The frame sorter is correct over any sequence of pushes and pops: whatever the order and the overlaps in which the
  frames arrive, the bytes that are read are those of the stream, in order, nothing that can be read is held back, and every callback
  is called exactly once or is still with its entry.
\<close>

lemma sorter_Push_spec:
  assumes "sorter_ok S s" and "0 \<le> offset" and "offset + int (length data) < MaxByteCount" and "frame_bytes S data offset"
  shows "push_ok S s offset (offset + int (length data)) cb (sorter_Push s data offset cb)"
proof -
  have "push_ok S s offset (offset + int (length data)) cb (Inr (s, call cb))"
    if "gap_set (fs_gaps s) \<inter> {offset..<offset + int (length data)} = {}"
    using that assms(1) by (auto simp: push_ok_def)
  moreover have "\<not> push_ok S s a b cb (Inl errDuplicateStreamData)" for a b
    by (auto simp: push_ok_def errDuplicateStreamData_def)
  ultimately show ?thesis
    using sorter_push_spec [OF assms, of cb]
    by (auto simp: push_or_dup_def sorter_Push_def split: sum.splits)
qed

section \<open>Reading\<close>

lemma readPos_lt_Max:
  assumes "sorter_ok S s"
  shows "fs_readPos s < MaxByteCount"
proof -
  note ok' = assms [unfolded sorter_ok_def]
  have "bi_Start (hd (fs_gaps s)) < MaxByteCount"
  proof (cases "fs_gaps s")
    case (Cons g gs)
    then have gs: "bi_Start g < bi_End g" "\<forall>h \<in> set gs. bi_End g < bi_Start h \<and> bi_Start h < bi_End h"
      using ok' by (auto simp: gaps_ok_def)
    show ?thesis
    proof (cases "gs = []")
      case False
      then have "last gs \<in> set gs"
        by simp
      then have "bi_End g < bi_Start (last gs)" "bi_Start (last gs) < bi_End (last gs)"
        using gs by blast+
      then show ?thesis
        using ok' Cons False gs(1) by auto
    qed (use ok' Cons gs(1) in auto)
  qed (use ok' in simp)
  then show ?thesis
    using ok' by simp
qed

lemma sorter_Pop_spec:
  assumes "sorter_ok S s"
  obtains s' d cb where "sorter_Pop s = Inr (s', fs_readPos s, d, cb)" and "sorter_ok S s'" and "fs_gaps s' = fs_gaps s"
    and "fs_readPos s' = fs_readPos s + int (length d)" and "frame_bytes S d (fs_readPos s)"
    and "d = [] \<longleftrightarrow> fs_readPos s \<in> gap_set (fs_gaps s)" and "callbacks (fs_queue s) = callbacks (fs_queue s') + mset (call cb)"
proof (cases "map_of (fs_queue s) (fs_readPos s)")
  case None
  note ok' = assms [unfolded sorter_ok_def]
  have ent: "entries_ok S (map_of (fs_queue s))"
    using ok' by (simp add: queue_ok_def)
  have "boundary (map_of (fs_queue s)) (fs_readPos s)"
    using queued_iff [OF assms, of "fs_readPos s - 1"] by (intro boundary_after_gap) auto
  then have "fs_readPos s \<notin> queued (map_of (fs_queue s))"
    using boundary_not_queued [OF ent] None by blast
  then have "fs_readPos s \<in> gap_set (fs_gaps s)"
    using queued_iff [OF assms] ok' readPos_lt_Max [OF assms] by auto
  then show ?thesis
    using that [of s "[]" None] None assms by (simp add: sorter_Pop_def frame_bytes_def call_def)
next
  case (Some e)
  note ok' = assms [unfolded sorter_ok_def]
  let ?r = "fs_readPos s + entry_len e"
  let ?s = "s\<lparr>fs_queue := AList.delete (fs_readPos s) (fs_queue s), fs_readPos := ?r\<rparr>"
  obtain g gs where g: "fs_gaps s = g # gs" "bi_Start g < bi_End g" "fs_readPos s \<le> bi_Start g"
    using ok' by (cases "fs_gaps s") (auto simp: gaps_ok_Cons)
  have ent: "fse_Data e \<noteq> []" "frame_bytes S (fse_Data e) (fs_readPos s)"
    using ok' Some by (auto simp: queue_ok_def entries_ok_def frame_bytes_def)
  have qok: "queue_ok S (fs_queue s)"
    using ok' by simp
  note del = queue_ok_delete [OF qok Some]
  have low: "?r \<le> bi_Start g"
  proof (rule ccontr)
    assume "\<not> ?r \<le> bi_Start g"
    then have "bi_Start g \<in> queued (map_of (fs_queue s))"
      using g(3) subsetD [OF del(5), of "bi_Start g"] by simp
    then show False
      using queued_iff [OF assms, of "bi_Start g"] g(1,2) by simp
  qed
  have "queued (map_of (fs_queue ?s)) = {?r..<MaxByteCount} - gap_set (fs_gaps ?s)"
    using del(2) ok' by auto
  then have "sorter_ok S ?s"
    using ok' del(1) low g by (simp add: sorter_ok_def)
  moreover have "sorter_Pop s = Inr (?s, fs_readPos s, fse_Data e, fse_DoneCb e)"
    using Some g(1,2) low by (simp add: sorter_Pop_def Let_def)
  moreover have "fs_readPos s \<notin> gap_set (fs_gaps s)"
    using queued_iff [OF assms, of "fs_readPos s"] subsetD [OF del(5), of "fs_readPos s"] ent(1) by simp
  ultimately show ?thesis
    using that [of ?s "fse_Data e" "fse_DoneCb e"] ent del(3) by simp
qed

section \<open>Any sequence of pushes and pops\<close>

text \<open>
  The peer sends parts of one stream \<open>S\<close>. Beside the sorter run the bytes read so far, the set of the offsets that were received, and
  the callbacks handed over and the callbacks called or returned.
\<close>

type_synonym sorter_run = "frameSorter \<times> byte list \<times> ByteCount set \<times> callback multiset \<times> callback multiset"

inductive sorter_step :: "(ByteCount \<Rightarrow> byte) \<Rightarrow> sorter_run \<Rightarrow> sorter_run \<Rightarrow> bool" for S where
  push: "0 \<le> offset \<Longrightarrow> offset + int (length data) < MaxByteCount \<Longrightarrow> frame_bytes S data offset \<Longrightarrow>
    sorter_Push s data offset cb = Inr (s', c) \<Longrightarrow>
    sorter_step S (s, out, R, given, released)
      (s', out, R \<union> {offset..<offset + int (length data)}, given + mset (call cb), released + mset c)"
| pop: "sorter_Pop s = Inr (s', offset, d, cb) \<Longrightarrow>
    sorter_step S (s, out, R, given, released) (s', out @ d, R, given, released + mset (call cb))"

definition sorter_init :: "sorter_run \<Rightarrow> bool" where
  "sorter_init x \<longleftrightarrow> x = (newFrameSorter, [], {}, {#}, {#})"

definition run_ok :: "(ByteCount \<Rightarrow> byte) \<Rightarrow> sorter_run \<Rightarrow> bool" where
  "run_ok S x \<longleftrightarrow> (case x of (s, out, R, given, released) \<Rightarrow>
     sorter_ok S s \<and> fs_readPos s = int (length out) \<and> frame_bytes S out 0 \<and>
     gap_set (fs_gaps s) = {0..<MaxByteCount} - R \<and> given = callbacks (fs_queue s) + released)"

lemma run_ok_init: "sorter_init x \<Longrightarrow> run_ok S x"
  by (auto simp: sorter_init_def run_ok_def newFrameSorter_def sorter_ok_def queue_ok_def entries_ok_def gaps_ok_Cons
      frame_bytes_def callbacks_def MaxByteCount_def)

lemma frame_bytes_append: "frame_bytes S xs a \<Longrightarrow> frame_bytes S ys (a + int (length xs)) \<Longrightarrow> frame_bytes S (xs @ ys) a"
  by (auto simp: frame_bytes_def nth_append add.assoc)

lemma run_ok_step:
  assumes "run_ok S x" and "sorter_step S x y"
  shows "run_ok S y"
  using assms(2,1)
proof (cases rule: sorter_step.cases)
  case (push offset data s cb s' c out R given released)
  then have ok: "sorter_ok S s"
    using assms(1) by (simp add: run_ok_def)
  have pre: "fs_readPos s = int (length out)" "frame_bytes S out 0" "gap_set (fs_gaps s) = {0..<MaxByteCount} - R"
      "given = callbacks (fs_queue s) + released"
    using assms(1) push(1) by (simp_all add: run_ok_def)
  have new: "sorter_ok S s'" "fs_readPos s' = fs_readPos s"
      "gap_set (fs_gaps s') = gap_set (fs_gaps s) - {offset..<offset + int (length data)}"
      "callbacks (fs_queue s) + mset (call cb) = callbacks (fs_queue s') + mset c"
    using sorter_Push_spec [OF ok push(3-5), of cb] push(6) by (simp_all add: push_ok_def)
  have "given + mset (call cb) = (callbacks (fs_queue s) + mset (call cb)) + released"
    using pre(4) by (simp add: ac_simps)
  then have "given + mset (call cb) = callbacks (fs_queue s') + (released + mset c)"
    unfolding new(4) by (simp add: ac_simps)
  then show ?thesis
    using new(1-3) pre(1-3) by (simp add: run_ok_def push(2) Diff_Diff_Int) blast
next
  case (pop s s' offset d cb out R given released)
  then have ok: "sorter_ok S s"
    using assms(1) by (simp add: run_ok_def)
  have pre: "fs_readPos s = int (length out)" "frame_bytes S out 0" "gap_set (fs_gaps s) = {0..<MaxByteCount} - R"
      "given = callbacks (fs_queue s) + released"
    using assms(1) pop(1) by (simp_all add: run_ok_def)
  obtain s'' d' cb' where r: "sorter_Pop s = Inr (s'', fs_readPos s, d', cb')" "sorter_ok S s''" "fs_gaps s'' = fs_gaps s"
    "fs_readPos s'' = fs_readPos s + int (length d')" "frame_bytes S d' (fs_readPos s)"
    "callbacks (fs_queue s) = callbacks (fs_queue s'') + mset (call cb')"
    by (rule sorter_Pop_spec [OF ok])
  then have same: "s' = s''" "d = d'" "cb = cb'"
    using pop(3) by auto
  have "frame_bytes S (out @ d) 0"
    using frame_bytes_append [OF pre(2), of d] r(5) pre(1) same by simp
  then show ?thesis
    using r pre same by (simp add: run_ok_def pop(2) ac_simps)
qed

lemma run_reachable_ok: "reachable sorter_init (sorter_step S) x \<Longrightarrow> run_ok S x"
  by (erule reachable_invariant) (auto intro: run_ok_init run_ok_step)

section \<open>A sample run\<close>

text \<open>The bytes 2 and 3 of the stream arrive first, then the bytes 0 to 2; the last one is cut off and its buffer released.\<close>

definition sample_sorter :: frameSorter where
  "sample_sorter = \<lparr>fs_queue = [(2, \<lparr>fse_Data = [2, 3], fse_DoneCb = Some 7\<rparr>), (0, \<lparr>fse_Data = [0, 1], fse_DoneCb = None\<rparr>)],
     fs_readPos = 0, fs_gaps = [\<lparr>bi_Start = 4, bi_End = MaxByteCount\<rparr>]\<rparr>"

lemma sample_run: "reachable sorter_init (sorter_step of_int) (sample_sorter, [], {0, 1, 2, 3}, {#8, 7#}, {#8#})"
proof -
  let ?s = "\<lparr>fs_queue = [(2, \<lparr>fse_Data = [2, 3], fse_DoneCb = Some 7\<rparr>)], fs_readPos = 0,
    fs_gaps = [\<lparr>bi_Start = 0, bi_End = 2\<rparr>, \<lparr>bi_Start = 4, bi_End = MaxByteCount\<rparr>]\<rparr> :: frameSorter"
  have bytes: "frame_bytes of_int [2, 3 :: byte] 2" "frame_bytes of_int [0, 1, 2 :: byte] 0"
    by (simp_all add: frame_bytes_def less_Suc_eq numeral_eq_Suc)
  have "sorter_Push newFrameSorter [2, 3] 2 (Some 7) = Inr (?s, [])"
    "sorter_Push ?s [0, 1, 2] 0 (Some 8) = Inr (sample_sorter, [8])"
    by code_simp+
  then have "sorter_step of_int (newFrameSorter, [], {}, {#}, {#}) (?s, [], {} \<union> {2..<2 + int (length [2, 3 :: byte])}, {#} + mset (call (Some 7)), {#} + mset [])"
    "sorter_step of_int (?s, [], {2, 3}, {#7#}, {#}) (sample_sorter, [], {2, 3} \<union> {0..<0 + int (length [0, 1, 2 :: byte])}, {#7#} + mset (call (Some 8)), {#} + mset [8])"
    using bytes by (intro sorter_step.push; simp add: MaxByteCount_def)+
  moreover have "{} \<union> {2..<2 + int (length [2, 3 :: byte])} = {2, 3}" "{2, 3} \<union> {0..<0 + int (length [0, 1, 2 :: byte])} = {0, 1, 2, 3 :: int}"
    by auto
  ultimately have "sorter_step of_int (newFrameSorter, [], {}, {#}, {#}) (?s, [], {2, 3}, {#7#}, {#})"
    "sorter_step of_int (?s, [], {2, 3}, {#7#}, {#}) (sample_sorter, [], {0, 1, 2, 3}, {#8, 7#}, {#8#})"
    by (simp_all add: call_def)
  then show ?thesis
    by (blast intro: reachable.intros sorter_init_def [THEN iffD2, OF refl])
qed

section \<open>Properties\<close>

text \<open>
  (C6) After any sequence of pushes of parts of a stream, in any order and with any overlaps, and of pops: the bytes read so far are
  the first bytes of the stream, all of which have been received; and the next pop returns without a panic, either with the bytes that follow, or with nothing if and
  only if the next byte has not been received. So nothing is lost, reordered, duplicated or held back.
\<close>

theorem frame_sorter_delivers:
  assumes "reachable sorter_init (sorter_step S) (s, out, R, given, released)"
  shows "(\<forall>i < length out. out ! i = S (int i)) \<and> {0..<int (length out)} \<subseteq> R \<and>
    (\<exists>s' d cb. sorter_Pop s = Inr (s', int (length out), d, cb) \<and>
      (\<forall>i < length d. d ! i = S (int (length out + i))) \<and> (d = [] \<longleftrightarrow> int (length out) \<notin> R))"
proof -
  have ok: "sorter_ok S s" "fs_readPos s = int (length out)" "frame_bytes S out 0" "gap_set (fs_gaps s) = {0..<MaxByteCount} - R"
    using run_reachable_ok [OF assms] by (simp_all add: run_ok_def)
  obtain s' d cb where pop: "sorter_Pop s = Inr (s', fs_readPos s, d, cb)" "frame_bytes S d (fs_readPos s)"
      "d = [] \<longleftrightarrow> fs_readPos s \<in> gap_set (fs_gaps s)"
    by (rule sorter_Pop_spec [OF ok(1)])
  have low: "fs_readPos s \<le> p" if "p \<in> gap_set (fs_gaps s)" for p
    using that readPos_le_gap [OF ok(1)] by (fastforce simp: gap_set_def)
  have max: "fs_readPos s < MaxByteCount"
    using ok(1) readPos_lt_Max by blast
  have "{0..<int (length out)} \<subseteq> R"
  proof
    fix p
    assume p: "p \<in> {0..<int (length out)}"
    show "p \<in> R"
      using low [of p] p max ok(2,4) by (cases "p \<in> R") auto
  qed
  then show ?thesis
    using ok pop max by (auto simp: frame_bytes_def)
qed

theorem frame_sorter_delivers_witness:
  "\<exists>s' d cb. sorter_Pop sample_sorter = Inr (s', 0, d, cb) \<and> d \<noteq> [] \<and> (\<forall>i < length d. d ! i = of_int (int i))"
  using frame_sorter_delivers [OF sample_run] by auto

text \<open>
  In every state reached by such a sequence, pushing a further part of the stream never panics. It succeeds, or it fails because there
  are more than 1000 gaps; when it succeeds the sorter misses exactly the bytes it missed before, without those of the new frame.
\<close>

theorem frame_sorter_push_total:
  assumes "reachable sorter_init (sorter_step S) (s, out, R, given, released)"
    and "0 \<le> offset" and "offset + int (length data) < MaxByteCount" and "\<forall>i < length data. data ! i = S (offset + int i)"
  shows "sorter_Push s data offset cb = Inl (ErrorNew ''too many gaps in received data'') \<or>
    (\<exists>s' c. sorter_Push s data offset cb = Inr (s', c) \<and>
      gap_set (fs_gaps s') = gap_set (fs_gaps s) - {offset..<offset + int (length data)})"
  using sorter_Push_spec [of S s offset data cb] run_reachable_ok [OF assms(1)] assms(2-4)
  by (auto simp: run_ok_def push_ok_def frame_bytes_def)

theorem frame_sorter_push_total_witness:
  "\<exists>s' c. sorter_Push sample_sorter [3, 4] 3 (Some 9) = Inr (s', c) \<and> gap_set (fs_gaps s') = gap_set (fs_gaps sample_sorter) - {3..<5}"
proof -
  have "\<forall>i < length [3, 4 :: byte]. [3, 4] ! i = (of_int (3 + int i) :: byte)"
    by (simp add: less_Suc_eq numeral_eq_Suc)
  moreover have "sorter_Push sample_sorter [3, 4] 3 (Some 9) \<noteq> Inl (ErrorNew ''too many gaps in received data'')"
    by code_simp
  ultimately show ?thesis
    using frame_sorter_push_total [OF sample_run, of 3 "[3, 4]" "Some 9"] by (simp add: MaxByteCount_def)
qed

text \<open>
  (C28) Every buffer is released exactly once: at every moment the callbacks handed over with the frames are those that were called or returned by a
  pop, together with those of the entries still in the queue.
\<close>

theorem frame_sorter_releases_once:
  assumes "reachable sorter_init (sorter_step S) (s, out, R, given, released)"
  shows "given = released + callbacks (fs_queue s)"
  using run_reachable_ok [OF assms] by (simp add: run_ok_def)

theorem frame_sorter_releases_once_witness: "{#8, 7#} = {#8#} + callbacks (fs_queue sample_sorter)"
  using frame_sorter_releases_once [OF sample_run] .

end
