(* ===== verification/Go_Float.thy ===== *)
theory Go_Float
  imports Complex_Main "HOL-Library.Log_Nat" Prelude
begin

text \<open>
  Floating point numbers of Go, as far as the code uses them: a finite \<open>float64\<close> or \<open>float32\<close> is a rational number, and every operation
  computes the exact result and rounds it to 53 or 24 significant bits, to the nearest value and to the even one on a tie. The numbers of the code stay far away from the limits of
  the exponent, so overflow and subnormal numbers are left out; fused multiply-add, which the language
  permits on some platforms, is not used. A conversion to an integer truncates.
\<close>

definition round_half_even :: "rat \<Rightarrow> int" where
  "round_half_even x =
     (let f = \<lfloor>x\<rfloor>; r = x - of_int f in
      if r < 1 / 2 then f else if r > 1 / 2 then f + 1 else if even f then f else f + 1)"

text \<open>The exponent of a positive number: the largest \<open>e\<close> with \<open>2 powi e \<le> x\<close>.\<close>

definition exponent_of :: "rat \<Rightarrow> int" where
  "exponent_of x =
     (let (n, d) = quotient_of x; e = bitlen n - bitlen d in
      if 2 powi e \<le> x then e else e - 1)"

definition round_pos :: "nat \<Rightarrow> rat \<Rightarrow> rat" where
  "round_pos p x =
     (let u = 2 powi (exponent_of x - int p + 1) in of_int (round_half_even (x / u)) * u)"

definition round_float :: "nat \<Rightarrow> rat \<Rightarrow> rat" where
  "round_float p x = (if x = 0 then 0 else if x > 0 then round_pos p x else - round_pos p (- x))"

abbreviation fl64 :: "rat \<Rightarrow> rat" where "fl64 \<equiv> round_float 53"
abbreviation fl32 :: "rat \<Rightarrow> rat" where "fl32 \<equiv> round_float 24"

definition float_to_int :: "rat \<Rightarrow> int" where
  "float_to_int x = (if x \<ge> 0 then \<lfloor>x\<rfloor> else \<lceil>x\<rceil>)"

section \<open>Exactness and bounds\<close>

lemma round_half_even_of_int [simp]: "round_half_even (of_int k) = k"
  by (simp add: round_half_even_def)

lemma round_half_even_bounds:
  shows "x \<le> of_int k \<Longrightarrow> round_half_even x \<le> k" and "of_int k \<le> x \<Longrightarrow> k \<le> round_half_even x"
proof -
  have f: "of_int \<lfloor>x\<rfloor> \<le> x" "x < of_int \<lfloor>x\<rfloor> + 1"
    by linarith+
  show "round_half_even x \<le> k" if "x \<le> of_int k"
  proof (cases "x = of_int \<lfloor>x\<rfloor>")
    case True
    then show ?thesis
      using that by (metis of_int_le_iff round_half_even_of_int)
  next
    case False
    then have "\<lfloor>x\<rfloor> + 1 \<le> k"
      using that f by linarith
    then show ?thesis
      by (simp add: round_half_even_def Let_def)
  qed
  show "k \<le> round_half_even x" if "of_int k \<le> x"
  proof -
    have "k \<le> \<lfloor>x\<rfloor>"
      using that by (simp add: le_floor_iff)
    then show ?thesis
      by (simp add: round_half_even_def Let_def)
  qed
qed

lemma bitlen_powi:
  assumes "0 < n"
  shows "2 powi (bitlen n - 1) \<le> (of_int n :: rat)" and "(of_int n :: rat) < 2 powi bitlen n"
proof -
  have pos: "0 \<le> bitlen n - 1"
    using assms bitlen_eq_zero_iff [of n] bitlen_nonneg [of n] by linarith
  have "2 ^ nat (bitlen n - 1) \<le> n" "n < 2 ^ nat (bitlen n)"
    using bitlen_bounds [OF assms] by auto
  then have "(of_int (2 ^ nat (bitlen n - 1)) :: rat) \<le> of_int n" "(of_int n :: rat) < of_int (2 ^ nat (bitlen n))"
    by (simp_all only: of_int_le_iff of_int_less_iff)
  then show "2 powi (bitlen n - 1) \<le> (of_int n :: rat)" and "(of_int n :: rat) < 2 powi bitlen n"
    using pos by (simp_all add: power_int_def)
qed

lemma exponent_of:
  assumes "0 < x"
  shows "2 powi exponent_of x \<le> x" and "x < 2 powi (exponent_of x + 1)"
proof -
  obtain n d where q: "quotient_of x = (n, d)"
    by (cases "quotient_of x")
  have d: "0 < d" "x = of_int n / of_int d"
    using q by (simp_all add: quotient_of_denom_pos quotient_of_div)
  then have n: "0 < n"
    using assms by (simp add: zero_less_divide_iff)
  let ?e = "bitlen n - bitlen d"
  note bn = bitlen_powi [OF n] and bd = bitlen_powi [OF d(1)]
  have pos: "(0 :: rat) < of_int d" "(0 :: rat) < 2 powi bitlen d" "(0 :: rat) < 2 powi (bitlen d - 1)"
    using d(1) by simp_all
  have "x < 2 powi bitlen n / 2 powi (bitlen d - 1)"
    unfolding d(2) using bn bd pos n d(1) by (intro frac_less) auto
  also have "\<dots> = 2 powi (?e + 1)"
    by (subst power_int_diff [symmetric]) (simp_all add: algebra_simps)
  finally have hi: "x < 2 powi (?e + 1)" .
  have "2 powi (?e - 1) = 2 powi (bitlen n - 1) / (2 powi bitlen d :: rat)"
    by (subst power_int_diff [symmetric]) (simp_all add: algebra_simps)
  also have "\<dots> \<le> x"
    unfolding d(2) using bn bd pos n d(1) by (intro frac_le) auto
  finally have lo: "2 powi (?e - 1) \<le> x" .
  show "2 powi exponent_of x \<le> x" and "x < 2 powi (exponent_of x + 1)"
    using lo hi by (auto simp: exponent_of_def q Let_def)
qed

lemma exponent_less:
  assumes "0 < x" and "x < 2 ^ k"
  shows "exponent_of x < int k"
proof (rule ccontr)
  assume "\<not> exponent_of x < int k"
  then have "(2 :: rat) powi int k \<le> 2 powi exponent_of x"
    by (intro power_int_increasing) auto
  then show False
    using exponent_of(1) [OF assms(1)] assms(2) by (simp add: power_int_def)
qed

text \<open>A multiple of \<open>1 / 2 ^ j\<close> that needs at most \<open>p\<close> bits is represented exactly.\<close>

lemma round_float_exact:
  assumes "x * 2 ^ j = of_int k" and "0 \<le> x" and "x < 2 ^ (p - j)" and "j \<le> p"
  shows "round_float p x = x"
proof (cases "x = 0")
  case False
  then have pos: "0 < x"
    using assms(2) by simp
  let ?e = "exponent_of x - int p + 1"
  have "exponent_of x < int (p - j)"
    using exponent_less [OF pos assms(3)] .
  then have e: "?e \<le> - int j"
    using assms(4) by simp
  have "(2 :: rat) powi (- ?e) = 2 ^ j * 2 ^ nat (- ?e - int j)"
    using e by (simp add: power_int_def flip: power_add)
  then have "x / 2 powi ?e = of_int (k * 2 ^ nat (- ?e - int j))"
    using assms(1) by (simp add: power_int_minus divide_inverse flip: power_int_minus)
  then obtain K where K: "x / 2 powi ?e = of_int K"
    by blast
  then have "round_float p x = x / 2 powi ?e * 2 powi ?e"
    using pos unfolding round_float_def round_pos_def Let_def K by simp
  then show ?thesis
    by simp
qed (simp add: round_float_def)

text \<open>Rounding does not pass an integer, as long as the integers are representable.\<close>

lemma round_float_bounds:
  assumes "0 \<le> x" and "x < 2 ^ p"
  shows "of_int k \<le> x \<Longrightarrow> of_int k \<le> round_float p x" and "x \<le> of_int k \<Longrightarrow> round_float p x \<le> of_int k"
proof -
  have "(of_int k \<le> x \<longrightarrow> of_int k \<le> round_float p x) \<and> (x \<le> of_int k \<longrightarrow> round_float p x \<le> of_int k)"
  proof (cases "x = 0")
    case False
    then have pos: "0 < x"
      using assms(1) by simp
    let ?e = "exponent_of x - int p + 1"
    let ?m = "2 ^ nat (- ?e) :: int"
    have e: "?e \<le> 0"
      using exponent_less [OF pos assms(2)] by simp
    have "(2 :: rat) powi ?e = inverse (2 powi (- ?e))"
      by (metis power_int_minus minus_minus)
    also have "(2 :: rat) powi (- ?e) = of_int ?m"
      using e unfolding power_int_def by simp
    finally have u: "(2 :: rat) powi ?e = 1 / of_int ?m"
      by (simp only: inverse_eq_divide)
    have m: "(0 :: rat) < of_int ?m"
      by simp
    have r: "round_float p x = of_int (round_half_even (x * of_int ?m)) / of_int ?m"
      using pos by (simp add: round_float_def round_pos_def Let_def u)
    have "of_int (k * ?m) \<le> x * of_int ?m" if "of_int k \<le> x"
      using that m by (simp add: mult_right_mono)
    moreover have "x * of_int ?m \<le> of_int (k * ?m)" if "x \<le> of_int k"
      using that m by (simp add: mult_right_mono)
    ultimately have "of_int k \<le> x \<Longrightarrow> k * ?m \<le> round_half_even (x * of_int ?m)"
        "x \<le> of_int k \<Longrightarrow> round_half_even (x * of_int ?m) \<le> k * ?m"
      using round_half_even_bounds [where x = "x * of_int ?m" and k = "k * ?m"] by blast+
    then show ?thesis
      unfolding r pos_le_divide_eq [OF m] pos_divide_le_eq [OF m] of_int_mult [symmetric] of_int_le_iff by blast
  qed (simp add: round_float_def)
  then show "of_int k \<le> x \<Longrightarrow> of_int k \<le> round_float p x" and "x \<le> of_int k \<Longrightarrow> round_float p x \<le> of_int k"
    by auto
qed

lemma round_float_of_int: "0 \<le> k \<Longrightarrow> k < 2 ^ p \<Longrightarrow> round_float p (of_int k) = of_int k"
proof (rule round_float_exact [of _ 0 k])
  assume "k < 2 ^ p"
  then have "(of_int k :: rat) < of_int (2 ^ p)"
    by (simp only: of_int_less_iff)
  then show "(of_int k :: rat) < 2 ^ (p - 0)"
    by simp
qed simp_all

lemma float_to_int_of_int [simp]: "float_to_int (of_int k) = k"
  by (simp add: float_to_int_def)

end
