(* ===== verification/RTT_Stats.thy ===== *)
theory RTT_Stats
  imports Go_Float Protocol
begin

text \<open>
  The round-trip time estimator (\<open>internal/utils/rtt_stats.go\<close>). The smoothed values are computed in whole
  microseconds with \<open>float32\<close> arithmetic; the constants 0.875, 0.125, 0.75 and 0.25 are exact.
\<close>

section \<open>Definitions\<close>

definition defaultInitialRTT :: Duration where "defaultInitialRTT = 100 * Millisecond"

record RTTStats =
  hasMeasurement :: bool
  rtt_minRTT :: Duration
  rtt_latestRTT :: Duration
  rtt_smoothedRTT :: Duration
  rtt_meanDeviation :: Duration
  rtt_maxAckDelay :: Duration

definition new_RTTStats :: RTTStats where
  "new_RTTStats = \<lparr>hasMeasurement = False, rtt_minRTT = 0, rtt_latestRTT = 0, rtt_smoothedRTT = 0, rtt_meanDeviation = 0,
     rtt_maxAckDelay = 0\<rparr>"

definition PTO :: "RTTStats \<Rightarrow> bool \<Rightarrow> Duration" where
  "PTO r includeMaxAckDelay =
     (if rtt_smoothedRTT r = 0 then 2 * defaultInitialRTT
      else let pto = rtt_smoothedRTT r + max (4 * rtt_meanDeviation r) TimerGranularity in
      if includeMaxAckDelay then pto + rtt_maxAckDelay r else pto)"

text \<open>\<open>a * x + b * y\<close> in \<open>float32\<close> arithmetic, for the whole microseconds of two durations.\<close>

definition weighted_micros :: "rat \<Rightarrow> Duration \<Rightarrow> rat \<Rightarrow> Duration \<Rightarrow> Duration" where
  "weighted_micros a x b y =
     float_to_int (fl32 (fl32 (a * fl32 (of_int (go_div x Microsecond))) + fl32 (b * fl32 (of_int (go_div y Microsecond))))) * Microsecond"

definition UpdateRTT :: "RTTStats \<Rightarrow> Duration \<Rightarrow> Duration \<Rightarrow> RTTStats" where
  "UpdateRTT r sendDelta ackDelay =
     (if sendDelta \<le> 0 then r
      else let r = (if rtt_minRTT r = 0 \<or> rtt_minRTT r > sendDelta then r\<lparr>rtt_minRTT := sendDelta\<rparr> else r);
               sample = (if sendDelta - rtt_minRTT r \<ge> ackDelay then sendDelta - ackDelay else sendDelta);
               r = r\<lparr>rtt_latestRTT := sample\<rparr> in
      if \<not> hasMeasurement r then
        r\<lparr>hasMeasurement := True, rtt_smoothedRTT := sample, rtt_meanDeviation := go_div sample 2\<rparr>
      else
        let r = r\<lparr>rtt_meanDeviation := weighted_micros (3 / 4) (rtt_meanDeviation r) (1 / 4) \<bar>rtt_smoothedRTT r - sample\<bar>\<rparr> in
        r\<lparr>rtt_smoothedRTT := weighted_micros (7 / 8) (rtt_smoothedRTT r) (1 / 8) sample\<rparr>)"

definition SetMaxAckDelay :: "RTTStats \<Rightarrow> Duration \<Rightarrow> RTTStats" where
  "SetMaxAckDelay r mad = r\<lparr>rtt_maxAckDelay := mad\<rparr>"

definition SetInitialRTT :: "RTTStats \<Rightarrow> Duration \<Rightarrow> RTTStats" where
  "SetInitialRTT r t = (if hasMeasurement r then r else r\<lparr>rtt_smoothedRTT := t, rtt_latestRTT := t\<rparr>)"

definition ResetForPathMigration :: "RTTStats \<Rightarrow> RTTStats" where
  "ResetForPathMigration r =
     r\<lparr>hasMeasurement := False, rtt_minRTT := 0, rtt_latestRTT := 0, rtt_smoothedRTT := 0, rtt_meanDeviation := 0\<rparr>"

section \<open>The arithmetic is exact\<close>

lemma less_pow2_rat: "k < 2 ^ n \<Longrightarrow> (of_int k :: rat) < 2 ^ n"
  using of_int_less_iff [of k "2 ^ n", where 'a = rat] by simp

lemma float_to_int_div:
  assumes "0 \<le> k" and "0 < d"
  shows "float_to_int (of_int k / of_int d) = k div d"
proof -
  have "(0 :: rat) \<le> of_int k / of_int d"
    using assms by simp
  then show ?thesis
    by (simp only: float_to_int_def if_True floor_divide_of_int_eq)
qed

text \<open>A fraction with denominator \<open>2 ^ j\<close> and numerator below \<open>2 ^ 24\<close> is exact.\<close>

lemma fl32_fraction:
  assumes "0 \<le> k" and "k < 2 ^ 24" and "j \<le> 24"
  shows "fl32 (of_int k / 2 ^ j) = of_int k / 2 ^ j"
proof (rule round_float_exact [of _ j k])
  have "(of_int k :: rat) < 2 ^ 24"
    using assms(2) by (rule less_pow2_rat)
  also have "(2 :: rat) ^ 24 = 2 ^ (24 - j) * 2 ^ j"
    using assms(3) by (simp flip: power_add)
  finally show "(of_int k :: rat) / 2 ^ j < 2 ^ (24 - j)"
    by (simp add: pos_divide_less_eq)
qed (use assms in simp_all)

lemma weighted_micros_exact:
  assumes "0 \<le> x" and "0 \<le> y" and "x < 2 ^ 21 * Microsecond" and "y < 2 ^ 21 * Microsecond"
    and "0 \<le> a" and "0 \<le> b" and "a + b = 2 ^ j" and "j \<le> 3"
  shows "weighted_micros (of_int a / 2 ^ j) x (of_int b / 2 ^ j) y =
    (a * (x div Microsecond) + b * (y div Microsecond)) div 2 ^ j * Microsecond"
proof -
  let ?x = "x div Microsecond" and ?y = "y div Microsecond"
  have m: "0 < Microsecond"
    by (simp add: Microsecond_def)
  have xy: "0 \<le> ?x" "0 \<le> ?y" "?x < 2 ^ 21" "?y < 2 ^ 21"
    using assms(1-4) m by (simp_all add: pos_imp_zdiv_nonneg_iff Microsecond_def)
  have ab: "a \<le> 2 ^ j" "b \<le> 2 ^ j" "(2 :: int) ^ j \<le> 8"
    using assms(5-8) power_increasing [of j 3 "2 :: int"] by auto
  have "a * ?x + b * ?y \<le> a * (2 ^ 21 - 1) + b * (2 ^ 21 - 1)"
    using xy assms(5,6) by (intro add_mono mult_left_mono) auto
  also have "\<dots> = 2 ^ j * (2 ^ 21 - 1)"
    using assms(7) by (simp flip: distrib_right)
  also have "\<dots> \<le> 8 * (2 ^ 21 - 1)"
    using ab(3) by (intro mult_right_mono) auto
  finally have sum: "a * ?x + b * ?y < 2 ^ 24"
    by simp
  have parts: "0 \<le> a * ?x" "0 \<le> b * ?y" "a * ?x < 2 ^ 24" "b * ?y < 2 ^ 24"
    using sum xy assms(5,6) mult_nonneg_nonneg [of a ?x] mult_nonneg_nonneg [of b ?y] by linarith+
  have f: "fl32 (of_int ?x) = of_int ?x" "fl32 (of_int ?y) = of_int ?y"
    using xy by (intro round_float_of_int; simp)+
  have fa: "fl32 (of_int a / 2 ^ j * of_int ?x) = of_int (a * ?x) / 2 ^ j"
    using fl32_fraction [of "a * ?x" j] parts assms(8) by simp
  have fb: "fl32 (of_int b / 2 ^ j * of_int ?y) = of_int (b * ?y) / 2 ^ j"
    using fl32_fraction [of "b * ?y" j] parts assms(8) by simp
  have "fl32 (of_int (a * ?x) / 2 ^ j + of_int (b * ?y) / 2 ^ j) = of_int (a * ?x + b * ?y) / of_int (2 ^ j)"
    using fl32_fraction [of "a * ?x + b * ?y" j] parts sum assms(8) by (simp add: add_divide_distrib)
  then have "weighted_micros (of_int a / 2 ^ j) x (of_int b / 2 ^ j) y = float_to_int (of_int (a * ?x + b * ?y) / of_int (2 ^ j)) * Microsecond"
    using assms(1,2) m unfolding weighted_micros_def by (simp only: go_div_nonneg f fa fb)
  moreover have "float_to_int (of_int (a * ?x + b * ?y) / of_int (2 ^ j)) = (a * ?x + b * ?y) div 2 ^ j"
    using parts by (intro float_to_int_div) simp_all
  ultimately show ?thesis
    by simp
qed

lemma weighted_micros_7_8:
  assumes "0 \<le> x" and "0 \<le> y" and "x < 2 ^ 21 * Microsecond" and "y < 2 ^ 21 * Microsecond"
  shows "weighted_micros (7 / 8) x (1 / 8) y = (7 * (x div Microsecond) + y div Microsecond) div 8 * Microsecond"
    and "weighted_micros (3 / 4) x (1 / 4) y = (3 * (x div Microsecond) + y div Microsecond) div 4 * Microsecond"
  using weighted_micros_exact [OF assms, of 7 1 3] weighted_micros_exact [OF assms, of 3 1 2] by simp_all

lemma weighted_between:
  fixes a b :: int
  shows "(7 * (a div 1000) + b div 1000) div 8 * 1000 \<le> max a b"
    and "min a b - 1000 < (7 * (a div 1000) + b div 1000) div 8 * 1000"
proof -
  have d: "1000 * (x div 1000) \<le> x" "x < 1000 * (x div 1000) + 1000" for x :: int
    by linarith+
  have e: "8 * (x div 8) \<le> x" "x < 8 * (x div 8) + 8" for x :: int
    by linarith+
  show "(7 * (a div 1000) + b div 1000) div 8 * 1000 \<le> max a b"
    using d [of a] d [of b] e [of "7 * (a div 1000) + b div 1000"] by linarith
  have "min a b div 1000 \<le> a div 1000" "min a b div 1000 \<le> b div 1000"
    by (simp_all add: zdiv_mono1)
  then have "min a b div 1000 \<le> (7 * (a div 1000) + b div 1000) div 8"
    using e [of "7 * (a div 1000) + b div 1000"] by linarith
  then show "min a b - 1000 < (7 * (a div 1000) + b div 1000) div 8 * 1000"
    using d [of "min a b"] by linarith
qed

section \<open>Properties\<close>

text \<open>
  Once a first sample was taken, an update computes exactly the moving averages of RFC 9002 in whole microseconds, in
  spite of the \<open>float32\<close> arithmetic, as long as the round-trip times are below about two seconds; the new smoothed RTT lies
  between the old one and the sample, up to the microsecond that is cut off.
\<close>

theorem UpdateRTT_averages:
  assumes "hasMeasurement r" and "0 < sendDelta" and "0 \<le> ackDelay" and "0 \<le> rtt_smoothedRTT r" and "0 \<le> rtt_meanDeviation r"
    and "0 \<le> rtt_minRTT r" and "sendDelta < 2 ^ 21 * Microsecond" and "rtt_smoothedRTT r < 2 ^ 21 * Microsecond" and "rtt_meanDeviation r < 2 ^ 21 * Microsecond"
  shows "let r' = UpdateRTT r sendDelta ackDelay; s = rtt_smoothedRTT r; l = rtt_latestRTT r' in
    rtt_smoothedRTT r' = (7 * (s div Microsecond) + l div Microsecond) div 8 * Microsecond \<and>
    rtt_meanDeviation r' = (3 * (rtt_meanDeviation r div Microsecond) + \<bar>s - l\<bar> div Microsecond) div 4 * Microsecond \<and>
    rtt_smoothedRTT r' \<le> max s l \<and> min s l - Microsecond < rtt_smoothedRTT r' \<and>
    rtt_minRTT r' \<le> sendDelta \<and> 0 < rtt_minRTT r' \<and> rtt_minRTT r' \<le> l"
proof -
  define m where "m = (if rtt_minRTT r = 0 \<or> rtt_minRTT r > sendDelta then sendDelta else rtt_minRTT r)"
  define l where "l = (if sendDelta - m \<ge> ackDelay then sendDelta - ackDelay else sendDelta)"
  have m: "0 < m" "m \<le> sendDelta" "m \<le> l" "l \<le> sendDelta"
    using assms(2,3,6) by (auto simp: m_def l_def)
  have dev: "0 \<le> \<bar>rtt_smoothedRTT r - l\<bar>" "\<bar>rtt_smoothedRTT r - l\<bar> < 2 ^ 21 * Microsecond" "0 \<le> l" "l < 2 ^ 21 * Microsecond"
    using m assms(4,7,8) by linarith+
  have r': "UpdateRTT r sendDelta ackDelay = r\<lparr>rtt_minRTT := m, rtt_latestRTT := l,
      rtt_meanDeviation := weighted_micros (3 / 4) (rtt_meanDeviation r) (1 / 4) \<bar>rtt_smoothedRTT r - l\<bar>,
      rtt_smoothedRTT := weighted_micros (7 / 8) (rtt_smoothedRTT r) (1 / 8) l\<rparr>"
    using assms(1,2) by (auto simp: UpdateRTT_def Let_def m_def l_def)
  note between = weighted_between [of "rtt_smoothedRTT r" l, folded Microsecond_def]
  show ?thesis
    using weighted_micros_7_8(1) [OF assms(4) dev(3) assms(8) dev(4)] weighted_micros_7_8(2) [OF assms(5) dev(1) assms(9) dev(2)] between m
    unfolding r' Let_def by simp
qed

theorem UpdateRTT_averages_witness:
  "rtt_smoothedRTT (UpdateRTT \<lparr>hasMeasurement = True, rtt_minRTT = 80000000, rtt_latestRTT = 80000000, rtt_smoothedRTT = 80000000,
     rtt_meanDeviation = 40000000, rtt_maxAckDelay = 0\<rparr> 120000000 0) = 85000000"
  using UpdateRTT_averages [of "\<lparr>hasMeasurement = True, rtt_minRTT = 80000000, rtt_latestRTT = 80000000, rtt_smoothedRTT = 80000000,
     rtt_meanDeviation = 40000000, rtt_maxAckDelay = 0\<rparr>" 120000000 0]
  by (simp add: Let_def Microsecond_def UpdateRTT_def)

end
