(* ===== verification/Flow_Control.thy ===== *)
theory Flow_Control
  imports RTT_Stats
begin

text \<open>
  Flow control (\<open>internal/flowcontrol\<close>): the part shared by streams and connections, the connection flow controller and the
  stream flow controller. A stream flow controller works on the controller of its connection, which its operations
  take and return. The smoothed RTT, which the code reads from the RTT statistics, is an argument where it is used.
  The mutexes make every operation one step.
\<close>

section \<open>The common part\<close>

record baseFlowController =
  fc_bytesSent :: ByteCount
  fc_sendWindow :: ByteCount
  fc_lastBlockedAt :: ByteCount
  fc_bytesRead :: ByteCount
  fc_highestReceived :: ByteCount
  fc_receiveWindow :: ByteCount
  fc_receiveWindowSize :: ByteCount
  fc_maxReceiveWindowSize :: ByteCount
  fc_allowWindowIncrease :: "(ByteCount \<Rightarrow> bool) option"
  fc_epochStartTime :: Time
  fc_epochStartOffset :: ByteCount

definition SendWindowSize :: "baseFlowController \<Rightarrow> ByteCount" where
  "SendWindowSize c = (if fc_bytesSent c > fc_sendWindow c then 0 else fc_sendWindow c - fc_bytesSent c)"

definition IsNewlyBlocked :: "baseFlowController \<Rightarrow> baseFlowController \<times> bool \<times> ByteCount" where
  "IsNewlyBlocked c =
     (if SendWindowSize c \<noteq> 0 \<or> fc_sendWindow c = fc_lastBlockedAt c then (c, False, 0)
      else (c\<lparr>fc_lastBlockedAt := fc_sendWindow c\<rparr>, True, fc_sendWindow c))"

definition AddBytesSent :: "baseFlowController \<Rightarrow> ByteCount \<Rightarrow> baseFlowController" where
  "AddBytesSent c n = c\<lparr>fc_bytesSent := fc_bytesSent c + n\<rparr>"

definition UpdateSendWindow :: "baseFlowController \<Rightarrow> ByteCount \<Rightarrow> baseFlowController \<times> bool" where
  "UpdateSendWindow c offset =
     (if offset > fc_sendWindow c then (c\<lparr>fc_sendWindow := offset\<rparr>, True) else (c, False))"

definition addBytesRead :: "baseFlowController \<Rightarrow> ByteCount \<Rightarrow> baseFlowController" where
  "addBytesRead c n = c\<lparr>fc_bytesRead := fc_bytesRead c + n\<rparr>"

text \<open>\<open>1 - protocol.WindowUpdateThreshold\<close> is the constant 0.75.\<close>

definition hasWindowUpdate :: "baseFlowController \<Rightarrow> bool" where
  "hasWindowUpdate c \<longleftrightarrow>
     fc_receiveWindow c - fc_bytesRead c \<le> float_to_int (fl64 (fl64 (of_int (fc_receiveWindowSize c)) * (3 / 4)))"

definition startNewAutoTuningEpoch :: "baseFlowController \<Rightarrow> Time \<Rightarrow> baseFlowController" where
  "startNewAutoTuningEpoch c now = c\<lparr>fc_epochStartTime := now, fc_epochStartOffset := fc_bytesRead c\<rparr>"

definition maybeAdjustWindowSize :: "baseFlowController \<Rightarrow> Duration \<Rightarrow> Time \<Rightarrow> baseFlowController" where
  "maybeAdjustWindowSize c rtt now =
     (let bytesReadInEpoch = fc_bytesRead c - fc_epochStartOffset c in
      if bytesReadInEpoch \<le> go_div (fc_receiveWindowSize c) 2 then c
      else if rtt = 0 then c
      else let fraction = fl64 (fl64 (of_int bytesReadInEpoch) / fl64 (of_int (fc_receiveWindowSize c)));
               c = (if now - fc_epochStartTime c < float_to_int (fl64 (fl64 (4 * fraction) * fl64 (of_int rtt))) then
                      let newSize = min (2 * fc_receiveWindowSize c) (fc_maxReceiveWindowSize c) in
                      if newSize > fc_receiveWindowSize c \<and>
                         (case fc_allowWindowIncrease c of None \<Rightarrow> True | Some allow \<Rightarrow> allow (newSize - fc_receiveWindowSize c))
                      then c\<lparr>fc_receiveWindowSize := newSize\<rparr> else c
                    else c)
           in startNewAutoTuningEpoch c now)"

definition getWindowUpdate :: "baseFlowController \<Rightarrow> Duration \<Rightarrow> Time \<Rightarrow> baseFlowController \<times> ByteCount" where
  "getWindowUpdate c rtt now =
     (if \<not> hasWindowUpdate c then (c, 0)
      else let c = maybeAdjustWindowSize c rtt now;
               c = c\<lparr>fc_receiveWindow := fc_bytesRead c + fc_receiveWindowSize c\<rparr>
           in (c, fc_receiveWindow c))"

definition checkFlowControlViolation :: "baseFlowController \<Rightarrow> bool" where
  "checkFlowControlViolation c \<longleftrightarrow> fc_highestReceived c > fc_receiveWindow c"

section \<open>The connection\<close>

definition NewConnectionFlowController :: "ByteCount \<Rightarrow> ByteCount \<Rightarrow> (ByteCount \<Rightarrow> bool) option \<Rightarrow> baseFlowController" where
  "NewConnectionFlowController receiveWindow maxReceiveWindow allow =
     \<lparr>fc_bytesSent = 0, fc_sendWindow = 0, fc_lastBlockedAt = 0, fc_bytesRead = 0, fc_highestReceived = 0,
      fc_receiveWindow = receiveWindow, fc_receiveWindowSize = receiveWindow, fc_maxReceiveWindowSize = maxReceiveWindow,
      fc_allowWindowIncrease = allow, fc_epochStartTime = 0, fc_epochStartOffset = 0\<rparr>"

definition IncrementHighestReceived :: "baseFlowController \<Rightarrow> ByteCount \<Rightarrow> Time \<Rightarrow> baseFlowController result" where
  "IncrementHighestReceived c increment now =
     (let c = (if fc_highestReceived c = 0 then startNewAutoTuningEpoch c now else c);
          c = c\<lparr>fc_highestReceived := fc_highestReceived c + increment\<rparr> in
      if checkFlowControlViolation c
      then Inl (TransportError FlowControlError 0 ''received too many bytes for the connection'')
      else Inr c)"

definition conn_AddBytesRead :: "baseFlowController \<Rightarrow> ByteCount \<Rightarrow> baseFlowController \<times> bool" where
  "conn_AddBytesRead c n = (let c = addBytesRead c n in (c, hasWindowUpdate c))"

definition conn_GetWindowUpdate :: "baseFlowController \<Rightarrow> Duration \<Rightarrow> Time \<Rightarrow> baseFlowController \<times> ByteCount" where
  "conn_GetWindowUpdate c rtt now = getWindowUpdate c rtt now"

definition EnsureMinimumWindowSize :: "baseFlowController \<Rightarrow> ByteCount \<Rightarrow> Time \<Rightarrow> baseFlowController result" where
  "EnsureMinimumWindowSize c inc now =
     (if inc \<le> fc_receiveWindowSize c then Inr c
      else let newSize = min inc (fc_maxReceiveWindowSize c); delta = newSize - fc_receiveWindowSize c in
      rbind (if delta > 0 then
               (case fc_allowWindowIncrease c of
                  None \<Rightarrow> Inl (Panic ''nil pointer dereference'')
                | Some allow \<Rightarrow> Inr (if allow delta then c\<lparr>fc_receiveWindowSize := newSize\<rparr> else c))
             else Inr c) (\<lambda>c. Inr (startNewAutoTuningEpoch c now)))"

definition conn_Reset :: "baseFlowController \<Rightarrow> baseFlowController result" where
  "conn_Reset c =
     (if fc_bytesRead c > 0 \<or> fc_highestReceived c > 0 \<or> fc_epochStartTime c \<noteq> 0
      then Inl (ErrorNew ''flow controller reset after reading data'')
      else Inr (c\<lparr>fc_bytesSent := 0, fc_lastBlockedAt := 0, fc_sendWindow := 0\<rparr>))"

section \<open>Streams\<close>

record streamFlowController =
  sfc_base :: baseFlowController
  sfc_streamID :: StreamID
  sfc_receivedFinalOffset :: bool

definition NewStreamFlowController :: "StreamID \<Rightarrow> ByteCount \<Rightarrow> ByteCount \<Rightarrow> ByteCount \<Rightarrow> streamFlowController" where
  "NewStreamFlowController streamID receiveWindow maxReceiveWindow initialSendWindow =
     \<lparr>sfc_base = \<lparr>fc_bytesSent = 0, fc_sendWindow = initialSendWindow, fc_lastBlockedAt = 0, fc_bytesRead = 0, fc_highestReceived = 0,
        fc_receiveWindow = receiveWindow, fc_receiveWindowSize = receiveWindow, fc_maxReceiveWindowSize = maxReceiveWindow,
        fc_allowWindowIncrease = None, fc_epochStartTime = 0, fc_epochStartOffset = 0\<rparr>,
      sfc_streamID = streamID, sfc_receivedFinalOffset = False\<rparr>"

definition final_size_error :: "string \<Rightarrow> go_error" where
  "final_size_error m = TransportError FinalSizeError 0 m"

definition UpdateHighestReceived ::
  "streamFlowController \<Rightarrow> baseFlowController \<Rightarrow> ByteCount \<Rightarrow> bool \<Rightarrow> Time \<Rightarrow> (streamFlowController \<times> baseFlowController) result" where
  "UpdateHighestReceived c connection offset final now =
     (let highest = fc_highestReceived (sfc_base c) in
      if sfc_receivedFinalOffset c \<and> final \<and> offset \<noteq> highest
      then Inl (final_size_error ''received inconsistent final offset for stream'')
      else if sfc_receivedFinalOffset c \<and> offset > highest
      then Inl (final_size_error ''received offset for stream, but final offset was already received'')
      else let c = (if final then c\<lparr>sfc_receivedFinalOffset := True\<rparr> else c) in
      if offset = highest then Inr (c, connection)
      else if offset < highest then
        (if final then Inl (final_size_error ''received final offset for stream, but already received offset before'')
         else Inr (c, connection))
      else let b = (if highest = 0 then startNewAutoTuningEpoch (sfc_base c) now else sfc_base c);
               increment = offset - highest;
               c = c\<lparr>sfc_base := b\<lparr>fc_highestReceived := offset\<rparr>\<rparr> in
      if checkFlowControlViolation (sfc_base c)
      then Inl (TransportError FlowControlError 0 ''received too many bytes on stream'')
      else rbind (IncrementHighestReceived connection increment now) (\<lambda>connection. Inr (c, connection)))"

definition shouldQueueWindowUpdate :: "streamFlowController \<Rightarrow> bool" where
  "shouldQueueWindowUpdate c \<longleftrightarrow> \<not> sfc_receivedFinalOffset c \<and> hasWindowUpdate (sfc_base c)"

definition stream_AddBytesRead ::
  "streamFlowController \<Rightarrow> baseFlowController \<Rightarrow> ByteCount \<Rightarrow> (streamFlowController \<times> baseFlowController) \<times> bool \<times> bool" where
  "stream_AddBytesRead c connection n =
     (let c = c\<lparr>sfc_base := addBytesRead (sfc_base c) n\<rparr>;
          hasStreamWindowUpdate = shouldQueueWindowUpdate c;
          (connection, hasConnWindowUpdate) = conn_AddBytesRead connection n
      in ((c, connection), hasStreamWindowUpdate, hasConnWindowUpdate))"

definition stream_Abandon :: "streamFlowController \<Rightarrow> baseFlowController \<Rightarrow> streamFlowController \<times> baseFlowController" where
  "stream_Abandon c connection =
     (let b = sfc_base c; unread = fc_highestReceived b - fc_bytesRead b;
          c = c\<lparr>sfc_base := b\<lparr>fc_bytesRead := fc_highestReceived b\<rparr>\<rparr>
      in if unread > 0 then (c, fst (conn_AddBytesRead connection unread)) else (c, connection))"

definition stream_AddBytesSent ::
  "streamFlowController \<Rightarrow> baseFlowController \<Rightarrow> ByteCount \<Rightarrow> streamFlowController \<times> baseFlowController" where
  "stream_AddBytesSent c connection n = (c\<lparr>sfc_base := AddBytesSent (sfc_base c) n\<rparr>, AddBytesSent connection n)"

definition stream_SendWindowSize :: "streamFlowController \<Rightarrow> baseFlowController \<Rightarrow> ByteCount" where
  "stream_SendWindowSize c connection = min (SendWindowSize (sfc_base c)) (SendWindowSize connection)"

definition stream_IsNewlyBlocked :: "streamFlowController \<Rightarrow> streamFlowController \<times> bool" where
  "stream_IsNewlyBlocked c = (let (b, blocked, _) = IsNewlyBlocked (sfc_base c) in (c\<lparr>sfc_base := b\<rparr>, blocked))"

text \<open>\<open>protocol.ConnectionFlowControlMultiplier\<close> is 1.5.\<close>

definition stream_GetWindowUpdate ::
  "streamFlowController \<Rightarrow> baseFlowController \<Rightarrow> Duration \<Rightarrow> Time \<Rightarrow> ((streamFlowController \<times> baseFlowController) \<times> ByteCount) result" where
  "stream_GetWindowUpdate c connection rtt now =
     (if sfc_receivedFinalOffset c then Inr ((c, connection), 0)
      else let oldWindowSize = fc_receiveWindowSize (sfc_base c);
               (b, offset) = getWindowUpdate (sfc_base c) rtt now in
      rbind (if fc_receiveWindowSize b > oldWindowSize
             then EnsureMinimumWindowSize connection
                    (float_to_int (fl64 (fl64 (of_int (fc_receiveWindowSize b)) * (3 / 2)))) now
             else Inr connection) (\<lambda>connection.
      Inr ((c\<lparr>sfc_base := b\<rparr>, connection), offset)))"

section \<open>The receive window\<close>

text \<open>What was read, what was received, and what the peer may send are ordered, and the window never exceeds its size.\<close>

definition window_ok :: "baseFlowController \<Rightarrow> bool" where
  "window_ok c \<longleftrightarrow> 0 \<le> fc_bytesRead c \<and> fc_bytesRead c \<le> fc_highestReceived c \<and> fc_highestReceived c \<le> fc_receiveWindow c \<and>
     fc_receiveWindow c \<le> fc_bytesRead c + fc_receiveWindowSize c \<and> 0 \<le> fc_receiveWindowSize c"

text \<open>The sending half is untouched, and so are the received and read bytes.\<close>

definition same_counts :: "baseFlowController \<Rightarrow> baseFlowController \<Rightarrow> bool" where
  "same_counts c c' \<longleftrightarrow> fc_bytesSent c' = fc_bytesSent c \<and> fc_sendWindow c' = fc_sendWindow c \<and> fc_bytesRead c' = fc_bytesRead c \<and>
     fc_highestReceived c' = fc_highestReceived c \<and> fc_maxReceiveWindowSize c' = fc_maxReceiveWindowSize c \<and>
     fc_allowWindowIncrease c' = fc_allowWindowIncrease c"

lemma maybeAdjustWindowSize_spec:
  "same_counts c (maybeAdjustWindowSize c rtt now) \<and> fc_receiveWindow (maybeAdjustWindowSize c rtt now) = fc_receiveWindow c \<and>
   fc_receiveWindowSize c \<le> fc_receiveWindowSize (maybeAdjustWindowSize c rtt now) \<and>
   (fc_receiveWindowSize c \<le> fc_maxReceiveWindowSize c \<longrightarrow> fc_receiveWindowSize (maybeAdjustWindowSize c rtt now) \<le> fc_maxReceiveWindowSize c)"
  by (simp add: maybeAdjustWindowSize_def same_counts_def Let_def startNewAutoTuningEpoch_def)

lemma getWindowUpdate_spec:
  assumes "window_ok c" and "getWindowUpdate c rtt now = (c', offset)"
  shows "window_ok c'" and "same_counts c c'" and "fc_receiveWindow c \<le> fc_receiveWindow c'" and "offset \<le> fc_receiveWindow c'"
    and "fc_receiveWindowSize c \<le> fc_receiveWindowSize c'"
    and "fc_receiveWindowSize c \<le> fc_maxReceiveWindowSize c \<Longrightarrow> fc_receiveWindowSize c' \<le> fc_maxReceiveWindowSize c"
proof -
  obtain a where a: "maybeAdjustWindowSize c rtt now = a"
    by simp
  note adj = maybeAdjustWindowSize_spec [of c rtt now, unfolded a same_counts_def]
  have "c' = c \<and> offset = 0 \<or> c' = a\<lparr>fc_receiveWindow := fc_bytesRead a + fc_receiveWindowSize a\<rparr> \<and> offset = fc_receiveWindow c'"
    using assms(2) by (auto simp: getWindowUpdate_def a Let_def split: if_splits)
  then show "window_ok c'" "same_counts c c'" "fc_receiveWindow c \<le> fc_receiveWindow c'" "offset \<le> fc_receiveWindow c'"
      "fc_receiveWindowSize c \<le> fc_receiveWindowSize c'"
      "fc_receiveWindowSize c \<le> fc_maxReceiveWindowSize c \<Longrightarrow> fc_receiveWindowSize c' \<le> fc_maxReceiveWindowSize c"
    using assms(1) adj by (auto simp: window_ok_def same_counts_def)
qed

lemma EnsureMinimumWindowSize_spec:
  assumes "window_ok c" and "fc_allowWindowIncrease c = Some allow"
  obtains c' where "EnsureMinimumWindowSize c inc now = Inr c'" and "window_ok c'" and "same_counts c c'"
    and "fc_receiveWindow c' = fc_receiveWindow c" and "fc_receiveWindowSize c \<le> fc_receiveWindowSize c'"
    and "fc_receiveWindowSize c \<le> fc_maxReceiveWindowSize c \<longrightarrow> fc_receiveWindowSize c' \<le> fc_maxReceiveWindowSize c"
proof -
  let ?n = "min inc (fc_maxReceiveWindowSize c)"
  let ?c = "if inc \<le> fc_receiveWindowSize c then c
    else startNewAutoTuningEpoch (if ?n > fc_receiveWindowSize c \<and> allow (?n - fc_receiveWindowSize c) then c\<lparr>fc_receiveWindowSize := ?n\<rparr> else c) now"
  have "EnsureMinimumWindowSize c inc now = Inr ?c"
    using assms(2) by (simp add: EnsureMinimumWindowSize_def Let_def)
  then show ?thesis
    by (rule that) (use assms(1) in \<open>auto simp: window_ok_def same_counts_def startNewAutoTuningEpoch_def\<close>)
qed

section \<open>Two endpoints\<close>

text \<open>
  One endpoint sends on a fixed finite set of streams, the other one receives. Data frames, final offsets and window updates may be lost, duplicated and
  reordered: a frame that was sent may arrive at any later time. The window updates sent so far are kept in sets; a finished stream sends no more data.
\<close>

record flow_system =
  snd_conn :: baseFlowController
  snd_streams :: "StreamID \<Rightarrow> streamFlowController"
  rcv_conn :: baseFlowController
  rcv_streams :: "StreamID \<Rightarrow> streamFlowController"
  conn_updates :: "ByteCount set"
  stream_updates :: "StreamID \<Rightarrow> ByteCount set"
  finished :: "StreamID set"

abbreviation sent :: "flow_system \<Rightarrow> StreamID \<Rightarrow> ByteCount" where
  "sent x i \<equiv> fc_bytesSent (sfc_base (snd_streams x i))"

inductive flow_step :: "StreamID set \<Rightarrow> flow_system \<Rightarrow> flow_system \<Rightarrow> bool" for ids where
  send: "i \<in> ids \<Longrightarrow> i \<notin> finished x \<Longrightarrow> 0 \<le> n \<Longrightarrow> n \<le> stream_SendWindowSize (snd_streams x i) (snd_conn x) \<Longrightarrow>
    stream_AddBytesSent (snd_streams x i) (snd_conn x) n = (f, c) \<Longrightarrow>
    flow_step ids x (x\<lparr>snd_conn := c, snd_streams := (snd_streams x)(i := f)\<rparr>)"
| finish: "i \<in> ids \<Longrightarrow> flow_step ids x (x\<lparr>finished := insert i (finished x)\<rparr>)"
| receive: "i \<in> ids \<Longrightarrow> 0 \<le> offset \<Longrightarrow> offset \<le> sent x i \<Longrightarrow> (final \<longrightarrow> i \<in> finished x \<and> offset = sent x i) \<Longrightarrow>
    UpdateHighestReceived (rcv_streams x i) (rcv_conn x) offset final now = Inr (f, c) \<Longrightarrow>
    flow_step ids x (x\<lparr>rcv_conn := c, rcv_streams := (rcv_streams x)(i := f)\<rparr>)"
| read: "i \<in> ids \<Longrightarrow> 0 \<le> n \<Longrightarrow> fc_bytesRead (sfc_base (rcv_streams x i)) + n \<le> fc_highestReceived (sfc_base (rcv_streams x i)) \<Longrightarrow>
    stream_AddBytesRead (rcv_streams x i) (rcv_conn x) n = ((f, c), su, cu) \<Longrightarrow>
    flow_step ids x (x\<lparr>rcv_conn := c, rcv_streams := (rcv_streams x)(i := f)\<rparr>)"
| abandon: "i \<in> ids \<Longrightarrow> stream_Abandon (rcv_streams x i) (rcv_conn x) = (f, c) \<Longrightarrow>
    flow_step ids x (x\<lparr>rcv_conn := c, rcv_streams := (rcv_streams x)(i := f)\<rparr>)"
| update_conn: "conn_GetWindowUpdate (rcv_conn x) rtt now = (c, offset) \<Longrightarrow>
    flow_step ids x (x\<lparr>rcv_conn := c, conn_updates := insert offset (conn_updates x)\<rparr>)"
| update_stream: "i \<in> ids \<Longrightarrow> stream_GetWindowUpdate (rcv_streams x i) (rcv_conn x) rtt now = Inr ((f, c), offset) \<Longrightarrow>
    flow_step ids x (x\<lparr>rcv_conn := c, rcv_streams := (rcv_streams x)(i := f),
      stream_updates := (stream_updates x)(i := insert offset (stream_updates x i))\<rparr>)"
| max_data: "offset \<in> conn_updates x \<Longrightarrow> UpdateSendWindow (snd_conn x) offset = (c, b) \<Longrightarrow>
    flow_step ids x (x\<lparr>snd_conn := c\<rparr>)"
| max_stream_data: "i \<in> ids \<Longrightarrow> offset \<in> stream_updates x i \<Longrightarrow> UpdateSendWindow (sfc_base (snd_streams x i)) offset = (c, b) \<Longrightarrow>
    flow_step ids x (x\<lparr>snd_streams := (snd_streams x)(i := (snd_streams x i)\<lparr>sfc_base := c\<rparr>)\<rparr>)"

text \<open>
  The initial limits are exchanged as transport parameters: the sender's streams start with the windows of the receiver's streams, and the
  connection's window reaches the sender as its first update.
\<close>

definition flow_init :: "StreamID set \<Rightarrow> flow_system \<Rightarrow> bool" where
  "flow_init ids x \<longleftrightarrow>
     (\<exists>W M allow W' M' allow' w m w' m'. 0 \<le> W \<and> (\<forall>i. 0 \<le> w i) \<and>
        x = \<lparr>snd_conn = NewConnectionFlowController W' M' allow', snd_streams = (\<lambda>i. NewStreamFlowController i (w' i) (m' i) (w i)),
             rcv_conn = NewConnectionFlowController W M (Some allow), rcv_streams = (\<lambda>i. NewStreamFlowController i (w i) (m i) 0),
             conn_updates = {W}, stream_updates = (\<lambda>i. {}), finished = {}\<rparr>)"

text \<open>One direction of one stream: its sender, its receiver, the window updates sent for it, and whether it is finished.\<close>

definition stream_ok :: "streamFlowController \<Rightarrow> streamFlowController \<Rightarrow> ByteCount set \<Rightarrow> bool \<Rightarrow> bool" where
  "stream_ok s r W fin \<longleftrightarrow>
     window_ok (sfc_base r) \<and> fc_highestReceived (sfc_base r) \<le> fc_bytesSent (sfc_base s) \<and>
     fc_bytesSent (sfc_base s) \<le> fc_sendWindow (sfc_base s) \<and> fc_sendWindow (sfc_base s) \<le> fc_receiveWindow (sfc_base r) \<and>
     (\<forall>w \<in> W. w \<le> fc_receiveWindow (sfc_base r)) \<and>
     (sfc_receivedFinalOffset r \<longrightarrow> fin \<and> fc_highestReceived (sfc_base r) = fc_bytesSent (sfc_base s))"

definition conn_ok :: "baseFlowController \<Rightarrow> baseFlowController \<Rightarrow> ByteCount set \<Rightarrow> bool" where
  "conn_ok s r W \<longleftrightarrow>
     window_ok r \<and> fc_allowWindowIncrease r \<noteq> None \<and> fc_bytesSent s \<le> fc_sendWindow s \<and> fc_sendWindow s \<le> fc_receiveWindow r \<and>
     (\<forall>w \<in> W. w \<le> fc_receiveWindow r)"

definition flow_ok :: "StreamID set \<Rightarrow> flow_system \<Rightarrow> bool" where
  "flow_ok ids x \<longleftrightarrow>
     conn_ok (snd_conn x) (rcv_conn x) (conn_updates x) \<and>
     fc_highestReceived (rcv_conn x) = (\<Sum>i\<in>ids. fc_highestReceived (sfc_base (rcv_streams x i))) \<and>
     fc_bytesRead (rcv_conn x) = (\<Sum>i\<in>ids. fc_bytesRead (sfc_base (rcv_streams x i))) \<and>
     fc_bytesSent (snd_conn x) = (\<Sum>i\<in>ids. fc_bytesSent (sfc_base (snd_streams x i))) \<and>
     (\<forall>i \<in> ids. stream_ok (snd_streams x i) (rcv_streams x i) (stream_updates x i) (i \<in> finished x))"

section \<open>The invariant of the two endpoints\<close>

lemma sum_fun_upd:
  fixes g :: "'b \<Rightarrow> int"
  assumes "finite ids" and "i \<in> ids"
  shows "(\<Sum>j\<in>ids. g ((f(i := v)) j)) = (\<Sum>j\<in>ids. g (f j)) + g v - g (f i)"
proof -
  have "(\<Sum>j\<in>ids. g ((f(i := v)) j)) = g v + (\<Sum>j\<in>ids - {i}. g ((f(i := v)) j))"
    using sum.remove [OF assms, of "\<lambda>j. g ((f(i := v)) j)"] by simp
  also have "(\<Sum>j\<in>ids - {i}. g ((f(i := v)) j)) = (\<Sum>j\<in>ids - {i}. g (f j))"
    by (intro sum.cong) auto
  also have "\<dots> = (\<Sum>j\<in>ids. g (f j)) - g (f i)"
    using sum.remove [OF assms, of "\<lambda>j. g (f j)"] by simp
  finally show ?thesis
    by simp
qed

text \<open>Replacing the controllers of one stream and of the connection.\<close>

lemma flow_ok_replace:
  assumes ok: "flow_ok ids x" and ids: "finite ids" "i \<in> ids"
    and c: "conn_ok sc rc CW"
      "fc_highestReceived rc = fc_highestReceived (rcv_conn x) + fc_highestReceived (sfc_base r) - fc_highestReceived (sfc_base (rcv_streams x i))"
      "fc_bytesRead rc = fc_bytesRead (rcv_conn x) + fc_bytesRead (sfc_base r) - fc_bytesRead (sfc_base (rcv_streams x i))"
      "fc_bytesSent sc = fc_bytesSent (snd_conn x) + fc_bytesSent (sfc_base s) - fc_bytesSent (sfc_base (snd_streams x i))"
    and s: "stream_ok s r W (i \<in> finished x)"
  shows "flow_ok ids (x\<lparr>snd_conn := sc, snd_streams := (snd_streams x)(i := s), rcv_conn := rc, rcv_streams := (rcv_streams x)(i := r),
    conn_updates := CW, stream_updates := (stream_updates x)(i := W)\<rparr>)"
proof -
  note sums = sum_fun_upd [OF ids, of "\<lambda>f. fc_highestReceived (sfc_base f)" "rcv_streams x" r]
    sum_fun_upd [OF ids, of "\<lambda>f. fc_bytesRead (sfc_base f)" "rcv_streams x" r]
    sum_fun_upd [OF ids, of "\<lambda>f. fc_bytesSent (sfc_base f)" "snd_streams x" s]
  have "\<forall>j \<in> ids. stream_ok (((snd_streams x)(i := s)) j) (((rcv_streams x)(i := r)) j) (((stream_updates x)(i := W)) j) (j \<in> finished x)"
    using ok s by (auto simp: flow_ok_def)
  then show ?thesis
    using ok c unfolding flow_ok_def by (simp add: sums del: fun_upd_apply)
qed

lemma flow_okD:
  assumes "flow_ok ids x"
  shows "conn_ok (snd_conn x) (rcv_conn x) (conn_updates x)"
    and "i \<in> ids \<Longrightarrow> stream_ok (snd_streams x i) (rcv_streams x i) (stream_updates x i) (i \<in> finished x)"
  using assms by (simp_all add: flow_ok_def)

text \<open>A frame within both windows is accepted.\<close>

lemma UpdateHighestReceived_spec:
  assumes "window_ok (sfc_base f)" and "window_ok c" and "offset \<le> fc_receiveWindow (sfc_base f)"
    and "fc_highestReceived c + (max offset (fc_highestReceived (sfc_base f)) - fc_highestReceived (sfc_base f)) \<le> fc_receiveWindow c"
    and "final \<Longrightarrow> fc_highestReceived (sfc_base f) \<le> offset"
    and "sfc_receivedFinalOffset f \<Longrightarrow> offset \<le> fc_highestReceived (sfc_base f)"
  obtains f' c' where "UpdateHighestReceived f c offset final now = Inr (f', c')"
    and "window_ok (sfc_base f')" and "window_ok c'"
    and "fc_highestReceived (sfc_base f') = max offset (fc_highestReceived (sfc_base f))"
    and "fc_bytesRead (sfc_base f') = fc_bytesRead (sfc_base f)" and "fc_receiveWindow (sfc_base f') = fc_receiveWindow (sfc_base f)"
    and "sfc_receivedFinalOffset f' \<longleftrightarrow> sfc_receivedFinalOffset f \<or> final"
    and "fc_highestReceived c' = fc_highestReceived c + fc_highestReceived (sfc_base f') - fc_highestReceived (sfc_base f)"
    and "fc_bytesRead c' = fc_bytesRead c" and "fc_receiveWindow c' = fc_receiveWindow c" and "fc_allowWindowIncrease c' = fc_allowWindowIncrease c"
proof (cases "offset \<le> fc_highestReceived (sfc_base f)")
  case True
  let ?f = "if final then f\<lparr>sfc_receivedFinalOffset := True\<rparr> else f"
  have "UpdateHighestReceived f c offset final now = Inr (?f, c)"
    using True assms(5,6) by (auto simp: UpdateHighestReceived_def Let_def)
  then show ?thesis
    by (rule that) (use True assms in auto)
next
  case False
  let ?b = "if fc_highestReceived (sfc_base f) = 0 then startNewAutoTuningEpoch (sfc_base f) now else sfc_base f"
  let ?f = "(if final then f\<lparr>sfc_receivedFinalOffset := True\<rparr> else f)\<lparr>sfc_base := ?b\<lparr>fc_highestReceived := offset\<rparr>\<rparr>"
  let ?c = "(if fc_highestReceived c = 0 then startNewAutoTuningEpoch c now else c)"
  let ?c' = "?c\<lparr>fc_highestReceived := fc_highestReceived ?c + (offset - fc_highestReceived (sfc_base f))\<rparr>"
  have "\<not> sfc_receivedFinalOffset f"
    using False assms(6) by blast
  then have "UpdateHighestReceived f c offset final now = Inr (?f, ?c')"
    using False assms(1-5) by (simp add: UpdateHighestReceived_def IncrementHighestReceived_def checkFlowControlViolation_def
      startNewAutoTuningEpoch_def Let_def)
  then show ?thesis
    by (rule that) (use False assms in \<open>auto simp: window_ok_def startNewAutoTuningEpoch_def\<close>)
qed

lemma flow_receive:
  assumes ok: "flow_ok ids x" and ids: "finite ids" "i \<in> ids"
    and offset: "0 \<le> offset" "offset \<le> sent x i" "final \<longrightarrow> i \<in> finished x \<and> offset = sent x i"
  obtains f c where "UpdateHighestReceived (rcv_streams x i) (rcv_conn x) offset final now = Inr (f, c)"
    and "flow_ok ids (x\<lparr>rcv_conn := c, rcv_streams := (rcv_streams x)(i := f)\<rparr>)"
proof -
  let ?r = "rcv_streams x i" and ?h = "\<lambda>j. fc_highestReceived (sfc_base (rcv_streams x j))"
  note C = flow_okD(1) [OF ok, unfolded conn_ok_def] and I = flow_okD(2) [OF ok ids(2), unfolded stream_ok_def]
  have "fc_highestReceived (rcv_conn x) + (max offset (?h i) - ?h i) = (\<Sum>j\<in>ids. ?h j) + (max offset (?h i) - ?h i)"
    using ok by (simp add: flow_ok_def)
  also have "\<dots> = max offset (?h i) + (\<Sum>j\<in>ids - {i}. ?h j)"
    using sum.remove [OF ids, of ?h] by simp
  also have "\<dots> \<le> sent x i + (\<Sum>j\<in>ids - {i}. sent x j)"
    using offset(2) I ok by (intro add_mono sum_mono) (auto simp: flow_ok_def stream_ok_def)
  also have "\<dots> = fc_bytesSent (snd_conn x)"
    using ok sum.remove [OF ids, of "sent x"] by (simp add: flow_ok_def)
  finally have fits: "fc_highestReceived (rcv_conn x) + (max offset (?h i) - ?h i) \<le> fc_receiveWindow (rcv_conn x)"
    using C by linarith
  obtain f c where f: "UpdateHighestReceived ?r (rcv_conn x) offset final now = Inr (f, c)"
    "window_ok (sfc_base f)" "window_ok c" "fc_highestReceived (sfc_base f) = max offset (?h i)"
    "fc_bytesRead (sfc_base f) = fc_bytesRead (sfc_base ?r)" "fc_receiveWindow (sfc_base f) = fc_receiveWindow (sfc_base ?r)"
    "sfc_receivedFinalOffset f \<longleftrightarrow> sfc_receivedFinalOffset ?r \<or> final"
    "fc_highestReceived c = fc_highestReceived (rcv_conn x) + fc_highestReceived (sfc_base f) - ?h i"
    "fc_bytesRead c = fc_bytesRead (rcv_conn x)" "fc_receiveWindow c = fc_receiveWindow (rcv_conn x)"
    "fc_allowWindowIncrease c = fc_allowWindowIncrease (rcv_conn x)"
    by (rule UpdateHighestReceived_spec [OF _ _ _ fits, of final now]) (use C I offset in auto)
  have "stream_ok (snd_streams x i) f (stream_updates x i) (i \<in> finished x)"
    using f I offset by (auto simp: stream_ok_def)
  moreover have "conn_ok (snd_conn x) c (conn_updates x)"
    using f C by (simp add: conn_ok_def)
  ultimately have "flow_ok ids (x\<lparr>snd_conn := snd_conn x, snd_streams := (snd_streams x)(i := snd_streams x i), rcv_conn := c,
      rcv_streams := (rcv_streams x)(i := f), conn_updates := conn_updates x, stream_updates := (stream_updates x)(i := stream_updates x i)\<rparr>)"
    using f by (intro flow_ok_replace [OF ok ids]) simp_all
  then show ?thesis
    using that f(1) by simp
qed

lemma flow_ok_receiver:
  assumes ok: "flow_ok ids x" and ids: "finite ids" "i \<in> ids"
    and c: "conn_ok (snd_conn x) c (conn_updates x)" "fc_highestReceived c = fc_highestReceived (rcv_conn x)"
      "fc_bytesRead c = fc_bytesRead (rcv_conn x) + fc_bytesRead (sfc_base f) - fc_bytesRead (sfc_base (rcv_streams x i))"
      "fc_highestReceived (sfc_base f) = fc_highestReceived (sfc_base (rcv_streams x i))"
    and s: "stream_ok (snd_streams x i) f W (i \<in> finished x)"
  shows "flow_ok ids (x\<lparr>rcv_conn := c, rcv_streams := (rcv_streams x)(i := f), stream_updates := (stream_updates x)(i := W)\<rparr>)"
  using flow_ok_replace [OF ok ids c(1) _ c(3) _ s] c(2,4) by simp

lemma conn_unread:
  assumes "flow_ok ids x" and "finite ids" and "i \<in> ids"
  shows "fc_bytesRead (rcv_conn x) + (fc_highestReceived (sfc_base (rcv_streams x i)) - fc_bytesRead (sfc_base (rcv_streams x i)))
    \<le> fc_highestReceived (rcv_conn x)"
proof -
  let ?u = "\<lambda>j. fc_highestReceived (sfc_base (rcv_streams x j)) - fc_bytesRead (sfc_base (rcv_streams x j))"
  have "?u i \<le> (\<Sum>j\<in>ids. ?u j)"
    using assms by (intro member_le_sum) (auto simp: flow_ok_def stream_ok_def window_ok_def)
  then show ?thesis
    using assms(1) by (simp add: flow_ok_def sum_subtractf)
qed

lemma flow_update_stream:
  assumes ok: "flow_ok ids x" and ids: "finite ids" "i \<in> ids"
    and up: "stream_GetWindowUpdate (rcv_streams x i) (rcv_conn x) rtt now = Inr ((f, c), offset)"
  shows "flow_ok ids (x\<lparr>rcv_conn := c, rcv_streams := (rcv_streams x)(i := f),
    stream_updates := (stream_updates x)(i := insert offset (stream_updates x i))\<rparr>)"
proof -
  note C = flow_okD(1) [OF ok, unfolded conn_ok_def] and I = flow_okD(2) [OF ok ids(2), unfolded stream_ok_def]
  let ?r = "rcv_streams x i"
  show ?thesis
  proof (cases "sfc_receivedFinalOffset ?r")
    case True
    then have "f = ?r" "c = rcv_conn x" "offset = 0"
      using up by (auto simp: stream_GetWindowUpdate_def)
    moreover have "stream_ok (snd_streams x i) ?r (insert 0 (stream_updates x i)) (i \<in> finished x)"
      using I by (auto simp: stream_ok_def window_ok_def)
    ultimately show ?thesis
      using C by (intro flow_ok_receiver [OF ok ids]) (simp_all add: conn_ok_def)
  next
    case False
    obtain b where b: "getWindowUpdate (sfc_base ?r) rtt now = (b, offset)" "f = ?r\<lparr>sfc_base := b\<rparr>"
        and c: "c = rcv_conn x \<or> (\<exists>inc. EnsureMinimumWindowSize (rcv_conn x) inc now = Inr c)"
      using up False by (auto simp: stream_GetWindowUpdate_def Let_def rbind_eq_Inr split: prod.splits if_splits)
    have W: "window_ok (sfc_base ?r)"
      using I by simp
    note u = getWindowUpdate_spec(1-4) [OF W b(1), unfolded same_counts_def]
    obtain allow where allow: "fc_allowWindowIncrease (rcv_conn x) = Some allow"
      using C by auto
    have "window_ok c \<and> same_counts (rcv_conn x) c \<and> fc_receiveWindow c = fc_receiveWindow (rcv_conn x)"
      using c
    proof (elim disjE exE)
      fix inc
      assume e: "EnsureMinimumWindowSize (rcv_conn x) inc now = Inr c"
      show ?thesis
        by (rule EnsureMinimumWindowSize_spec [OF _ allow, of inc now]) (use C e in auto)
    qed (use C in \<open>simp add: same_counts_def\<close>)
    moreover have "stream_ok (snd_streams x i) f (insert offset (stream_updates x i)) (i \<in> finished x)"
      using I u False b(2) by (fastforce simp: stream_ok_def)
    ultimately show ?thesis
      using C b(2) u(2) by (intro flow_ok_receiver [OF ok ids]) (auto simp: conn_ok_def same_counts_def)
  qed
qed

lemma flow_step_ok:
  assumes "finite ids" and "flow_ok ids x" and "flow_step ids x y"
  shows "flow_ok ids y"
  using assms(3,2)
proof (cases rule: flow_step.cases)
  case (send i n f c)
  note C = flow_okD(1) [OF assms(2), unfolded conn_ok_def] and I = flow_okD(2) [OF assms(2) send(2), unfolded stream_ok_def]
  have fc: "f = (snd_streams x i)\<lparr>sfc_base := AddBytesSent (sfc_base (snd_streams x i)) n\<rparr>" "c = AddBytesSent (snd_conn x) n"
    using send(6) by (simp_all add: stream_AddBytesSent_def)
  have "\<not> sfc_receivedFinalOffset (rcv_streams x i)"
    using I send(3) by blast
  then have "stream_ok f (rcv_streams x i) (stream_updates x i) (i \<in> finished x)" "conn_ok c (rcv_conn x) (conn_updates x)"
    using C I send(4,5) by (auto simp: stream_ok_def conn_ok_def fc AddBytesSent_def stream_SendWindowSize_def SendWindowSize_def)
  then show ?thesis
    using flow_ok_replace [OF assms(2,1) send(2), of c "rcv_conn x" "conn_updates x" "rcv_streams x i" f "stream_updates x i"]
    by (simp add: send(1) fc AddBytesSent_def)
next
  case (finish i)
  then show ?thesis
    using assms(2) by (auto simp: flow_ok_def stream_ok_def)
next
  case (receive i offset final now f c)
  show ?thesis
    by (rule flow_receive [OF assms(2,1) receive(2-5), of now]) (use receive(1,6) in simp)
next
  case (read i n f c su cu)
  note C = flow_okD(1) [OF assms(2), unfolded conn_ok_def] and I = flow_okD(2) [OF assms(2) read(2), unfolded stream_ok_def]
  have fc: "f = (rcv_streams x i)\<lparr>sfc_base := addBytesRead (sfc_base (rcv_streams x i)) n\<rparr>" "c = addBytesRead (rcv_conn x) n"
    using read(5) by (simp_all add: stream_AddBytesRead_def conn_AddBytesRead_def Let_def)
  have "stream_ok (snd_streams x i) f (stream_updates x i) (i \<in> finished x)" "conn_ok (snd_conn x) c (conn_updates x)"
    using C I read(3,4) conn_unread [OF assms(2,1) read(2)]
    by (auto simp: stream_ok_def conn_ok_def fc addBytesRead_def window_ok_def)
  then show ?thesis
    using flow_ok_receiver [OF assms(2,1) read(2), of c f "stream_updates x i"] by (simp add: read(1) fc addBytesRead_def)
next
  case (abandon i f c)
  let ?b = "sfc_base (rcv_streams x i)" and ?u = "fc_highestReceived (sfc_base (rcv_streams x i)) - fc_bytesRead (sfc_base (rcv_streams x i))"
  note C = flow_okD(1) [OF assms(2), unfolded conn_ok_def] and I = flow_okD(2) [OF assms(2) abandon(2), unfolded stream_ok_def]
  have fc: "f = (rcv_streams x i)\<lparr>sfc_base := ?b\<lparr>fc_bytesRead := fc_highestReceived ?b\<rparr>\<rparr>" "c = (rcv_conn x)\<lparr>fc_bytesRead := fc_bytesRead (rcv_conn x) + ?u\<rparr>"
    using abandon(3) I by (auto simp: stream_Abandon_def conn_AddBytesRead_def addBytesRead_def window_ok_def Let_def split: if_splits)
  have "stream_ok (snd_streams x i) f (stream_updates x i) (i \<in> finished x)" "conn_ok (snd_conn x) c (conn_updates x)"
    using C I conn_unread [OF assms(2,1) abandon(2)] by (auto simp: stream_ok_def conn_ok_def fc window_ok_def)
  then show ?thesis
    using flow_ok_receiver [OF assms(2,1) abandon(2), of c f "stream_updates x i"] by (simp add: abandon(1) fc)
next
  case (update_conn rtt now c offset)
  note C = flow_okD(1) [OF assms(2), unfolded conn_ok_def]
  note u = getWindowUpdate_spec(1-4) [OF _ update_conn(2) [unfolded conn_GetWindowUpdate_def], unfolded same_counts_def]
  have "conn_ok (snd_conn x) c (insert offset (conn_updates x))"
    using C u by (fastforce simp: conn_ok_def)
  then show ?thesis
    using assms(2) C u(2) by (simp add: flow_ok_def update_conn(1))
next
  case (update_stream i rtt now f c offset)
  note C = flow_okD(1) [OF assms(2), unfolded conn_ok_def] and I = flow_okD(2) [OF assms(2) update_stream(2), unfolded stream_ok_def]
  show ?thesis
    using update_stream(3) by (auto simp: update_stream(1) intro: flow_update_stream [OF assms(2,1) update_stream(2)])
next
  case (max_data offset c b)
  then show ?thesis
    using assms(2) by (auto simp: flow_ok_def conn_ok_def UpdateSendWindow_def split: if_splits)
next
  case (max_stream_data i offset c b)
  note I = flow_okD(2) [OF assms(2) max_stream_data(2), unfolded stream_ok_def] and C = flow_okD(1) [OF assms(2)]
  let ?f = "(snd_streams x i)\<lparr>sfc_base := c\<rparr>"
  have "stream_ok ?f (rcv_streams x i) (stream_updates x i) (i \<in> finished x)" "fc_bytesSent c = sent x i"
    using I max_stream_data(3,4) by (auto simp: stream_ok_def UpdateSendWindow_def split: if_splits)
  then show ?thesis
    using flow_ok_replace [OF assms(2,1) max_stream_data(2) C, of "rcv_streams x i" ?f "stream_updates x i"] by (simp add: max_stream_data(1))
qed

lemma flow_ok_init: "flow_init ids x \<Longrightarrow> flow_ok ids x"
  by (auto simp: flow_init_def flow_ok_def conn_ok_def stream_ok_def window_ok_def NewConnectionFlowController_def NewStreamFlowController_def)

lemma flow_reachable_ok: "finite ids \<Longrightarrow> reachable (flow_init ids) (flow_step ids) x \<Longrightarrow> flow_ok ids x"
  by (erule reachable_invariant) (auto intro: flow_ok_init flow_step_ok)

section \<open>When the window is updated\<close>

lemma hasWindowUpdate_iff:
  assumes "0 \<le> fc_receiveWindowSize c" and "fc_receiveWindowSize c < 2 ^ 51"
  shows "hasWindowUpdate c \<longleftrightarrow> fc_receiveWindow c - fc_bytesRead c \<le> 3 * fc_receiveWindowSize c div 4"
proof -
  let ?n = "fc_receiveWindowSize c"
  have "fl64 (of_int ?n) = of_int ?n"
    using assms by (intro round_float_of_int) auto
  moreover have "fl64 (of_int ?n * (3 / 4)) = of_int ?n * (3 / 4)"
  proof (rule round_float_exact [of _ 2 "3 * ?n"])
    have "(of_int ?n :: rat) < 2 ^ 51"
      using assms(2) by (rule less_pow2_rat)
    then show "(of_int ?n :: rat) * (3 / 4) < 2 ^ (53 - 2)"
      by simp
  qed (use assms in simp_all)
  moreover have "float_to_int (of_int ?n * (3 / 4)) = 3 * ?n div 4"
    using float_to_int_div [of "3 * ?n" 4] assms(1) by (simp add: mult.commute)
  ultimately show ?thesis
    by (simp only: hasWindowUpdate_def)
qed

section \<open>Properties\<close>

text \<open>
  (C4) A peer that respects the limits is never accused: for two endpoints that run this code, with any loss, duplication and reordering of
  data, final offsets and window updates, on any finite set of streams, a frame the sender sent is never answered with a flow control or final size error.
\<close>

theorem honest_peer_accepted:
  assumes "finite ids" and "reachable (flow_init ids) (flow_step ids) x" and "i \<in> ids"
    and "0 \<le> offset" and "offset \<le> sent x i" and "final \<longrightarrow> i \<in> finished x \<and> offset = sent x i"
  shows "\<exists>f c. UpdateHighestReceived (rcv_streams x i) (rcv_conn x) offset final now = Inr (f, c)"
  using flow_receive [OF flow_reachable_ok [OF assms(1,2)] assms(1,3-6), of now] by metis

text \<open>The sender learns the window of the connection and sends 600 bytes on stream 4.\<close>

definition start_flow :: flow_system where
  "start_flow = \<lparr>snd_conn = NewConnectionFlowController 0 0 None, snd_streams = (\<lambda>i. NewStreamFlowController i 0 0 1000),
     rcv_conn = NewConnectionFlowController 5000 9000 (Some (\<lambda>_. True)), rcv_streams = (\<lambda>i. NewStreamFlowController i 1000 4000 0),
     conn_updates = {5000}, stream_updates = (\<lambda>i. {}), finished = {}\<rparr>"

definition sample_flow :: flow_system where
  "sample_flow = (let x = start_flow\<lparr>snd_conn := fst (UpdateSendWindow (snd_conn start_flow) 5000)\<rparr>;
                      (f, c) = stream_AddBytesSent (snd_streams x 4) (snd_conn x) 600
                  in x\<lparr>snd_conn := c, snd_streams := (snd_streams x)(4 := f)\<rparr>)"

lemma sample_flow_reachable: "reachable (flow_init {4}) (flow_step {4}) sample_flow"
proof -
  let ?x = "start_flow\<lparr>snd_conn := fst (UpdateSendWindow (snd_conn start_flow) 5000)\<rparr>"
  have "flow_init {4} start_flow"
    unfolding flow_init_def start_flow_def
    by (rule exI [of _ 5000], rule exI [of _ 9000], rule exI [of _ "\<lambda>_. True"], rule exI [of _ 0], rule exI [of _ 0], rule exI [of _ None],
      rule exI [of _ "\<lambda>_. 1000"], rule exI [of _ "\<lambda>_. 4000"], rule exI [of _ "\<lambda>_. 0"], rule exI [of _ "\<lambda>_. 0"]) simp
  moreover have "flow_step {4} start_flow ?x"
    by (rule flow_step.max_data [OF _ prod.collapse [symmetric]]) (simp add: start_flow_def)
  moreover have "flow_step {4} ?x sample_flow"
    unfolding sample_flow_def Let_def case_prod_beta
    by (rule flow_step.send [where n = 600, OF _ _ _ _ prod.collapse [symmetric]])
      (simp_all add: start_flow_def stream_SendWindowSize_def SendWindowSize_def NewStreamFlowController_def
        NewConnectionFlowController_def UpdateSendWindow_def)
  ultimately show ?thesis
    by (blast intro: reachable.intros)
qed

theorem honest_peer_accepted_witness:
  "\<exists>f c. UpdateHighestReceived (rcv_streams sample_flow 4) (rcv_conn sample_flow) 600 False 100 = Inr (f, c)"
  using honest_peer_accepted [of "{4}" sample_flow 4 600 False 100] sample_flow_reachable
  by (simp add: sample_flow_def start_flow_def NewStreamFlowController_def stream_AddBytesSent_def AddBytesSent_def)

text \<open>
  (C18) The connection accounts for its streams: at every moment the bytes received and the bytes read on the connection are the sums over the streams,
  what was read never exceeds what was received, and what was received never exceeds the window.
\<close>

theorem connection_accounts_for_streams:
  assumes "finite ids" and "reachable (flow_init ids) (flow_step ids) x"
  shows "fc_highestReceived (rcv_conn x) = (\<Sum>i\<in>ids. fc_highestReceived (sfc_base (rcv_streams x i))) \<and>
    fc_bytesRead (rcv_conn x) = (\<Sum>i\<in>ids. fc_bytesRead (sfc_base (rcv_streams x i))) \<and>
    fc_bytesRead (rcv_conn x) \<le> fc_highestReceived (rcv_conn x) \<and> fc_highestReceived (rcv_conn x) \<le> fc_receiveWindow (rcv_conn x) \<and>
    fc_bytesSent (snd_conn x) = (\<Sum>i\<in>ids. sent x i) \<and> fc_bytesSent (snd_conn x) \<le> fc_sendWindow (snd_conn x)"
  using flow_reachable_ok [OF assms] by (simp add: flow_ok_def conn_ok_def window_ok_def)

theorem connection_accounts_for_streams_witness:
  "fc_highestReceived (rcv_conn sample_flow) = (\<Sum>i\<in>{4}. fc_highestReceived (sfc_base (rcv_streams sample_flow i)))"
  using connection_accounts_for_streams [OF _ sample_flow_reachable] by simp

text \<open>
  (C26) The receiver never gets stuck: once the application has read everything that the peer was allowed to send, a window update is available, it
  extends the limit by at least the window size, and auto-tuning keeps the window size between its old value and its maximum.
\<close>

theorem window_update_progress:
  assumes "window_ok c" and "0 < fc_receiveWindowSize c" and "fc_receiveWindowSize c < 2 ^ 51"
    and "fc_receiveWindowSize c \<le> fc_maxReceiveWindowSize c" and "fc_bytesRead c = fc_receiveWindow c"
  shows "hasWindowUpdate c \<and>
    (case getWindowUpdate c rtt now of (c', offset) \<Rightarrow>
       window_ok c' \<and> offset = fc_receiveWindow c' \<and> fc_receiveWindow c + fc_receiveWindowSize c \<le> offset \<and>
       fc_receiveWindowSize c \<le> fc_receiveWindowSize c' \<and> fc_receiveWindowSize c' \<le> fc_maxReceiveWindowSize c)"
proof -
  have has: "hasWindowUpdate c"
    using assms(2,3,5) by (simp add: hasWindowUpdate_iff)
  obtain c' offset where u: "getWindowUpdate c rtt now = (c', offset)"
    by (cases "getWindowUpdate c rtt now")
  have "offset = fc_receiveWindow c'" "fc_receiveWindow c' = fc_bytesRead c' + fc_receiveWindowSize c'"
    using u has by (auto simp: getWindowUpdate_def Let_def)
  then show ?thesis
    using has getWindowUpdate_spec [OF assms(1) u] assms(4,5) by (simp add: u same_counts_def)
qed

theorem window_update_progress_witness:
  "hasWindowUpdate ((NewConnectionFlowController 1000 4000 None)\<lparr>fc_bytesRead := 1000, fc_highestReceived := 1000\<rparr>)"
  using window_update_progress [of "(NewConnectionFlowController 1000 4000 None)\<lparr>fc_bytesRead := 1000, fc_highestReceived := 1000\<rparr>"]
  by (simp add: NewConnectionFlowController_def window_ok_def)

end
