(* ===== verification/Conn_ID.thy ===== *)
theory Conn_ID
  imports Wire_Conn_Frames
begin

text \<open>
  Connection IDs: the manager of the IDs that the peer issued (\<open>conn_id_manager.go\<close>) and the generator of the IDs that the peer may use
  (\<open>conn_id_generator.go\<close>). The callbacks of both are events that the operations return in order. The random
  number that the manager draws and the ID that the generator function returns are arguments. A Go map that is iterated
  over is an association list; the order in which its elements are visited is the order of that list.
\<close>

section \<open>The manager\<close>

type_synonym pathID = int

record newConnID =
  nc_SequenceNumber :: u64
  nc_ConnectionID :: ConnectionID
  nc_StatelessResetToken :: StatelessResetToken

datatype connid_event =
    QueueRetire u64
  | AddResetToken StatelessResetToken
  | RemoveResetToken StatelessResetToken

record connIDManager =
  cm_queue :: "newConnID list"
  cm_highestProbingID :: u64
  cm_pathProbing :: "(pathID \<times> newConnID) list"
  cm_handshakeComplete :: bool
  cm_activeSequenceNumber :: u64
  cm_highestRetired :: u64
  cm_activeConnectionID :: ConnectionID
  cm_activeStatelessResetToken :: "StatelessResetToken option"
  cm_packetsSinceLastChange :: u32
  cm_packetsPerConnectionID :: u32
  cm_closed :: bool
  cm_connectionIDLimit :: u64

type_synonym manager_result = "(connIDManager \<times> connid_event list) result"

definition newConnIDManager :: "ConnectionID \<Rightarrow> connIDManager" where
  "newConnIDManager initialDestConnID =
     \<lparr>cm_queue = [], cm_highestProbingID = 0, cm_pathProbing = [], cm_handshakeComplete = False, cm_activeSequenceNumber = 0,
      cm_highestRetired = 0, cm_activeConnectionID = initialDestConnID, cm_activeStatelessResetToken = None,
      cm_packetsSinceLastChange = 0, cm_packetsPerConnectionID = 0, cm_closed = False, cm_connectionIDLimit = 0\<rparr>"

definition closed_panic :: go_error where
  "closed_panic = Panic ''connection ID manager is closed''"

definition remove_token :: "StatelessResetToken option \<Rightarrow> connid_event list" where
  "remove_token t = (case t of None \<Rightarrow> [] | Some t \<Rightarrow> [RemoveResetToken t])"

text \<open>The loop of \<open>addConnectionID\<close> that inserts an element in the middle of the queue.\<close>

fun insert_connID :: "newConnID list \<Rightarrow> newConnID \<Rightarrow> newConnID list result" where
  "insert_connID [] n = Inr []"
| "insert_connID (el # els) n =
     (if nc_SequenceNumber el = nc_SequenceNumber n then
        (if nc_ConnectionID el \<noteq> nc_ConnectionID n
         then Inl (ErrorNew ''received conflicting connection IDs for sequence number'')
         else if nc_StatelessResetToken el \<noteq> nc_StatelessResetToken n
         then Inl (ErrorNew ''received conflicting stateless reset tokens for sequence number'')
         else Inr (el # els))
      else if nc_SequenceNumber el > nc_SequenceNumber n then Inr (n # el # els)
      else rbind (insert_connID els n) (\<lambda>els. Inr (el # els)))"

definition addConnectionID :: "connIDManager \<Rightarrow> u64 \<Rightarrow> ConnectionID \<Rightarrow> StatelessResetToken \<Rightarrow> connIDManager result" where
  "addConnectionID h seq connID resetToken =
     (let n = \<lparr>nc_SequenceNumber = seq, nc_ConnectionID = connID, nc_StatelessResetToken = resetToken\<rparr> in
      if length (cm_queue h) = 0 \<or> nc_SequenceNumber (last (cm_queue h)) < seq
      then Inr (h\<lparr>cm_queue := cm_queue h @ [n]\<rparr>)
      else rbind (insert_connID (cm_queue h) n) (\<lambda>q. Inr (h\<lparr>cm_queue := q\<rparr>)))"

definition AddFromPreferredAddress :: "connIDManager \<Rightarrow> ConnectionID \<Rightarrow> StatelessResetToken \<Rightarrow> connIDManager result" where
  "AddFromPreferredAddress h connID resetToken = addConnectionID h 1 connID resetToken"

definition updateConnectionID :: "connIDManager \<Rightarrow> u32 \<Rightarrow> manager_result" where
  "updateConnectionID h rnd =
     (if cm_closed h then Inl closed_panic
      else let events = QueueRetire (cm_activeSequenceNumber h) # remove_token (cm_activeStatelessResetToken h);
               h = h\<lparr>cm_highestRetired := max (cm_highestRetired h) (cm_activeSequenceNumber h)\<rparr> in
      case cm_queue h of
        [] \<Rightarrow> Inl (Panic ''nil pointer dereference'')
      | front # q \<Rightarrow>
          Inr (h\<lparr>cm_queue := q, cm_activeSequenceNumber := nc_SequenceNumber front, cm_activeConnectionID := nc_ConnectionID front,
                 cm_activeStatelessResetToken := Some (nc_StatelessResetToken front), cm_packetsSinceLastChange := 0,
                 cm_packetsPerConnectionID := ucast (PacketsPerConnectionID div 2) + rnd\<rparr>,
               events @ [AddResetToken (nc_StatelessResetToken front)]))"

text \<open>\<open>rnd\<close> is drawn when the active connection ID has to be replaced.\<close>

definition manager_add :: "connIDManager \<Rightarrow> NewConnectionIDFrame \<Rightarrow> u32 \<Rightarrow> manager_result" where
  "manager_add h f rnd =
     (if length (cm_activeConnectionID h) = 0
      then Inl (TransportError ProtocolViolation 0 ''received NEW_CONNECTION_ID frame but zero-length connection IDs are in use'')
      else if ncid_SequenceNumber f < max (cm_activeSequenceNumber h) (cm_highestProbingID h) \<or>
              ncid_SequenceNumber f < cm_highestRetired h
      then Inr (h, [QueueRetire (ncid_SequenceNumber f)])
      else let retired = (if ncid_RetirePriorTo f \<noteq> 0
                          then filter (\<lambda>(pid, entry). nc_SequenceNumber entry < ncid_RetirePriorTo f) (cm_pathProbing h) else []);
               probing = (if ncid_RetirePriorTo f \<noteq> 0
                          then filter (\<lambda>(pid, entry). \<not> nc_SequenceNumber entry < ncid_RetirePriorTo f) (cm_pathProbing h)
                          else cm_pathProbing h);
               events1 = map (\<lambda>(pid, entry). QueueRetire (nc_SequenceNumber entry)) retired;
               h = h\<lparr>cm_pathProbing := probing\<rparr>;
               old = takeWhile (\<lambda>el. nc_SequenceNumber el < ncid_RetirePriorTo f) (cm_queue h);
               events2 = (if ncid_RetirePriorTo f > cm_highestRetired h
                          then map (\<lambda>el. QueueRetire (nc_SequenceNumber el)) old else []);
               h = (if ncid_RetirePriorTo f > cm_highestRetired h
                    then h\<lparr>cm_queue := dropWhile (\<lambda>el. nc_SequenceNumber el < ncid_RetirePriorTo f) (cm_queue h),
                           cm_highestRetired := ncid_RetirePriorTo f\<rparr>
                    else h) in
      if ncid_SequenceNumber f = cm_activeSequenceNumber h then Inr (h, events1 @ events2)
      else rbind (addConnectionID h (ncid_SequenceNumber f) (ncid_ConnectionID f) (ncid_StatelessResetToken f)) (\<lambda>h.
      if cm_activeSequenceNumber h < ncid_RetirePriorTo f
      then rbind (updateConnectionID h rnd) (\<lambda>(h, events). Inr (h, events1 @ events2 @ events))
      else Inr (h, events1 @ events2)))"

definition manager_Add :: "connIDManager \<Rightarrow> NewConnectionIDFrame \<Rightarrow> u32 \<Rightarrow> manager_result" where
  "manager_Add h f rnd =
     rbind (manager_add h f rnd) (\<lambda>(h, events).
       let connIDLimit = (if cm_connectionIDLimit h = 0 then of_nat MaxActiveConnectionIDs else cm_connectionIDLimit h) in
       if (of_nat (length (cm_queue h)) :: u64) \<ge> connIDLimit then Inl (TransportError ConnectionIDLimitError 0 [])
       else Inr (h, events))"

definition manager_Close :: "connIDManager \<Rightarrow> connIDManager \<times> connid_event list" where
  "manager_Close h = (h\<lparr>cm_closed := True\<rparr>, remove_token (cm_activeStatelessResetToken h))"

definition ChangeInitialConnID :: "connIDManager \<Rightarrow> ConnectionID \<Rightarrow> connIDManager result" where
  "ChangeInitialConnID h connID =
     (if cm_activeSequenceNumber h \<noteq> 0 then Inl (Panic ''expected first connection ID to have sequence number 0'')
      else Inr (h\<lparr>cm_activeConnectionID := connID\<rparr>))"

definition SetStatelessResetToken :: "connIDManager \<Rightarrow> StatelessResetToken \<Rightarrow> manager_result" where
  "SetStatelessResetToken h token =
     (if cm_closed h then Inl closed_panic
      else if cm_activeSequenceNumber h \<noteq> 0 then Inl (Panic ''expected first connection ID to have sequence number 0'')
      else Inr (h\<lparr>cm_activeStatelessResetToken := Some token\<rparr>, [AddResetToken token]))"

definition manager_SentPacket :: "connIDManager \<Rightarrow> connIDManager" where
  "manager_SentPacket h = h\<lparr>cm_packetsSinceLastChange := cm_packetsSinceLastChange h + 1\<rparr>"

definition shouldUpdateConnID :: "connIDManager \<Rightarrow> bool" where
  "shouldUpdateConnID h \<longleftrightarrow>
     (if \<not> cm_handshakeComplete h then False
      else if length (cm_queue h) > 0 \<and> cm_activeSequenceNumber h = 0 then True
      else 2 * length (cm_queue h) \<ge> MaxActiveConnectionIDs \<and> cm_packetsSinceLastChange h \<ge> cm_packetsPerConnectionID h)"

definition manager_Get :: "connIDManager \<Rightarrow> u32 \<Rightarrow> (connIDManager \<times> connid_event list \<times> ConnectionID) result" where
  "manager_Get h rnd =
     (if cm_closed h then Inl closed_panic
      else rbind (if shouldUpdateConnID h then updateConnectionID h rnd else Inr (h, [])) (\<lambda>(h, events).
        Inr (h, events, cm_activeConnectionID h)))"

definition manager_SetHandshakeComplete :: "connIDManager \<Rightarrow> connIDManager" where
  "manager_SetHandshakeComplete h = h\<lparr>cm_handshakeComplete := True\<rparr>"

text \<open>The ID for a path, or \<open>None\<close> when there is none to give.\<close>

definition GetConnIDForPath :: "connIDManager \<Rightarrow> pathID \<Rightarrow> (connIDManager \<times> ConnectionID option) result" where
  "GetConnIDForPath h pid =
     (if cm_closed h then Inl closed_panic
      else if length (cm_activeConnectionID h) = 0 then Inr (h, Some [])
      else case map_of (cm_pathProbing h) pid of
        Some entry \<Rightarrow> Inr (h, Some (nc_ConnectionID entry))
      | None \<Rightarrow>
          (case cm_queue h of
             [] \<Rightarrow> Inr (h, None)
           | front # q \<Rightarrow>
               Inr (h\<lparr>cm_queue := q, cm_pathProbing := (pid, front) # cm_pathProbing h,
                      cm_highestProbingID := nc_SequenceNumber front\<rparr>, Some (nc_ConnectionID front))))"

definition RetireConnIDForPath :: "connIDManager \<Rightarrow> pathID \<Rightarrow> manager_result" where
  "RetireConnIDForPath h pid =
     (if cm_closed h then Inl closed_panic
      else if length (cm_activeConnectionID h) = 0 then Inr (h, [])
      else case map_of (cm_pathProbing h) pid of
        None \<Rightarrow> Inr (h, [])
      | Some entry \<Rightarrow>
          Inr (h\<lparr>cm_pathProbing := filter (\<lambda>(pid0, _). pid0 \<noteq> pid) (cm_pathProbing h)\<rparr>, [QueueRetire (nc_SequenceNumber entry)]))"

section \<open>The generator\<close>

datatype generator_event =
    AddConnID ConnectionID
  | RemoveConnID ConnectionID
  | RetireConnID ConnectionID
  | ReplaceWithClosedIDs "ConnectionID list" "byte list"
  | QueueNewConnID NewConnectionIDFrame

record connIDGenerator =
  cg_connIDLen :: nat
  cg_highestSeq :: u64
  cg_activeSrcConnIDs :: "(u64 \<times> ConnectionID) list"
  cg_initialClientDestConnID :: "ConnectionID option"

definition newConnIDGenerator :: "ConnectionID \<Rightarrow> ConnectionID option \<Rightarrow> nat \<Rightarrow> connIDGenerator" where
  "newConnIDGenerator initialConnectionID initialClientDestConnID len =
     \<lparr>cg_connIDLen = len, cg_highestSeq = 0, cg_activeSrcConnIDs = [(0, initialConnectionID)],
      cg_initialClientDestConnID = initialClientDestConnID\<rparr>"

text \<open>
  \<open>gen\<close> is the outcome of the generator function for the next connection ID, \<open>token\<close> the stateless reset token of an ID.
\<close>

definition issueNewConnID ::
  "(ConnectionID \<Rightarrow> StatelessResetToken) \<Rightarrow> connIDGenerator \<Rightarrow> ConnectionID result \<Rightarrow> (connIDGenerator \<times> generator_event list) result" where
  "issueNewConnID token m gen =
     rbind gen (\<lambda>connID.
       Inr (m\<lparr>cg_activeSrcConnIDs := (cg_highestSeq m + 1, connID) # cg_activeSrcConnIDs m, cg_highestSeq := cg_highestSeq m + 1\<rparr>,
            [AddConnID connID,
             QueueNewConnID \<lparr>ncid_SequenceNumber = cg_highestSeq m + 1, ncid_RetirePriorTo = 0, ncid_ConnectionID = connID,
                             ncid_StatelessResetToken = token connID\<rparr>]))"

text \<open>The iterations of \<open>SetMaxActiveConnIDs\<close>, one for each outcome of the generator function.\<close>

fun issue_connIDs ::
  "(ConnectionID \<Rightarrow> StatelessResetToken) \<Rightarrow> connIDGenerator \<Rightarrow> ConnectionID result list \<Rightarrow> (connIDGenerator \<times> generator_event list) result" where
  "issue_connIDs token m [] = Inr (m, [])"
| "issue_connIDs token m (gen # gens) =
     rbind (issueNewConnID token m gen) (\<lambda>(m, events).
     rbind (issue_connIDs token m gens) (\<lambda>(m, events'). Inr (m, events @ events')))"

definition SetMaxActiveConnIDs ::
  "(ConnectionID \<Rightarrow> StatelessResetToken) \<Rightarrow> connIDGenerator \<Rightarrow> u64 \<Rightarrow> (nat \<Rightarrow> ConnectionID result) \<Rightarrow>
   (connIDGenerator \<times> generator_event list) result" where
  "SetMaxActiveConnIDs token m limit gens =
     (if cg_connIDLen m = 0 then Inr (m, [])
      else issue_connIDs token m
             (map gens [length (cg_activeSrcConnIDs m)..<unat (min limit MaxIssuedConnectionIDs)]))"

definition generator_Retire ::
  "(ConnectionID \<Rightarrow> StatelessResetToken) \<Rightarrow> connIDGenerator \<Rightarrow> u64 \<Rightarrow> ConnectionID \<Rightarrow> ConnectionID result \<Rightarrow>
   (connIDGenerator \<times> generator_event list) result" where
  "generator_Retire token m seq sentWithDestConnID gen =
     (if seq > cg_highestSeq m then Inl (TransportError ProtocolViolation 0 ''retired connection ID (highest issued)'')
      else case map_of (cg_activeSrcConnIDs m) seq of
        None \<Rightarrow> Inr (m, [])
      | Some connID \<Rightarrow>
          if connID = sentWithDestConnID
          then Inl (TransportError ProtocolViolation 0
                 ''retired connection ID, which was used as the Destination Connection ID on this packet'')
          else let m = m\<lparr>cg_activeSrcConnIDs := filter (\<lambda>(s, _). s \<noteq> seq) (cg_activeSrcConnIDs m)\<rparr> in
          if seq = 0 then Inr (m, [RetireConnID connID])
          else rbind (issueNewConnID token m gen) (\<lambda>(m, events). Inr (m, RetireConnID connID # events)))"

definition generator_SetHandshakeComplete :: "connIDGenerator \<Rightarrow> connIDGenerator \<times> generator_event list" where
  "generator_SetHandshakeComplete m =
     (case cg_initialClientDestConnID m of
        None \<Rightarrow> (m, [])
      | Some connID \<Rightarrow> (m\<lparr>cg_initialClientDestConnID := None\<rparr>, [RetireConnID connID]))"

definition all_connIDs :: "connIDGenerator \<Rightarrow> ConnectionID list" where
  "all_connIDs m = (case cg_initialClientDestConnID m of None \<Rightarrow> [] | Some c \<Rightarrow> [c]) @ map snd (cg_activeSrcConnIDs m)"

definition RemoveAll :: "connIDGenerator \<Rightarrow> generator_event list" where
  "RemoveAll m = map RemoveConnID (all_connIDs m)"

definition ReplaceWithClosed :: "connIDGenerator \<Rightarrow> byte list \<Rightarrow> generator_event list" where
  "ReplaceWithClosed m connClose = [ReplaceWithClosedIDs (all_connIDs m) connClose]"

section \<open>The invariant of the manager\<close>

text \<open>The unused connection IDs are ordered, newer than the active one, and none of them was to be retired.\<close>

definition manager_ok :: "connIDManager \<Rightarrow> bool" where
  "manager_ok h \<longleftrightarrow>
     sorted_wrt (\<lambda>a b. nc_SequenceNumber a < nc_SequenceNumber b) (cm_queue h) \<and>
     (\<forall>el \<in> set (cm_queue h). cm_activeSequenceNumber h < nc_SequenceNumber el) \<and>
     cm_highestRetired h \<le> cm_activeSequenceNumber h \<and> \<not> cm_closed h"

lemma insert_connID_spec:
  assumes "insert_connID q n = Inr q'" and "sorted_wrt (\<lambda>a b. nc_SequenceNumber a < nc_SequenceNumber b) q"
  shows "sorted_wrt (\<lambda>a b. nc_SequenceNumber a < nc_SequenceNumber b) q' \<and> set q' \<subseteq> insert n (set q) \<and> (q \<noteq> [] \<longrightarrow> q' \<noteq> [])"
  using assms
proof (induction q n arbitrary: q' rule: insert_connID.induct)
  case (2 el els n)
  then show ?case
    by (fastforce simp: rbind_eq_Inr split: if_splits)
qed simp

lemma insert_connID_error: "insert_connID q n = Inl e \<Longrightarrow> \<exists>m. e = ErrorNew m"
  by (induction q n rule: insert_connID.induct) (auto simp: rbind_def split: if_splits sum.splits)

lemma addConnectionID_spec:
  assumes "addConnectionID h seq c t = Inr h'" and "sorted_wrt (\<lambda>a b. nc_SequenceNumber a < nc_SequenceNumber b) (cm_queue h)"
  obtains q where "h' = h\<lparr>cm_queue := q\<rparr>" and "sorted_wrt (\<lambda>a b. nc_SequenceNumber a < nc_SequenceNumber b) q"
    and "\<forall>el \<in> set q. el \<in> set (cm_queue h) \<or> nc_SequenceNumber el = seq" and "q \<noteq> []"
proof (cases "cm_queue h = [] \<or> nc_SequenceNumber (last (cm_queue h)) < seq")
  case True
  let ?n = "\<lparr>nc_SequenceNumber = seq, nc_ConnectionID = c, nc_StatelessResetToken = t\<rparr>"
  have "nc_SequenceNumber el < seq" if "el \<in> set (cm_queue h)" for el
    using True that assms(2) by (cases "cm_queue h" rule: rev_cases) (fastforce simp: sorted_wrt_append)+
  then show ?thesis
    using that [of "cm_queue h @ [?n]"] True assms by (auto simp: addConnectionID_def sorted_wrt_append)
next
  case False
  then obtain q where q: "insert_connID (cm_queue h) \<lparr>nc_SequenceNumber = seq, nc_ConnectionID = c, nc_StatelessResetToken = t\<rparr> = Inr q" "h' = h\<lparr>cm_queue := q\<rparr>"
    using assms(1) by (auto simp: addConnectionID_def rbind_eq_Inr)
  note spec = insert_connID_spec [OF q(1) assms(2)]
  have "\<forall>el \<in> set q. el \<in> set (cm_queue h) \<or> nc_SequenceNumber el = seq"
    using spec by force
  then show ?thesis
    using that [of q] spec q(2) False by simp
qed

lemma updateConnectionID_eq:
  assumes "\<not> cm_closed h" and "cm_queue h = front # q"
  obtains h' ev where "updateConnectionID h rnd = Inr (h', ev)" and "cm_queue h' = q"
    and "cm_activeSequenceNumber h' = nc_SequenceNumber front" and "cm_highestRetired h' = max (cm_highestRetired h) (cm_activeSequenceNumber h)"
    and "\<not> cm_closed h'" and "\<And>r. QueueRetire r \<in> set ev \<Longrightarrow> r = cm_activeSequenceNumber h" and "cm_highestProbingID h' = cm_highestProbingID h"
  using assms that by (auto simp: updateConnectionID_def Let_def remove_token_def split: option.splits)

lemma updateConnectionID_ok:
  assumes "manager_ok h" and "cm_queue h \<noteq> []"
  obtains h' ev where "updateConnectionID h rnd = Inr (h', ev)" and "manager_ok h'"
    and "cm_activeSequenceNumber h < cm_activeSequenceNumber h'" and "\<And>r. QueueRetire r \<in> set ev \<Longrightarrow> r = cm_activeSequenceNumber h"
    and "cm_highestProbingID h' = cm_highestProbingID h"
proof -
  obtain front q where q: "cm_queue h = front # q"
    using assms(2) by (cases "cm_queue h") auto
  have ok: "cm_highestRetired h \<le> cm_activeSequenceNumber h" "\<not> cm_closed h" "cm_activeSequenceNumber h < nc_SequenceNumber front"
    using assms(1) q by (auto simp: manager_ok_def)
  obtain h' ev where h': "updateConnectionID h rnd = Inr (h', ev)" "cm_queue h' = q" "cm_activeSequenceNumber h' = nc_SequenceNumber front"
    "cm_highestRetired h' = max (cm_highestRetired h) (cm_activeSequenceNumber h)" "\<not> cm_closed h'"
    "\<And>r. QueueRetire r \<in> set ev \<Longrightarrow> r = cm_activeSequenceNumber h" "cm_highestProbingID h' = cm_highestProbingID h"
    by (rule updateConnectionID_eq [OF ok(2) q, of rnd]) blast
  show ?thesis
    by (rule that [OF h'(1)]) (use h' assms(1) q ok in \<open>auto simp: manager_ok_def\<close>)
qed

lemma dropWhile_seq:
  assumes "sorted_wrt (\<lambda>a b. nc_SequenceNumber a < nc_SequenceNumber b) q"
  shows "\<forall>el \<in> set (dropWhile (\<lambda>el. nc_SequenceNumber el < n) q). n \<le> nc_SequenceNumber el \<and> el \<in> set q"
    and "sorted_wrt (\<lambda>a b. nc_SequenceNumber a < nc_SequenceNumber b) (dropWhile (\<lambda>el. nc_SequenceNumber el < n) q)"
proof -
  show "\<forall>el \<in> set (dropWhile (\<lambda>el. nc_SequenceNumber el < n) q). n \<le> nc_SequenceNumber el \<and> el \<in> set q"
    using assms
  proof (induction q)
    case (Cons a q)
    then show ?case
      by (cases "nc_SequenceNumber a < n") (auto simp: not_less intro: order_trans less_imp_le)
  qed simp
  show "sorted_wrt (\<lambda>a b. nc_SequenceNumber a < nc_SequenceNumber b) (dropWhile (\<lambda>el. nc_SequenceNumber el < n) q)"
    using assms by (induction q) auto
qed

text \<open>The part of \<open>add\<close> behind the first guard.\<close>

lemma manager_add_late:
  assumes ok: "manager_ok h" and f: "ncid_RetirePriorTo f \<le> ncid_SequenceNumber f"
    and late: "\<not> (ncid_SequenceNumber f < max (cm_activeSequenceNumber h) (cm_highestProbingID h) \<or> ncid_SequenceNumber f < cm_highestRetired h)"
    and len: "length (cm_activeConnectionID h) \<noteq> 0"
  obtains (error) e where "manager_add h f rnd = Inl e" and "\<not> is_panic (Inl e :: manager_result)"
  | (success) h' ev where "manager_add h f rnd = Inr (h', ev)" and "manager_ok h'" and "cm_activeSequenceNumber h \<le> cm_activeSequenceNumber h'"
    and "cm_highestProbingID h' = cm_highestProbingID h" and "\<And>r. QueueRetire r \<in> set ev \<Longrightarrow> r < cm_activeSequenceNumber h'"
proof -
  let ?a = "cm_activeSequenceNumber h" and ?p = "ncid_RetirePriorTo f" and ?n = "ncid_SequenceNumber f"
  let ?seq = "nc_SequenceNumber" and ?new = "ncid_RetirePriorTo f > cm_highestRetired h"
  define probing where "probing = (if ?p \<noteq> 0 then filter (\<lambda>(pid, entry). \<not> ?seq entry < ?p) (cm_pathProbing h) else cm_pathProbing h)"
  define ev1 where "ev1 = map (\<lambda>(pid, entry). QueueRetire (?seq entry))
    (if ?p \<noteq> 0 then filter (\<lambda>(pid, entry). ?seq entry < ?p) (cm_pathProbing h) else [])"
  define q1 where "q1 = (if ?new then dropWhile (\<lambda>el. ?seq el < ?p) (cm_queue h) else cm_queue h)"
  define ev2 where "ev2 = (if ?new then map (\<lambda>el. QueueRetire (?seq el)) (takeWhile (\<lambda>el. ?seq el < ?p) (cm_queue h)) else [])"
  define h1 where "h1 = h\<lparr>cm_pathProbing := probing, cm_queue := q1, cm_highestRetired := (if ?new then ?p else cm_highestRetired h)\<rparr>"
  have q: "sorted_wrt (\<lambda>a b. ?seq a < ?seq b) (cm_queue h)" "\<forall>el \<in> set (cm_queue h). ?a < ?seq el" "cm_highestRetired h \<le> ?a" "\<not> cm_closed h"
    using ok by (auto simp: manager_ok_def)
  have q1: "sorted_wrt (\<lambda>a b. ?seq a < ?seq b) q1" "\<forall>el \<in> set q1. ?a < ?seq el" "\<forall>el \<in> set q1. ?new \<longrightarrow> ?p \<le> ?seq el"
    using q dropWhile_seq [OF q(1), of ?p] by (auto simp: q1_def)
  have ev: "r < ?p" if "QueueRetire r \<in> set (ev1 @ ev2)" for r
    using that by (auto simp: ev1_def ev2_def dest: set_takeWhileD split: if_splits)
  have h1: "manager_add h f rnd = (if ?n = ?a then Inr (h1, ev1 @ ev2)
      else rbind (addConnectionID h1 ?n (ncid_ConnectionID f) (ncid_StatelessResetToken f)) (\<lambda>h.
      if cm_activeSequenceNumber h < ?p then rbind (updateConnectionID h rnd) (\<lambda>(h, events). Inr (h, ev1 @ ev2 @ events))
      else Inr (h, ev1 @ ev2)))"
    unfolding manager_add_def Let_def h1_def probing_def ev1_def q1_def ev2_def using late len by (cases ?new) (simp_all cong: if_cong)
  show ?thesis
  proof (cases "?n = ?a")
    case True
    then have "?p \<le> ?a"
      using f by simp
    show ?thesis
    proof (rule success [of h1 "ev1 @ ev2"])
      show "manager_add h f rnd = Inr (h1, ev1 @ ev2)"
        using h1 True by simp
      show "manager_ok h1"
        using q q1 \<open>?p \<le> ?a\<close> by (simp add: manager_ok_def h1_def)
      show "r < cm_activeSequenceNumber h1" if "QueueRetire r \<in> set (ev1 @ ev2)" for r
        using ev [OF that] \<open>?p \<le> ?a\<close> by (simp add: h1_def)
    qed (simp_all add: h1_def)
  next
    case False
    then have later: "?a < ?n"
      using late by (auto simp: not_less)
    show ?thesis
    proof (cases "addConnectionID h1 ?n (ncid_ConnectionID f) (ncid_StatelessResetToken f)")
      case (Inl e)
      then have "\<not> is_panic (Inl e :: manager_result)"
        by (auto simp: addConnectionID_def Let_def rbind_def split: if_splits sum.splits dest!: insert_connID_error)
      then show ?thesis
        using error h1 False Inl by simp
    next
      case (Inr h2)
      have sorted: "sorted_wrt (\<lambda>a b. ?seq a < ?seq b) (cm_queue h1)"
        using q1(1) by (simp add: h1_def)
      obtain q2 where q2: "h2 = h1\<lparr>cm_queue := q2\<rparr>" "sorted_wrt (\<lambda>a b. ?seq a < ?seq b) q2"
          "\<forall>el \<in> set q2. el \<in> set (cm_queue h1) \<or> ?seq el = ?n" "q2 \<noteq> []"
        by (rule addConnectionID_spec [OF Inr sorted])
      then have q2': "\<forall>el \<in> set q2. ?a < ?seq el" "\<forall>el \<in> set q2. ?new \<longrightarrow> ?p \<le> ?seq el"
        using q1 later f by (auto simp: h1_def)
      show ?thesis
      proof (cases "?a < ?p")
        case True
        then have "?new"
          using q(3) by (rule order.strict_trans1 [rotated])
        obtain front q3 where q3: "q2 = front # q3"
          using q2(4) by (cases q2) auto
        obtain h3 ev3 where h3: "updateConnectionID h2 rnd = Inr (h3, ev3)" "cm_queue h3 = q3" "cm_activeSequenceNumber h3 = ?seq front"
            "cm_highestRetired h3 = max (cm_highestRetired h2) (cm_activeSequenceNumber h2)" "\<not> cm_closed h3"
            "\<And>r. QueueRetire r \<in> set ev3 \<Longrightarrow> r = cm_activeSequenceNumber h2" "cm_highestProbingID h3 = cm_highestProbingID h2"
          by (rule updateConnectionID_eq [of h2 front q3 rnd]) (use q2(1) q3 q(4) h1_def in auto)
        have front: "?a < ?seq front" "?p \<le> ?seq front"
          using q2' q3 \<open>?new\<close> by auto
        show ?thesis
        proof (rule success)
          show "manager_add h f rnd = Inr (h3, ev1 @ ev2 @ ev3)"
            using h1 False Inr True h3(1) q2(1) by (simp add: h1_def)
          show "manager_ok h3"
            using h3 q2 q3 front \<open>?new\<close> by (auto simp: manager_ok_def h1_def less_imp_le)
          show "r < cm_activeSequenceNumber h3" if "QueueRetire r \<in> set (ev1 @ ev2 @ ev3)" for r
            using that ev [of r] front h3(3,6) q2(1) by (auto simp: h1_def dest: order.strict_trans2)
        qed (use h3 front q2(1) in \<open>auto simp: h1_def\<close>)
      next
        case no: False
        then have "?p \<le> ?a"
          by simp
        have "manager_add h f rnd = Inr (h2, ev1 @ ev2)"
          using h1 False Inr no q2(1) by (simp add: h1_def)
        then show ?thesis
        proof (rule success)
          show "r < cm_activeSequenceNumber h2" if "QueueRetire r \<in> set (ev1 @ ev2)" for r
            using order.strict_trans2 [OF ev [OF that] \<open>?p \<le> ?a\<close>] q2(1) by (simp add: h1_def)
        qed (use q2 q2' q \<open>?p \<le> ?a\<close> in \<open>auto simp: manager_ok_def h1_def\<close>)
      qed
    qed
  qed
qed

lemma manager_add_ok:
  assumes ok: "manager_ok h" and f: "ncid_RetirePriorTo f \<le> ncid_SequenceNumber f"
  shows "\<not> is_panic (manager_add h f rnd)"
    and "manager_add h f rnd = Inr (h', ev) \<Longrightarrow> manager_ok h' \<and> cm_activeSequenceNumber h \<le> cm_activeSequenceNumber h' \<and>
      cm_highestProbingID h' = cm_highestProbingID h \<and>
      (cm_highestProbingID h \<le> cm_activeSequenceNumber h \<longrightarrow> (\<forall>r. QueueRetire r \<in> set ev \<longrightarrow> r < cm_activeSequenceNumber h'))"
proof -
  let ?early = "ncid_SequenceNumber f < max (cm_activeSequenceNumber h) (cm_highestProbingID h) \<or> ncid_SequenceNumber f < cm_highestRetired h"
  have "\<not> is_panic (manager_add h f rnd) \<and> (manager_add h f rnd = Inr (h', ev) \<longrightarrow> manager_ok h' \<and> cm_activeSequenceNumber h \<le> cm_activeSequenceNumber h' \<and>
      cm_highestProbingID h' = cm_highestProbingID h \<and>
      (cm_highestProbingID h \<le> cm_activeSequenceNumber h \<longrightarrow> (\<forall>r. QueueRetire r \<in> set ev \<longrightarrow> r < cm_activeSequenceNumber h')))"
  proof (cases "length (cm_activeConnectionID h) = 0 \<or> ?early")
    case True
    have "ncid_SequenceNumber f < cm_activeSequenceNumber h" if "?early" "cm_highestProbingID h \<le> cm_activeSequenceNumber h"
      using that ok by (auto simp: manager_ok_def max_absorb1 dest: order.strict_trans2)
    moreover have "manager_add h f rnd = Inl (TransportError ProtocolViolation 0 ''received NEW_CONNECTION_ID frame but zero-length connection IDs are in use'') \<or>
        ?early \<and> manager_add h f rnd = Inr (h, [QueueRetire (ncid_SequenceNumber f)])"
      using True by (cases "length (cm_activeConnectionID h) = 0") (simp_all only: manager_add_def if_True if_False simp_thms)
    ultimately show ?thesis
      using ok by auto
  next
    case False
    then have late: "\<not> ?early" "length (cm_activeConnectionID h) \<noteq> 0"
      by blast+
    show ?thesis
      by (rule manager_add_late [OF ok f late, of rnd]) auto
  qed
  then show "\<not> is_panic (manager_add h f rnd)" "manager_add h f rnd = Inr (h', ev) \<Longrightarrow> manager_ok h' \<and> cm_activeSequenceNumber h \<le> cm_activeSequenceNumber h' \<and>
      cm_highestProbingID h' = cm_highestProbingID h \<and>
      (cm_highestProbingID h \<le> cm_activeSequenceNumber h \<longrightarrow> (\<forall>r. QueueRetire r \<in> set ev \<longrightarrow> r < cm_activeSequenceNumber h'))"
    by auto
qed

section \<open>The manager as a state machine\<close>

text \<open>
  The steps are the calls of the connection and of the path manager, until the manager is closed. A received frame has
  passed the parser, so it does not ask to retire IDs beyond its own. Paths are probed only if \<open>probing\<close>. Beside the manager runs
  the list of the sequence numbers it has retired.
\<close>

definition retired_by :: "connid_event list \<Rightarrow> u64 set" where
  "retired_by ev = {r. QueueRetire r \<in> set ev}"

inductive manager_step :: "bool \<Rightarrow> connIDManager \<times> u64 set \<Rightarrow> connIDManager \<times> u64 set \<Rightarrow> bool" for probing where
  add: "ncid_RetirePriorTo f \<le> ncid_SequenceNumber f \<Longrightarrow> manager_Add h f rnd = Inr (h', ev) \<Longrightarrow>
    manager_step probing (h, R) (h', R \<union> retired_by ev)"
| preferred: "cm_activeSequenceNumber h = 0 \<Longrightarrow> AddFromPreferredAddress h c t = Inr h' \<Longrightarrow> manager_step probing (h, R) (h', R)"
| initial: "ChangeInitialConnID h c = Inr h' \<Longrightarrow> manager_step probing (h, R) (h', R)"
| token: "SetStatelessResetToken h t = Inr (h', ev) \<Longrightarrow> manager_step probing (h, R) (h', R \<union> retired_by ev)"
| sent: "manager_step probing (h, R) (manager_SentPacket h, R)"
| complete: "manager_step probing (h, R) (manager_SetHandshakeComplete h, R)"
| get: "manager_Get h rnd = Inr (h', ev, c) \<Longrightarrow> manager_step probing (h, R) (h', R \<union> retired_by ev)"
| probe: "probing \<Longrightarrow> GetConnIDForPath h pid = Inr (h', c) \<Longrightarrow> manager_step probing (h, R) (h', R)"
| retire: "probing \<Longrightarrow> RetireConnIDForPath h pid = Inr (h', ev) \<Longrightarrow> manager_step probing (h, R) (h', R \<union> retired_by ev)"

definition manager_init :: "connIDManager \<times> u64 set \<Rightarrow> bool" where
  "manager_init s \<longleftrightarrow> (\<exists>c limit. s = ((newConnIDManager c)\<lparr>cm_connectionIDLimit := limit\<rparr>, {}))"

text \<open>Without probing no ID is set aside for a path, and every retired ID is older than the active one.\<close>

definition run_inv :: "bool \<Rightarrow> connIDManager \<times> u64 set \<Rightarrow> bool" where
  "run_inv probing s \<longleftrightarrow> (case s of (h, R) \<Rightarrow> manager_ok h \<and>
     (\<not> probing \<longrightarrow> cm_highestProbingID h = 0 \<and> (\<forall>r \<in> R. r < cm_activeSequenceNumber h)))"

lemma manager_Get_ok:
  assumes "manager_ok h"
  obtains h' ev where "manager_Get h rnd = Inr (h', ev, cm_activeConnectionID h')" and "manager_ok h'"
    and "cm_activeSequenceNumber h \<le> cm_activeSequenceNumber h'" and "\<And>r. QueueRetire r \<in> set ev \<Longrightarrow> r < cm_activeSequenceNumber h'"
    and "cm_highestProbingID h' = cm_highestProbingID h"
proof (cases "shouldUpdateConnID h")
  case True
  then have "cm_queue h \<noteq> []"
    by (auto simp: shouldUpdateConnID_def MaxActiveConnectionIDs_def split: if_splits)
  then obtain h' ev where u: "updateConnectionID h rnd = Inr (h', ev)" "manager_ok h'" "cm_activeSequenceNumber h < cm_activeSequenceNumber h'"
      "\<And>r. QueueRetire r \<in> set ev \<Longrightarrow> r = cm_activeSequenceNumber h" "cm_highestProbingID h' = cm_highestProbingID h"
    using updateConnectionID_ok [OF assms] by metis
  show ?thesis
    by (rule that [of h' ev]) (use u True assms in \<open>auto simp: manager_Get_def manager_ok_def\<close>)
next
  case False
  then show ?thesis
    using that [of h "[]"] assms by (simp add: manager_Get_def manager_ok_def)
qed

lemma run_inv_init: "manager_init s \<Longrightarrow> run_inv p s"
  by (auto simp: manager_init_def run_inv_def manager_ok_def newConnIDManager_def)

lemma run_inv_retire:
  assumes "run_inv p (h, R)" and "manager_ok h'" and "cm_activeSequenceNumber h \<le> cm_activeSequenceNumber h'"
    and "\<not> p \<Longrightarrow> cm_highestProbingID h' = cm_highestProbingID h" and "\<And>r. \<not> p \<Longrightarrow> QueueRetire r \<in> set ev \<Longrightarrow> r < cm_activeSequenceNumber h'"
  shows "run_inv p (h', R \<union> retired_by ev)"
  using assms by (auto simp: run_inv_def retired_by_def dest: order.strict_trans2)

lemma run_inv_step: "run_inv p s \<Longrightarrow> manager_step p s s' \<Longrightarrow> run_inv p s'"
proof -
  assume inv: "run_inv p s" and step: "manager_step p s s'"
  have ok: "manager_ok (fst s)"
    using inv by (simp add: run_inv_def split: prod.splits)
  show "run_inv p s'"
    using step inv ok
  proof (cases rule: manager_step.cases)
    case (add f h rnd h' ev R)
    then have "manager_add h f rnd = Inr (h', ev)"
      by (auto simp: manager_Add_def rbind_eq_Inr Let_def split: if_splits)
    then show ?thesis
      using manager_add_ok(2) [OF _ add(3), of h rnd h' ev] inv ok add(1,2)
      by (auto simp: run_inv_def retired_by_def dest: order.strict_trans2)
  next
    case (preferred h c t h' R)
    then have q: "sorted_wrt (\<lambda>a b. nc_SequenceNumber a < nc_SequenceNumber b) (cm_queue h)"
      using ok by (simp add: manager_ok_def)
    show ?thesis
      by (rule addConnectionID_spec [OF preferred(4) [unfolded AddFromPreferredAddress_def] q])
        (use inv ok preferred in \<open>auto simp: run_inv_def manager_ok_def\<close>)
  next
    case (get h rnd h' ev c R)
    have "manager_ok h"
      using ok get by simp
    then show ?thesis
      using manager_Get_ok [of h rnd] get run_inv_retire [of p h R h' ev] inv by (metis Inr_inject Pair_inject)
  next
    case (probe h pid h' c R)
    then show ?thesis
      using inv ok by (auto simp: GetConnIDForPath_def run_inv_def manager_ok_def split: if_splits option.splits list.splits)
  next
    case (retire h pid h' ev R)
    then show ?thesis
      using inv ok by (auto simp: RetireConnIDForPath_def run_inv_def manager_ok_def split: if_splits option.splits)
  qed (auto simp: run_inv_def manager_ok_def ChangeInitialConnID_def SetStatelessResetToken_def retired_by_def manager_SentPacket_def
    manager_SetHandshakeComplete_def split: if_splits)
qed

lemma run_inv_reachable: "reachable manager_init (manager_step p) s \<Longrightarrow> run_inv p s"
  by (erule reachable_invariant) (auto intro: run_inv_init run_inv_step)

section \<open>The invariant of the generator\<close>

text \<open>The limit of the peer is known once; then IDs are issued and retired. At least the ID of the handshake is in use.\<close>

definition conn_id_bound :: "u64 \<Rightarrow> nat" where
  "conn_id_bound limit = max 1 (unat (min limit MaxIssuedConnectionIDs))"

inductive generator_step :: "u64 \<Rightarrow> connIDGenerator \<Rightarrow> connIDGenerator \<Rightarrow> bool" for limit where
  limit: "SetMaxActiveConnIDs token m limit gens = Inr (m', ev) \<Longrightarrow> generator_step limit m m'"
| retire: "generator_Retire token m seq c gen = Inr (m', ev) \<Longrightarrow> generator_step limit m m'"
| complete: "generator_SetHandshakeComplete m = (m', ev) \<Longrightarrow> generator_step limit m m'"

definition generator_init :: "connIDGenerator \<Rightarrow> bool" where
  "generator_init m \<longleftrightarrow> (\<exists>c i len. m = newConnIDGenerator c i len)"

lemma issueNewConnID_length:
  "issueNewConnID token m gen = Inr (m', ev) \<Longrightarrow> length (cg_activeSrcConnIDs m') = Suc (length (cg_activeSrcConnIDs m))"
  by (auto simp: issueNewConnID_def rbind_eq_Inr)

lemma issue_connIDs_length:
  "issue_connIDs token m gens = Inr (m', ev) \<Longrightarrow> length (cg_activeSrcConnIDs m') = length (cg_activeSrcConnIDs m) + length gens"
  by (induction token m gens arbitrary: m' ev rule: issue_connIDs.induct) (fastforce simp: rbind_eq_Inr dest: issueNewConnID_length)+

lemma filter_key_length: "map_of xs k = Some v \<Longrightarrow> length (filter (\<lambda>(s, _). s \<noteq> k) xs) < length xs"
  by (induction xs) (auto simp: less_Suc_eq_le split: if_splits)

lemma generator_bound: "reachable generator_init (generator_step limit) m \<Longrightarrow> length (cg_activeSrcConnIDs m) \<le> conn_id_bound limit"
proof (erule reachable_invariant)
  show "length (cg_activeSrcConnIDs m) \<le> conn_id_bound limit" if "generator_init m" for m
    using that by (auto simp: generator_init_def newConnIDGenerator_def conn_id_bound_def)
  show "length (cg_activeSrcConnIDs m') \<le> conn_id_bound limit"
    if "length (cg_activeSrcConnIDs m) \<le> conn_id_bound limit" "generator_step limit m m'" for m m'
    using that(2,1)
  proof (cases rule: generator_step.cases)
    case (limit token gens ev)
    then show ?thesis
      using that(1) by (auto simp: SetMaxActiveConnIDs_def conn_id_bound_def dest!: issue_connIDs_length split: if_splits)
  next
    case (retire token seq c gen ev)
    then show ?thesis
      using that(1) by (fastforce simp: generator_Retire_def Let_def rbind_eq_Inr split: if_splits option.splits
        dest: filter_key_length issueNewConnID_length)
  next
    case (complete ev)
    then show ?thesis
      using that(1) by (auto simp: generator_SetHandshakeComplete_def split: option.splits)
  qed
qed

section \<open>Properties\<close>


definition frame_1 :: NewConnectionIDFrame where
  "frame_1 = \<lparr>ncid_SequenceNumber = 1, ncid_RetirePriorTo = 0, ncid_ConnectionID = [1, 1, 1, 1], ncid_StatelessResetToken = replicate 16 1\<rparr>"

definition frame_2 :: NewConnectionIDFrame where
  "frame_2 = \<lparr>ncid_SequenceNumber = 2, ncid_RetirePriorTo = 0, ncid_ConnectionID = [2, 2, 2, 2], ncid_StatelessResetToken = replicate 16 2\<rparr>"

lemma fresh_manager_reachable: "reachable manager_init (manager_step probing) (newConnIDManager [9, 9, 9, 9], {})"
  by (rule reachable.start) (auto simp: manager_init_def newConnIDManager_def)


text \<open>
  (C36) Without path probing the manager never retires the connection ID it is using: whatever it has asked the peer to retire is older than the active ID.
\<close>

theorem retired_older_than_active:
  assumes "reachable manager_init (manager_step False) (h, R)" and "r \<in> R"
  shows "r < cm_activeSequenceNumber h"
  using run_inv_reachable [OF assms(1)] assms(2) by (simp add: run_inv_def)

definition received_1 :: connIDManager where
  "received_1 = (newConnIDManager [9, 9, 9, 9])\<lparr>cm_queue := [\<lparr>nc_SequenceNumber = 1, nc_ConnectionID = [1, 1, 1, 1], nc_StatelessResetToken = replicate 16 1\<rparr>]\<rparr>"

definition switched_1 :: connIDManager where
  "switched_1 = fst (projr (manager_Get (manager_SetHandshakeComplete received_1) 0))"

lemma switched_1_reachable: "reachable manager_init (manager_step probing) (switched_1, {0})"
proof -
  have "manager_step probing (newConnIDManager [9, 9, 9, 9], {}) (received_1, {} \<union> retired_by [])"
    by (rule manager_step.add [of frame_1 _ 0]) code_simp+
  then have "reachable manager_init (manager_step probing) (received_1, {})"
    using fresh_manager_reachable reachable.step by (fastforce simp: retired_by_def)
  then have "reachable manager_init (manager_step probing) (manager_SetHandshakeComplete received_1, {})"
    by (rule reachable.step) (rule manager_step.complete)
  moreover have "manager_Get (manager_SetHandshakeComplete received_1) 0 = Inr (switched_1, [QueueRetire 0, AddResetToken (replicate 16 1)], [1, 1, 1, 1])"
    by code_simp
  then have "manager_step probing (manager_SetHandshakeComplete received_1, {}) (switched_1, {} \<union> retired_by [QueueRetire 0, AddResetToken (replicate 16 1)])"
    by (rule manager_step.get)
  ultimately have "reachable manager_init (manager_step probing) (switched_1, {} \<union> retired_by [QueueRetire 0, AddResetToken (replicate 16 1)])"
    by (rule reachable.step)
  then show ?thesis
    by (simp add: retired_by_def)
qed

theorem retired_older_than_active_witness: "0 < cm_activeSequenceNumber switched_1"
  by (rule retired_older_than_active [OF switched_1_reachable]) simp


text \<open>
  Two paths can get the same connection ID: a copy of the frame for the ID given to the first path is queued again and given to the second path, although the
  documentation says that an ID allocated for a path cannot be used for a different path.
\<close>

theorem two_paths_share_connection_id:
  "rbind (manager_Add (newConnIDManager [9, 9, 9, 9]) frame_1 0) (\<lambda>(h, _).
   rbind (GetConnIDForPath h 5) (\<lambda>(h, c).
   rbind (manager_Add h frame_1 0) (\<lambda>(h, _).
   rbind (GetConnIDForPath h 6) (\<lambda>(h, c'). Inr (c, c'))))) = Inr (Some [1, 1, 1, 1], Some [1, 1, 1, 1])"
  by code_simp

text \<open>
  (C37) The generator respects the limit of the peer: whatever is retired, and whenever the limit is applied, no more than the smaller of the peer's limit and 6 connection IDs are in use
  at a time (one at least).
\<close>

theorem issued_connection_ids_bounded:
  assumes "reachable generator_init (generator_step limit) m"
  shows "length (cg_activeSrcConnIDs m) \<le> max 1 (unat (min limit MaxIssuedConnectionIDs))"
  using generator_bound [OF assms] by (simp add: conn_id_bound_def)

definition generator_six :: connIDGenerator where
  "generator_six = fst (projr (SetMaxActiveConnIDs (\<lambda>_. []) (newConnIDGenerator [0, 0, 0, 0] None 4) 8 (\<lambda>i. Inr [of_nat i, 1, 1, 1])))"

lemma generator_six_reachable: "reachable generator_init (generator_step 8) generator_six"
proof (rule reachable.step [of _ _ "newConnIDGenerator [0, 0, 0, 0] None 4"])
  show "reachable generator_init (generator_step 8) (newConnIDGenerator [0, 0, 0, 0] None 4)"
    by (rule reachable.start) (auto simp: generator_init_def)
  have "SetMaxActiveConnIDs (\<lambda>_. []) (newConnIDGenerator [0, 0, 0, 0] None 4) 8 (\<lambda>i. Inr [of_nat i, 1, 1, 1]) =
    Inr (generator_six, snd (projr (SetMaxActiveConnIDs (\<lambda>_. []) (newConnIDGenerator [0, 0, 0, 0] None 4) 8 (\<lambda>i. Inr [of_nat i, 1, 1, 1]))))"
    by code_simp
  then show "generator_step 8 (newConnIDGenerator [0, 0, 0, 0] None 4) generator_six"
    by (rule generator_step.limit)
qed

theorem issued_connection_ids_bounded_witness:
  "length (cg_activeSrcConnIDs generator_six) = 6 \<and> length (cg_activeSrcConnIDs generator_six) \<le> max 1 (unat (min 8 MaxIssuedConnectionIDs))"
proof
  show "length (cg_activeSrcConnIDs generator_six) = 6"
    by code_simp
qed (rule issued_connection_ids_bounded [OF generator_six_reachable])

end
