(* ===== verification/Go_Runtime.thy ===== *)
theory Go_Runtime
  imports Prelude "HOL-Library.AList"
begin

text \<open>
  What several components use of the Go language and its library: maps, as association lists whose keys are distinct, channels that only signal, and the verb
  \<open>%d\<close> of the \<open>fmt\<close> package.
\<close>

section \<open>Maps\<close>

named_theorems alist "facts on maps as association lists"

lemma alist_length: "distinct (map fst xs) \<Longrightarrow> length xs = card (fst ` set xs)"
  by (metis distinct_card length_map set_map)

lemma alist_keys_delete [alist]: "fst ` set (AList.delete k xs) = fst ` set xs - {k}"
  by (auto simp: AList.delete_eq)

lemma alist_length_update: "distinct (map fst xs) \<Longrightarrow> length (AList.update k v xs) = length xs + (if k \<in> fst ` set xs then 0 else 1)"
  by (simp add: alist_length distinct_update dom_update insert_absorb)

lemma alist_length_delete: "distinct (map fst xs) \<Longrightarrow> k \<in> fst ` set xs \<Longrightarrow> length (AList.delete k xs) = length xs - 1"
  by (simp add: alist_length distinct_delete alist_keys_delete)

lemma map_of_key: "map_of xs k = Some v \<Longrightarrow> k \<in> fst ` set xs"
  by (metis domI dom_map_of_conv_image_fst)

declare distinct_update [alist] distinct_delete [alist] dom_update [alist] update_conv' [alist] delete_conv' [alist]

text \<open>A loop that sets entries.\<close>

lemma alist_fold_update:
  assumes "distinct (map fst xs)" "distinct ks" "set ks \<inter> fst ` set xs = {}"
  shows "distinct (map fst (fold (\<lambda>k. AList.update k (f k)) ks xs))" (is "distinct (map fst (?F ks xs))")
    and "fst ` set (fold (\<lambda>k. AList.update k (f k)) ks xs) = fst ` set xs \<union> set ks"
    and "length (fold (\<lambda>k. AList.update k (f k)) ks xs) = length xs + length ks"
proof -
  have "distinct (map fst (?F ks xs)) \<and> fst ` set (?F ks xs) = fst ` set xs \<union> set ks \<and> length (?F ks xs) = length xs + length ks"
    using assms
  proof (induction ks arbitrary: xs)
    case (Cons k ks)
    then have "k \<notin> fst ` set xs"
      by auto
    with Cons.prems Cons.IH [of "AList.update k (f k) xs"] show ?case
      by (auto simp: alist alist_length_update)
  qed simp
  then show "distinct (map fst (?F ks xs))" "fst ` set (?F ks xs) = fst ` set xs \<union> set ks" "length (?F ks xs) = length xs + length ks"
    by simp_all
qed

lemma alist_fold_update_map_of:
  "distinct ks \<Longrightarrow> map_of (fold (\<lambda>k. AList.update k (f k)) ks xs) n = (if n \<in> set ks then Some (f n) else map_of xs n)"
  by (induction ks arbitrary: xs) (auto simp: update_conv')

section \<open>Channels\<close>

text \<open>A channel of capacity one that carries no data. Receiving from a closed channel never blocks.\<close>

datatype go_chan = ChanEmpty | ChanFull | ChanClosed

definition chan_send :: "go_chan \<Rightarrow> go_chan result" where
  "chan_send c = (case c of ChanClosed \<Rightarrow> Inl (Panic ''send on closed channel'') | _ \<Rightarrow> Inr ChanFull)"

definition chan_recv :: "go_chan \<Rightarrow> go_chan option" where
  "chan_recv c = (case c of ChanEmpty \<Rightarrow> None | ChanFull \<Rightarrow> Some ChanEmpty | ChanClosed \<Rightarrow> Some ChanClosed)"

definition chan_close :: "go_chan \<Rightarrow> go_chan result" where
  "chan_close c = (case c of ChanClosed \<Rightarrow> Inl (Panic ''close of closed channel'') | _ \<Rightarrow> Inr ChanClosed)"

section \<open>Formatting\<close>

text \<open>The verb \<open>%d\<close> of \<open>fmt.Errorf\<close>.\<close>

fun digits :: "nat \<Rightarrow> string" where
  "digits n = (if n < 10 then [char_of (48 + n)] else digits (n div 10) @ [char_of (48 + n mod 10)])"

declare digits.simps [simp del]

definition decimal :: "int \<Rightarrow> string" where
  "decimal i = (if i < 0 then CHR ''-'' # digits (nat (- i)) else digits (nat i))"

fun sprintf :: "string \<Rightarrow> int list \<Rightarrow> string" where
  "sprintf [] args = []"
| "sprintf [c] args = [c]"
| "sprintf (c # d # s) args =
     (if c = CHR ''%'' \<and> d = CHR ''d'' then
        (case args of [] \<Rightarrow> ''%!d(MISSING)'' @ sprintf s [] | a # as \<Rightarrow> decimal a @ sprintf s as)
      else c # sprintf (d # s) args)"

end
