(* ===== verification/Streams_Map.thy ===== *)
theory Streams_Map
  imports Wire_Frames Go_Runtime
begin

text \<open>
  The streams of a connection, after \<open>streams_map_incoming.go\<close>, \<open>streams_map_outgoing.go\<close> and \<open>streams_map.go\<close>. The streams themselves are of any
  type \<open>'s\<close> and are made by an argument \<open>mk\<close>. A call that blocks (\<open>AcceptStream\<close>, \<open>OpenStreamSync\<close>) is cut at the points where it gives up the mutex: each piece is
  a function, and a step relation interleaves the pieces of concurrent calls. Frames queued and calls on streams are returned as events.
\<close>

section \<open>Errors\<close>

record streamError =
  se_message :: string
  se_nums :: "StreamNum list"

datatype streams_error = StreamErr streamError | StreamOpenErr | OtherErr go_error

definition convertStreamError :: "streams_error \<Rightarrow> StreamType \<Rightarrow> Perspective \<Rightarrow> streams_error" where
  "convertStreamError err stype pers =
     (case err of
        StreamErr e \<Rightarrow> OtherErr (ErrorNew (sprintf (se_message e) (map (\<lambda>num. StreamNum_StreamID num stype pers) (se_nums e))))
      | _ \<Rightarrow> err)"

definition convert_result :: "streams_error + 'a \<Rightarrow> StreamType \<Rightarrow> Perspective \<Rightarrow> streams_error + 'a" where
  "convert_result r stype pers = (case r of Inl e \<Rightarrow> Inl (convertStreamError e stype pers) | Inr v \<Rightarrow> Inr v)"

definition lift_err :: "'a result \<Rightarrow> streams_error + 'a" where
  "lift_err r = (case r of Inl e \<Rightarrow> Inl (OtherErr e) | Inr v \<Rightarrow> Inr v)"

datatype stream_event =
    QueueMaxStreams MaxStreamsFrame
  | QueueStreamsBlocked StreamsBlockedFrame
  | CloseForShutdown StreamID go_error
  | UpdateStreamWindow StreamID ByteCount

section \<open>Incoming streams\<close>

record 's incomingStreamEntry =
  ie_stream :: 's
  ie_shouldDelete :: bool

record 's incomingStreamsMap =
  im_newStreamChan :: go_chan
  im_streamType :: StreamType
  im_streams :: "(StreamNum \<times> 's incomingStreamEntry) list"
  im_nextStreamToAccept :: StreamNum
  im_nextStreamToOpen :: StreamNum
  im_maxStream :: StreamNum
  im_maxNumStreams :: u64
  im_closeErr :: "go_error option"

definition newIncomingStreamsMap :: "StreamType \<Rightarrow> u64 \<Rightarrow> 's incomingStreamsMap" where
  "newIncomingStreamsMap stype maxStreams =
     \<lparr>im_newStreamChan = ChanEmpty, im_streamType = stype, im_streams = [], im_nextStreamToAccept = 1,
      im_nextStreamToOpen = 1, im_maxStream = int64 maxStreams, im_maxNumStreams = maxStreams, im_closeErr = None\<rparr>"

definition incoming_deleteStream :: "'s incomingStreamsMap \<Rightarrow> StreamNum \<Rightarrow> streams_error + 's incomingStreamsMap \<times> stream_event list" where
  "incoming_deleteStream m num =
     (case map_of (im_streams m) num of
        None \<Rightarrow> Inl (StreamErr \<lparr>se_message = ''tried to delete unknown incoming stream %d'', se_nums = [num]\<rparr>)
      | Some entry \<Rightarrow>
          if num \<ge> im_nextStreamToAccept m then
            (if ie_shouldDelete entry
             then Inl (StreamErr \<lparr>se_message = ''tried to delete incoming stream %d multiple times'', se_nums = [num]\<rparr>)
             else Inr (m\<lparr>im_streams := AList.update num (entry\<lparr>ie_shouldDelete := True\<rparr>) (im_streams m)\<rparr>, []))
          else
            let m = m\<lparr>im_streams := AList.delete num (im_streams m)\<rparr>;
                n = (of_nat (length (im_streams m)) :: u64) in
            if im_maxNumStreams m > n then
              let maxStream = im_nextStreamToOpen m + int64 (im_maxNumStreams m - n) - 1 in
              if maxStream \<le> MaxStreamCount
              then Inr (m\<lparr>im_maxStream := maxStream\<rparr>, [QueueMaxStreams \<lparr>ms_Type = im_streamType m, ms_MaxStreamNum = maxStream\<rparr>])
              else Inr (m, [])
            else Inr (m, []))"

definition incoming_DeleteStream :: "'s incomingStreamsMap \<Rightarrow> StreamNum \<Rightarrow> streams_error + 's incomingStreamsMap \<times> stream_event list" where
  "incoming_DeleteStream m num = incoming_deleteStream m num"

fun open_incoming :: "(StreamNum \<Rightarrow> 's) \<Rightarrow> StreamNum list \<Rightarrow> 's incomingStreamsMap \<Rightarrow> 's incomingStreamsMap result" where
  "open_incoming mk [] m = Inr m"
| "open_incoming mk (newNum # nums) m =
     (let m = m\<lparr>im_streams := AList.update newNum \<lparr>ie_stream = mk newNum, ie_shouldDelete = False\<rparr> (im_streams m)\<rparr> in
      rbind (chan_send (im_newStreamChan m)) (\<lambda>c. open_incoming mk nums (m\<lparr>im_newStreamChan := c\<rparr>)))"

text \<open>The stream, or \<open>None\<close> for the nil interface when the stream was closed.\<close>

definition GetOrOpenStream :: "(StreamNum \<Rightarrow> 's) \<Rightarrow> 's incomingStreamsMap \<Rightarrow> StreamNum \<Rightarrow> streams_error + 's incomingStreamsMap \<times> 's option" where
  "GetOrOpenStream mk m num =
     (if num > im_maxStream m
      then Inl (StreamErr \<lparr>se_message = ''peer tried to open stream %d (current limit: %d)'', se_nums = [num, im_maxStream m]\<rparr>)
      else if num < im_nextStreamToOpen m then
        Inr (m, case map_of (im_streams m) num of
                  Some entry \<Rightarrow> if ie_shouldDelete entry then None else Some (ie_stream entry) | None \<Rightarrow> None)
      else rbind (lift_err (open_incoming mk [im_nextStreamToOpen m..num] m)) (\<lambda>m.
        let m = m\<lparr>im_nextStreamToOpen := num + 1\<rparr> in
        Inr (m, map_option ie_stream (map_of (im_streams m) num))))"

text \<open>\<open>AcceptStream\<close> drains the channel, then tries under the mutex; without a stream it waits for the channel or its context and tries again.\<close>

definition accept_drain :: "'s incomingStreamsMap \<Rightarrow> 's incomingStreamsMap" where
  "accept_drain m = (case chan_recv (im_newStreamChan m) of Some c \<Rightarrow> m\<lparr>im_newStreamChan := c\<rparr> | None \<Rightarrow> m)"

datatype 's accept_outcome = AcceptWait | Accepted StreamNum 's

definition accept_try :: "'s incomingStreamsMap \<Rightarrow> streams_error + 's incomingStreamsMap \<times> stream_event list \<times> 's accept_outcome" where
  "accept_try m =
     (let num = im_nextStreamToAccept m in
      case im_closeErr m of
        Some e \<Rightarrow> Inl (OtherErr e)
      | None \<Rightarrow>
          (case map_of (im_streams m) num of
             None \<Rightarrow> Inr (m, [], AcceptWait)
           | Some entry \<Rightarrow>
               let m = m\<lparr>im_nextStreamToAccept := num + 1\<rparr> in
               if ie_shouldDelete entry
               then rbind (incoming_deleteStream m num) (\<lambda>(m, ev). Inr (m, ev, Accepted num (ie_stream entry)))
               else Inr (m, [], Accepted num (ie_stream entry))))"

definition incoming_CloseWithError :: "(StreamNum \<Rightarrow> StreamID) \<Rightarrow> 's incomingStreamsMap \<Rightarrow> go_error \<Rightarrow> ('s incomingStreamsMap \<times> stream_event list) result" where
  "incoming_CloseWithError sid m err =
     (let m = m\<lparr>im_closeErr := Some err\<rparr> in
      rbind (chan_close (im_newStreamChan m)) (\<lambda>c.
        Inr (m\<lparr>im_newStreamChan := c\<rparr>, map (\<lambda>(num, _). CloseForShutdown (sid num) err) (im_streams m))))"

section \<open>Outgoing streams\<close>

record 's outgoingStreamsMap =
  om_streamType :: StreamType
  om_streams :: "(StreamNum \<times> 's) list"
  om_openQueue :: "(nat \<times> go_chan) list"
  om_lowestInQueue :: nat
  om_highestInQueue :: nat
  om_nextStream :: StreamNum
  om_maxStream :: StreamNum
  om_blockedSent :: bool
  om_closeErr :: "go_error option"

definition newOutgoingStreamsMap :: "StreamType \<Rightarrow> 's outgoingStreamsMap" where
  "newOutgoingStreamsMap stype =
     \<lparr>om_streamType = stype, om_streams = [], om_openQueue = [], om_lowestInQueue = 0, om_highestInQueue = 0,
      om_nextStream = 1, om_maxStream = InvalidStreamNum, om_blockedSent = False, om_closeErr = None\<rparr>"

definition maybeSendBlockedFrame :: "'s outgoingStreamsMap \<Rightarrow> 's outgoingStreamsMap \<times> stream_event list" where
  "maybeSendBlockedFrame m =
     (if om_blockedSent m then (m, [])
      else (m\<lparr>om_blockedSent := True\<rparr>,
            [QueueStreamsBlocked \<lparr>sb_Type = om_streamType m,
               sb_StreamLimit = (if om_maxStream m \<noteq> InvalidStreamNum then om_maxStream m else 0)\<rparr>]))"

definition openStream :: "(StreamNum \<Rightarrow> 's) \<Rightarrow> 's outgoingStreamsMap \<Rightarrow> 's outgoingStreamsMap \<times> 's" where
  "openStream mk m =
     (let s = mk (om_nextStream m) in
      (m\<lparr>om_streams := AList.update (om_nextStream m) s (om_streams m), om_nextStream := om_nextStream m + 1\<rparr>, s))"

text \<open>A refused call still has an effect (the STREAMS_BLOCKED frame), so state, events and outcome are returned side by side.\<close>

definition OpenStream :: "(StreamNum \<Rightarrow> 's) \<Rightarrow> 's outgoingStreamsMap \<Rightarrow> 's outgoingStreamsMap \<times> stream_event list \<times> (streams_error + 's)" where
  "OpenStream mk m =
     (case om_closeErr m of
        Some e \<Rightarrow> (m, [], Inl (OtherErr e))
      | None \<Rightarrow>
          if length (om_openQueue m) > 0 \<or> om_nextStream m > om_maxStream m
          then (let (m, ev) = maybeSendBlockedFrame m in (m, ev, Inl StreamOpenErr))
          else (let (m, s) = openStream mk m in (m, [], Inr s)))"

text \<open>Wake the waiting call that is first in the queue. A closed channel can not be sent on.\<close>

definition unblockOpenSync :: "'s outgoingStreamsMap \<Rightarrow> 's outgoingStreamsMap result" where
  "unblockOpenSync m =
     (if length (om_openQueue m) = 0 then Inr m
      else case find (\<lambda>qp. map_of (om_openQueue m) qp \<noteq> None) [om_lowestInQueue m..<Suc (om_highestInQueue m)] of
        None \<Rightarrow> Inr m
      | Some qp \<Rightarrow> rbind (chan_send (the (map_of (om_openQueue m) qp))) (\<lambda>c.
          Inr (m\<lparr>om_openQueue := AList.update qp c (om_openQueue m)\<rparr>)))"

text \<open>
  \<open>OpenStreamSync\<close>: the call up to the first wait, what it does when its context is done, and what it does after it received from its channel.
\<close>

datatype 's open_outcome = OpenWait nat | Opened 's | OpenFailed streams_error

definition open_sync_start :: "(StreamNum \<Rightarrow> 's) \<Rightarrow> go_error option \<Rightarrow> 's outgoingStreamsMap \<Rightarrow> 's outgoingStreamsMap \<times> stream_event list \<times> 's open_outcome" where
  "open_sync_start mk ctx_err m =
     (case om_closeErr m of
        Some e \<Rightarrow> (m, [], OpenFailed (OtherErr e))
      | None \<Rightarrow>
     (case ctx_err of
        Some e \<Rightarrow> (m, [], OpenFailed (OtherErr e))
      | None \<Rightarrow>
          if length (om_openQueue m) = 0 \<and> om_nextStream m \<le> om_maxStream m
          then (let (m, s) = openStream mk m in (m, [], Opened s))
          else
            let queuePos = om_highestInQueue m;
                m = m\<lparr>om_highestInQueue := Suc queuePos\<rparr>;
                m = (if length (om_openQueue m) = 0 then m\<lparr>om_lowestInQueue := queuePos\<rparr> else m);
                m = m\<lparr>om_openQueue := AList.update queuePos ChanEmpty (om_openQueue m)\<rparr>;
                (m, ev) = maybeSendBlockedFrame m in
            (m, ev, OpenWait queuePos)))"

definition open_sync_cancel :: "'s outgoingStreamsMap \<Rightarrow> nat \<Rightarrow> 's outgoingStreamsMap" where
  "open_sync_cancel m queuePos = m\<lparr>om_openQueue := AList.delete queuePos (om_openQueue m)\<rparr>"

definition open_sync_woken :: "(StreamNum \<Rightarrow> 's) \<Rightarrow> 's outgoingStreamsMap \<Rightarrow> nat \<Rightarrow> ('s outgoingStreamsMap \<times> 's open_outcome) result" where
  "open_sync_woken mk m queuePos =
     (case om_closeErr m of
        Some e \<Rightarrow> Inr (m, OpenFailed (OtherErr e))
      | None \<Rightarrow>
          if om_nextStream m > om_maxStream m then Inr (m, OpenWait queuePos)
          else
            let (m, str) = openStream mk m;
                m = m\<lparr>om_openQueue := AList.delete queuePos (om_openQueue m), om_lowestInQueue := Suc queuePos\<rparr> in
            rbind (unblockOpenSync m) (\<lambda>m. Inr (m, Opened str)))"

definition GetStream :: "'s outgoingStreamsMap \<Rightarrow> StreamNum \<Rightarrow> streams_error + 's option" where
  "GetStream m num =
     (if num \<ge> om_nextStream m
      then Inl (StreamErr \<lparr>se_message = ''peer attempted to open stream %d'', se_nums = [num]\<rparr>)
      else Inr (map_of (om_streams m) num))"

definition outgoing_DeleteStream :: "'s outgoingStreamsMap \<Rightarrow> StreamNum \<Rightarrow> streams_error + 's outgoingStreamsMap" where
  "outgoing_DeleteStream m num =
     (case map_of (om_streams m) num of
        None \<Rightarrow> Inl (StreamErr \<lparr>se_message = ''tried to delete unknown outgoing stream %d'', se_nums = [num]\<rparr>)
      | Some _ \<Rightarrow> Inr (m\<lparr>om_streams := AList.delete num (om_streams m)\<rparr>))"

definition SetMaxStream :: "'s outgoingStreamsMap \<Rightarrow> StreamNum \<Rightarrow> ('s outgoingStreamsMap \<times> stream_event list) result" where
  "SetMaxStream m num =
     (if num \<le> om_maxStream m then Inr (m, [])
      else
        let m = m\<lparr>om_maxStream := num, om_blockedSent := False\<rparr>;
            (m, ev) = (if om_maxStream m < om_nextStream m - 1 + int (length (om_openQueue m))
                       then maybeSendBlockedFrame m else (m, [])) in
        rbind (unblockOpenSync m) (\<lambda>m. Inr (m, ev)))"

definition UpdateSendWindows :: "(StreamNum \<Rightarrow> StreamID) \<Rightarrow> 's outgoingStreamsMap \<Rightarrow> ByteCount \<Rightarrow> stream_event list" where
  "UpdateSendWindows sid m limit = map (\<lambda>(num, _). UpdateStreamWindow (sid num) limit) (om_streams m)"

fun close_chans :: "(nat \<times> go_chan) list \<Rightarrow> (nat \<times> go_chan) list result" where
  "close_chans [] = Inr []"
| "close_chans ((qp, c) # q) = rbind (chan_close c) (\<lambda>c. rbind (close_chans q) (\<lambda>q. Inr ((qp, c) # q)))"

definition outgoing_CloseWithError :: "(StreamNum \<Rightarrow> StreamID) \<Rightarrow> 's outgoingStreamsMap \<Rightarrow> go_error \<Rightarrow> ('s outgoingStreamsMap \<times> stream_event list) result" where
  "outgoing_CloseWithError sid m err =
     rbind (close_chans (om_openQueue m)) (\<lambda>q.
       Inr (m\<lparr>om_closeErr := Some err, om_openQueue := q\<rparr>, map (\<lambda>(num, _). CloseForShutdown (sid num) err) (om_streams m)))"

section \<open>The limit of incoming streams\<close>

text \<open>
  The streams in use are below the next one to be opened and contain all that were not accepted yet. The limit that the peer knows is the number of streams opened so
  far plus the number of streams that may still be opened, up to the largest stream count.
\<close>

definition incoming_credit :: "'s incomingStreamsMap \<Rightarrow> StreamNum" where
  "incoming_credit m = im_nextStreamToOpen m - 1 + (uint (im_maxNumStreams m) - int (length (im_streams m)))"

definition incoming_ok :: "'s incomingStreamsMap \<Rightarrow> bool" where
  "incoming_ok m \<longleftrightarrow> distinct (map fst (im_streams m)) \<and> 1 \<le> im_nextStreamToAccept m \<and>
     im_nextStreamToAccept m \<le> im_nextStreamToOpen m \<and> im_nextStreamToOpen m - 1 \<le> im_maxStream m \<and>
     fst ` set (im_streams m) \<subseteq> {1..<im_nextStreamToOpen m} \<and>
     {im_nextStreamToAccept m..<im_nextStreamToOpen m} \<subseteq> fst ` set (im_streams m) \<and>
     uint (im_maxNumStreams m) \<le> MaxStreamCount \<and> im_maxStream m = min (incoming_credit m) MaxStreamCount"

lemma incoming_okD:
  assumes "incoming_ok m"
  shows "int (length (im_streams m)) \<le> uint (im_maxNumStreams m)"
  using assms by (auto simp: incoming_ok_def incoming_credit_def)

lemma int64_uint: "uint w < 2 ^ 63 \<Longrightarrow> int64 w = uint w"
  by (simp add: int64_def sint_uint signed_take_bit_int_eq_self order.trans [OF _ uint_ge_0])

lemma u64_len: "int n \<le> MaxStreamCount \<Longrightarrow> uint (of_nat n :: u64) = int n"
  by (simp add: MaxStreamCount_def unsigned_of_nat take_bit_nat_eq_self_iff)

lemma incoming_deleteStream_ok:
  assumes ok: "incoming_ok m" and eq: "incoming_deleteStream m num = Inr (m', ev)"
  shows "incoming_ok m'" and "im_maxStream m \<le> im_maxStream m'"
    and "set ev \<subseteq> {QueueMaxStreams \<lparr>ms_Type = im_streamType m, ms_MaxStreamNum = im_maxStream m'\<rparr>}"
    and "im_nextStreamToOpen m' = im_nextStreamToOpen m" and "im_nextStreamToAccept m' = im_nextStreamToAccept m"
    and "im_newStreamChan m' = im_newStreamChan m" and "im_closeErr m' = im_closeErr m"
proof -
  obtain entry where e: "map_of (im_streams m) num = Some entry"
    using eq by (auto simp: incoming_deleteStream_def split: option.splits)
  have d: "distinct (map fst (im_streams m))" and k: "num \<in> fst ` set (im_streams m)"
    using ok map_of_key [OF e] by (simp_all add: incoming_ok_def)
  have "incoming_ok m' \<and> im_maxStream m \<le> im_maxStream m' \<and>
      set ev \<subseteq> {QueueMaxStreams \<lparr>ms_Type = im_streamType m, ms_MaxStreamNum = im_maxStream m'\<rparr>} \<and>
      im_nextStreamToOpen m' = im_nextStreamToOpen m \<and> im_nextStreamToAccept m' = im_nextStreamToAccept m \<and>
      im_newStreamChan m' = im_newStreamChan m \<and> im_closeErr m' = im_closeErr m"
  proof (cases "im_nextStreamToAccept m \<le> num")
    case True
    then have m': "m' = m\<lparr>im_streams := AList.update num (entry\<lparr>ie_shouldDelete := True\<rparr>) (im_streams m)\<rparr>" "ev = []"
      using eq by (auto simp: incoming_deleteStream_def e split: if_splits)
    show ?thesis
      using ok k unfolding m' by (auto simp: incoming_ok_def incoming_credit_def alist alist_length_update)
  next
    case False
    define xs where "xs = AList.delete num (im_streams m)"
    have xs: "distinct (map fst xs)" "fst ` set xs = fst ` set (im_streams m) - {num}"
      using d k unfolding xs_def by (simp_all add: alist)
    have n: "int (length (im_streams m)) = int (length xs) + 1"
      using alist_length_delete [OF d k] k unfolding xs_def by (cases "im_streams m") simp_all
    have le: "int (length (im_streams m)) \<le> uint (im_maxNumStreams m)" and mx: "uint (im_maxNumStreams m) \<le> MaxStreamCount"
      using ok incoming_okD [OF ok] by (simp_all add: incoming_ok_def)
    then have len: "uint (of_nat (length xs) :: u64) = int (length xs)" "int (length xs) < uint (im_maxNumStreams m)"
      using u64_len [of "length xs"] n by simp_all
    then have less: "(of_nat (length xs) :: u64) < im_maxNumStreams m"
      by (simp add: word_less_def)
    have diff: "int64 (im_maxNumStreams m - of_nat (length xs)) = uint (im_maxNumStreams m) - int (length xs)"
      using uint_sub_lem [of "of_nat (length xs) :: u64" "im_maxNumStreams m"] len mx
      by (subst int64_uint) (auto simp: MaxStreamCount_def)
    define c where "c = im_nextStreamToOpen m + (uint (im_maxNumStreams m) - int (length xs)) - 1"
    have m': "m' = m\<lparr>im_streams := xs, im_maxStream := if c \<le> MaxStreamCount then c else im_maxStream m\<rparr>"
      and ev: "set ev \<subseteq> {QueueMaxStreams \<lparr>ms_Type = im_streamType m, ms_MaxStreamNum = im_maxStream m'\<rparr>}"
      using eq e False less by (auto simp: incoming_deleteStream_def Let_def diff c_def simp flip: xs_def split: if_splits)
    have mc: "im_maxStream m = min (c - 1) MaxStreamCount" "im_nextStreamToOpen m - 1 \<le> im_maxStream m"
      using ok n unfolding incoming_ok_def incoming_credit_def c_def by linarith+
    then have "im_maxStream m' = min c MaxStreamCount" and mono: "im_maxStream m \<le> im_maxStream m'"
      by (auto simp: m')
    then have "incoming_ok m'"
      using ok False xs mc(2) unfolding incoming_ok_def by (auto simp: incoming_credit_def m' c_def)
    then show ?thesis
      using ev mono by (simp add: m')
  qed
  then show "incoming_ok m'" "im_maxStream m \<le> im_maxStream m'"
    "set ev \<subseteq> {QueueMaxStreams \<lparr>ms_Type = im_streamType m, ms_MaxStreamNum = im_maxStream m'\<rparr>}"
    "im_nextStreamToOpen m' = im_nextStreamToOpen m" "im_nextStreamToAccept m' = im_nextStreamToAccept m"
    "im_newStreamChan m' = im_newStreamChan m" "im_closeErr m' = im_closeErr m"
    by simp_all
qed

lemma open_incoming_eq:
  "open_incoming mk nums m =
     (if nums = [] then Inr m else if im_newStreamChan m = ChanClosed then Inl (Panic ''send on closed channel'')
      else Inr (m\<lparr>im_streams := fold (\<lambda>k. AList.update k \<lparr>ie_stream = mk k, ie_shouldDelete = False\<rparr>) nums (im_streams m),
                  im_newStreamChan := ChanFull\<rparr>))"
  by (induction nums arbitrary: m) (auto simp: chan_send_def Let_def split: go_chan.splits)

lemma GetOrOpenStream_ok:
  assumes ok: "incoming_ok m" and eq: "GetOrOpenStream mk m num = Inr (m', s)"
  shows "incoming_ok m'" and "im_maxStream m' = im_maxStream m" and "im_nextStreamToAccept m' = im_nextStreamToAccept m"
    and "im_closeErr m' = im_closeErr m" and "im_nextStreamToOpen m' = max (im_nextStreamToOpen m) (num + 1)"
    and "im_newStreamChan m' = (if num < im_nextStreamToOpen m then im_newStreamChan m else ChanFull)"
    and "im_nextStreamToOpen m \<le> num \<Longrightarrow> s = Some (mk num)" and "im_nextStreamToOpen m \<le> num \<Longrightarrow> im_newStreamChan m \<noteq> ChanClosed"
proof -
  let ?nums = "[im_nextStreamToOpen m..num]" and ?f = "\<lambda>k. \<lparr>ie_stream = mk k, ie_shouldDelete = False\<rparr>"
  let ?xs = "fold (\<lambda>k. AList.update k (?f k)) ?nums (im_streams m)"
  have "incoming_ok m' \<and> im_maxStream m' = im_maxStream m \<and> im_nextStreamToAccept m' = im_nextStreamToAccept m \<and>
      im_closeErr m' = im_closeErr m \<and> im_nextStreamToOpen m' = max (im_nextStreamToOpen m) (num + 1) \<and>
      im_newStreamChan m' = (if num < im_nextStreamToOpen m then im_newStreamChan m else ChanFull) \<and>
      (im_nextStreamToOpen m \<le> num \<longrightarrow> s = Some (mk num) \<and> im_newStreamChan m \<noteq> ChanClosed)"
  proof (cases "num < im_nextStreamToOpen m")
    case True
    then have "m' = m"
      using eq by (auto simp: GetOrOpenStream_def split: if_splits)
    then show ?thesis
      using ok True by simp
  next
    case False
    then have m': "m' = m\<lparr>im_streams := ?xs, im_newStreamChan := ChanFull, im_nextStreamToOpen := num + 1\<rparr>"
      and s: "s = map_option ie_stream (map_of ?xs num)" and max: "num \<le> im_maxStream m" "im_newStreamChan m \<noteq> ChanClosed"
      using eq by (auto simp: GetOrOpenStream_def open_incoming_eq lift_err_def split: if_splits)
    have "set ?nums \<inter> fst ` set (im_streams m) = {}" and d: "distinct (map fst (im_streams m))"
      using ok by (auto simp: incoming_ok_def)
    note xs = alist_fold_update [OF this(2) distinct_upto this(1), of ?f]
    have "incoming_ok m'"
      using ok False max xs unfolding m' by (auto simp: incoming_ok_def incoming_credit_def)
    then show ?thesis
      using False s max(2) by (simp add: m' alist_fold_update_map_of)
  qed
  then show "incoming_ok m'" "im_maxStream m' = im_maxStream m" "im_nextStreamToAccept m' = im_nextStreamToAccept m"
    "im_closeErr m' = im_closeErr m" "im_nextStreamToOpen m' = max (im_nextStreamToOpen m) (num + 1)"
    "im_newStreamChan m' = (if num < im_nextStreamToOpen m then im_newStreamChan m else ChanFull)"
    "im_nextStreamToOpen m \<le> num \<Longrightarrow> s = Some (mk num)" "im_nextStreamToOpen m \<le> num \<Longrightarrow> im_newStreamChan m \<noteq> ChanClosed"
    by simp_all
qed

lemma accept_try_ok:
  assumes ok: "incoming_ok m" and eq: "accept_try m = Inr (m', ev, out)"
  shows "incoming_ok m'" and "im_maxStream m \<le> im_maxStream m'" and "im_nextStreamToOpen m' = im_nextStreamToOpen m"
    and "im_newStreamChan m' = im_newStreamChan m" and "im_closeErr m' = im_closeErr m"
    and "set ev \<subseteq> {QueueMaxStreams \<lparr>ms_Type = im_streamType m, ms_MaxStreamNum = im_maxStream m'\<rparr>}"
    and "out = AcceptWait \<longleftrightarrow> im_nextStreamToAccept m = im_nextStreamToOpen m"
    and "im_nextStreamToAccept m' = im_nextStreamToAccept m + (if out = AcceptWait then 0 else 1)"
proof -
  let ?num = "im_nextStreamToAccept m"
  have key: "map_of (im_streams m) ?num \<noteq> None \<longleftrightarrow> im_nextStreamToAccept m < im_nextStreamToOpen m" "im_nextStreamToAccept m \<le> im_nextStreamToOpen m"
    using ok by (auto simp: incoming_ok_def map_of_eq_None_iff)
  let ?m = "m\<lparr>im_nextStreamToAccept := ?num + 1\<rparr>"
  have ok': "incoming_ok ?m" if "im_nextStreamToAccept m < im_nextStreamToOpen m"
    using ok that by (auto simp: incoming_ok_def incoming_credit_def)
  consider (wait) "map_of (im_streams m) ?num = None" "m' = m" "ev = []" "out = AcceptWait"
    | (keep) str where "map_of (im_streams m) ?num \<noteq> None" "m' = ?m" "ev = []" "out = Accepted ?num str"
    | (del) str where "map_of (im_streams m) ?num \<noteq> None" "incoming_deleteStream ?m ?num = Inr (m', ev)" "out = Accepted ?num str"
    using eq by (auto simp: accept_try_def Let_def rbind_eq_Inr split: option.splits if_splits)
  then have "incoming_ok m' \<and> im_maxStream m \<le> im_maxStream m' \<and> im_nextStreamToOpen m' = im_nextStreamToOpen m \<and>
    im_newStreamChan m' = im_newStreamChan m \<and> im_closeErr m' = im_closeErr m \<and>
    set ev \<subseteq> {QueueMaxStreams \<lparr>ms_Type = im_streamType m, ms_MaxStreamNum = im_maxStream m'\<rparr>} \<and>
    (out = AcceptWait \<longleftrightarrow> im_nextStreamToAccept m = im_nextStreamToOpen m) \<and>
    im_nextStreamToAccept m' = im_nextStreamToAccept m + (if out = AcceptWait then 0 else 1)"
  proof cases
    case wait
    then show ?thesis
      using ok key by simp
  next
    case keep
    then show ?thesis
      using ok' key by simp
  next
    case del
    then have "im_nextStreamToAccept m < im_nextStreamToOpen m"
      using key by simp
    with incoming_deleteStream_ok [OF ok' [OF this] del(2)] del(3) show ?thesis
      by simp
  qed
  then show "incoming_ok m'" "im_maxStream m \<le> im_maxStream m'" "im_nextStreamToOpen m' = im_nextStreamToOpen m"
    "im_newStreamChan m' = im_newStreamChan m" "im_closeErr m' = im_closeErr m"
    "set ev \<subseteq> {QueueMaxStreams \<lparr>ms_Type = im_streamType m, ms_MaxStreamNum = im_maxStream m'\<rparr>}"
    "out = AcceptWait \<longleftrightarrow> im_nextStreamToAccept m = im_nextStreamToOpen m"
    "im_nextStreamToAccept m' = im_nextStreamToAccept m + (if out = AcceptWait then 0 else 1)"
    by blast+
qed

text \<open>All that happens to the incoming streams, with the frames it queues: \<open>recv\<close> is the wait of \<open>AcceptStream\<close>.\<close>

inductive incoming_step :: "(StreamNum \<Rightarrow> 's) \<Rightarrow> 's incomingStreamsMap \<Rightarrow> stream_event list \<Rightarrow> 's incomingStreamsMap \<Rightarrow> bool" for mk where
  opened: "GetOrOpenStream mk m num = Inr (m', s) \<Longrightarrow> incoming_step mk m [] m'"
| delete: "incoming_DeleteStream m num = Inr (m', ev) \<Longrightarrow> incoming_step mk m ev m'"
| drain: "incoming_step mk m [] (accept_drain m)"
| accept: "accept_try m = Inr (m', ev, out) \<Longrightarrow> incoming_step mk m ev m'"
| recv: "chan_recv (im_newStreamChan m) = Some c \<Longrightarrow> incoming_step mk m [] (m\<lparr>im_newStreamChan := c\<rparr>)"
| close: "incoming_CloseWithError sid m err = Inr (m', ev) \<Longrightarrow> incoming_step mk m [] m'"

definition incoming_init :: "'s incomingStreamsMap \<Rightarrow> bool" where
  "incoming_init m \<longleftrightarrow> (\<exists>stype maxStreams. uint maxStreams \<le> MaxStreamCount \<and> m = newIncomingStreamsMap stype maxStreams)"

lemma incoming_init_ok: "incoming_init m \<Longrightarrow> incoming_ok m"
  by (auto simp: incoming_init_def newIncomingStreamsMap_def incoming_ok_def incoming_credit_def int64_uint MaxStreamCount_def)

lemma incoming_ok_cong:
  assumes "incoming_ok m" "im_streams m' = im_streams m" "im_nextStreamToAccept m' = im_nextStreamToAccept m"
    "im_nextStreamToOpen m' = im_nextStreamToOpen m" "im_maxStream m' = im_maxStream m" "im_maxNumStreams m' = im_maxNumStreams m"
  shows "incoming_ok m'"
  using assms by (auto simp: incoming_ok_def incoming_credit_def)

lemma incoming_step_ok:
  assumes "incoming_ok m" and "incoming_step mk m ev m'"
  shows "incoming_ok m' \<and> im_maxStream m \<le> im_maxStream m' \<and> im_nextStreamToOpen m \<le> im_nextStreamToOpen m' \<and>
    (\<forall>f. QueueMaxStreams f \<in> set ev \<longrightarrow> ms_MaxStreamNum f = im_maxStream m')"
  using assms(2,1)
proof (cases rule: incoming_step.cases)
  case (opened num s)
  then show ?thesis
    using GetOrOpenStream_ok [OF assms(1) opened(2)] by simp
next
  case (delete num)
  then show ?thesis
    using incoming_deleteStream_ok [OF assms(1) delete(1) [unfolded incoming_DeleteStream_def]] by auto
next
  case drain
  then show ?thesis
    using assms(1) by (auto simp: accept_drain_def intro: incoming_ok_cong split: option.splits)
next
  case (accept out)
  then show ?thesis
    using accept_try_ok [OF assms(1) accept(1)] by auto
next
  case (recv c)
  then show ?thesis
    using assms(1) by (auto intro: incoming_ok_cong)
next
  case (close sid err ev)
  then show ?thesis
    using assms(1) by (auto simp: incoming_CloseWithError_def rbind_eq_Inr intro: incoming_ok_cong)
qed

lemma incoming_reachable_ok: "reachable incoming_init (\<lambda>m m'. \<exists>ev. incoming_step mk m ev m') m \<Longrightarrow> incoming_ok m"
  by (erule reachable_invariant) (auto dest: incoming_init_ok incoming_step_ok)

section \<open>Waiting for an outgoing stream\<close>

text \<open>
  The calls of \<open>OpenStreamSync\<close> that have not returned are known by their position in the queue: they wait at the \<open>select\<close>, or have received from their channel and
  are about to take the mutex. With \<open>lossy\<close>, a context may also end a call whose channel has been signalled. Limits come from the set \<open>L\<close>.
\<close>

datatype open_call = Waiting | Woken

inductive outgoing_step :: "(StreamNum \<Rightarrow> 's) \<Rightarrow> bool \<Rightarrow> StreamNum set \<Rightarrow>
    's outgoingStreamsMap \<times> (nat \<rightharpoonup> open_call) \<Rightarrow> 's outgoingStreamsMap \<times> (nat \<rightharpoonup> open_call) \<Rightarrow> bool" for mk lossy L where
  try_open: "OpenStream mk m = (m', ev, r) \<Longrightarrow> outgoing_step mk lossy L (m, calls) (m', calls)"
| start: "open_sync_start mk ctx_err m = (m', ev, out) \<Longrightarrow>
    outgoing_step mk lossy L (m, calls) (m', case out of OpenWait qp \<Rightarrow> calls(qp \<mapsto> Waiting) | _ \<Rightarrow> calls)"
| recv: "calls qp = Some Waiting \<Longrightarrow> map_of (om_openQueue m) qp = Some c \<Longrightarrow> chan_recv c = Some c' \<Longrightarrow>
    outgoing_step mk lossy L (m, calls) (m\<lparr>om_openQueue := AList.update qp c' (om_openQueue m)\<rparr>, calls(qp \<mapsto> Woken))"
| wake: "calls qp = Some Woken \<Longrightarrow> open_sync_woken mk m qp = Inr (m', out) \<Longrightarrow>
    outgoing_step mk lossy L (m, calls) (m', case out of OpenWait _ \<Rightarrow> calls(qp \<mapsto> Waiting) | _ \<Rightarrow> calls(qp := None))"
| cancel: "calls qp = Some Waiting \<Longrightarrow> lossy \<or> map_of (om_openQueue m) qp \<noteq> Some ChanFull \<Longrightarrow>
    outgoing_step mk lossy L (m, calls) (open_sync_cancel m qp, calls(qp := None))"
| delete: "outgoing_DeleteStream m num = Inr m' \<Longrightarrow> outgoing_step mk lossy L (m, calls) (m', calls)"
| limit: "num \<in> L \<Longrightarrow> SetMaxStream m num = Inr (m', ev) \<Longrightarrow> outgoing_step mk lossy L (m, calls) (m', calls)"
| close: "outgoing_CloseWithError sid m err = Inr (m', ev) \<Longrightarrow> outgoing_step mk lossy L (m, calls) (m', calls)"

definition outgoing_init :: "'s outgoingStreamsMap \<times> (nat \<rightharpoonup> open_call) \<Rightarrow> bool" where
  "outgoing_init s \<longleftrightarrow> (\<exists>stype. s = (newOutgoingStreamsMap stype, Map.empty))"

text \<open>
  The queue has one entry per call; only the oldest call is ever signalled, and it is signalled (or past its wait) whenever a stream could be opened.
\<close>

definition signalled :: "(nat \<times> go_chan) list \<Rightarrow> (nat \<rightharpoonup> open_call) \<Rightarrow> nat \<Rightarrow> bool" where
  "signalled q calls qp \<longleftrightarrow> map_of q qp = Some ChanFull \<or> calls qp = Some Woken"

definition queue_inv :: "(nat \<times> go_chan) list \<Rightarrow> nat \<Rightarrow> nat \<Rightarrow> (nat \<rightharpoonup> open_call) \<Rightarrow> bool" where
  "queue_inv q low high calls \<longleftrightarrow> distinct (map fst q) \<and> dom calls = fst ` set q \<and> (\<forall>k \<in> fst ` set q. low \<le> k \<and> k < high) \<and>
     (\<forall>k. map_of q k \<noteq> Some ChanClosed) \<and> (\<forall>k k'. signalled q calls k \<longrightarrow> k' \<in> fst ` set q \<longrightarrow> k \<le> k')"

definition sync_inv :: "'s outgoingStreamsMap \<times> (nat \<rightharpoonup> open_call) \<Rightarrow> bool" where
  "sync_inv s \<longleftrightarrow> (case s of (m, calls) \<Rightarrow> om_closeErr m = None \<longrightarrow>
     queue_inv (om_openQueue m) (om_lowestInQueue m) (om_highestInQueue m) calls \<and>
     (om_openQueue m \<noteq> [] \<and> om_nextStream m \<le> om_maxStream m \<longrightarrow> (\<exists>k. signalled (om_openQueue m) calls k)))"

lemma queue_invI:
  assumes "distinct (map fst q)" "dom calls = fst ` set q" "\<And>k. k \<in> fst ` set q \<Longrightarrow> low \<le> k" "\<And>k. k \<in> fst ` set q \<Longrightarrow> k < high"
    "\<And>k. map_of q k \<noteq> Some ChanClosed" "\<And>k k'. signalled q calls k \<Longrightarrow> k' \<in> fst ` set q \<Longrightarrow> k \<le> k'"
  shows "queue_inv q low high calls"
  using assms unfolding queue_inv_def by blast

lemma queue_invD:
  assumes "queue_inv q low high calls"
  shows "distinct (map fst q)" and "dom calls = fst ` set q" and "k \<in> fst ` set q \<Longrightarrow> low \<le> k" and "k \<in> fst ` set q \<Longrightarrow> k < high"
    and "map_of q k \<noteq> Some ChanClosed" and "signalled q calls k \<Longrightarrow> k' \<in> fst ` set q \<Longrightarrow> k \<le> k'"
  using assms unfolding queue_inv_def by blast+

lemma queue_inv_key: "queue_inv q low high calls \<Longrightarrow> signalled q calls k \<Longrightarrow> k \<in> fst ` set q"
  unfolding queue_inv_def signalled_def by (metis domI map_of_key)

lemma find_least:
  assumes "find P [a..<b] = Some k"
  shows "P k" and "a \<le> k" and "\<And>j. a \<le> j \<Longrightarrow> P j \<Longrightarrow> k \<le> j"
proof -
  obtain i where i: "i < length [a..<b]" "P ([a..<b] ! i)" "k = [a..<b] ! i" "\<forall>j<i. \<not> P ([a..<b] ! j)"
    using assms by (auto simp: find_Some_iff)
  then show "P k" "a \<le> k"
    by auto
  show "k \<le> j" if "a \<le> j" "P j" for j
  proof (rule ccontr)
    assume "\<not> k \<le> j"
    then have "j - a < i" and "[a..<b] ! (j - a) = j"
      using i(1,3) that(1) by auto
    then show False
      using i(4) that(2) by metis
  qed
qed

text \<open>Waking the first call in the queue signals a call if there is one, and keeps the invariant.\<close>

lemma unblockOpenSync_inv:
  assumes inv: "queue_inv (om_openQueue m) (om_lowestInQueue m) (om_highestInQueue m) calls"
  obtains q where "unblockOpenSync m = Inr (m\<lparr>om_openQueue := q\<rparr>)" and "queue_inv q (om_lowestInQueue m) (om_highestInQueue m) calls"
    and "q \<noteq> [] \<longrightarrow> (\<exists>k. signalled q calls k)" and "fst ` set q = fst ` set (om_openQueue m)"
proof (cases "om_openQueue m = []")
  case True
  then show ?thesis
    using that [of "om_openQueue m"] inv by (simp add: unblockOpenSync_def)
next
  case False
  let ?q = "om_openQueue m" and ?P = "\<lambda>qp. map_of (om_openQueue m) qp \<noteq> None"
  obtain k0 where "k0 \<in> fst ` set ?q"
    using False by (cases ?q) auto
  then have "k0 \<in> set [om_lowestInQueue m..<Suc (om_highestInQueue m)]" "?P k0"
    using queue_invD(3,4) [OF inv, of k0] by (simp_all add: map_of_eq_None_iff less_Suc_eq)
  then obtain k where k: "find ?P [om_lowestInQueue m..<Suc (om_highestInQueue m)] = Some k"
    using find_None_iff [of ?P "[om_lowestInQueue m..<Suc (om_highestInQueue m)]"]
    by (cases "find ?P [om_lowestInQueue m..<Suc (om_highestInQueue m)]") blast+
  note least = find_least [OF k]
  then obtain c where c: "map_of ?q k = Some c" "c \<noteq> ChanClosed"
    using queue_invD(5) [OF inv, of k] by auto
  define q where "q = AList.update k ChanFull ?q"
  have keys: "fst ` set q = fst ` set ?q"
    using map_of_key [OF c(1)] by (auto simp: q_def alist)
  have le: "k \<le> k'" if "k' \<in> fst ` set ?q" for k'
    using least(3) [of k'] queue_invD(3) [OF inv that] that by (simp add: map_of_eq_None_iff)
  have sig: "signalled q calls j \<longrightarrow> j = k \<or> signalled ?q calls j" for j
    by (auto simp: signalled_def q_def alist)
  have "queue_inv q (om_lowestInQueue m) (om_highestInQueue m) calls"
  proof (rule queue_invI)
    show "distinct (map fst q)"
      using queue_invD(1) [OF inv] by (simp add: q_def alist)
    show "map_of q j \<noteq> Some ChanClosed" for j
      using queue_invD(5) [OF inv, of j] by (simp add: q_def alist)
    show "j \<le> k'" if "signalled q calls j" "k' \<in> fst ` set q" for j k'
      using sig [of j] that le [of k'] queue_invD(6) [OF inv, of j k'] keys by auto
  qed (use queue_invD(2-4) [OF inv] keys in auto)
  moreover have "unblockOpenSync m = Inr (m\<lparr>om_openQueue := q\<rparr>)"
    using False k c by (cases c) (simp_all add: unblockOpenSync_def chan_send_def q_def)
  moreover have "signalled q calls k"
    by (simp add: signalled_def q_def alist)
  ultimately show ?thesis
    using that [of q] keys by blast
qed

lemma maybeSendBlockedFrame_fields:
  "maybeSendBlockedFrame m = (m', ev) \<Longrightarrow> om_openQueue m' = om_openQueue m \<and> om_lowestInQueue m' = om_lowestInQueue m \<and>
    om_highestInQueue m' = om_highestInQueue m \<and> om_nextStream m' = om_nextStream m \<and> om_maxStream m' = om_maxStream m \<and>
    om_closeErr m' = om_closeErr m"
  by (auto simp: maybeSendBlockedFrame_def split: if_splits)

lemma sync_inv_start:
  assumes inv: "sync_inv (m, calls)" and eq: "open_sync_start mk ctx_err m = (m', ev, OpenWait qp)"
  shows "sync_inv (m', calls(qp \<mapsto> Waiting))"
proof -
  let ?q = "om_openQueue m" and ?low = "if om_openQueue m = [] then om_highestInQueue m else om_lowestInQueue m"
  have f: "qp = om_highestInQueue m" "om_openQueue m' = AList.update qp ChanEmpty ?q" "om_lowestInQueue m' = ?low"
    "om_highestInQueue m' = Suc qp" "om_nextStream m' = om_nextStream m" "om_maxStream m' = om_maxStream m" "om_closeErr m = None"
    "?q = [] \<longrightarrow> om_maxStream m < om_nextStream m"
    using eq by (auto simp: open_sync_start_def Let_def maybeSendBlockedFrame_def split: option.splits if_splits prod.splits)
  have old: "queue_inv ?q (om_lowestInQueue m) (om_highestInQueue m) calls"
    and sig: "?q \<noteq> [] \<and> om_nextStream m \<le> om_maxStream m \<longrightarrow> (\<exists>k. signalled ?q calls k)"
    using inv f(7) by (simp_all add: sync_inv_def)
  have new: "qp \<notin> fst ` set ?q"
    using queue_invD(4) [OF old, of qp] f(1) by auto
  have same: "signalled (om_openQueue m') (calls(qp \<mapsto> Waiting)) k \<longleftrightarrow> signalled ?q calls k \<and> k \<noteq> qp" for k
    by (auto simp: signalled_def f(2) alist)
  have "queue_inv (om_openQueue m') (om_lowestInQueue m') (om_highestInQueue m') (calls(qp \<mapsto> Waiting))"
  proof (rule queue_invI)
    show "distinct (map fst (om_openQueue m'))"
      using queue_invD(1) [OF old] by (simp add: f(2) alist)
    show "dom (calls(qp \<mapsto> Waiting)) = fst ` set (om_openQueue m')"
      using queue_invD(2) [OF old] by (simp add: f(2) alist)
    show "map_of (om_openQueue m') k \<noteq> Some ChanClosed" for k
      using queue_invD(5) [OF old, of k] by (simp add: f(2) alist)
    show "k < om_highestInQueue m'" if "k \<in> fst ` set (om_openQueue m')" for k
    proof -
      have "k = qp \<or> k \<in> fst ` set ?q"
        using that by (simp add: f(2) alist)
      then show ?thesis
        using queue_invD(4) [OF old, of k] f(1,4) by linarith
    qed
    show "om_lowestInQueue m' \<le> k" if "k \<in> fst ` set (om_openQueue m')" for k
    proof (cases "?q = []")
      case False
      then have "fst (hd ?q) \<in> fst ` set ?q"
        by simp
      then have "om_lowestInQueue m \<le> om_highestInQueue m"
        using queue_invD(3,4) [OF old] by (meson le_trans less_imp_le)
      with False show ?thesis
        using that queue_invD(3) [OF old, of k] by (auto simp: f(1,2,3) alist)
    qed (use that in \<open>simp add: f(1,2,3) alist\<close>)
    show "k \<le> k'" if "signalled (om_openQueue m') (calls(qp \<mapsto> Waiting)) k" "k' \<in> fst ` set (om_openQueue m')" for k k'
    proof -
      have "signalled ?q calls k" "k < qp"
        using that(1) same queue_inv_key [OF old] queue_invD(4) [OF old] f(1) by blast+
      then show ?thesis
        using that(2) queue_invD(6) [OF old, of k k'] by (auto simp: f(2) alist)
    qed
  qed
  moreover have "\<exists>k. signalled (om_openQueue m') (calls(qp \<mapsto> Waiting)) k" if "om_nextStream m' \<le> om_maxStream m'"
    using that sig same new queue_inv_key [OF old] f(5,6,8) by (metis not_le)
  ultimately show ?thesis
    by (simp add: sync_inv_def)
qed

lemma sync_inv_recv:
  assumes inv: "sync_inv (m, calls)" and c: "calls qp = Some Waiting" "map_of (om_openQueue m) qp = Some c" "chan_recv c = Some c'"
  shows "sync_inv (m\<lparr>om_openQueue := AList.update qp c' (om_openQueue m)\<rparr>, calls(qp \<mapsto> Woken))"
proof (cases "om_closeErr m")
  case None
  let ?q = "om_openQueue m" and ?q' = "AList.update qp c' (om_openQueue m)"
  have old: "queue_inv ?q (om_lowestInQueue m) (om_highestInQueue m) calls"
    using inv None by (simp add: sync_inv_def)
  have full: "c = ChanFull" "c' = ChanEmpty"
    using c queue_invD(5) [OF old, of qp] by (auto simp: chan_recv_def split: go_chan.splits)
  have keys: "fst ` set ?q' = fst ` set ?q" and sig: "signalled ?q' (calls(qp \<mapsto> Woken)) k = signalled ?q calls k" for k
    using c full map_of_key [OF c(2)] by (auto simp: alist signalled_def)
  have "queue_inv ?q' (om_lowestInQueue m) (om_highestInQueue m) (calls(qp \<mapsto> Woken))"
  proof (rule queue_invI)
    show "map_of ?q' k \<noteq> Some ChanClosed" for k
      using queue_invD(5) [OF old, of k] by (simp add: alist full)
    show "k \<le> k'" if "signalled ?q' (calls(qp \<mapsto> Woken)) k" "k' \<in> fst ` set ?q'" for k k'
      using queue_invD(6) [OF old] that by (simp add: keys sig)
    show "dom (calls(qp \<mapsto> Woken)) = fst ` set ?q'"
      using queue_invD(2) [OF old] c(1) keys by auto
    show "distinct (map fst ?q')"
      using queue_invD(1) [OF old] by (simp add: alist)
  qed (use queue_invD(3,4) [OF old] in \<open>simp_all add: keys\<close>)
  moreover have "signalled ?q calls qp"
    using c full by (simp add: signalled_def)
  ultimately show ?thesis
    using sig [of qp] by (auto simp: sync_inv_def)
qed (simp add: sync_inv_def)

lemma queue_inv_remove:
  assumes old: "queue_inv q low high calls" and "\<And>k. k \<in> fst ` set q \<Longrightarrow> k \<noteq> qp \<Longrightarrow> low' \<le> k"
  shows "queue_inv (AList.delete qp q) low' high (calls(qp := None))"
proof (rule queue_invI)
  show "map_of (AList.delete qp q) k \<noteq> Some ChanClosed" for k
    using queue_invD(5) [OF old, of k] by (simp add: alist)
  show "k \<le> k'" if "signalled (AList.delete qp q) (calls(qp := None)) k" "k' \<in> fst ` set (AList.delete qp q)" for k k'
    using queue_invD(6) [OF old, of k k'] that by (auto simp: alist signalled_def split: if_splits)
  show "dom (calls(qp := None)) = fst ` set (AList.delete qp q)"
    using queue_invD(2) [OF old] by (simp add: alist)
qed (use assms queue_invD(1,4) [OF old] in \<open>auto simp: alist\<close>)

lemma sync_inv_wake:
  assumes inv: "sync_inv (m, calls)" and c: "calls qp = Some Woken" and eq: "open_sync_woken mk m qp = Inr (m', out)"
  shows "sync_inv (m', case out of OpenWait _ \<Rightarrow> calls(qp \<mapsto> Waiting) | _ \<Rightarrow> calls(qp := None))"
proof (cases "om_closeErr m")
  case None
  let ?q = "om_openQueue m"
  have old: "queue_inv ?q (om_lowestInQueue m) (om_highestInQueue m) calls" and sig: "signalled ?q calls qp"
    using inv c None by (simp_all add: sync_inv_def signalled_def)
  show ?thesis
  proof (cases "om_maxStream m < om_nextStream m")
    case True
    then have m': "m' = m" "out = OpenWait qp"
      using eq None by (auto simp: open_sync_woken_def)
    have "queue_inv ?q (om_lowestInQueue m) (om_highestInQueue m) (calls(qp \<mapsto> Waiting))"
    proof (rule queue_invI)
      show "k \<le> k'" if "signalled ?q (calls(qp \<mapsto> Waiting)) k" "k' \<in> fst ` set ?q" for k k'
        using queue_invD(6) [OF old, of k k'] that by (auto simp: signalled_def split: if_splits)
      show "dom (calls(qp \<mapsto> Waiting)) = fst ` set ?q"
        using queue_invD(2) [OF old] c by auto
    qed (use queue_invD(1,3,4,5) [OF old] in simp_all)
    then show ?thesis
      using True by (simp add: sync_inv_def m')
  next
    case False
    define m1 where "m1 = (fst (openStream mk m))\<lparr>om_openQueue := AList.delete qp ?q, om_lowestInQueue := Suc qp\<rparr>"
    have "queue_inv (om_openQueue m1) (om_lowestInQueue m1) (om_highestInQueue m1) (calls(qp := None))"
      using queue_inv_remove [OF old, of qp "Suc qp"] queue_invD(6) [OF old sig]
      by (force simp: m1_def openStream_def Let_def)
    then obtain q where q: "unblockOpenSync m1 = Inr (m1\<lparr>om_openQueue := q\<rparr>)"
      "queue_inv q (om_lowestInQueue m1) (om_highestInQueue m1) (calls(qp := None))" "q \<noteq> [] \<longrightarrow> (\<exists>k. signalled q (calls(qp := None)) k)"
      by (rule unblockOpenSync_inv)
    then have "m' = m1\<lparr>om_openQueue := q\<rparr>" "\<exists>str. out = Opened str"
      using eq None False by (auto simp: open_sync_woken_def m1_def openStream_def Let_def)
    then show ?thesis
      using q(2,3) by (auto simp: sync_inv_def)
  qed
qed (use eq in \<open>auto simp: sync_inv_def open_sync_woken_def\<close>)

lemma sync_inv_limit:
  assumes inv: "sync_inv (m, calls)" and eq: "SetMaxStream m num = Inr (m', ev)"
  shows "sync_inv (m', calls)"
proof (cases "num \<le> om_maxStream m \<or> om_closeErr m \<noteq> None")
  case True
  then show ?thesis
    using assms by (auto simp: SetMaxStream_def sync_inv_def unblockOpenSync_def Let_def rbind_eq_Inr maybeSendBlockedFrame_def split: if_splits option.splits)
next
  case False
  define m1 where "m1 = fst (if num < om_nextStream m - 1 + int (length (om_openQueue m))
    then maybeSendBlockedFrame (m\<lparr>om_maxStream := num, om_blockedSent := False\<rparr>) else (m\<lparr>om_maxStream := num, om_blockedSent := False\<rparr>, []))"
  have f: "om_openQueue m1 = om_openQueue m" "om_lowestInQueue m1 = om_lowestInQueue m" "om_highestInQueue m1 = om_highestInQueue m"
    by (auto simp: m1_def maybeSendBlockedFrame_def)
  then have "queue_inv (om_openQueue m1) (om_lowestInQueue m1) (om_highestInQueue m1) calls"
    using inv False by (simp add: sync_inv_def)
  then obtain q where q: "unblockOpenSync m1 = Inr (m1\<lparr>om_openQueue := q\<rparr>)"
    "queue_inv q (om_lowestInQueue m1) (om_highestInQueue m1) calls" "q \<noteq> [] \<longrightarrow> (\<exists>k. signalled q calls k)"
    by (rule unblockOpenSync_inv)
  then have "m' = m1\<lparr>om_openQueue := q\<rparr>"
    using eq False by (auto simp: SetMaxStream_def m1_def Let_def maybeSendBlockedFrame_def split: if_splits)
  then show ?thesis
    using q(2,3) by (simp add: sync_inv_def)
qed

lemma sync_inv_cancel:
  assumes inv: "sync_inv (m, calls)" and c: "calls qp = Some Waiting" "map_of (om_openQueue m) qp \<noteq> Some ChanFull"
  shows "sync_inv (open_sync_cancel m qp, calls(qp := None))"
proof (cases "om_closeErr m")
  case None
  let ?q = "om_openQueue m"
  have old: "queue_inv ?q (om_lowestInQueue m) (om_highestInQueue m) calls"
    and sig: "?q \<noteq> [] \<and> om_nextStream m \<le> om_maxStream m \<longrightarrow> (\<exists>k. signalled ?q calls k)"
    using inv None by (simp_all add: sync_inv_def)
  have "signalled ?q calls k \<Longrightarrow> signalled (AList.delete qp ?q) (calls(qp := None)) k" for k
    using c by (auto simp: signalled_def alist)
  moreover have "AList.delete qp ?q \<noteq> [] \<Longrightarrow> ?q \<noteq> []"
    by auto
  ultimately have "AList.delete qp ?q \<noteq> [] \<and> om_nextStream m \<le> om_maxStream m \<longrightarrow> (\<exists>k. signalled (AList.delete qp ?q) (calls(qp := None)) k)"
    using sig by blast
  then show ?thesis
    using queue_inv_remove [OF old, of qp "om_lowestInQueue m"] queue_invD(3) [OF old] by (simp add: sync_inv_def open_sync_cancel_def)
qed (simp add: sync_inv_def open_sync_cancel_def)

lemma sync_inv_step:
  assumes "sync_inv s" and "outgoing_step mk False L s s'"
  shows "sync_inv s'"
  using assms(2,1)
proof (cases rule: outgoing_step.cases)
  case (try_open m m' ev r calls)
  then show ?thesis
    using assms(1) by (auto simp: OpenStream_def sync_inv_def openStream_def Let_def maybeSendBlockedFrame_def split: option.splits if_splits)
next
  case (start ctx_err m m' ev out calls)
  then show ?thesis
  proof (cases out)
    case (OpenWait qp)
    then show ?thesis
      using sync_inv_start [of m calls mk ctx_err m' ev qp] start assms(1) by simp
  next
    case (Opened str)
    then show ?thesis
      using start assms(1) by (auto simp: open_sync_start_def sync_inv_def openStream_def Let_def maybeSendBlockedFrame_def split: option.splits if_splits)
  next
    case (OpenFailed e)
    then show ?thesis
      using start assms(1) by (auto simp: open_sync_start_def openStream_def Let_def maybeSendBlockedFrame_def split: option.splits if_splits)
  qed
next
  case (recv calls qp m c c')
  then show ?thesis
    using assms(1) by (simp add: sync_inv_recv)
next
  case (wake calls qp m m' out)
  then show ?thesis
    using assms(1) sync_inv_wake by fastforce
next
  case (cancel calls qp m)
  then show ?thesis
    using assms(1) by (simp add: sync_inv_cancel)
next
  case (delete m num m' calls)
  then show ?thesis
    using assms(1) by (auto simp: outgoing_DeleteStream_def sync_inv_def split: option.splits)
next
  case (limit num m m' ev calls)
  then show ?thesis
    using assms(1) sync_inv_limit by fastforce
next
  case (close sid m err m' ev calls)
  then show ?thesis
    by (auto simp: outgoing_CloseWithError_def rbind_eq_Inr sync_inv_def)
qed

lemma sync_inv_reachable: "reachable outgoing_init (outgoing_step mk False L) s \<Longrightarrow> sync_inv s"
proof (erule reachable_invariant)
  show "sync_inv s" if "outgoing_init s" for s
    using that by (auto simp: outgoing_init_def newOutgoingStreamsMap_def sync_inv_def queue_inv_def signalled_def)
qed (rule sync_inv_step)

section \<open>Two endpoints\<close>

text \<open>One endpoint opens streams, the other one accepts them. \<open>L\<close> are the limits sent so far, the first one in the transport parameters; they may arrive late, in any order, several times or never.\<close>

inductive peers_step :: "(StreamNum \<Rightarrow> 's) \<Rightarrow> (StreamNum \<Rightarrow> 't) \<Rightarrow>
    's incomingStreamsMap \<times> StreamNum set \<times> 't outgoingStreamsMap \<times> (nat \<rightharpoonup> open_call) \<Rightarrow>
    's incomingStreamsMap \<times> StreamNum set \<times> 't outgoingStreamsMap \<times> (nat \<rightharpoonup> open_call) \<Rightarrow> bool" for mk mk' where
  receiver: "incoming_step mk m ev m' \<Longrightarrow> peers_step mk mk' (m, L, s) (m', L \<union> {l. \<exists>f. QueueMaxStreams f \<in> set ev \<and> l = ms_MaxStreamNum f}, s)"
| opener: "outgoing_step mk' True L s s' \<Longrightarrow> peers_step mk mk' (m, L, s) (m, L, s')"

definition peers_init :: "'s incomingStreamsMap \<times> StreamNum set \<times> 't outgoingStreamsMap \<times> (nat \<rightharpoonup> open_call) \<Rightarrow> bool" where
  "peers_init p \<longleftrightarrow> (case p of (m, L, s) \<Rightarrow> incoming_init m \<and> L = {im_maxStream m} \<and> outgoing_init s)"

lemma unblockOpenSync_fields: "unblockOpenSync m = Inr m' \<Longrightarrow> om_nextStream m' = om_nextStream m \<and> om_maxStream m' = om_maxStream m"
  by (auto simp: unblockOpenSync_def rbind_eq_Inr split: if_splits option.splits)

definition outgoing_inv :: "'t outgoingStreamsMap \<Rightarrow> bool" where
  "outgoing_inv m \<longleftrightarrow> om_nextStream m \<le> max 1 (om_maxStream m + 1)"

lemma outgoing_step_inv:
  assumes "outgoing_inv (fst s)" and "outgoing_step mk lossy L s s'"
  shows "outgoing_inv (fst s') \<and> om_maxStream (fst s') \<in> insert (om_maxStream (fst s)) L"
  using assms(2,1)
proof (cases rule: outgoing_step.cases)
  case (limit num m m' ev calls)
  then have "m' = m \<or> num > om_maxStream m \<and> om_nextStream m' = om_nextStream m \<and> om_maxStream m' = num"
    by (auto simp: SetMaxStream_def Let_def rbind_eq_Inr maybeSendBlockedFrame_def split: if_splits dest!: unblockOpenSync_fields)
  then show ?thesis
    using limit assms(1) by (auto simp: outgoing_inv_def)
next
  case (start ctx_err m m' ev out calls)
  then show ?thesis
    using assms(1) by (auto simp: outgoing_inv_def open_sync_start_def openStream_def Let_def maybeSendBlockedFrame_def split: option.splits if_splits)
next
  case (wake calls qp m m' out)
  then show ?thesis
    using assms(1) by (auto simp: outgoing_inv_def open_sync_woken_def openStream_def Let_def rbind_eq_Inr
        split: option.splits if_splits dest!: unblockOpenSync_fields)
qed (auto simp: outgoing_inv_def OpenStream_def openStream_def Let_def maybeSendBlockedFrame_def open_sync_cancel_def rbind_eq_Inr
    outgoing_DeleteStream_def outgoing_CloseWithError_def split: option.splits if_splits)

definition peers_ok :: "'s incomingStreamsMap \<times> StreamNum set \<times> 't outgoingStreamsMap \<times> (nat \<rightharpoonup> open_call) \<Rightarrow> bool" where
  "peers_ok p \<longleftrightarrow> (case p of (m, L, s) \<Rightarrow> incoming_ok m \<and> (\<forall>l \<in> L. l \<le> im_maxStream m) \<and> outgoing_inv (fst s) \<and> om_maxStream (fst s) \<le> im_maxStream m)"

lemma peers_reachable_ok: "reachable peers_init (peers_step mk mk') p \<Longrightarrow> peers_ok p"
proof (erule reachable_invariant)
  show "peers_ok p" if "peers_init p" for p :: "'s incomingStreamsMap \<times> StreamNum set \<times> 't outgoingStreamsMap \<times> (nat \<rightharpoonup> open_call)"
  proof -
    obtain m L s where p: "p = (m, L, s)"
      by (cases p)
    have "incoming_ok m" "outgoing_init s" "L = {im_maxStream m}"
      using that incoming_init_ok by (auto simp: peers_init_def p)
    moreover have "0 \<le> im_maxStream m"
      using \<open>incoming_ok m\<close> unfolding incoming_ok_def by linarith
    ultimately show ?thesis
      by (auto simp: p peers_ok_def outgoing_init_def newOutgoingStreamsMap_def outgoing_inv_def InvalidStreamNum_def)
  qed
  show "peers_ok p'" if "peers_ok p" "peers_step mk mk' p p'" for p p'
    using that(2,1)
  proof (cases rule: peers_step.cases)
    case (receiver m ev m' L s)
    then have "incoming_ok m" "\<forall>l \<in> L. l \<le> im_maxStream m" "outgoing_inv (fst s)" "om_maxStream (fst s) \<le> im_maxStream m"
      using that(1) by (simp_all add: peers_ok_def)
    with incoming_step_ok [OF this(1) receiver(3)] show ?thesis
      by (auto simp: receiver peers_ok_def intro: order_trans)
  next
    case (opener L s s' m)
    then have "incoming_ok m" "\<forall>l \<in> L. l \<le> im_maxStream m" "outgoing_inv (fst s)" "om_maxStream (fst s) \<le> im_maxStream m"
      using that(1) by (simp_all add: peers_ok_def)
    with outgoing_step_inv [OF this(3) opener(3)] show ?thesis
      by (auto simp: opener peers_ok_def)
  qed
qed

section \<open>Concurrent calls of AcceptStream\<close>

text \<open>A call is about to take the mutex or waits for a new stream. With \<open>single\<close> there is one call at a time.\<close>

datatype accept_call = Trying | WaitingNew

inductive accept_step :: "(StreamNum \<Rightarrow> 's) \<Rightarrow> bool \<Rightarrow>
    's incomingStreamsMap \<times> (nat \<rightharpoonup> accept_call) \<Rightarrow> 's incomingStreamsMap \<times> (nat \<rightharpoonup> accept_call) \<Rightarrow> bool" for mk single where
  enter: "calls t = None \<Longrightarrow> single \<longrightarrow> calls = Map.empty \<Longrightarrow> accept_step mk single (m, calls) (accept_drain m, calls(t \<mapsto> Trying))"
| try_accept: "calls t = Some Trying \<Longrightarrow> accept_try m = Inr (m', ev, out) \<Longrightarrow>
    accept_step mk single (m, calls) (m', case out of AcceptWait \<Rightarrow> calls(t \<mapsto> WaitingNew) | _ \<Rightarrow> calls(t := None))"
| failed: "calls t = Some Trying \<Longrightarrow> accept_try m = Inl e \<Longrightarrow> accept_step mk single (m, calls) (m, calls(t := None))"
| recv: "calls t = Some WaitingNew \<Longrightarrow> chan_recv (im_newStreamChan m) = Some c \<Longrightarrow>
    accept_step mk single (m, calls) (m\<lparr>im_newStreamChan := c\<rparr>, calls(t \<mapsto> Trying))"
| cancel: "calls t = Some WaitingNew \<Longrightarrow> accept_step mk single (m, calls) (m, calls(t := None))"
| opened: "GetOrOpenStream mk m num = Inr (m', s) \<Longrightarrow> accept_step mk single (m, calls) (m', calls)"
| delete: "incoming_DeleteStream m num = Inr (m', ev) \<Longrightarrow> accept_step mk single (m, calls) (m', calls)"
| close: "incoming_CloseWithError sid m err = Inr (m', ev) \<Longrightarrow> accept_step mk single (m, calls) (m', calls)"

definition accept_init :: "'s incomingStreamsMap \<times> (nat \<rightharpoonup> accept_call) \<Rightarrow> bool" where
  "accept_init s \<longleftrightarrow> incoming_init (fst s) \<and> snd s = Map.empty"

definition accept_inv :: "'s incomingStreamsMap \<times> (nat \<rightharpoonup> accept_call) \<Rightarrow> bool" where
  "accept_inv s \<longleftrightarrow> (case s of (m, calls) \<Rightarrow> incoming_ok m \<and> (\<forall>t t'. calls t \<noteq> None \<longrightarrow> calls t' \<noteq> None \<longrightarrow> t = t') \<and>
     (im_closeErr m \<noteq> None \<longrightarrow> im_newStreamChan m = ChanClosed) \<and>
     (\<forall>t. calls t = Some WaitingNew \<longrightarrow> im_nextStreamToAccept m < im_nextStreamToOpen m \<longrightarrow> im_newStreamChan m \<noteq> ChanEmpty))"

lemma accept_inv_step:
  assumes "accept_inv s" and "accept_step mk True s s'"
  shows "accept_inv s'"
  using assms(2,1)
proof (cases rule: accept_step.cases)
  case (enter calls t m)
  then show ?thesis
    using assms(1) by (auto simp: accept_inv_def accept_drain_def chan_recv_def intro: incoming_ok_cong split: go_chan.splits)
next
  case (try_accept calls t m m' ev out)
  then show ?thesis
    using assms(1) accept_try_ok [of m m' ev out] by (cases out) (auto simp: accept_inv_def split: if_splits)
next
  case (recv calls t m c)
  then show ?thesis
    using assms(1) by (auto simp: accept_inv_def chan_recv_def intro: incoming_ok_cong split: go_chan.splits if_splits)
next
  case (opened m num m' str calls)
  then show ?thesis
    using assms(1) GetOrOpenStream_ok [of m mk num m' str] by (auto simp: accept_inv_def)
next
  case (delete m num m' ev calls)
  then show ?thesis
    using assms(1) incoming_deleteStream_ok [of m num m' ev] by (auto simp: accept_inv_def incoming_DeleteStream_def)
next
  case (close sid m err m' ev calls)
  then show ?thesis
    using assms(1) by (auto simp: accept_inv_def incoming_CloseWithError_def rbind_eq_Inr chan_close_def intro: incoming_ok_cong split: go_chan.splits)
qed (use assms(1) in \<open>auto simp: accept_inv_def split: if_splits\<close>)

lemma accept_reachable_inv: "reachable accept_init (accept_step mk True) s \<Longrightarrow> accept_inv s"
proof (erule reachable_invariant)
  show "accept_inv s" if "accept_init s" for s :: "'s incomingStreamsMap \<times> (nat \<rightharpoonup> accept_call)"
    using that incoming_init_ok [of "fst s"] by (auto simp: accept_init_def accept_inv_def incoming_init_def newIncomingStreamsMap_def)
qed (rule accept_inv_step)

section \<open>Properties\<close>

text \<open>
  (C16) The peer may open exactly as many streams as are free: at every moment the limit that was advertised is the number of streams the peer has opened plus the number of
  streams it may still open, so that never more than the configured number of streams is in use and every finished stream is given back (up to the largest stream number).
\<close>

theorem incoming_stream_limit:
  assumes "reachable incoming_init (\<lambda>m m'. \<exists>ev. incoming_step mk m ev m') m"
  shows "int (length (im_streams m)) \<le> uint (im_maxNumStreams m) \<and>
    im_maxStream m = min (im_nextStreamToOpen m - 1 + (uint (im_maxNumStreams m) - int (length (im_streams m)))) MaxStreamCount"
  using incoming_reachable_ok [OF assms] incoming_okD [OF incoming_reachable_ok [OF assms]]
  by (simp add: incoming_ok_def incoming_credit_def)

definition sample_incoming :: "StreamNum incomingStreamsMap" where
  "sample_incoming = \<lparr>im_newStreamChan = ChanFull, im_streamType = StreamTypeBidi,
     im_streams = [(1, \<lparr>ie_stream = 1, ie_shouldDelete = False\<rparr>), (2, \<lparr>ie_stream = 2, ie_shouldDelete = False\<rparr>)],
     im_nextStreamToAccept = 1, im_nextStreamToOpen = 3, im_maxStream = 5, im_maxNumStreams = 5, im_closeErr = None\<rparr>"

lemma sample_incoming_reachable: "reachable incoming_init (\<lambda>m m'. \<exists>ev. incoming_step id m ev m') sample_incoming"
proof (rule reachable.step)
  show "reachable incoming_init (\<lambda>m m'. \<exists>ev. incoming_step id m ev m') (newIncomingStreamsMap StreamTypeBidi 5)"
    by (rule reachable.start) (auto simp: incoming_init_def MaxStreamCount_def intro!: exI [of _ 5])
  have "GetOrOpenStream id (newIncomingStreamsMap StreamTypeBidi 5) 2 = Inr (sample_incoming, Some 2)"
    by code_simp
  then show "\<exists>ev. incoming_step id (newIncomingStreamsMap StreamTypeBidi 5) ev sample_incoming"
    by (blast intro: incoming_step.opened)
qed

theorem incoming_stream_limit_witness: "im_maxStream sample_incoming = 5 \<and> int (length (im_streams sample_incoming)) \<le> 5"
  using incoming_stream_limit [OF sample_incoming_reachable] by (simp add: sample_incoming_def)

text \<open>
  (C24) An endpoint that opens streams by this code is never accused of exceeding the limit by an endpoint that runs this code: whatever the delays and losses of the
  MAX_STREAMS frames, every stream that was opened is found or opened by the receiver.
\<close>

theorem opened_streams_accepted:
  assumes "reachable peers_init (peers_step mk mk') (m, L, sender, calls)"
    and "1 \<le> num" and "num < om_nextStream sender" and "im_newStreamChan m \<noteq> ChanClosed"
  shows "\<exists>m' s. GetOrOpenStream mk m num = Inr (m', s)"
proof -
  have "num \<le> im_maxStream m"
    using peers_reachable_ok [OF assms(1)] assms(2,3) by (auto simp: peers_ok_def outgoing_inv_def)
  then show ?thesis
    using assms(4) by (auto simp: GetOrOpenStream_def open_incoming_eq lift_err_def)
qed

definition sample_sender :: "StreamNum outgoingStreamsMap" where
  "sample_sender = (newOutgoingStreamsMap StreamTypeBidi)\<lparr>om_streams := [(1, 1)], om_nextStream := 2, om_maxStream := 5\<rparr>"

lemma sample_peers_reachable:
  "reachable peers_init (peers_step id id) (newIncomingStreamsMap StreamTypeBidi 5 :: StreamNum incomingStreamsMap, {5}, sample_sender, Map.empty)"
proof -
  let ?m = "newIncomingStreamsMap StreamTypeBidi 5 :: StreamNum incomingStreamsMap"
  let ?o = "(newOutgoingStreamsMap StreamTypeBidi :: StreamNum outgoingStreamsMap)\<lparr>om_maxStream := 5\<rparr>"
  have mx: "im_maxStream ?m = 5"
    by code_simp
  have "reachable peers_init (peers_step id id) (?m, {5}, newOutgoingStreamsMap StreamTypeBidi, Map.empty)"
    using mx by (intro reachable.start) (auto simp: peers_init_def incoming_init_def outgoing_init_def MaxStreamCount_def intro!: exI [of _ 5])
  moreover have "SetMaxStream (newOutgoingStreamsMap StreamTypeBidi :: StreamNum outgoingStreamsMap) 5 = Inr (?o, [])"
    by code_simp
  ultimately have "reachable peers_init (peers_step id id) (?m, {5}, ?o, Map.empty)"
    by (blast intro: reachable.step peers_step.opener outgoing_step.limit)
  moreover have "OpenStream id ?o = (sample_sender, [], Inr 1)"
    by code_simp
  ultimately show ?thesis
    by (blast intro: reachable.step peers_step.opener outgoing_step.try_open)
qed

theorem opened_streams_accepted_witness:
  "\<exists>m' s. GetOrOpenStream id (newIncomingStreamsMap StreamTypeBidi 5 :: StreamNum incomingStreamsMap) 1 = Inr (m', s)"
  by (rule opened_streams_accepted [OF sample_peers_reachable]) (simp_all add: sample_sender_def newIncomingStreamsMap_def)

text \<open>
  (C15) No wake-up of \<open>OpenStreamSync\<close> is lost and streams are handed out in the order of the calls, unless a call is cancelled after it was signalled: whenever a stream may be
  opened and calls are waiting, the oldest call has been signalled or is past its wait, and as soon as it takes the mutex it gets the next stream.
\<close>

theorem open_sync_not_stuck:
  assumes "reachable outgoing_init (outgoing_step mk False L) (m, calls)" and "om_closeErr m = None"
    and "calls c \<noteq> None" and "om_nextStream m \<le> om_maxStream m"
  shows "\<exists>qp. (\<forall>c. calls c \<noteq> None \<longrightarrow> qp \<le> c) \<and> (map_of (om_openQueue m) qp = Some ChanFull \<or> calls qp = Some Woken) \<and>
    (\<exists>m'. open_sync_woken mk m qp = Inr (m', Opened (mk (om_nextStream m))))"
proof -
  have inv: "queue_inv (om_openQueue m) (om_lowestInQueue m) (om_highestInQueue m) calls"
    and sig: "om_openQueue m \<noteq> [] \<and> om_nextStream m \<le> om_maxStream m \<longrightarrow> (\<exists>k. signalled (om_openQueue m) calls k)"
    using sync_inv_reachable [OF assms(1)] assms(2) by (simp_all add: sync_inv_def)
  have "om_openQueue m \<noteq> []"
    using queue_invD(2) [OF inv] assms(3) by auto
  then obtain qp where qp: "signalled (om_openQueue m) calls qp"
    using sig assms(4) by blast
  then have least: "qp \<le> c" if "calls c \<noteq> None" for c
    using queue_invD(6) [OF inv qp] queue_invD(2) [OF inv] that by blast
  define m1 where "m1 = (fst (openStream mk m))\<lparr>om_openQueue := AList.delete qp (om_openQueue m), om_lowestInQueue := Suc qp\<rparr>"
  have "queue_inv (om_openQueue m1) (om_lowestInQueue m1) (om_highestInQueue m1) (calls(qp := None))"
    using queue_inv_remove [OF inv, of qp "Suc qp"] queue_invD(6) [OF inv qp] by (force simp: m1_def openStream_def Let_def)
  then obtain q where "unblockOpenSync m1 = Inr (m1\<lparr>om_openQueue := q\<rparr>)"
    by (rule unblockOpenSync_inv)
  then have "open_sync_woken mk m qp = Inr (m1\<lparr>om_openQueue := q\<rparr>, Opened (mk (om_nextStream m)))"
    using assms(2,4) by (simp add: open_sync_woken_def openStream_def Let_def m1_def)
  then show ?thesis
    using least qp unfolding signalled_def by blast
qed

definition waiting_0 :: "StreamNum outgoingStreamsMap" where
  "waiting_0 = (newOutgoingStreamsMap StreamTypeBidi)\<lparr>om_openQueue := [(0, ChanEmpty)], om_highestInQueue := 1, om_blockedSent := True\<rparr>"

definition waiting_1 :: "StreamNum outgoingStreamsMap" where
  "waiting_1 = waiting_0\<lparr>om_openQueue := [(0, ChanEmpty), (1, ChanEmpty)], om_highestInQueue := 2\<rparr>"

definition signalled_0 :: "StreamNum outgoingStreamsMap" where
  "signalled_0 = waiting_1\<lparr>om_openQueue := [(0, ChanFull), (1, ChanEmpty)], om_maxStream := 1\<rparr>"

lemma signalled_0_reachable: "reachable outgoing_init (outgoing_step id lossy {1}) (signalled_0, [0 \<mapsto> Waiting, 1 \<mapsto> Waiting])"
proof -
  let ?o = "newOutgoingStreamsMap StreamTypeBidi :: StreamNum outgoingStreamsMap"
  have "open_sync_start id None ?o = (waiting_0, [QueueStreamsBlocked \<lparr>sb_Type = StreamTypeBidi, sb_StreamLimit = 0\<rparr>], OpenWait 0)"
    by code_simp
  from outgoing_step.start [OF this] have 1: "outgoing_step id lossy {1} (?o, Map.empty) (waiting_0, [0 \<mapsto> Waiting])"
    by simp
  have "open_sync_start id None waiting_0 = (waiting_1, [], OpenWait 1)"
    by code_simp
  from outgoing_step.start [OF this] have 2: "outgoing_step id lossy {1} (waiting_0, [0 \<mapsto> Waiting]) (waiting_1, [0 \<mapsto> Waiting, 1 \<mapsto> Waiting])"
    by simp
  have "SetMaxStream waiting_1 1 = Inr (signalled_0, [QueueStreamsBlocked \<lparr>sb_Type = StreamTypeBidi, sb_StreamLimit = 1\<rparr>])"
    by code_simp
  then have 3: "outgoing_step id lossy {1} (waiting_1, [0 \<mapsto> Waiting, 1 \<mapsto> Waiting]) (signalled_0, [0 \<mapsto> Waiting, 1 \<mapsto> Waiting])"
    by (rule outgoing_step.limit [rotated]) simp
  have "reachable outgoing_init (outgoing_step id lossy {1}) (?o, Map.empty)"
    by (rule reachable.start) (auto simp: outgoing_init_def)
  then show ?thesis
    using 1 2 3 by (blast intro: reachable.step)
qed

theorem open_sync_not_stuck_witness: "\<exists>m'. open_sync_woken id signalled_0 0 = Inr (m', Opened 1)"
proof -
  have "om_nextStream signalled_0 = 1"
    by code_simp
  moreover have "om_maxStream signalled_0 = 1" "om_closeErr signalled_0 = None"
    by code_simp+
  ultimately obtain qp m' where "\<forall>c. [0 \<mapsto> Waiting, 1 \<mapsto> Waiting] c \<noteq> None \<longrightarrow> qp \<le> c" "open_sync_woken id signalled_0 qp = Inr (m', Opened 1)"
    using open_sync_not_stuck [OF signalled_0_reachable, of 1] by auto
  then show ?thesis
    by (auto dest: spec [of _ 0])
qed

text \<open>
  When the context of a call ends after the call was signalled, the wake-up is lost: a stream could be opened, but the other waiting call is not woken, not even
  when the limit arrives again, and \<open>OpenStream\<close> reports too many open streams.
\<close>

theorem cancelled_call_loses_wakeup:
  "\<exists>m. reachable outgoing_init (outgoing_step id True {1}) (m, [1 \<mapsto> Waiting]) \<and> om_closeErr m = None \<and> om_nextStream m \<le> om_maxStream m \<and>
     map_of (om_openQueue m) 1 = Some ChanEmpty \<and> SetMaxStream m 1 = Inr (m, []) \<and> snd (snd (OpenStream id m)) = Inl StreamOpenErr"
proof -
  have "outgoing_step id True {1} (signalled_0, [0 \<mapsto> Waiting, 1 \<mapsto> Waiting]) (open_sync_cancel signalled_0 0, [0 \<mapsto> Waiting, 1 \<mapsto> Waiting](0 := None))"
    by (rule outgoing_step.cancel) simp_all
  with signalled_0_reachable have "reachable outgoing_init (outgoing_step id True {1}) (open_sync_cancel signalled_0 0, [1 \<mapsto> Waiting])"
    by (auto intro: reachable.step simp: fun_upd_twist)
  moreover have "om_closeErr (open_sync_cancel signalled_0 0) = None" "om_nextStream (open_sync_cancel signalled_0 0) \<le> om_maxStream (open_sync_cancel signalled_0 0)"
    "map_of (om_openQueue (open_sync_cancel signalled_0 0)) 1 = Some ChanEmpty"
    "SetMaxStream (open_sync_cancel signalled_0 0) 1 = Inr (open_sync_cancel signalled_0 0, [])"
    "snd (snd (OpenStream id (open_sync_cancel signalled_0 0))) = Inl StreamOpenErr"
    by code_simp+
  ultimately show ?thesis
    by blast
qed

text \<open>
  (C25) As long as \<open>AcceptStream\<close> is called by one goroutine at a time it does not miss a stream: while it waits and the peer has opened a stream that was not accepted, its
  channel is ready, and trying again returns that stream.
\<close>

theorem accept_not_stuck:
  assumes "reachable accept_init (accept_step mk True) (m, calls)" and "calls t = Some WaitingNew" and "im_closeErr m = None"
    and "im_nextStreamToAccept m < im_nextStreamToOpen m"
  shows "chan_recv (im_newStreamChan m) \<noteq> None \<and> (\<exists>m' ev str. accept_try m = Inr (m', ev, Accepted (im_nextStreamToAccept m) str))"
proof -
  have inv: "incoming_ok m" "im_newStreamChan m \<noteq> ChanEmpty"
    using accept_reachable_inv [OF assms(1)] assms(2,4) by (auto simp: accept_inv_def)
  then have "im_nextStreamToAccept m \<in> fst ` set (im_streams m)" "1 \<le> im_nextStreamToAccept m"
    using assms(4) by (auto simp: incoming_ok_def)
  then obtain e where "map_of (im_streams m) (im_nextStreamToAccept m) = Some e"
    by (metis map_of_eq_None_iff not_None_eq)
  then show ?thesis
    using inv(2) assms(3) by (auto simp: accept_try_def Let_def incoming_deleteStream_def chan_recv_def split: go_chan.splits)
qed

definition fresh_incoming :: "StreamNum incomingStreamsMap" where
  "fresh_incoming = newIncomingStreamsMap StreamTypeBidi 5"

lemma accept_wait_reachable:
  assumes "single \<longrightarrow> n = 1" and "n \<in> {1, 2 :: nat}"
  shows "reachable accept_init (accept_step id single) (fresh_incoming, if n = 1 then [0 \<mapsto> WaitingNew] else [0 \<mapsto> WaitingNew, 1 \<mapsto> WaitingNew])"
proof -
  have drain: "accept_drain fresh_incoming = fresh_incoming" and fails: "accept_try fresh_incoming = Inr (fresh_incoming, [], AcceptWait)"
    by code_simp+
  have enter: "accept_step id single (fresh_incoming, calls) (fresh_incoming, calls(t \<mapsto> Trying))"
    if "calls t = None" "single \<longrightarrow> calls = Map.empty" for calls and t :: nat
    using accept_step.enter [OF that, of id fresh_incoming] by (simp add: drain)
  have wait: "accept_step id single (fresh_incoming, calls(t \<mapsto> Trying)) (fresh_incoming, calls(t \<mapsto> WaitingNew))" for calls t
    using accept_step.try_accept [of "calls(t \<mapsto> Trying)" t fresh_incoming fresh_incoming "[]" AcceptWait] by (simp add: fails)
  have "reachable accept_init (accept_step id single) (fresh_incoming, Map.empty)"
    by (rule reachable.start) (auto simp: accept_init_def incoming_init_def fresh_incoming_def MaxStreamCount_def intro!: exI [of _ 5])
  then have one: "reachable accept_init (accept_step id single) (fresh_incoming, [0 \<mapsto> WaitingNew])"
    using enter [of Map.empty 0] wait [of Map.empty 0] by (auto intro: reachable.step)
  show ?thesis
  proof (cases "n = 1")
    case False
    then show ?thesis
      using one enter [of "[0 \<mapsto> WaitingNew]" 1] wait [of "[0 \<mapsto> WaitingNew]" 1] assms by (auto intro: reachable.step)
  qed (simp add: one)
qed

lemma accept_opened: "accept_step id single (fresh_incoming, calls) (sample_incoming, calls)"
proof (rule accept_step.opened)
  show "GetOrOpenStream id fresh_incoming 2 = Inr (sample_incoming, Some 2)"
    by code_simp
qed

theorem accept_not_stuck_witness: "\<exists>m' ev str. accept_try sample_incoming = Inr (m', ev, Accepted 1 str)"
proof -
  have "reachable accept_init (accept_step id True) (sample_incoming, [0 \<mapsto> WaitingNew])"
    using accept_wait_reachable [of True 1] accept_opened by (auto intro: reachable.step)
  from accept_not_stuck [OF this, of 0] show ?thesis
    by (simp add: sample_incoming_def)
qed

text \<open>
  Two concurrent calls of \<open>AcceptStream\<close> can miss one: the peer opens two streams, which signals the channel once; the first call accepts a stream, and the second call keeps
  waiting although the next stream is there.
\<close>

theorem concurrent_accept_misses_stream:
  "\<exists>m. reachable accept_init (accept_step id False) (m, [1 \<mapsto> WaitingNew]) \<and> im_closeErr m = None \<and>
     im_nextStreamToAccept m < im_nextStreamToOpen m \<and> im_newStreamChan m = ChanEmpty"
proof -
  let ?m = "sample_incoming\<lparr>im_newStreamChan := ChanEmpty\<rparr>" and ?m' = "sample_incoming\<lparr>im_newStreamChan := ChanEmpty, im_nextStreamToAccept := 2\<rparr>"
  have "reachable accept_init (accept_step id False) (sample_incoming, [0 \<mapsto> WaitingNew, 1 \<mapsto> WaitingNew])"
    using accept_wait_reachable [of False 2] accept_opened by (auto intro: reachable.step)
  moreover have "accept_step id False (sample_incoming, [0 \<mapsto> WaitingNew, 1 \<mapsto> WaitingNew]) (?m, [0 \<mapsto> WaitingNew, 1 \<mapsto> WaitingNew](0 \<mapsto> Trying))"
    by (rule accept_step.recv) (simp_all add: sample_incoming_def chan_recv_def)
  ultimately have "reachable accept_init (accept_step id False) (?m, [0 \<mapsto> Trying, 1 \<mapsto> WaitingNew])"
    by (auto intro: reachable.step simp: fun_upd_twist)
  moreover have "accept_try ?m = Inr (?m', [], Accepted 1 1)"
    by code_simp
  from accept_step.try_accept [OF _ this, of "[0 \<mapsto> Trying, 1 \<mapsto> WaitingNew]" 0 id False]
  have "accept_step id False (?m, [0 \<mapsto> Trying, 1 \<mapsto> WaitingNew]) (?m', [1 \<mapsto> WaitingNew])"
    by (simp add: fun_upd_twist)
  ultimately have "reachable accept_init (accept_step id False) (?m', [1 \<mapsto> WaitingNew])"
    by (rule reachable.step)
  then show ?thesis
    by (intro exI [of _ ?m']) (simp add: sample_incoming_def)
qed

end
