(* ===== verification/Streams_Manager.thy ===== *)
theory Streams_Manager
  imports Streams_Map
begin

text \<open>
  The four stream maps of a connection behind stream IDs, after \<open>streams_map.go\<close>. \<open>mk\<close> makes the stream of an ID (\<open>newStream\<close>, \<open>newSendStream\<close> or \<open>newReceiveStream\<close> with the flow controller of the ID). A blocking
  call is modelled up to its first wait; the later pieces are those of the maps.
\<close>

section \<open>State\<close>

record 's streamsMap =
  sm_perspective :: Perspective
  sm_maxIncomingBidiStreams :: u64
  sm_maxIncomingUniStreams :: u64
  sm_outgoingBidiStreams :: "'s outgoingStreamsMap"
  sm_outgoingUniStreams :: "'s outgoingStreamsMap"
  sm_incomingBidiStreams :: "'s incomingStreamsMap"
  sm_incomingUniStreams :: "'s incomingStreamsMap"
  sm_reset :: bool

definition Err0RTTRejected :: go_error where "Err0RTTRejected = ErrorNew ''0-RTT rejected''"

definition initMaps :: "'s streamsMap \<Rightarrow> 's streamsMap" where
  "initMaps m = m\<lparr>sm_outgoingBidiStreams := newOutgoingStreamsMap StreamTypeBidi,
     sm_outgoingUniStreams := newOutgoingStreamsMap StreamTypeUni,
     sm_incomingBidiStreams := newIncomingStreamsMap StreamTypeBidi (sm_maxIncomingBidiStreams m),
     sm_incomingUniStreams := newIncomingStreamsMap StreamTypeUni (sm_maxIncomingUniStreams m)\<rparr>"

definition newStreamsMap :: "u64 \<Rightarrow> u64 \<Rightarrow> Perspective \<Rightarrow> 's streamsMap" where
  "newStreamsMap maxBidi maxUni pers = initMaps
     \<lparr>sm_perspective = pers, sm_maxIncomingBidiStreams = maxBidi, sm_maxIncomingUniStreams = maxUni,
      sm_outgoingBidiStreams = newOutgoingStreamsMap StreamTypeBidi, sm_outgoingUniStreams = newOutgoingStreamsMap StreamTypeUni,
      sm_incomingBidiStreams = newIncomingStreamsMap StreamTypeBidi maxBidi,
      sm_incomingUniStreams = newIncomingStreamsMap StreamTypeUni maxUni, sm_reset = False\<rparr>"

text \<open>The IDs of our streams and of the streams of the peer.\<close>

definition own_id :: "'s streamsMap \<Rightarrow> StreamType \<Rightarrow> StreamNum \<Rightarrow> StreamID" where
  "own_id m t num = StreamNum_StreamID num t (sm_perspective m)"

definition peer_id :: "'s streamsMap \<Rightarrow> StreamType \<Rightarrow> StreamNum \<Rightarrow> StreamID" where
  "peer_id m t num = StreamNum_StreamID num t (Opposite (sm_perspective m))"

section \<open>Opening and accepting\<close>

definition streams_OpenStream :: "(StreamID \<Rightarrow> 's) \<Rightarrow> 's streamsMap \<Rightarrow> 's streamsMap \<times> stream_event list \<times> (streams_error + 's)" where
  "streams_OpenStream mk m =
     (if sm_reset m then (m, [], Inl (OtherErr Err0RTTRejected))
      else let (mm, ev, r) = OpenStream (mk \<circ> own_id m StreamTypeBidi) (sm_outgoingBidiStreams m) in
        (m\<lparr>sm_outgoingBidiStreams := mm\<rparr>, ev, convert_result r StreamTypeBidi (sm_perspective m)))"

definition streams_OpenStreamSync :: "(StreamID \<Rightarrow> 's) \<Rightarrow> 's streamsMap \<Rightarrow> go_error option \<Rightarrow> 's streamsMap \<times> stream_event list \<times> 's open_outcome" where
  "streams_OpenStreamSync mk m ctx_err =
     (if sm_reset m then (m, [], OpenFailed (OtherErr Err0RTTRejected))
      else let (mm, ev, r) = open_sync_start (mk \<circ> own_id m StreamTypeBidi) ctx_err (sm_outgoingBidiStreams m) in
        (m\<lparr>sm_outgoingBidiStreams := mm\<rparr>, ev,
         case r of OpenFailed e \<Rightarrow> OpenFailed (convertStreamError e StreamTypeBidi (sm_perspective m)) | _ \<Rightarrow> r))"

definition streams_OpenUniStream :: "(StreamID \<Rightarrow> 's) \<Rightarrow> 's streamsMap \<Rightarrow> 's streamsMap \<times> stream_event list \<times> (streams_error + 's)" where
  "streams_OpenUniStream mk m =
     (if sm_reset m then (m, [], Inl (OtherErr Err0RTTRejected))
      else let (mm, ev, r) = OpenStream (mk \<circ> own_id m StreamTypeUni) (sm_outgoingUniStreams m) in
        (m\<lparr>sm_outgoingUniStreams := mm\<rparr>, ev, convert_result r StreamTypeBidi (sm_perspective m)))"

definition streams_OpenUniStreamSync :: "(StreamID \<Rightarrow> 's) \<Rightarrow> 's streamsMap \<Rightarrow> go_error option \<Rightarrow> 's streamsMap \<times> stream_event list \<times> 's open_outcome" where
  "streams_OpenUniStreamSync mk m ctx_err =
     (if sm_reset m then (m, [], OpenFailed (OtherErr Err0RTTRejected))
      else let (mm, ev, r) = open_sync_start (mk \<circ> own_id m StreamTypeUni) ctx_err (sm_outgoingUniStreams m) in
        (m\<lparr>sm_outgoingUniStreams := mm\<rparr>, ev,
         case r of OpenFailed e \<Rightarrow> OpenFailed (convertStreamError e StreamTypeUni (sm_perspective m)) | _ \<Rightarrow> r))"

definition streams_AcceptStream :: "'s streamsMap \<Rightarrow> streams_error + 's streamsMap \<times> stream_event list \<times> 's accept_outcome" where
  "streams_AcceptStream m =
     (if sm_reset m then Inl (OtherErr Err0RTTRejected)
      else rbind (convert_result (accept_try (accept_drain (sm_incomingBidiStreams m))) StreamTypeBidi (Opposite (sm_perspective m)))
        (\<lambda>(mm, ev, out). Inr (m\<lparr>sm_incomingBidiStreams := mm\<rparr>, ev, out)))"

definition streams_AcceptUniStream :: "'s streamsMap \<Rightarrow> streams_error + 's streamsMap \<times> stream_event list \<times> 's accept_outcome" where
  "streams_AcceptUniStream m =
     (if sm_reset m then Inl (OtherErr Err0RTTRejected)
      else rbind (convert_result (accept_try (accept_drain (sm_incomingUniStreams m))) StreamTypeUni (Opposite (sm_perspective m)))
        (\<lambda>(mm, ev, out). Inr (m\<lparr>sm_incomingUniStreams := mm\<rparr>, ev, out)))"

section \<open>Streams by ID\<close>

definition streams_DeleteStream :: "'s streamsMap \<Rightarrow> StreamID \<Rightarrow> streams_error + 's streamsMap \<times> stream_event list" where
  "streams_DeleteStream m sid =
     (let num = StreamID_StreamNum sid; pers = sm_perspective m in
      case StreamID_Type sid of
        StreamTypeUni \<Rightarrow>
          if InitiatedBy sid = pers
          then rbind (convert_result (outgoing_DeleteStream (sm_outgoingUniStreams m) num) StreamTypeUni pers)
            (\<lambda>mm. Inr (m\<lparr>sm_outgoingUniStreams := mm\<rparr>, []))
          else rbind (convert_result (incoming_DeleteStream (sm_incomingUniStreams m) num) StreamTypeUni (Opposite pers))
            (\<lambda>(mm, ev). Inr (m\<lparr>sm_incomingUniStreams := mm\<rparr>, ev))
      | StreamTypeBidi \<Rightarrow>
          if InitiatedBy sid = pers
          then rbind (convert_result (outgoing_DeleteStream (sm_outgoingBidiStreams m) num) StreamTypeBidi pers)
            (\<lambda>mm. Inr (m\<lparr>sm_outgoingBidiStreams := mm\<rparr>, []))
          else rbind (convert_result (incoming_DeleteStream (sm_incomingBidiStreams m) num) StreamTypeBidi (Opposite pers))
            (\<lambda>(mm, ev). Inr (m\<lparr>sm_incomingBidiStreams := mm\<rparr>, ev)))"

definition get_bidi_stream :: "(StreamID \<Rightarrow> 's) \<Rightarrow> 's streamsMap \<Rightarrow> StreamID \<Rightarrow> streams_error + 's streamsMap \<times> 's option" where
  "get_bidi_stream mk m sid =
     convert_result
       (if InitiatedBy sid = sm_perspective m
        then rbind (GetStream (sm_outgoingBidiStreams m) (StreamID_StreamNum sid)) (\<lambda>str. Inr (m, str))
        else rbind (GetOrOpenStream (mk \<circ> peer_id m StreamTypeBidi) (sm_incomingBidiStreams m) (StreamID_StreamNum sid))
          (\<lambda>(mm, str). Inr (m\<lparr>sm_incomingBidiStreams := mm\<rparr>, str)))
       StreamTypeBidi (InitiatedBy sid)"

definition getOrOpenReceiveStream :: "(StreamID \<Rightarrow> 's) \<Rightarrow> 's streamsMap \<Rightarrow> StreamID \<Rightarrow> streams_error + 's streamsMap \<times> 's option" where
  "getOrOpenReceiveStream mk m sid =
     (case StreamID_Type sid of
        StreamTypeUni \<Rightarrow>
          if InitiatedBy sid = sm_perspective m
          then Inl (OtherErr (ErrorNew (sprintf ''peer attempted to open receive stream %d'' [sid])))
          else convert_result
            (rbind (GetOrOpenStream (mk \<circ> peer_id m StreamTypeUni) (sm_incomingUniStreams m) (StreamID_StreamNum sid))
              (\<lambda>(mm, str). Inr (m\<lparr>sm_incomingUniStreams := mm\<rparr>, str))) StreamTypeUni (sm_perspective m)
      | StreamTypeBidi \<Rightarrow> get_bidi_stream mk m sid)"

definition getOrOpenSendStream :: "(StreamID \<Rightarrow> 's) \<Rightarrow> 's streamsMap \<Rightarrow> StreamID \<Rightarrow> streams_error + 's streamsMap \<times> 's option" where
  "getOrOpenSendStream mk m sid =
     (case StreamID_Type sid of
        StreamTypeUni \<Rightarrow>
          if InitiatedBy sid = sm_perspective m
          then convert_result (rbind (GetStream (sm_outgoingUniStreams m) (StreamID_StreamNum sid)) (\<lambda>str. Inr (m, str)))
            StreamTypeUni (sm_perspective m)
          else Inl (OtherErr (ErrorNew (sprintf ''peer attempted to open send stream %d'' [sid])))
      | StreamTypeBidi \<Rightarrow> get_bidi_stream mk m sid)"

text \<open>The text of the errors that can get here; a panic is not an error.\<close>

definition error_string :: "streams_error \<Rightarrow> string" where
  "error_string e = (case e of StreamErr s \<Rightarrow> se_message s | StreamOpenErr \<Rightarrow> ''too many open streams''
     | OtherErr (ErrorNew s) \<Rightarrow> s | OtherErr _ \<Rightarrow> [])"

definition stream_state_error :: "streams_error + 'a \<Rightarrow> 'a result" where
  "stream_state_error r = (case r of
     Inl (OtherErr (Panic s)) \<Rightarrow> Inl (Panic s)
   | Inl e \<Rightarrow> Inl (TransportError StreamStateError 0 (error_string e))
   | Inr v \<Rightarrow> Inr v)"

definition GetOrOpenReceiveStream :: "(StreamID \<Rightarrow> 's) \<Rightarrow> 's streamsMap \<Rightarrow> StreamID \<Rightarrow> ('s streamsMap \<times> 's option) result" where
  "GetOrOpenReceiveStream mk m sid = stream_state_error (getOrOpenReceiveStream mk m sid)"

definition GetOrOpenSendStream :: "(StreamID \<Rightarrow> 's) \<Rightarrow> 's streamsMap \<Rightarrow> StreamID \<Rightarrow> ('s streamsMap \<times> 's option) result" where
  "GetOrOpenSendStream mk m sid = stream_state_error (getOrOpenSendStream mk m sid)"

section \<open>Limits, closing and 0-RTT\<close>

definition HandleMaxStreamsFrame :: "'s streamsMap \<Rightarrow> MaxStreamsFrame \<Rightarrow> ('s streamsMap \<times> stream_event list) result" where
  "HandleMaxStreamsFrame m f =
     (case ms_Type f of
        StreamTypeUni \<Rightarrow> rbind (SetMaxStream (sm_outgoingUniStreams m) (ms_MaxStreamNum f)) (\<lambda>(mm, ev). Inr (m\<lparr>sm_outgoingUniStreams := mm\<rparr>, ev))
      | StreamTypeBidi \<Rightarrow> rbind (SetMaxStream (sm_outgoingBidiStreams m) (ms_MaxStreamNum f)) (\<lambda>(mm, ev). Inr (m\<lparr>sm_outgoingBidiStreams := mm\<rparr>, ev)))"

text \<open>The four values are those of the transport parameters of the peer.\<close>

definition UpdateLimits :: "'s streamsMap \<Rightarrow> ByteCount \<Rightarrow> StreamNum \<Rightarrow> ByteCount \<Rightarrow> StreamNum \<Rightarrow> ('s streamsMap \<times> stream_event list) result" where
  "UpdateLimits m initialMaxStreamDataBidiRemote maxBidiStreamNum initialMaxStreamDataUni maxUniStreamNum =
     (let ev1 = UpdateSendWindows (own_id m StreamTypeBidi) (sm_outgoingBidiStreams m) initialMaxStreamDataBidiRemote in
      rbind (SetMaxStream (sm_outgoingBidiStreams m) maxBidiStreamNum) (\<lambda>(bidi, ev2).
      let ev3 = UpdateSendWindows (own_id m StreamTypeUni) (sm_outgoingUniStreams m) initialMaxStreamDataUni in
      rbind (SetMaxStream (sm_outgoingUniStreams m) maxUniStreamNum) (\<lambda>(uni, ev4).
      Inr (m\<lparr>sm_outgoingBidiStreams := bidi, sm_outgoingUniStreams := uni\<rparr>, ev1 @ ev2 @ ev3 @ ev4))))"

definition streams_CloseWithError :: "'s streamsMap \<Rightarrow> go_error \<Rightarrow> ('s streamsMap \<times> stream_event list) result" where
  "streams_CloseWithError m err =
     rbind (outgoing_CloseWithError (own_id m StreamTypeBidi) (sm_outgoingBidiStreams m) err) (\<lambda>(ob, ev1).
     rbind (outgoing_CloseWithError (own_id m StreamTypeUni) (sm_outgoingUniStreams m) err) (\<lambda>(ou, ev2).
     rbind (incoming_CloseWithError (peer_id m StreamTypeBidi) (sm_incomingBidiStreams m) err) (\<lambda>(ib, ev3).
     rbind (incoming_CloseWithError (peer_id m StreamTypeUni) (sm_incomingUniStreams m) err) (\<lambda>(iu, ev4).
     Inr (m\<lparr>sm_outgoingBidiStreams := ob, sm_outgoingUniStreams := ou, sm_incomingBidiStreams := ib, sm_incomingUniStreams := iu\<rparr>,
          ev1 @ ev2 @ ev3 @ ev4)))))"

definition ResetFor0RTT :: "'s streamsMap \<Rightarrow> ('s streamsMap \<times> stream_event list) result" where
  "ResetFor0RTT m =
     rbind (streams_CloseWithError (m\<lparr>sm_reset := True\<rparr>) Err0RTTRejected) (\<lambda>(m, ev). Inr (initMaps m, ev))"

definition UseResetMaps :: "'s streamsMap \<Rightarrow> 's streamsMap" where
  "UseResetMaps m = m\<lparr>sm_reset := False\<rparr>"

section \<open>Streams belong to their IDs\<close>

definition in_ids :: "(StreamNum \<Rightarrow> 's) \<Rightarrow> 's incomingStreamsMap \<Rightarrow> bool" where
  "in_ids mk m \<longleftrightarrow> (\<forall>n e. map_of (im_streams m) n = Some e \<longrightarrow> ie_stream e = mk n)"

definition out_ids :: "(StreamNum \<Rightarrow> 's) \<Rightarrow> 's outgoingStreamsMap \<Rightarrow> bool" where
  "out_ids mk m \<longleftrightarrow> (\<forall>n s. map_of (om_streams m) n = Some s \<longrightarrow> s = mk n)"

lemma in_ids_GetOrOpen: "in_ids mk m \<Longrightarrow> GetOrOpenStream mk m num = Inr (m', s) \<Longrightarrow> in_ids mk m'"
  by (auto simp: GetOrOpenStream_def open_incoming_eq lift_err_def in_ids_def alist_fold_update_map_of split: if_splits option.splits)

lemma GetOrOpen_stream: "in_ids mk m \<Longrightarrow> GetOrOpenStream mk m num = Inr (m', Some str) \<Longrightarrow> str = mk num"
  by (auto simp: GetOrOpenStream_def open_incoming_eq lift_err_def in_ids_def alist_fold_update_map_of split: if_splits option.splits)

lemma in_ids_delete: "in_ids mk m \<Longrightarrow> incoming_deleteStream m num = Inr (m', ev) \<Longrightarrow> in_ids mk m'"
  by (auto simp: incoming_deleteStream_def in_ids_def alist Let_def split: option.splits if_splits)

lemma in_ids_cong: "in_ids mk m \<Longrightarrow> im_streams m' = im_streams m \<Longrightarrow> in_ids mk m'"
  by (simp add: in_ids_def)

lemma in_ids_accept:
  assumes "in_ids mk m" and "accept_try m = Inr (m', ev, out)"
  shows "in_ids mk m'"
proof -
  have "in_ids mk (m\<lparr>im_nextStreamToAccept := n\<rparr>)" for n
    using assms(1) by (simp add: in_ids_def)
  from in_ids_delete [OF this] this assms show ?thesis
    by (fastforce simp: accept_try_def Let_def rbind_eq_Inr split: option.splits if_splits)
qed

lemma in_ids_drain: "in_ids mk m \<Longrightarrow> in_ids mk (accept_drain m)"
  by (auto simp: accept_drain_def in_ids_def split: option.splits)

lemma out_ids_cong: "out_ids mk m \<Longrightarrow> om_streams m' = om_streams m \<Longrightarrow> out_ids mk m'"
  by (simp add: out_ids_def)

lemma unblockOpenSync_streams: "unblockOpenSync m = Inr m' \<Longrightarrow> om_streams m' = om_streams m"
  by (auto simp: unblockOpenSync_def rbind_eq_Inr split: if_splits option.splits)

lemma out_ids_step:
  assumes "out_ids mk (fst s)" and "outgoing_step mk lossy L s s'"
  shows "out_ids mk (fst s')"
  using assms(2,1)
proof (cases rule: outgoing_step.cases)
  case (limit num m m' ev calls)
  then have "om_streams m' = om_streams m"
    by (auto simp: SetMaxStream_def Let_def rbind_eq_Inr maybeSendBlockedFrame_def split: if_splits dest!: unblockOpenSync_streams)
  then show ?thesis
    using limit assms(1) by (auto intro: out_ids_cong)
next
  case (wake calls qp m m' out)
  then show ?thesis
    using assms(1) by (auto simp: out_ids_def open_sync_woken_def openStream_def Let_def rbind_eq_Inr alist
        split: option.splits if_splits dest!: unblockOpenSync_streams)
qed (auto simp: out_ids_def OpenStream_def open_sync_start_def openStream_def Let_def maybeSendBlockedFrame_def open_sync_cancel_def rbind_eq_Inr
    outgoing_DeleteStream_def outgoing_CloseWithError_def alist split: option.splits if_splits)

lemma incoming_step_ids: "in_ids mk m \<Longrightarrow> incoming_step mk m ev m' \<Longrightarrow> in_ids mk m'"
  by (erule incoming_step.cases)
    (auto simp: incoming_DeleteStream_def incoming_CloseWithError_def rbind_eq_Inr
      intro: in_ids_GetOrOpen in_ids_delete in_ids_accept in_ids_drain in_ids_cong)

definition ids_ok :: "(StreamID \<Rightarrow> 's) \<Rightarrow> 's streamsMap \<Rightarrow> bool" where
  "ids_ok mk m \<longleftrightarrow> out_ids (mk \<circ> own_id m StreamTypeBidi) (sm_outgoingBidiStreams m) \<and> out_ids (mk \<circ> own_id m StreamTypeUni) (sm_outgoingUniStreams m) \<and>
     in_ids (mk \<circ> peer_id m StreamTypeBidi) (sm_incomingBidiStreams m) \<and> in_ids (mk \<circ> peer_id m StreamTypeUni) (sm_incomingUniStreams m)"

text \<open>All operations on the streams of a connection; the last four rules are the later pieces of blocking calls.\<close>

inductive streams_step :: "(StreamID \<Rightarrow> 's) \<Rightarrow> 's streamsMap \<Rightarrow> 's streamsMap \<Rightarrow> bool" for mk where
  open_bidi: "streams_OpenStream mk m = (m', ev, r) \<Longrightarrow> streams_step mk m m'"
| open_uni: "streams_OpenUniStream mk m = (m', ev, r) \<Longrightarrow> streams_step mk m m'"
| sync_bidi: "streams_OpenStreamSync mk m ctx_err = (m', ev, out) \<Longrightarrow> streams_step mk m m'"
| sync_uni: "streams_OpenUniStreamSync mk m ctx_err = (m', ev, out) \<Longrightarrow> streams_step mk m m'"
| accept_bidi: "streams_AcceptStream m = Inr (m', ev, a) \<Longrightarrow> streams_step mk m m'"
| accept_uni: "streams_AcceptUniStream m = Inr (m', ev, a) \<Longrightarrow> streams_step mk m m'"
| delete: "streams_DeleteStream m sid = Inr (m', ev) \<Longrightarrow> streams_step mk m m'"
| receive_stream: "GetOrOpenReceiveStream mk m sid = Inr (m', str) \<Longrightarrow> streams_step mk m m'"
| send_stream: "GetOrOpenSendStream mk m sid = Inr (m', str) \<Longrightarrow> streams_step mk m m'"
| max_streams: "HandleMaxStreamsFrame m f = Inr (m', ev) \<Longrightarrow> streams_step mk m m'"
| limits: "UpdateLimits m b1 n1 b2 n2 = Inr (m', ev) \<Longrightarrow> streams_step mk m m'"
| close: "streams_CloseWithError m err = Inr (m', ev) \<Longrightarrow> streams_step mk m m'"
| reset: "ResetFor0RTT m = Inr (m', ev) \<Longrightarrow> streams_step mk m m'"
| use_reset: "streams_step mk m (UseResetMaps m)"
| resume_out_bidi: "outgoing_step (mk \<circ> own_id m StreamTypeBidi) True UNIV (sm_outgoingBidiStreams m, calls) (mm, calls') \<Longrightarrow>
    streams_step mk m (m\<lparr>sm_outgoingBidiStreams := mm\<rparr>)"
| resume_out_uni: "outgoing_step (mk \<circ> own_id m StreamTypeUni) True UNIV (sm_outgoingUniStreams m, calls) (mm, calls') \<Longrightarrow>
    streams_step mk m (m\<lparr>sm_outgoingUniStreams := mm\<rparr>)"
| resume_in_bidi: "incoming_step (mk \<circ> peer_id m StreamTypeBidi) (sm_incomingBidiStreams m) ev mm \<Longrightarrow>
    streams_step mk m (m\<lparr>sm_incomingBidiStreams := mm\<rparr>)"
| resume_in_uni: "incoming_step (mk \<circ> peer_id m StreamTypeUni) (sm_incomingUniStreams m) ev mm \<Longrightarrow>
    streams_step mk m (m\<lparr>sm_incomingUniStreams := mm\<rparr>)"

text \<open>The operations of an outgoing map are steps, and each changes only its own map.\<close>

lemma out_ids_ops:
  assumes "out_ids mk m"
  shows "OpenStream mk m = (m', ev, r) \<Longrightarrow> out_ids mk m'"
    and "open_sync_start mk ctx_err m = (m', ev, out) \<Longrightarrow> out_ids mk m'"
    and "outgoing_DeleteStream m num = Inr m' \<Longrightarrow> out_ids mk m'"
    and "SetMaxStream m num = Inr (m', ev) \<Longrightarrow> out_ids mk m'"
    and "outgoing_CloseWithError sid m err = Inr (m', ev) \<Longrightarrow> out_ids mk m'"
  using out_ids_step [of mk "(m, Map.empty)" True UNIV] assms
  by (fastforce intro: outgoing_step.intros)+

lemma convert_result_Inr [simp]: "convert_result r t p = Inr v \<longleftrightarrow> r = Inr v"
  by (cases r) (simp_all add: convert_result_def)

lemma stream_state_error_Inr [simp]: "stream_state_error r = Inr v \<longleftrightarrow> r = Inr v"
  by (cases r) (auto simp: stream_state_error_def split: streams_error.splits go_error.splits)

lemma ids_ok_init: "ids_ok mk (newStreamsMap b u p)"
  by (simp add: ids_ok_def newStreamsMap_def initMaps_def newOutgoingStreamsMap_def newIncomingStreamsMap_def in_ids_def out_ids_def)

lemma own_peer_id:
  assumes "0 \<le> sid"
  shows "InitiatedBy sid = sm_perspective m \<Longrightarrow> own_id m (StreamID_Type sid) (StreamID_StreamNum sid) = sid"
    and "InitiatedBy sid \<noteq> sm_perspective m \<Longrightarrow> peer_id m (StreamID_Type sid) (StreamID_StreamNum sid) = sid"
  using StreamID_of_parts [OF assms] by (cases "InitiatedBy sid"; cases "sm_perspective m"; simp add: own_id_def peer_id_def Opposite_def)+

lemma id_updates [simp]:
  "own_id (m\<lparr>sm_outgoingBidiStreams := ob\<rparr>) = own_id m" "own_id (m\<lparr>sm_outgoingUniStreams := ou\<rparr>) = own_id m"
  "own_id (m\<lparr>sm_incomingBidiStreams := ib\<rparr>) = own_id m" "own_id (m\<lparr>sm_incomingUniStreams := iu\<rparr>) = own_id m"
  "peer_id (m\<lparr>sm_outgoingBidiStreams := ob\<rparr>) = peer_id m" "peer_id (m\<lparr>sm_outgoingUniStreams := ou\<rparr>) = peer_id m"
  "peer_id (m\<lparr>sm_incomingBidiStreams := ib\<rparr>) = peer_id m" "peer_id (m\<lparr>sm_incomingUniStreams := iu\<rparr>) = peer_id m"
  "own_id (m\<lparr>sm_reset := r\<rparr>) = own_id m" "peer_id (m\<lparr>sm_reset := r\<rparr>) = peer_id m"
  by (simp_all add: own_id_def peer_id_def fun_eq_iff)

lemma get_bidi_stream_ids:
  assumes ok: "ids_ok mk m" and eq: "get_bidi_stream mk m sid = Inr (m', str)"
  shows "ids_ok mk m'" and "StreamID_Type sid = StreamTypeBidi \<Longrightarrow> 0 \<le> sid \<Longrightarrow> str = Some s \<Longrightarrow> s = mk sid"
proof -
  show "ids_ok mk m'"
    using eq ok in_ids_GetOrOpen [of "mk \<circ> peer_id m StreamTypeBidi" "sm_incomingBidiStreams m"]
    by (auto simp: get_bidi_stream_def ids_ok_def rbind_eq_Inr split: if_splits)
  show "s = mk sid" if "StreamID_Type sid = StreamTypeBidi" "0 \<le> sid" "str = Some s"
  proof (cases "InitiatedBy sid = sm_perspective m")
    case True
    then have "s = mk (own_id m StreamTypeBidi (StreamID_StreamNum sid))"
      using eq ok that(3) by (auto simp: get_bidi_stream_def ids_ok_def rbind_eq_Inr GetStream_def out_ids_def split: if_splits)
    then show ?thesis
      using own_peer_id(1) [OF that(2) True] that(1) by simp
  next
    case False
    then have "s = mk (peer_id m StreamTypeBidi (StreamID_StreamNum sid))"
      using eq ok that(3) by (auto simp: get_bidi_stream_def ids_ok_def rbind_eq_Inr dest: GetOrOpen_stream)
    then show ?thesis
      using own_peer_id(2) [OF that(2) False] that(1) by simp
  qed
qed

lemma GetOrOpenReceiveStream_ids:
  assumes ok: "ids_ok mk m" and eq: "GetOrOpenReceiveStream mk m sid = Inr (m', str)"
  shows "ids_ok mk m'" and "0 \<le> sid \<Longrightarrow> str = Some s \<Longrightarrow> s = mk sid"
    and "StreamID_Type sid = StreamTypeUni \<Longrightarrow> InitiatedBy sid \<noteq> sm_perspective m"
proof -
  have uni: "StreamID_Type sid = StreamTypeUni \<Longrightarrow> InitiatedBy sid \<noteq> sm_perspective m \<and>
    (\<exists>mm. GetOrOpenStream (mk \<circ> peer_id m StreamTypeUni) (sm_incomingUniStreams m) (StreamID_StreamNum sid) = Inr (mm, str) \<and>
      m' = m\<lparr>sm_incomingUniStreams := mm\<rparr>)"
    and bidi: "StreamID_Type sid = StreamTypeBidi \<Longrightarrow> get_bidi_stream mk m sid = Inr (m', str)"
    using eq by (auto simp: GetOrOpenReceiveStream_def getOrOpenReceiveStream_def rbind_eq_Inr split: if_splits)
  show "StreamID_Type sid = StreamTypeUni \<Longrightarrow> InitiatedBy sid \<noteq> sm_perspective m"
    using uni by blast
  show "ids_ok mk m'"
    using uni bidi ok get_bidi_stream_ids(1) [OF ok] in_ids_GetOrOpen [of "mk \<circ> peer_id m StreamTypeUni" "sm_incomingUniStreams m"]
    by (cases "StreamID_Type sid") (auto simp: ids_ok_def)
  show "s = mk sid" if "0 \<le> sid" "str = Some s"
  proof (cases "StreamID_Type sid")
    case StreamTypeUni
    then have "s = mk (peer_id m StreamTypeUni (StreamID_StreamNum sid))"
      using uni ok that(2) by (auto simp: ids_ok_def dest: GetOrOpen_stream)
    then show ?thesis
      using own_peer_id(2) [OF that(1), of m] uni StreamTypeUni by simp
  qed (use bidi get_bidi_stream_ids(2) [OF ok _ _ that] in simp)
qed

lemma GetOrOpenSendStream_ids:
  assumes ok: "ids_ok mk m" and eq: "GetOrOpenSendStream mk m sid = Inr (m', str)"
  shows "ids_ok mk m'" and "0 \<le> sid \<Longrightarrow> str = Some s \<Longrightarrow> s = mk sid"
    and "StreamID_Type sid = StreamTypeUni \<Longrightarrow> InitiatedBy sid = sm_perspective m"
proof -
  have uni: "StreamID_Type sid = StreamTypeUni \<Longrightarrow> InitiatedBy sid = sm_perspective m \<and> m' = m \<and> str = map_of (om_streams (sm_outgoingUniStreams m)) (StreamID_StreamNum sid)"
    and bidi: "StreamID_Type sid = StreamTypeBidi \<Longrightarrow> get_bidi_stream mk m sid = Inr (m', str)"
    using eq by (auto simp: GetOrOpenSendStream_def getOrOpenSendStream_def rbind_eq_Inr GetStream_def split: if_splits)
  show "StreamID_Type sid = StreamTypeUni \<Longrightarrow> InitiatedBy sid = sm_perspective m"
    using uni by blast
  show "ids_ok mk m'"
    using uni bidi ok get_bidi_stream_ids(1) [OF ok] by (cases "StreamID_Type sid") auto
  show "s = mk sid" if "0 \<le> sid" "str = Some s"
  proof (cases "StreamID_Type sid")
    case StreamTypeUni
    then have "s = mk (own_id m StreamTypeUni (StreamID_StreamNum sid))"
      using uni ok that(2) by (auto simp: ids_ok_def out_ids_def)
    then show ?thesis
      using own_peer_id(1) [OF that(1), of m] uni StreamTypeUni by simp
  qed (use bidi get_bidi_stream_ids(2) [OF ok _ _ that] in simp)
qed

text \<open>A step that changes one map keeps the others.\<close>

lemma ids_ok_update:
  assumes "ids_ok mk m"
  shows "out_ids (mk \<circ> own_id m StreamTypeBidi) mm \<Longrightarrow> ids_ok mk (m\<lparr>sm_outgoingBidiStreams := mm\<rparr>)"
    and "out_ids (mk \<circ> own_id m StreamTypeUni) mm \<Longrightarrow> ids_ok mk (m\<lparr>sm_outgoingUniStreams := mm\<rparr>)"
    and "in_ids (mk \<circ> peer_id m StreamTypeBidi) mi \<Longrightarrow> ids_ok mk (m\<lparr>sm_incomingBidiStreams := mi\<rparr>)"
    and "in_ids (mk \<circ> peer_id m StreamTypeUni) mi \<Longrightarrow> ids_ok mk (m\<lparr>sm_incomingUniStreams := mi\<rparr>)"
  using assms by (simp_all add: ids_ok_def)

lemma ids_ok_step:
  assumes ok: "ids_ok mk m" and "streams_step mk m m'"
  shows "ids_ok mk m'"
proof -
  have ids: "out_ids (mk \<circ> own_id m StreamTypeBidi) (sm_outgoingBidiStreams m)" "out_ids (mk \<circ> own_id m StreamTypeUni) (sm_outgoingUniStreams m)"
    "in_ids (mk \<circ> peer_id m StreamTypeBidi) (sm_incomingBidiStreams m)" "in_ids (mk \<circ> peer_id m StreamTypeUni) (sm_incomingUniStreams m)"
    using ok by (simp_all add: ids_ok_def)
  note out_ops = ids_ok_update(1) [OF ok out_ids_ops(1) [OF ids(1)]] ids_ok_update(1) [OF ok out_ids_ops(2) [OF ids(1)]]
    ids_ok_update(1) [OF ok out_ids_ops(3) [OF ids(1)]] ids_ok_update(1) [OF ok out_ids_ops(4) [OF ids(1)]]
    ids_ok_update(2) [OF ok out_ids_ops(1) [OF ids(2)]] ids_ok_update(2) [OF ok out_ids_ops(2) [OF ids(2)]]
    ids_ok_update(2) [OF ok out_ids_ops(3) [OF ids(2)]] ids_ok_update(2) [OF ok out_ids_ops(4) [OF ids(2)]]
  note in_ops = ids_ok_update(3) [OF ok in_ids_accept [OF in_ids_drain [OF ids(3)]]] ids_ok_update(3) [OF ok in_ids_delete [OF ids(3)]]
    ids_ok_update(4) [OF ok in_ids_accept [OF in_ids_drain [OF ids(4)]]] ids_ok_update(4) [OF ok in_ids_delete [OF ids(4)]]
  show ?thesis
    using assms(2)
  proof (cases rule: streams_step.cases)
    case receive_stream
    then show ?thesis
      using GetOrOpenReceiveStream_ids(1) [OF ok] by simp
  next
    case send_stream
    then show ?thesis
      using GetOrOpenSendStream_ids(1) [OF ok] by simp
  next
    case resume_out_bidi
    then show ?thesis
      using ids out_ids_step [OF _ resume_out_bidi(2)] by (simp add: ids_ok_def)
  next
    case resume_out_uni
    then show ?thesis
      using ids out_ids_step [OF _ resume_out_uni(2)] by (simp add: ids_ok_def)
  next
    case resume_in_bidi
    then show ?thesis
      using ids incoming_step_ids [OF _ resume_in_bidi(2)] by (simp add: ids_ok_def)
  next
    case resume_in_uni
    then show ?thesis
      using ids incoming_step_ids [OF _ resume_in_uni(2)] by (simp add: ids_ok_def)
  next
    case use_reset
    then show ?thesis
      using ids by (simp add: ids_ok_def UseResetMaps_def)
  next
    case (reset ev)
    then have "\<exists>m1. m' = initMaps m1"
      by (auto simp: ResetFor0RTT_def rbind_eq_Inr)
    then show ?thesis
      by (auto simp: ids_ok_def initMaps_def newOutgoingStreamsMap_def newIncomingStreamsMap_def in_ids_def out_ids_def)
  next
    case (close err ev)
    then show ?thesis
      using ids by (auto simp: streams_CloseWithError_def ids_ok_def rbind_eq_Inr incoming_CloseWithError_def outgoing_CloseWithError_def in_ids_def out_ids_def)
  next
    case (limits b1 n1 b2 n2 ev)
    then obtain b e u e' where eqs: "SetMaxStream (sm_outgoingBidiStreams m) n1 = Inr (b, e)" "SetMaxStream (sm_outgoingUniStreams m) n2 = Inr (u, e')"
      "m' = m\<lparr>sm_outgoingBidiStreams := b, sm_outgoingUniStreams := u\<rparr>"
      by (auto simp: UpdateLimits_def Let_def rbind_eq_Inr)
    then show ?thesis
      using out_ids_ops(4) [OF ids(1) eqs(1)] out_ids_ops(4) [OF ids(2) eqs(2)] ok by (simp add: ids_ok_def)
  next
    case open_bidi
    then show ?thesis
      using ok by (auto simp: streams_OpenStream_def split: if_splits prod.splits intro: out_ops)
  next
    case open_uni
    then show ?thesis
      using ok by (auto simp: streams_OpenUniStream_def split: if_splits prod.splits intro: out_ops)
  next
    case sync_bidi
    then show ?thesis
      using ok by (auto simp: streams_OpenStreamSync_def split: if_splits prod.splits intro: out_ops)
  next
    case sync_uni
    then show ?thesis
      using ok by (auto simp: streams_OpenUniStreamSync_def split: if_splits prod.splits intro: out_ops)
  next
    case accept_bidi
    then show ?thesis
      by (auto simp: streams_AcceptStream_def rbind_eq_Inr split: if_splits intro: in_ops)
  next
    case accept_uni
    then show ?thesis
      by (auto simp: streams_AcceptUniStream_def rbind_eq_Inr split: if_splits intro: in_ops)
  next
    case max_streams
    then show ?thesis
      by (auto simp: HandleMaxStreamsFrame_def rbind_eq_Inr split: StreamType.splits intro: out_ops)
  next
    case delete
    then show ?thesis
      by (auto simp: streams_DeleteStream_def rbind_eq_Inr incoming_DeleteStream_def Let_def split: StreamType.splits if_splits intro: out_ops in_ops)
  qed
qed

lemma ids_ok_reachable: "reachable (\<lambda>m. \<exists>b u p. m = newStreamsMap b u p) (streams_step mk) m \<Longrightarrow> ids_ok mk m"
  by (erule reachable_invariant) (auto intro: ids_ok_init ids_ok_step)

section \<open>Properties\<close>

text \<open>
  (C34) A stream found by its ID is the stream that was made for this ID, in every state of the connection (also after the maps were reset because 0-RTT was rejected), and it has the side asked for: no receive side is
  given out for our own unidirectional streams, and no send side for those of the peer.
\<close>

theorem streams_found_by_id:
  assumes "reachable (\<lambda>m. \<exists>b u p. m = newStreamsMap b u p) (streams_step mk) m" and "0 \<le> sid"
  shows "(\<forall>m' s. GetOrOpenReceiveStream mk m sid = Inr (m', s) \<longrightarrow>
      s \<in> {None, Some (mk sid)} \<and> (StreamID_Type sid = StreamTypeUni \<longrightarrow> InitiatedBy sid \<noteq> sm_perspective m)) \<and>
    (\<forall>m' s. GetOrOpenSendStream mk m sid = Inr (m', s) \<longrightarrow>
      s \<in> {None, Some (mk sid)} \<and> (StreamID_Type sid = StreamTypeUni \<longrightarrow> InitiatedBy sid = sm_perspective m))"
  using GetOrOpenReceiveStream_ids(2,3) [OF ids_ok_reachable [OF assms(1)]] GetOrOpenSendStream_ids(2,3) [OF ids_ok_reachable [OF assms(1)]] assms(2)
  by (metis insert_iff option.exhaust)

theorem streams_found_by_id_witness:
  "(case GetOrOpenReceiveStream id (newStreamsMap 5 5 PerspectiveClient) 5 of Inr (m', s) \<Rightarrow> s = Some 5 | Inl e \<Rightarrow> False)"
proof -
  have "reachable (\<lambda>m. \<exists>b u p. m = newStreamsMap b u p) (streams_step id) (newStreamsMap 5 5 PerspectiveClient)"
    by (rule reachable.start) blast
  from streams_found_by_id [OF this, of 5]
  have "GetOrOpenReceiveStream id (newStreamsMap 5 5 PerspectiveClient) 5 = Inr (m', s) \<longrightarrow> s \<in> {None, Some 5}" for m' s
    by simp
  moreover have "case GetOrOpenReceiveStream id (newStreamsMap 5 5 PerspectiveClient :: StreamID streamsMap) 5 of Inr (m', s) \<Rightarrow> s \<noteq> None | Inl e \<Rightarrow> False"
    by code_simp
  ultimately show ?thesis
    by (auto split: sum.splits)
qed

text \<open>
  The error for a unidirectional stream of the peer names other streams than the one the frame was for: it is computed with our own perspective. A client that allows
  one such stream is asked for stream 7 (the server's second one; the limit is stream 3).
\<close>

lemma uni_limit_error_names_wrong_stream:
  "GetOrOpenReceiveStream id (newStreamsMap 1 1 PerspectiveClient :: StreamID streamsMap) 7 =
     Inl (TransportError StreamStateError 0 ''peer tried to open stream 6 (current limit: 2)'') \<and>
   GetOrOpenReceiveStream id (newStreamsMap 1 1 PerspectiveClient :: StreamID streamsMap) 5 =
     Inl (TransportError StreamStateError 0 ''peer tried to open stream 5 (current limit: 1)'')"
  by code_simp

end
