(* ===== verification/Congestion.thy ===== *)
theory Congestion
  imports RTT_Stats
begin

text \<open>
  Congestion control (\<open>internal/congestion\<close>): hybrid slow start, the pacer, the cubic window function and the sender that combines them, which the ACK handler runs
  in Reno mode. Where the code relies on the width of its integers (the pacer and the cubic function) the wrap-around is written out; the pacer asks for the bandwidth when
  it needs it, so the bandwidth is an argument. \<open>math.Cbrt\<close> is an argument of the cubic function. Tracing is left out.
\<close>

section \<open>Hybrid slow start\<close>

definition hybridStartLowWindow :: ByteCount where "hybridStartLowWindow = 16"
definition hybridStartMinSamples :: u32 where "hybridStartMinSamples = 8"
definition hybridStartDelayFactorExp :: nat where "hybridStartDelayFactorExp = 3"
definition hybridStartDelayMinThresholdUs :: int where "hybridStartDelayMinThresholdUs = 4000"
definition hybridStartDelayMaxThresholdUs :: int where "hybridStartDelayMaxThresholdUs = 16000"

record HybridSlowStart =
  hs_endPacketNumber :: PacketNumber
  hs_lastSentPacketNumber :: PacketNumber
  hs_started :: bool
  hs_currentMinRTT :: Duration
  hs_rttSampleCount :: u32
  hs_hystartFound :: bool

definition StartReceiveRound :: "HybridSlowStart \<Rightarrow> PacketNumber \<Rightarrow> HybridSlowStart" where
  "StartReceiveRound s lastSent =
     s\<lparr>hs_endPacketNumber := lastSent, hs_currentMinRTT := 0, hs_rttSampleCount := 0, hs_started := True\<rparr>"

definition IsEndOfRound :: "HybridSlowStart \<Rightarrow> PacketNumber \<Rightarrow> bool" where
  "IsEndOfRound s ack \<longleftrightarrow> hs_endPacketNumber s < ack"

definition delay_threshold :: "Duration \<Rightarrow> Duration" where
  "delay_threshold minRTT =
     (let us = drop_bit hybridStartDelayFactorExp (go_div minRTT Microsecond);
          us = min us hybridStartDelayMaxThresholdUs in
      max us hybridStartDelayMinThresholdUs * Microsecond)"

definition ShouldExitSlowStart :: "HybridSlowStart \<Rightarrow> Duration \<Rightarrow> Duration \<Rightarrow> ByteCount \<Rightarrow> HybridSlowStart \<times> bool" where
  "ShouldExitSlowStart s latestRTT minRTT congestionWindow =
     (let s = (if \<not> hs_started s then StartReceiveRound s (hs_lastSentPacketNumber s) else s) in
      if hs_hystartFound s then (s, True)
      else
        let s = s\<lparr>hs_rttSampleCount := hs_rttSampleCount s + 1\<rparr>;
            s = (if hs_rttSampleCount s \<le> hybridStartMinSamples \<and> (hs_currentMinRTT s = 0 \<or> hs_currentMinRTT s > latestRTT)
                 then s\<lparr>hs_currentMinRTT := latestRTT\<rparr> else s);
            s = (if hs_rttSampleCount s = hybridStartMinSamples \<and> hs_currentMinRTT s > minRTT + delay_threshold minRTT
                 then s\<lparr>hs_hystartFound := True\<rparr> else s) in
        (s, congestionWindow \<ge> hybridStartLowWindow \<and> hs_hystartFound s))"

definition hybrid_OnPacketSent :: "HybridSlowStart \<Rightarrow> PacketNumber \<Rightarrow> HybridSlowStart" where
  "hybrid_OnPacketSent s packetNumber = s\<lparr>hs_lastSentPacketNumber := packetNumber\<rparr>"

definition hybrid_OnPacketAcked :: "HybridSlowStart \<Rightarrow> PacketNumber \<Rightarrow> HybridSlowStart" where
  "hybrid_OnPacketAcked s ackedPacketNumber =
     (if IsEndOfRound s ackedPacketNumber then s\<lparr>hs_started := False\<rparr> else s)"

definition hybrid_Restart :: "HybridSlowStart \<Rightarrow> HybridSlowStart" where
  "hybrid_Restart s = s\<lparr>hs_started := False, hs_hystartFound := False\<rparr>"

section \<open>Pacer\<close>

definition wrap64 :: "int \<Rightarrow> int" where
  "wrap64 i = int64 (uint64 i)"

definition infBandwidth :: u64 where "infBandwidth = - 1"
definition BytesPerSecond :: u64 where "BytesPerSecond = 8"

definition BandwidthFromDelta :: "ByteCount \<Rightarrow> Duration \<Rightarrow> u64" where
  "BandwidthFromDelta bytes delta = uint64 bytes * 1000000000 div uint64 delta * BytesPerSecond"

definition maxBurstSizePackets :: int where "maxBurstSizePackets = 10"

record pacer =
  pc_budgetAtLastSent :: ByteCount
  pc_maxDatagramSize :: ByteCount
  pc_lastSentTime :: Time

text \<open>The bandwidth is in bits per second, the adjusted one in bytes per second.\<close>

definition adjustedBandwidth :: "u64 \<Rightarrow> u64" where
  "adjustedBandwidth bandwidth = bandwidth div BytesPerSecond * 5 div 4"

definition maxBurstSize :: "pacer \<Rightarrow> u64 \<Rightarrow> ByteCount" where
  "maxBurstSize p bw =
     max (go_div (int64 (uint64 (MinPacingDelay + TimerGranularity) * bw)) 1000000000) (maxBurstSizePackets * pc_maxDatagramSize p)"

definition newPacer :: "u64 \<Rightarrow> pacer" where
  "newPacer bw =
     (let p = \<lparr>pc_budgetAtLastSent = 0, pc_maxDatagramSize = InitialPacketSize, pc_lastSentTime = 0\<rparr> in
      p\<lparr>pc_budgetAtLastSent := maxBurstSize p bw\<rparr>)"

definition Budget :: "pacer \<Rightarrow> u64 \<Rightarrow> Time \<Rightarrow> ByteCount" where
  "Budget p bw now =
     (if pc_lastSentTime p = 0 then maxBurstSize p bw
      else let budget = wrap64 (pc_budgetAtLastSent p + go_div (wrap64 (int64 bw * (now - pc_lastSentTime p))) 1000000000);
               budget = (if budget < 0 then MaxByteCount else budget) in
      min (maxBurstSize p bw) budget)"

definition pacer_SentPacket :: "pacer \<Rightarrow> u64 \<Rightarrow> Time \<Rightarrow> ByteCount \<Rightarrow> pacer" where
  "pacer_SentPacket p bw sendTime sz =
     (let budget = Budget p bw sendTime in
      p\<lparr>pc_budgetAtLastSent := if sz \<ge> budget then 0 else budget - sz, pc_lastSentTime := sendTime\<rparr>)"

definition pacer_TimeUntilSend :: "pacer \<Rightarrow> u64 \<Rightarrow> Time result" where
  "pacer_TimeUntilSend p bw =
     (if pc_budgetAtLastSent p \<ge> pc_maxDatagramSize p then Inr 0
      else let diff = 1000000000 * uint64 (pc_maxDatagramSize p - pc_budgetAtLastSent p) in
      if bw = 0 then Inl (Panic ''integer divide by zero'')
      else let d = diff div bw; d = (if diff mod bw > 0 then d + 1 else d) in
      Inr (pc_lastSentTime p + max MinPacingDelay (int64 d)))"

definition pacer_SetMaxDatagramSize :: "pacer \<Rightarrow> ByteCount \<Rightarrow> pacer" where
  "pacer_SetMaxDatagramSize p s = p\<lparr>pc_maxDatagramSize := s\<rparr>"

section \<open>Cubic\<close>

definition cubeScale :: nat where "cubeScale = 40"
definition cubeCongestionWindowScale :: int where "cubeCongestionWindowScale = 410"
definition maxDatagramSize :: ByteCount where "maxDatagramSize = InitialPacketSize"
definition cubeFactor :: int where "cubeFactor = 2 ^ cubeScale div cubeCongestionWindowScale div maxDatagramSize"
definition beta_const :: rat where "beta_const = fl32 (7 / 10)"
definition betaLastMax_const :: rat where "betaLastMax_const = fl32 (85 / 100)"

record Cubic =
  cu_numConnections :: int
  cu_epoch :: Time
  cu_lastMaxCongestionWindow :: ByteCount
  cu_ackedBytesCount :: ByteCount
  cu_estimatedTCPcongestionWindow :: ByteCount
  cu_originPointCongestionWindow :: ByteCount
  cu_timeToOriginPoint :: u32
  cu_lastTargetCongestionWindow :: ByteCount

definition cubic_Reset :: "Cubic \<Rightarrow> Cubic" where
  "cubic_Reset c = c\<lparr>cu_epoch := 0, cu_lastMaxCongestionWindow := 0, cu_ackedBytesCount := 0,
     cu_estimatedTCPcongestionWindow := 0, cu_originPointCongestionWindow := 0, cu_timeToOriginPoint := 0,
     cu_lastTargetCongestionWindow := 0\<rparr>"

definition NewCubic :: Cubic where
  "NewCubic = cubic_Reset \<lparr>cu_numConnections = 1, cu_epoch = 0, cu_lastMaxCongestionWindow = 0, cu_ackedBytesCount = 0,
     cu_estimatedTCPcongestionWindow = 0, cu_originPointCongestionWindow = 0, cu_timeToOriginPoint = 0, cu_lastTargetCongestionWindow = 0\<rparr>"

definition cubic_beta :: "Cubic \<Rightarrow> rat" where
  "cubic_beta c = (let n = fl32 (of_int (cu_numConnections c)) in fl32 (fl32 (fl32 (n - 1) + beta_const) / n))"

definition cubic_betaLastMax :: "Cubic \<Rightarrow> rat" where
  "cubic_betaLastMax c = (let n = fl32 (of_int (cu_numConnections c)) in fl32 (fl32 (fl32 (n - 1) + betaLastMax_const) / n))"

definition cubic_alpha :: "Cubic \<Rightarrow> rat" where
  "cubic_alpha c =
     (let b = cubic_beta c; n = fl32 (of_int (cu_numConnections c)) in
      fl32 (fl32 (fl32 (fl32 (3 * n) * n) * fl32 (1 - b)) / fl32 (1 + b)))"

definition OnApplicationLimited :: "Cubic \<Rightarrow> Cubic" where
  "OnApplicationLimited c = c\<lparr>cu_epoch := 0\<rparr>"

definition CongestionWindowAfterPacketLoss :: "Cubic \<Rightarrow> ByteCount \<Rightarrow> Cubic \<times> ByteCount" where
  "CongestionWindowAfterPacketLoss c currentCongestionWindow =
     (let c = (if currentCongestionWindow + maxDatagramSize < cu_lastMaxCongestionWindow c
               then c\<lparr>cu_lastMaxCongestionWindow := float_to_int (fl32 (cubic_betaLastMax c * fl32 (of_int currentCongestionWindow)))\<rparr>
               else c\<lparr>cu_lastMaxCongestionWindow := currentCongestionWindow\<rparr>);
          c = c\<lparr>cu_epoch := 0\<rparr> in
      (c, float_to_int (fl32 (fl32 (of_int currentCongestionWindow) * cubic_beta c))))"

definition start_epoch :: "(rat \<Rightarrow> rat) \<Rightarrow> Cubic \<Rightarrow> ByteCount \<Rightarrow> ByteCount \<Rightarrow> Time \<Rightarrow> Cubic" where
  "start_epoch cbrt c ackedBytes currentCongestionWindow eventTime =
     (let c = c\<lparr>cu_epoch := eventTime, cu_ackedBytesCount := ackedBytes, cu_estimatedTCPcongestionWindow := currentCongestionWindow\<rparr> in
      if cu_lastMaxCongestionWindow c \<le> currentCongestionWindow
      then c\<lparr>cu_timeToOriginPoint := 0, cu_originPointCongestionWindow := currentCongestionWindow\<rparr>
      else c\<lparr>cu_timeToOriginPoint := word_of_int (float_to_int (cbrt (fl64 (of_int (wrap64 (cubeFactor * (cu_lastMaxCongestionWindow c - currentCongestionWindow))))))),
             cu_originPointCongestionWindow := cu_lastMaxCongestionWindow c\<rparr>)"

definition CongestionWindowAfterAck ::
  "(rat \<Rightarrow> rat) \<Rightarrow> Cubic \<Rightarrow> ByteCount \<Rightarrow> ByteCount \<Rightarrow> Duration \<Rightarrow> Time \<Rightarrow> Cubic \<times> ByteCount" where
  "CongestionWindowAfterAck cbrt c ackedBytes currentCongestionWindow delayMin eventTime =
     (let c = c\<lparr>cu_ackedBytesCount := cu_ackedBytesCount c + ackedBytes\<rparr>;
          c = (if cu_epoch c = 0 then start_epoch cbrt c ackedBytes currentCongestionWindow eventTime else c);
          elapsedTime = go_div (wrap64 (push_bit 10 (go_div (eventTime + delayMin - cu_epoch c) Microsecond))) (1000 * 1000);
          offset = wrap64 (uint (cu_timeToOriginPoint c) - elapsedTime);
          offset = (if offset < 0 then - offset else offset);
          delta = drop_bit cubeScale (wrap64 (cubeCongestionWindowScale * offset * offset * offset * maxDatagramSize));
          target = (if elapsedTime > uint (cu_timeToOriginPoint c)
                    then cu_originPointCongestionWindow c + delta else cu_originPointCongestionWindow c - delta);
          target = min target (currentCongestionWindow + go_div (cu_ackedBytesCount c) 2);
          est = cu_estimatedTCPcongestionWindow c + float_to_int (fl32 (fl32 (fl32 (fl32 (of_int (cu_ackedBytesCount c)) * cubic_alpha c)
                  * fl32 (of_int maxDatagramSize)) / fl32 (of_int (cu_estimatedTCPcongestionWindow c))));
          c = c\<lparr>cu_estimatedTCPcongestionWindow := est, cu_ackedBytesCount := 0, cu_lastTargetCongestionWindow := target\<rparr> in
      (c, if target < est then est else target))"

definition SetNumConnections :: "Cubic \<Rightarrow> int \<Rightarrow> Cubic" where
  "SetNumConnections c n = c\<lparr>cu_numConnections := n\<rparr>"

section \<open>The sender\<close>

definition maxBurstPackets :: int where "maxBurstPackets = 3"
definition renoBeta :: rat where "renoBeta = fl64 (7 / 10)"
definition minCongestionWindowPackets :: int where "minCongestionWindowPackets = 2"
definition initialCongestionWindow :: int where "initialCongestionWindow = 32"

record cubicSender =
  cs_hybridSlowStart :: HybridSlowStart
  cs_cubic :: Cubic
  cs_pacer :: pacer
  cs_reno :: bool
  cs_largestSentPacketNumber :: PacketNumber
  cs_largestAckedPacketNumber :: PacketNumber
  cs_largestSentAtLastCutback :: PacketNumber
  cs_lastCutbackExitedSlowstart :: bool
  cs_congestionWindow :: ByteCount
  cs_slowStartThreshold :: ByteCount
  cs_numAckedPackets :: u64
  cs_initialCongestionWindow :: ByteCount
  cs_initialMaxCongestionWindow :: ByteCount
  cs_maxDatagramSize :: ByteCount

definition estimate_bandwidth :: "ByteCount \<Rightarrow> Duration \<Rightarrow> u64" where
  "estimate_bandwidth cwnd srtt = (if srtt = 0 then infBandwidth else BandwidthFromDelta cwnd srtt)"

definition BandwidthEstimate :: "cubicSender \<Rightarrow> RTTStats \<Rightarrow> u64" where
  "BandwidthEstimate c rtt = estimate_bandwidth (cs_congestionWindow c) (rtt_smoothedRTT rtt)"

definition pacing_bandwidth :: "cubicSender \<Rightarrow> RTTStats \<Rightarrow> u64" where
  "pacing_bandwidth c rtt = adjustedBandwidth (BandwidthEstimate c rtt)"

definition new_HybridSlowStart :: HybridSlowStart where
  "new_HybridSlowStart = \<lparr>hs_endPacketNumber = 0, hs_lastSentPacketNumber = 0, hs_started = False, hs_currentMinRTT = 0,
     hs_rttSampleCount = 0, hs_hystartFound = False\<rparr>"

definition newCubicSender :: "RTTStats \<Rightarrow> bool \<Rightarrow> ByteCount \<Rightarrow> ByteCount \<Rightarrow> ByteCount \<Rightarrow> cubicSender" where
  "newCubicSender rtt reno initialMaxDatagramSize initialWindow initialMaxWindow =
     \<lparr>cs_hybridSlowStart = new_HybridSlowStart, cs_cubic = NewCubic,
      cs_pacer = newPacer (adjustedBandwidth (estimate_bandwidth initialWindow (rtt_smoothedRTT rtt))), cs_reno = reno,
      cs_largestSentPacketNumber = InvalidPacketNumber, cs_largestAckedPacketNumber = InvalidPacketNumber,
      cs_largestSentAtLastCutback = InvalidPacketNumber, cs_lastCutbackExitedSlowstart = False,
      cs_congestionWindow = initialWindow, cs_slowStartThreshold = MaxByteCount, cs_numAckedPackets = 0,
      cs_initialCongestionWindow = initialWindow, cs_initialMaxCongestionWindow = initialMaxWindow,
      cs_maxDatagramSize = initialMaxDatagramSize\<rparr>"

definition NewCubicSender :: "RTTStats \<Rightarrow> ByteCount \<Rightarrow> bool \<Rightarrow> cubicSender" where
  "NewCubicSender rtt initialMaxDatagramSize reno =
     newCubicSender rtt reno initialMaxDatagramSize (initialCongestionWindow * initialMaxDatagramSize)
       (MaxCongestionWindowPackets * initialMaxDatagramSize)"

definition sender_TimeUntilSend :: "cubicSender \<Rightarrow> RTTStats \<Rightarrow> Time result" where
  "sender_TimeUntilSend c rtt = pacer_TimeUntilSend (cs_pacer c) (pacing_bandwidth c rtt)"

definition HasPacingBudget :: "cubicSender \<Rightarrow> RTTStats \<Rightarrow> Time \<Rightarrow> bool" where
  "HasPacingBudget c rtt now \<longleftrightarrow> Budget (cs_pacer c) (pacing_bandwidth c rtt) now \<ge> cs_maxDatagramSize c"

definition maxCongestionWindow :: "cubicSender \<Rightarrow> ByteCount" where
  "maxCongestionWindow c = cs_maxDatagramSize c * MaxCongestionWindowPackets"

definition minCongestionWindow :: "cubicSender \<Rightarrow> ByteCount" where
  "minCongestionWindow c = cs_maxDatagramSize c * minCongestionWindowPackets"

definition sender_OnPacketSent :: "cubicSender \<Rightarrow> RTTStats \<Rightarrow> Time \<Rightarrow> PacketNumber \<Rightarrow> ByteCount \<Rightarrow> bool \<Rightarrow> cubicSender" where
  "sender_OnPacketSent c rtt sentTime packetNumber bytes isRetransmittable =
     (let c = c\<lparr>cs_pacer := pacer_SentPacket (cs_pacer c) (pacing_bandwidth c rtt) sentTime bytes\<rparr> in
      if \<not> isRetransmittable then c
      else c\<lparr>cs_largestSentPacketNumber := packetNumber,
             cs_hybridSlowStart := hybrid_OnPacketSent (cs_hybridSlowStart c) packetNumber\<rparr>)"

definition CanSend :: "cubicSender \<Rightarrow> ByteCount \<Rightarrow> bool" where
  "CanSend c bytesInFlight \<longleftrightarrow> bytesInFlight < cs_congestionWindow c"

definition InRecovery :: "cubicSender \<Rightarrow> bool" where
  "InRecovery c \<longleftrightarrow> cs_largestAckedPacketNumber c \<noteq> InvalidPacketNumber \<and> cs_largestAckedPacketNumber c \<le> cs_largestSentAtLastCutback c"

definition InSlowStart :: "cubicSender \<Rightarrow> bool" where
  "InSlowStart c \<longleftrightarrow> cs_congestionWindow c < cs_slowStartThreshold c"

definition MaybeExitSlowStart :: "cubicSender \<Rightarrow> RTTStats \<Rightarrow> cubicSender" where
  "MaybeExitSlowStart c rtt =
     (if InSlowStart c then
        let (hs, exit_now) = ShouldExitSlowStart (cs_hybridSlowStart c) (rtt_latestRTT rtt) (rtt_minRTT rtt)
                               (go_div (cs_congestionWindow c) (cs_maxDatagramSize c));
            c = c\<lparr>cs_hybridSlowStart := hs\<rparr> in
        if exit_now then c\<lparr>cs_slowStartThreshold := cs_congestionWindow c\<rparr> else c
      else c)"

definition isCwndLimited :: "cubicSender \<Rightarrow> ByteCount \<Rightarrow> bool" where
  "isCwndLimited c bytesInFlight \<longleftrightarrow>
     (let cwnd = cs_congestionWindow c in
      bytesInFlight \<ge> cwnd \<or> (InSlowStart c \<and> bytesInFlight > go_div cwnd 2) \<or>
      cwnd - bytesInFlight \<le> maxBurstPackets * cs_maxDatagramSize c)"

definition maybeIncreaseCwnd :: "(rat \<Rightarrow> rat) \<Rightarrow> cubicSender \<Rightarrow> RTTStats \<Rightarrow> ByteCount \<Rightarrow> ByteCount \<Rightarrow> Time \<Rightarrow> cubicSender" where
  "maybeIncreaseCwnd cbrt c rtt ackedBytes priorInFlight eventTime =
     (if \<not> isCwndLimited c priorInFlight then c\<lparr>cs_cubic := OnApplicationLimited (cs_cubic c)\<rparr>
      else if cs_congestionWindow c \<ge> maxCongestionWindow c then c
      else if InSlowStart c then c\<lparr>cs_congestionWindow := cs_congestionWindow c + cs_maxDatagramSize c\<rparr>
      else if cs_reno c then
        let c = c\<lparr>cs_numAckedPackets := cs_numAckedPackets c + 1\<rparr> in
        if cs_numAckedPackets c \<ge> uint64 (go_div (cs_congestionWindow c) (cs_maxDatagramSize c))
        then c\<lparr>cs_congestionWindow := cs_congestionWindow c + cs_maxDatagramSize c, cs_numAckedPackets := 0\<rparr>
        else c
      else
        let (cu, w) = CongestionWindowAfterAck cbrt (cs_cubic c) ackedBytes (cs_congestionWindow c) (rtt_minRTT rtt) eventTime in
        c\<lparr>cs_cubic := cu, cs_congestionWindow := min (maxCongestionWindow c) w\<rparr>)"

definition sender_OnPacketAcked ::
  "(rat \<Rightarrow> rat) \<Rightarrow> cubicSender \<Rightarrow> RTTStats \<Rightarrow> PacketNumber \<Rightarrow> ByteCount \<Rightarrow> ByteCount \<Rightarrow> Time \<Rightarrow> cubicSender" where
  "sender_OnPacketAcked cbrt c rtt ackedPacketNumber ackedBytes priorInFlight eventTime =
     (let c = c\<lparr>cs_largestAckedPacketNumber := max ackedPacketNumber (cs_largestAckedPacketNumber c)\<rparr> in
      if InRecovery c then c
      else
        let c = maybeIncreaseCwnd cbrt c rtt ackedBytes priorInFlight eventTime in
        if InSlowStart c then c\<lparr>cs_hybridSlowStart := hybrid_OnPacketAcked (cs_hybridSlowStart c) ackedPacketNumber\<rparr> else c)"

definition reduced_window :: "cubicSender \<Rightarrow> cubicSender" where
  "reduced_window c =
     (if cs_reno c then c\<lparr>cs_congestionWindow := float_to_int (fl64 (fl64 (of_int (cs_congestionWindow c)) * renoBeta))\<rparr>
      else let (cu, w) = CongestionWindowAfterPacketLoss (cs_cubic c) (cs_congestionWindow c) in
        c\<lparr>cs_cubic := cu, cs_congestionWindow := w\<rparr>)"

definition OnCongestionEvent :: "cubicSender \<Rightarrow> PacketNumber \<Rightarrow> cubicSender" where
  "OnCongestionEvent c packetNumber =
     (if packetNumber \<le> cs_largestSentAtLastCutback c then c
      else
        let c = c\<lparr>cs_lastCutbackExitedSlowstart := InSlowStart c\<rparr>;
            c = reduced_window c;
            c = (if cs_congestionWindow c < minCongestionWindow c then c\<lparr>cs_congestionWindow := minCongestionWindow c\<rparr> else c) in
        c\<lparr>cs_slowStartThreshold := cs_congestionWindow c, cs_largestSentAtLastCutback := cs_largestSentPacketNumber c,
          cs_numAckedPackets := 0\<rparr>)"

definition OnRetransmissionTimeout :: "cubicSender \<Rightarrow> bool \<Rightarrow> cubicSender" where
  "OnRetransmissionTimeout c packetsRetransmitted =
     (let c = c\<lparr>cs_largestSentAtLastCutback := InvalidPacketNumber\<rparr> in
      if \<not> packetsRetransmitted then c
      else c\<lparr>cs_hybridSlowStart := hybrid_Restart (cs_hybridSlowStart c), cs_cubic := cubic_Reset (cs_cubic c),
             cs_slowStartThreshold := go_div (cs_congestionWindow c) 2, cs_congestionWindow := minCongestionWindow c\<rparr>)"

definition OnConnectionMigration :: "cubicSender \<Rightarrow> cubicSender" where
  "OnConnectionMigration c =
     c\<lparr>cs_hybridSlowStart := hybrid_Restart (cs_hybridSlowStart c), cs_cubic := cubic_Reset (cs_cubic c),
       cs_largestSentPacketNumber := InvalidPacketNumber, cs_largestAckedPacketNumber := InvalidPacketNumber,
       cs_largestSentAtLastCutback := InvalidPacketNumber, cs_lastCutbackExitedSlowstart := False,
       cs_congestionWindow := cs_initialCongestionWindow c, cs_slowStartThreshold := cs_initialMaxCongestionWindow c,
       cs_numAckedPackets := 0\<rparr>"

definition sender_SetMaxDatagramSize :: "cubicSender \<Rightarrow> ByteCount \<Rightarrow> cubicSender result" where
  "sender_SetMaxDatagramSize c s =
     (if s < cs_maxDatagramSize c then Inl (Panic ''congestion BUG: decreased max datagram size'')
      else
        let cwndIsMinCwnd = (cs_congestionWindow c = minCongestionWindow c);
            c = c\<lparr>cs_maxDatagramSize := s\<rparr>;
            c = (if cwndIsMinCwnd then c\<lparr>cs_congestionWindow := minCongestionWindow c\<rparr> else c) in
        Inr (c\<lparr>cs_pacer := pacer_SetMaxDatagramSize (cs_pacer c) s\<rparr>))"

section \<open>The pacer is a token bucket\<close>

lemma wrap64_small: "0 \<le> i \<Longrightarrow> i < 2 ^ 63 \<Longrightarrow> wrap64 i = i"
  by (simp add: wrap64_def int64_uint64)

text \<open>Without overflow the budget grows by what the bandwidth allows, up to the size of a burst.\<close>

lemma Budget_eq:
  assumes "pc_lastSentTime p \<noteq> 0" and "0 \<le> pc_budgetAtLastSent p" and "pc_budgetAtLastSent p < 2 ^ 62"
    and "pc_lastSentTime p \<le> now" and "uint bw < 2 ^ 63" and "uint bw * (now - pc_lastSentTime p) < 2 ^ 63"
  shows "Budget p bw now = min (maxBurstSize p bw) (pc_budgetAtLastSent p + uint bw * (now - pc_lastSentTime p) div 1000000000)"
proof -
  let ?x = "uint bw * (now - pc_lastSentTime p)"
  have nn: "0 \<le> ?x"
    using assms(4) by simp
  have bw: "int64 bw = uint bw"
    using assms(5) by (simp add: int64_def sint_uint signed_take_bit_int_eq_self order.trans [OF _ uint_ge_0])
  have "?x div 1000000000 \<le> 2 ^ 63 div 1000000000"
    using assms(6) by (intro zdiv_mono1) auto
  then have "?x div 1000000000 < 2 ^ 62"
    by simp
  then have "wrap64 (pc_budgetAtLastSent p + ?x div 1000000000) = pc_budgetAtLastSent p + ?x div 1000000000"
    using assms(2,3) nn by (intro wrap64_small) (auto simp: pos_imp_zdiv_nonneg_iff)
  moreover have "wrap64 ?x = ?x"
    using nn assms(6) by (intro wrap64_small) auto
  moreover have "0 \<le> pc_budgetAtLastSent p + ?x div 1000000000"
    using assms(2) nn by (simp add: pos_imp_zdiv_nonneg_iff)
  ultimately show ?thesis
    using assms(1) nn by (simp add: Budget_def bw Let_def)
qed

lemma ceil_div:
  assumes "0 < (b :: int)" and "0 \<le> a"
  shows "a \<le> b * (a div b + (if a mod b > 0 then 1 else 0))"
proof -
  define q r where "q = a div b" and "r = a mod b"
  have "a = b * q + r" "0 \<le> r" "r \<le> b"
    using assms by (simp_all add: q_def r_def less_imp_le)
  then show ?thesis
    unfolding q_def [symmetric] r_def [symmetric] by (auto simp: distrib_left)
qed

lemma uint_div_ceil:
  assumes "0 < uint bw"
  shows "uint (diff div bw + (if diff mod bw > 0 then 1 else 0)) = uint (diff :: u64) div uint bw + (if uint diff mod uint bw > 0 then 1 else 0)"
proof (cases "uint diff mod uint bw > 0")
  case True
  then have "uint bw \<noteq> 1"
    by auto
  then have "1 < uint bw"
    using assms by linarith
  then have "uint diff div uint bw \<le> uint diff div 2"
    by (intro zdiv_mono2) auto
  also have "\<dots> < 2 ^ 63"
    using uint_lt2p [of diff] by (simp add: div_less_iff_less_mult)
  finally have "uint diff div uint bw + 1 < 2 ^ 64"
    by simp
  moreover have "0 \<le> uint diff div uint bw"
    using assms by (simp add: pos_imp_zdiv_nonneg_iff)
  ultimately show ?thesis
    using True by (simp add: uint_div uint_mod word_less_def uint_word_ariths)
next
  case False
  then show ?thesis
    by (simp add: uint_div uint_mod word_less_def)
qed

text \<open>The waiting time, in exact arithmetic.\<close>

lemma pacer_delay:
  assumes "pacer_TimeUntilSend p bw = Inr t" and "t \<noteq> 0" and "0 \<le> pc_budgetAtLastSent p" and "pc_maxDatagramSize p \<le> 65536"
    and "uint bw < 2 ^ 63"
  shows "1000000000 * (pc_maxDatagramSize p - pc_budgetAtLastSent p) \<le> uint bw * (t - pc_lastSentTime p)"
    and "MinPacingDelay \<le> t - pc_lastSentTime p" and "pc_budgetAtLastSent p < pc_maxDatagramSize p"
proof -
  let ?a = "1000000000 * (pc_maxDatagramSize p - pc_budgetAtLastSent p)" and ?b = "uint bw"
  have less: "pc_budgetAtLastSent p < pc_maxDatagramSize p" and bw: "bw \<noteq> 0"
    using assms(1,2) by (auto simp: pacer_TimeUntilSend_def Let_def split: if_splits)
  define diff :: u64 where "diff = 1000000000 * uint64 (pc_maxDatagramSize p - pc_budgetAtLastSent p)"
  define d :: u64 where "d = diff div bw + (if diff mod bw > 0 then 1 else 0)"
  have t: "t = pc_lastSentTime p + max MinPacingDelay (int64 d)"
    using assms(1) less bw by (simp add: pacer_TimeUntilSend_def Let_def diff_def d_def split: if_splits)
  have a: "0 \<le> ?a" "?a < 2 ^ 47"
    using less assms(3,4) by auto
  have "diff = word_of_int ?a"
    by (simp only: diff_def uint64_def of_int_mult of_int_numeral)
  then have diff: "uint diff = ?a"
    using a by (simp only: uint_word_of_int) simp
  have b: "0 < ?b"
    using bw uint_ge_0 [of bw] uint_0_iff [of bw] by linarith
  have d: "uint d = ?a div ?b + (if ?a mod ?b > 0 then 1 else 0)"
    unfolding d_def uint_div_ceil [OF b] diff ..
  have "?a div ?b \<le> ?a"
    using a(1) b zdiv_mono2 [of ?a 1 ?b] by simp
  then have "uint d < 2 ^ 63"
    unfolding d using a by auto
  then have "int64 d = uint d"
    by (simp add: int64_def sint_uint signed_take_bit_int_eq_self order.trans [OF _ uint_ge_0])
  then have "uint d \<le> t - pc_lastSentTime p"
    by (simp add: t)
  then have "?b * uint d \<le> ?b * (t - pc_lastSentTime p)"
    using b by simp
  then show "?a \<le> uint bw * (t - pc_lastSentTime p)"
    using ceil_div [OF b a(1)] d by simp
  show "MinPacingDelay \<le> t - pc_lastSentTime p" "pc_budgetAtLastSent p < pc_maxDatagramSize p"
    using less by (simp_all add: t)
qed

text \<open>Sending at given times, each packet within the budget at its time.\<close>

fun paced :: "u64 \<Rightarrow> pacer \<Rightarrow> (Time \<times> ByteCount) list \<Rightarrow> bool" where
  "paced bw p [] = True"
| "paced bw p ((t, sz) # sends) = (0 \<le> sz \<and> sz \<le> Budget p bw t \<and> paced bw (pacer_SentPacket p bw t sz) sends)"

lemma maxBurstSize_fields: "pc_maxDatagramSize p = pc_maxDatagramSize q \<Longrightarrow> maxBurstSize p bw = maxBurstSize q bw"
  by (simp add: maxBurstSize_def)

lemma Budget_le_burst: "Budget p bw t \<le> maxBurstSize p bw"
  by (simp add: Budget_def Let_def)

lemma paced_after:
  assumes "0 < t" and "t \<le> t'" and "0 \<le> sz" and "sz \<le> Budget p bw t" and "Budget p bw t < 2 ^ 62"
    and "uint bw < 2 ^ 63" and "uint bw * (t' - t) < 2 ^ 63"
  shows "Budget (pacer_SentPacket p bw t sz) bw t' + sz \<le> Budget p bw t + uint bw * (t' - t) div 1000000000"
proof -
  let ?q = "pacer_SentPacket p bw t sz"
  have q: "pc_lastSentTime ?q = t" "pc_budgetAtLastSent ?q = Budget p bw t - sz"
    using assms(4) by (auto simp: pacer_SentPacket_def Let_def)
  then have "Budget ?q bw t' = min (maxBurstSize ?q bw) (Budget p bw t - sz + uint bw * (t' - t) div 1000000000)"
    using assms Budget_eq [of ?q t' bw] by simp
  then show ?thesis
    by simp
qed

lemma paced_sum:
  assumes "paced bw p ((t, sz) # sends)" and "0 < t" and "sorted (map fst ((t, sz) # sends))" and "\<forall>(t', _) \<in> set sends. t' \<le> T" and "t \<le> T"
    and "maxBurstSize p bw < 2 ^ 62" and "uint bw < 2 ^ 63" and "uint bw * (T - t) < 2 ^ 63"
  shows "sz + sum_list (map snd sends) \<le> Budget p bw t + uint bw * (T - t) div 1000000000"
  using assms
proof (induction sends arbitrary: p t sz)
  case Nil
  then have "0 \<le> uint bw * (T - t) div 1000000000"
    by (simp add: pos_imp_zdiv_nonneg_iff)
  then show ?case
    using Nil.prems(1) by simp
next
  case (Cons s sends)
  obtain t' sz' where s: "s = (t', sz')"
    by (cases s)
  let ?q = "pacer_SentPacket p bw t sz"
  have t': "t \<le> t'" "t' \<le> T"
    using Cons.prems s by auto
  have mono: "uint bw * (t' - t) \<le> uint bw * (T - t)" "uint bw * (T - t') \<le> uint bw * (T - t)"
    using t' by (auto intro: mult_left_mono)
  have burst: "maxBurstSize ?q bw = maxBurstSize p bw"
    by (rule maxBurstSize_fields) (simp add: pacer_SentPacket_def Let_def)
  have "sz' + sum_list (map snd sends) \<le> Budget ?q bw t' + uint bw * (T - t') div 1000000000"
    using Cons.prems s t' mono burst by (intro Cons.IH) auto
  moreover have "Budget ?q bw t' + sz \<le> Budget p bw t + uint bw * (t' - t) div 1000000000"
    using Cons.prems t' mono Budget_le_burst [of p bw t] by (intro paced_after) auto
  moreover have "uint bw * (t' - t) div 1000000000 + uint bw * (T - t') div 1000000000 \<le> (uint bw * (t' - t) + uint bw * (T - t')) div 1000000000"
    by (simp add: div_add1_eq [of "uint bw * (t' - t)"] pos_imp_zdiv_nonneg_iff)
  moreover have "uint bw * (t' - t) + uint bw * (T - t') = uint bw * (T - t)"
    by (simp add: algebra_simps)
  ultimately show ?case
    by (simp add: s)
qed

section \<open>The congestion window\<close>

lemma renoBeta_bounds: "0 \<le> renoBeta" "renoBeta \<le> 7 / 10" "7 / 10 - 1 / 10 ^ 16 \<le> renoBeta"
  by code_simp+

text \<open>The float arithmetic of the back-off is within one byte of seven tenths.\<close>

lemma reno_window:
  assumes "0 \<le> w" and "w < 2 ^ 48"
  defines "w' \<equiv> float_to_int (fl64 (fl64 (of_int w) * renoBeta))"
  shows "0 \<le> w'" and "10 * w' \<le> 7 * w + 9" and "7 * w - 10 \<le> 10 * w'"
proof -
  define x where "x = of_int w * renoBeta"
  have w: "(of_int w :: rat) < 2 ^ 48" "0 \<le> (of_int w :: rat)"
    using assms less_pow2_rat [of w 48] by simp_all
  have up: "x \<le> of_int w * (7 / 10)" and low: "of_int w * (7 / 10 - 1 / 10 ^ 16) \<le> x" and "0 \<le> x"
    unfolding x_def using mult_left_mono [OF renoBeta_bounds(2) w(2)] mult_left_mono [OF renoBeta_bounds(3) w(2)] renoBeta_bounds(1) w(2) by simp_all
  have lt: "x < 2 ^ 53"
    using up w by simp
  have fl: "fl64 (of_int w) = of_int w"
    using assms by (intro round_float_of_int) auto
  then have w': "w' = float_to_int (fl64 x)"
    by (simp add: w'_def x_def)
  note bounds = round_float_bounds [OF \<open>0 \<le> x\<close> lt]
  have nn: "0 \<le> fl64 x"
    using bounds(1) [of 0] \<open>0 \<le> x\<close> by simp
  then have eq: "w' = \<lfloor>fl64 x\<rfloor>"
    by (simp add: w' float_to_int_def)
  show "0 \<le> w'"
    using nn by (simp add: eq)
  have "fl64 x \<le> of_int \<lceil>x\<rceil>"
    by (rule bounds(2)) simp
  then have "w' \<le> \<lceil>x\<rceil>"
    unfolding eq by (metis floor_of_int floor_mono)
  moreover have "7 * w \<le> 10 * ((7 * w + 9) div 10)"
    by linarith
  then have "(of_int (7 * w) :: rat) \<le> of_int (10 * ((7 * w + 9) div 10))"
    by (simp only: of_int_le_iff)
  then have "\<lceil>x\<rceil> \<le> (7 * w + 9) div 10"
    using up by (simp add: ceiling_le_iff)
  ultimately show "10 * w' \<le> 7 * w + 9"
    by simp
  have "of_int \<lfloor>x\<rfloor> \<le> fl64 x"
    by (rule bounds(1)) simp
  then have "\<lfloor>x\<rfloor> \<le> w'"
    unfolding eq by (metis floor_of_int floor_mono)
  moreover have "x < of_int \<lfloor>x\<rfloor> + 1"
    by linarith
  then have "(of_int (7 * w - 11) :: rat) < of_int (10 * \<lfloor>x\<rfloor>)"
    using low w(1) by (simp add: field_simps)
  then have "7 * w - 10 \<le> 10 * \<lfloor>x\<rfloor>"
    by (simp only: of_int_less_iff)
  ultimately show "7 * w - 10 \<le> 10 * w'"
    by simp
qed

inductive sender_step :: "cubicSender \<Rightarrow> cubicSender \<Rightarrow> bool" where
  sent: "sender_step c (sender_OnPacketSent c rtt t pn bytes retransmittable)"
| slow_start: "sender_step c (MaybeExitSlowStart c rtt)"
| acked: "sender_step c (sender_OnPacketAcked cbrt c rtt pn bytes priorInFlight t)"
| congestion: "sender_step c (OnCongestionEvent c pn)"
| datagram_size: "s \<le> 65535 \<Longrightarrow> sender_SetMaxDatagramSize c s = Inr c' \<Longrightarrow> sender_step c c'"

definition sender_init :: "ByteCount \<Rightarrow> cubicSender \<Rightarrow> bool" where
  "sender_init m c \<longleftrightarrow> (\<exists>rtt. c = NewCubicSender rtt m True)"

definition sender_ok :: "ByteCount \<Rightarrow> cubicSender \<Rightarrow> bool" where
  "sender_ok m c \<longleftrightarrow> cs_reno c \<and> 0 < m \<and> m \<le> cs_maxDatagramSize c \<and> cs_maxDatagramSize c \<le> 65535 \<and> 2 * m \<le> cs_congestionWindow c \<and>
     cs_congestionWindow c < 10001 * cs_maxDatagramSize c"

lemma sender_ok_event:
  assumes "sender_ok m c"
  shows "sender_ok m (OnCongestionEvent c pn)"
proof -
  have c: "cs_reno c" "0 < m" "m \<le> cs_maxDatagramSize c" "cs_maxDatagramSize c \<le> 65535" "2 * m \<le> cs_congestionWindow c" "cs_congestionWindow c < 10001 * cs_maxDatagramSize c"
    using assms by (simp_all add: sender_ok_def)
  define w' where "w' = float_to_int (fl64 (fl64 (of_int (cs_congestionWindow c)) * renoBeta))"
  have "0 \<le> w'" "10 * w' \<le> 7 * cs_congestionWindow c + 9"
    using reno_window(1,2) [of "cs_congestionWindow c"] c by (simp_all add: w'_def)
  then have "w' \<le> cs_congestionWindow c"
    using c by linarith
  then show ?thesis
    using c by (auto simp: OnCongestionEvent_def reduced_window_def sender_ok_def Let_def minCongestionWindow_def minCongestionWindowPackets_def w'_def)
qed

lemma sender_ok_step:
  assumes "sender_ok m c" and "sender_step c c'"
  shows "sender_ok m c'"
  using assms(2,1)
proof (cases rule: sender_step.cases)
  case sent
  then show ?thesis
    using assms(1) by (simp add: sender_OnPacketSent_def sender_ok_def Let_def)
next
  case slow_start
  then show ?thesis
    using assms(1) by (simp add: MaybeExitSlowStart_def sender_ok_def Let_def split: prod.splits)
next
  case (acked cbrt rtt pn bytes inflight t)
  let ?c = "c\<lparr>cs_largestAckedPacketNumber := max pn (cs_largestAckedPacketNumber c)\<rparr>"
  have "sender_ok m ?c"
    using assms(1) by (simp add: sender_ok_def)
  moreover have "sender_ok m (maybeIncreaseCwnd cbrt ?c rtt bytes inflight t)"
    using assms(1) by (auto simp: maybeIncreaseCwnd_def sender_ok_def Let_def maxCongestionWindow_def MaxCongestionWindowPackets_def)
  ultimately show ?thesis
    by (auto simp: acked sender_OnPacketAcked_def Let_def sender_ok_def)
next
  case congestion
  then show ?thesis
    using sender_ok_event [OF assms(1)] by simp
next
  case (datagram_size s)
  then show ?thesis
    using assms(1) by (auto simp: sender_SetMaxDatagramSize_def sender_ok_def Let_def minCongestionWindow_def minCongestionWindowPackets_def split: if_splits)
qed

lemma sender_reachable_ok: "0 < m \<Longrightarrow> m \<le> 65535 \<Longrightarrow> reachable (sender_init m) sender_step c \<Longrightarrow> sender_ok m c"
proof (erule reachable_invariant)
  assume "0 < m" "m \<le> 65535"
  then show "sender_ok m c" if "sender_init m c" for c
    using that by (auto simp: sender_init_def NewCubicSender_def newCubicSender_def sender_ok_def initialCongestionWindow_def)
qed (rule sender_ok_step)

section \<open>Properties\<close>

text \<open>
  The pacing timer is long enough: when the time given by \<open>TimeUntilSend\<close> has come, the budget admits a packet of full size. The product of bandwidth and time must stay
  within 63 bits.
\<close>

theorem pacer_timer_suffices:
  assumes "pacer_TimeUntilSend p bw = Inr t" and "t \<noteq> 0" and "t \<le> now" and "0 < pc_lastSentTime p" and "0 \<le> pc_budgetAtLastSent p"
    and "0 < pc_maxDatagramSize p" and "pc_maxDatagramSize p \<le> 65536" and "uint bw < 2 ^ 63" and "uint bw * (now - pc_lastSentTime p) < 2 ^ 63"
  shows "pc_maxDatagramSize p \<le> Budget p bw now"
proof -
  note d = pacer_delay [OF assms(1,2,5,7,8)]
  have "pc_lastSentTime p \<le> now"
    using d(2) assms(3) by (simp add: MinPacingDelay_def Millisecond_def)
  then have "Budget p bw now = min (maxBurstSize p bw) (pc_budgetAtLastSent p + uint bw * (now - pc_lastSentTime p) div 1000000000)"
    using assms d(3) by (intro Budget_eq) auto
  moreover have "1000000000 * (pc_maxDatagramSize p - pc_budgetAtLastSent p) \<le> uint bw * (now - pc_lastSentTime p)"
    using d(1) assms(3) mult_left_mono [of "t - pc_lastSentTime p" "now - pc_lastSentTime p" "uint bw"] by simp
  then have "pc_maxDatagramSize p - pc_budgetAtLastSent p \<le> uint bw * (now - pc_lastSentTime p) div 1000000000"
    using zdiv_mono1 [of "1000000000 * (pc_maxDatagramSize p - pc_budgetAtLastSent p)" _ 1000000000] by simp
  moreover have "pc_maxDatagramSize p \<le> maxBurstSize p bw"
    using assms(6) by (simp add: maxBurstSize_def maxBurstSizePackets_def)
  ultimately show ?thesis
    by simp
qed

theorem pacer_timer_suffices_witness:
  "pacer_TimeUntilSend \<lparr>pc_budgetAtLastSent = 7, pc_maxDatagramSize = 1280, pc_lastSentTime = 100\<rparr> 60007 = Inr 21214292 \<and>
   1280 \<le> Budget \<lparr>pc_budgetAtLastSent = 7, pc_maxDatagramSize = 1280, pc_lastSentTime = 100\<rparr> 60007 21214292"
proof -
  have t: "pacer_TimeUntilSend \<lparr>pc_budgetAtLastSent = 7, pc_maxDatagramSize = 1280, pc_lastSentTime = 100\<rparr> 60007 = Inr 21214292"
    by code_simp
  from pacer_timer_suffices [OF this, of 21214292] t show ?thesis
    by simp
qed

text \<open>
  (C23) The pacer limits the rate: packets that are sent within the budget amount to no more than one burst plus what the bandwidth allows in the time between the first and the last one.
\<close>

theorem pacer_rate_bound:
  assumes "paced bw p ((t, sz) # sends)" and "0 < t" and "sorted (map fst ((t, sz) # sends))" and "\<forall>(t', _) \<in> set sends. t' \<le> T" and "t \<le> T"
    and "maxBurstSize p bw < 2 ^ 62" and "uint bw < 2 ^ 63" and "uint bw * (T - t) < 2 ^ 63"
  shows "sum_list (map snd ((t, sz) # sends)) \<le> maxBurstSize p bw + uint bw * (T - t) div 1000000000"
  using paced_sum [OF assms] Budget_le_burst [of p bw t] by simp

theorem pacer_rate_bound_witness:
  "paced 1000000 (newPacer 1000000) [(5, 1280), (1280005, 1280)] \<and>
   sum_list (map snd [(5 :: Time, 1280), (1280005, 1280)]) \<le> maxBurstSize (newPacer 1000000) 1000000 + uint (1000000 :: u64) * (1280005 - 5) div 1000000000"
proof
  show p: "paced 1000000 (newPacer 1000000) [(5, 1280), (1280005, 1280)]"
    by code_simp
  show "sum_list (map snd [(5 :: Time, 1280), (1280005, 1280)]) \<le> maxBurstSize (newPacer 1000000) 1000000 + uint (1000000 :: u64) * (1280005 - 5) div 1000000000"
  proof (rule pacer_rate_bound [OF p])
    show "maxBurstSize (newPacer 1000000) 1000000 < 2 ^ 62"
      by code_simp
  qed simp_all
qed



text \<open>
  (C22) A congestion event reduces the window to seven tenths (within one byte, but not below two packets) and ends slow start, and the loss of any other packet sent up to then
  does not reduce it again.
\<close>

theorem congestion_event_backs_off:
  assumes "cs_reno c" and "0 \<le> cs_congestionWindow c" and "cs_congestionWindow c < 2 ^ 48" and "cs_largestSentAtLastCutback c < pn"
  shows "\<exists>w. 10 * w \<in> {7 * cs_congestionWindow c - 10..7 * cs_congestionWindow c + 9} \<and>
      cs_congestionWindow (OnCongestionEvent c pn) = max w (minCongestionWindow c) \<and>
      \<not> InSlowStart (OnCongestionEvent c pn) \<and>
      (\<forall>pn' \<le> cs_largestSentPacketNumber c. OnCongestionEvent (OnCongestionEvent c pn) pn' = OnCongestionEvent c pn)"
proof -
  define w where "w = float_to_int (fl64 (fl64 (of_int (cs_congestionWindow c)) * renoBeta))"
  have "10 * w \<in> {7 * cs_congestionWindow c - 10..7 * cs_congestionWindow c + 9}"
    using reno_window(2,3) [OF assms(2,3)] by (simp add: w_def)
  moreover have "cs_congestionWindow (OnCongestionEvent c pn) = max w (minCongestionWindow c)"
    and "\<not> InSlowStart (OnCongestionEvent c pn)" and "cs_largestSentAtLastCutback (OnCongestionEvent c pn) = cs_largestSentPacketNumber c"
    using assms(1,4) by (auto simp: OnCongestionEvent_def reduced_window_def Let_def minCongestionWindow_def InSlowStart_def w_def)
  moreover have "OnCongestionEvent (OnCongestionEvent c pn) pn' = OnCongestionEvent c pn" if "pn' \<le> cs_largestSentPacketNumber c" for pn'
    using that calculation(4) by (simp add: OnCongestionEvent_def [of "OnCongestionEvent c pn"])
  ultimately show ?thesis
    by blast
qed

theorem congestion_event_backs_off_witness:
  "\<exists>w. 10 * w \<in> {7 * 40960 - 10..7 * 40960 + 9} \<and> cs_congestionWindow (OnCongestionEvent (NewCubicSender new_RTTStats 1280 True) 7) = max w 2560"
proof -
  let ?c = "NewCubicSender new_RTTStats 1280 True"
  have "cs_reno ?c" "cs_congestionWindow ?c = 40960" "cs_largestSentAtLastCutback ?c < 7" "minCongestionWindow ?c = 2560"
    by code_simp+
  then show ?thesis
    using congestion_event_backs_off [of ?c 7] by auto
qed

end
