(* ===== verification/ECN_Tracker.thy ===== *)
theory ECN_Tracker
  imports Protocol
begin

text \<open>
  Validation of ECN on a path (\<open>internal/ackhandler/ecn.go\<close>). Of an acknowledged packet only the number is used. Logging and tracing are left out.
\<close>

section \<open>Definitions\<close>

datatype ecnState = ecnStateInitial | ecnStateTesting | ecnStateUnknown | ecnStateCapable | ecnStateFailed

definition numECNTestingPackets :: int where "numECNTestingPackets = 10"

record ecnTracker =
  et_state :: ecnState
  et_numSentTesting :: byte
  et_numLostTesting :: byte
  et_firstTestingPacket :: PacketNumber
  et_lastTestingPacket :: PacketNumber
  et_firstCapablePacket :: PacketNumber
  et_numSentECT0 :: int
  et_numSentECT1 :: int
  et_numAckedECT0 :: int
  et_numAckedECT1 :: int
  et_numAckedECNCE :: int

definition newECNTracker :: ecnTracker where
  "newECNTracker = \<lparr>et_state = ecnStateInitial, et_numSentTesting = 0, et_numLostTesting = 0,
     et_firstTestingPacket = InvalidPacketNumber, et_lastTestingPacket = InvalidPacketNumber, et_firstCapablePacket = InvalidPacketNumber,
     et_numSentECT0 = 0, et_numSentECT1 = 0, et_numAckedECT0 = 0, et_numAckedECT1 = 0, et_numAckedECNCE = 0\<rparr>"

definition count_sent :: "ecnTracker \<Rightarrow> PacketNumber \<Rightarrow> ecnTracker" where
  "count_sent e pn =
     (let e = (if et_state e = ecnStateCapable \<and> et_firstCapablePacket e = InvalidPacketNumber then e\<lparr>et_firstCapablePacket := pn\<rparr> else e) in
      if et_state e \<noteq> ecnStateTesting then e
      else
        let e = e\<lparr>et_numSentTesting := et_numSentTesting e + 1\<rparr>;
            e = (if et_firstTestingPacket e = InvalidPacketNumber then e\<lparr>et_firstTestingPacket := pn\<rparr> else e) in
        if et_numSentECT0 e + et_numSentECT1 e \<ge> numECNTestingPackets
        then e\<lparr>et_state := ecnStateUnknown, et_lastTestingPacket := pn\<rparr>
        else e)"

definition ecn_SentPacket :: "ecnTracker \<Rightarrow> PacketNumber \<Rightarrow> ECN \<Rightarrow> ecnTracker result" where
  "ecn_SentPacket e pn ecn =
     (case ecn of
        ECNNon \<Rightarrow> Inr e
      | ECT0 \<Rightarrow> Inr (count_sent (e\<lparr>et_numSentECT0 := et_numSentECT0 e + 1\<rparr>) pn)
      | ECT1 \<Rightarrow> Inr (count_sent (e\<lparr>et_numSentECT1 := et_numSentECT1 e + 1\<rparr>) pn)
      | ECNUnsupported \<Rightarrow>
          if et_state e \<noteq> ecnStateFailed then Inl (Panic ''didn't expect ECN to be unsupported'') else Inr (count_sent e pn)
      | ECNCE \<Rightarrow> Inl (Panic ''sent packet with unexpected ECN marking''))"

definition ecn_Mode :: "ecnTracker \<Rightarrow> ecnTracker \<times> ECN" where
  "ecn_Mode e =
     (case et_state e of
        ecnStateInitial \<Rightarrow> (e\<lparr>et_state := ecnStateTesting\<rparr>, ECT0)
      | ecnStateTesting \<Rightarrow> (e, ECT0)
      | ecnStateCapable \<Rightarrow> (e, ECT0)
      | ecnStateUnknown \<Rightarrow> (e, ECNNon)
      | ecnStateFailed \<Rightarrow> (e, ECNNon))"

definition isTestingPacket :: "ecnTracker \<Rightarrow> PacketNumber \<Rightarrow> bool" where
  "isTestingPacket e pn \<longleftrightarrow>
     et_firstTestingPacket e \<noteq> InvalidPacketNumber \<and> pn \<ge> et_firstTestingPacket e \<and>
     (pn \<le> et_lastTestingPacket e \<or> et_lastTestingPacket e = InvalidPacketNumber)"

definition ecnMarking :: "ecnTracker \<Rightarrow> PacketNumber \<Rightarrow> ECN" where
  "ecnMarking e pn =
     (if pn < et_firstTestingPacket e \<or> et_firstTestingPacket e = InvalidPacketNumber then ECNNon
      else if pn < et_lastTestingPacket e \<or> et_lastTestingPacket e = InvalidPacketNumber then ECT0
      else if pn < et_firstCapablePacket e \<or> et_firstCapablePacket e = InvalidPacketNumber then ECNNon
      else ECT0)"

definition failIfMangled :: "ecnTracker \<Rightarrow> ecnTracker" where
  "failIfMangled e =
     (if et_numSentECT0 e + et_numSentECT1 e > et_numAckedECNCE e + uint (et_numLostTesting e) then e
      else e\<lparr>et_state := ecnStateFailed\<rparr>)"

definition ecn_LostPacket :: "ecnTracker \<Rightarrow> PacketNumber \<Rightarrow> ecnTracker" where
  "ecn_LostPacket e pn =
     (if et_state e \<noteq> ecnStateTesting \<and> et_state e \<noteq> ecnStateUnknown then e
      else if \<not> isTestingPacket e pn then e
      else
        let e = e\<lparr>et_numLostTesting := et_numLostTesting e + 1\<rparr> in
        if et_state e \<noteq> ecnStateUnknown then e
        else if et_numLostTesting e \<ge> et_numSentTesting e then e\<lparr>et_state := ecnStateFailed\<rparr>
        else failIfMangled e)"

definition confirm_capable :: "ecnTracker \<Rightarrow> PacketNumber list \<Rightarrow> bool \<Rightarrow> ecnTracker" where
  "confirm_capable e pns newECT =
     (if (et_state e = ecnStateTesting \<or> et_state e = ecnStateUnknown) \<and> list_ex (isTestingPacket e) pns \<and> newECT
      then e\<lparr>et_state := ecnStateCapable\<rparr> else e)"

text \<open>The five checks of the counts in an ACK frame, in their order.\<close>

definition counts_invalid :: "ecnTracker \<Rightarrow> PacketNumber list \<Rightarrow> int \<Rightarrow> int \<Rightarrow> int \<Rightarrow> bool" where
  "counts_invalid e pns ect0 ect1 ecnce \<longleftrightarrow>
     (if ect0 > et_numSentECT0 e \<or> ect1 > et_numSentECT1 e then True
      else
        let ackedECT0 = int (length (filter (\<lambda>pn. ecnMarking e pn = ECT0) pns));
            ackedECT1 = int (length (filter (\<lambda>pn. ecnMarking e pn = ECT1) pns)) in
        if (ackedECT0 > 0 \<or> ackedECT1 > 0) \<and> ect0 = 0 \<and> ect1 = 0 \<and> ecnce = 0 then True
        else
          let newECT0 = ect0 - et_numAckedECT0 e; newECT1 = ect1 - et_numAckedECT1 e; newECNCE = ecnce - et_numAckedECNCE e in
          newECT0 < 0 \<or> newECT1 < 0 \<or> newECNCE < 0 \<or> newECT0 + newECNCE < ackedECT0 \<or> newECT1 + newECNCE < ackedECT1)"

definition accept_counts :: "ecnTracker \<Rightarrow> PacketNumber list \<Rightarrow> int \<Rightarrow> int \<Rightarrow> int \<Rightarrow> ecnTracker \<times> bool" where
  "accept_counts e pns ect0 ect1 ecnce =
     (let newECT0 = ect0 - et_numAckedECT0 e; newECT1 = ect1 - et_numAckedECT1 e; newECNCE = ecnce - et_numAckedECNCE e;
          e = e\<lparr>et_numAckedECT0 := ect0, et_numAckedECT1 := ect1, et_numAckedECNCE := ecnce\<rparr>;
          e = (if et_state e = ecnStateUnknown then failIfMangled e else e) in
      if et_state e = ecnStateFailed then (e, False)
      else
        let e = confirm_capable e pns (newECT0 > 0 \<or> newECT1 > 0) in
        (e, et_state e = ecnStateCapable \<and> newECNCE > 0))"

definition HandleNewlyAcked :: "ecnTracker \<Rightarrow> PacketNumber list \<Rightarrow> int \<Rightarrow> int \<Rightarrow> int \<Rightarrow> ecnTracker \<times> bool" where
  "HandleNewlyAcked e pns ect0 ect1 ecnce =
     (if et_state e = ecnStateFailed then (e, False)
      else if counts_invalid e pns ect0 ect1 ecnce then (e\<lparr>et_state := ecnStateFailed\<rparr>, False)
      else accept_counts e pns ect0 ect1 ecnce)"

section \<open>Runs of the tracker\<close>

text \<open>A 1-RTT packet is sent with the mark that \<open>Mode\<close> gives, or without a mark; acknowledgments and losses are arbitrary.\<close>

inductive ecn_step :: "ecnTracker \<Rightarrow> ecnTracker \<Rightarrow> bool" where
  marked: "ecn_Mode e = (e1, ecn) \<Longrightarrow> 0 \<le> pn \<Longrightarrow> ecn_SentPacket e1 pn ecn = Inr e' \<Longrightarrow> ecn_step e e'"
| unmarked: "ecn_SentPacket e pn ECNNon = Inr e' \<Longrightarrow> ecn_step e e'"
| acked: "HandleNewlyAcked e pns ect0 ect1 ecnce = (e', congested) \<Longrightarrow> ecn_step e e'"
| lost: "ecn_step e (ecn_LostPacket e pn)"

definition ecn_ok :: "ecnTracker \<Rightarrow> bool" where
  "ecn_ok e \<longleftrightarrow> et_numSentECT1 e = 0 \<and> 0 \<le> et_numSentECT0 e \<and>
     (et_state e = ecnStateInitial \<longrightarrow> et_numSentECT0 e = 0 \<and> et_firstTestingPacket e = InvalidPacketNumber) \<and>
     (et_state e = ecnStateTesting \<longrightarrow> et_numSentECT0 e < numECNTestingPackets) \<and>
     (et_state e = ecnStateUnknown \<longrightarrow> et_numSentECT0 e = numECNTestingPackets)"

text \<open>Acknowledgments and losses change neither what was sent nor lead back to an earlier state.\<close>

lemma failIfMangled_cases: "failIfMangled e = e \<or> failIfMangled e = e\<lparr>et_state := ecnStateFailed\<rparr>"
  by (simp add: failIfMangled_def)

lemma accept_counts_sent:
  assumes "accept_counts e pns ect0 ect1 ecnce = (e', congested)"
  shows "et_numSentECT0 e' = et_numSentECT0 e" and "et_numSentECT1 e' = et_numSentECT1 e" and "et_firstTestingPacket e' = et_firstTestingPacket e"
    and "et_state e' = et_state e \<or> et_state e' = ecnStateFailed \<or> et_state e' = ecnStateCapable \<and> et_state e \<in> {ecnStateTesting, ecnStateUnknown}"
proof -
  define e1 where "e1 = e\<lparr>et_numAckedECT0 := ect0, et_numAckedECT1 := ect1, et_numAckedECNCE := ecnce\<rparr>"
  define e2 where "e2 = (if et_state e1 = ecnStateUnknown then failIfMangled e1 else e1)"
  have f: "et_numSentECT0 e2 = et_numSentECT0 e" "et_numSentECT1 e2 = et_numSentECT1 e" "et_firstTestingPacket e2 = et_firstTestingPacket e"
    "et_state e2 = et_state e \<or> et_state e2 = ecnStateFailed"
    using failIfMangled_cases [of e1] by (auto simp: e2_def e1_def)
  have "e' = e2 \<or> et_state e2 \<noteq> ecnStateFailed \<and> (\<exists>b. e' = confirm_capable e2 pns b)"
    using assms unfolding accept_counts_def e1_def [symmetric] Let_def e2_def [symmetric] by (auto split: if_splits)
  then have "e' = e2 \<or> e' = e2\<lparr>et_state := ecnStateCapable\<rparr> \<and> et_state e2 \<in> {ecnStateTesting, ecnStateUnknown}"
    by (auto simp: confirm_capable_def split: if_splits)
  then show "et_numSentECT0 e' = et_numSentECT0 e" "et_numSentECT1 e' = et_numSentECT1 e" "et_firstTestingPacket e' = et_firstTestingPacket e"
    "et_state e' = et_state e \<or> et_state e' = ecnStateFailed \<or> et_state e' = ecnStateCapable \<and> et_state e \<in> {ecnStateTesting, ecnStateUnknown}"
    using f by auto
qed

lemma HandleNewlyAcked_sent:
  assumes "HandleNewlyAcked e pns ect0 ect1 ecnce = (e', congested)"
  shows "et_numSentECT0 e' = et_numSentECT0 e" and "et_numSentECT1 e' = et_numSentECT1 e" and "et_firstTestingPacket e' = et_firstTestingPacket e"
    and "et_state e' = et_state e \<or> et_state e' = ecnStateFailed \<or> et_state e' = ecnStateCapable \<and> et_state e \<in> {ecnStateTesting, ecnStateUnknown}"
  using assms accept_counts_sent [of e pns ect0 ect1 ecnce e' congested]
  by (auto simp: HandleNewlyAcked_def split: if_splits)

lemma ecn_LostPacket_sent:
  "et_numSentECT0 (ecn_LostPacket e pn) = et_numSentECT0 e" "et_numSentECT1 (ecn_LostPacket e pn) = et_numSentECT1 e"
  "et_firstTestingPacket (ecn_LostPacket e pn) = et_firstTestingPacket e"
  "et_state (ecn_LostPacket e pn) = et_state e \<or> et_state (ecn_LostPacket e pn) = ecnStateFailed"
  by (auto simp: ecn_LostPacket_def Let_def failIfMangled_def)

lemma ecn_step_ok:
  assumes "ecn_ok e" and "ecn_step e e'"
  shows "ecn_ok e'"
  using assms(2,1)
proof (cases rule: ecn_step.cases)
  case (marked e1 ecn pn)
  then show ?thesis
    using assms(1) by (auto simp: ecn_Mode_def ecn_SentPacket_def count_sent_def ecn_ok_def Let_def numECNTestingPackets_def split: ecnState.splits if_splits)
next
  case (acked pns ect0 ect1 ecnce congested)
  then show ?thesis
    using assms(1) HandleNewlyAcked_sent [OF acked] by (auto simp: ecn_ok_def)
next
  case (lost pn)
  then show ?thesis
    using assms(1) ecn_LostPacket_sent [of e pn] by (auto simp: ecn_ok_def)
qed (auto simp: ecn_SentPacket_def)

lemma ecn_ok_new: "ecn_ok newECNTracker"
  by (simp add: newECNTracker_def ecn_ok_def)

lemma ecn_reachable_ok: "reachable (\<lambda>e. e = newECNTracker) ecn_step e \<Longrightarrow> ecn_ok e"
  by (erule reachable_invariant) (auto intro: ecn_step_ok ecn_ok_new)

section \<open>Properties\<close>

text \<open>
  (C38) ECN is tried with at most ten packets: unless the path was found capable, no more than ten packets were ever sent with a mark, and once validation has failed
  no packet is marked and congestion is never reported, whatever is acknowledged.
\<close>

theorem ecn_testing_bounded:
  assumes "reachable (\<lambda>e. e = newECNTracker) ecn_step e"
  shows "(et_state e \<in> {ecnStateInitial, ecnStateTesting, ecnStateUnknown} \<longrightarrow> et_numSentECT0 e + et_numSentECT1 e \<le> numECNTestingPackets) \<and>
    (et_state e = ecnStateFailed \<longrightarrow> snd (ecn_Mode e) = ECNNon \<and> (\<forall>e'. ecn_step e e' \<longrightarrow> et_state e' = ecnStateFailed)) \<and>
    (snd (HandleNewlyAcked e pns ect0 ect1 ecnce) \<longrightarrow> et_state (fst (HandleNewlyAcked e pns ect0 ect1 ecnce)) = ecnStateCapable)"
proof -
  have "et_state e' = ecnStateFailed" if "et_state e = ecnStateFailed" "ecn_step e e'" for e'
    using that(2,1) by (cases rule: ecn_step.cases)
      (auto simp: ecn_Mode_def ecn_SentPacket_def HandleNewlyAcked_def ecn_LostPacket_def)
  moreover have "snd (HandleNewlyAcked e pns ect0 ect1 ecnce) \<Longrightarrow> et_state (fst (HandleNewlyAcked e pns ect0 ect1 ecnce)) = ecnStateCapable"
    by (auto simp: HandleNewlyAcked_def accept_counts_def Let_def split: if_splits)
  ultimately show ?thesis
    using ecn_reachable_ok [OF assms] by (auto simp: ecn_ok_def ecn_Mode_def numECNTestingPackets_def)
qed

fun send_marked :: "nat \<Rightarrow> ecnTracker \<Rightarrow> ecnTracker" where
  "send_marked 0 e = e"
| "send_marked (Suc n) e = (let e = send_marked n e in
     case ecn_SentPacket (fst (ecn_Mode e)) (int n) (snd (ecn_Mode e)) of Inr e' \<Rightarrow> e' | Inl _ \<Rightarrow> e)"

lemma send_marked_reachable: "reachable (\<lambda>e. e = newECNTracker) ecn_step (send_marked n newECNTracker)"
proof (induction n)
  case 0
  then show ?case
    by (auto intro: reachable.start)
next
  case (Suc n)
  let ?e = "send_marked n newECNTracker"
  obtain e' where e': "ecn_SentPacket (fst (ecn_Mode ?e)) (int n) (snd (ecn_Mode ?e)) = Inr e'"
    by (cases "et_state ?e") (simp_all add: ecn_Mode_def ecn_SentPacket_def)
  then have "ecn_step ?e e'"
    by (intro ecn_step.marked [of ?e _ _ "int n"]) simp_all
  with Suc show ?case
    by (auto intro: reachable.step simp: e' Let_def)
qed

theorem ecn_testing_bounded_witness:
  "et_state (send_marked 12 newECNTracker) = ecnStateUnknown \<and> et_numSentECT0 (send_marked 12 newECNTracker) + et_numSentECT1 (send_marked 12 newECNTracker) \<le> 10"
proof -
  have "et_state (send_marked 12 newECNTracker) = ecnStateUnknown"
    by code_simp
  then show ?thesis
    using ecn_testing_bounded [OF send_marked_reachable [of 12]] by (simp add: numECNTestingPackets_def)
qed

text \<open>
  The last of the ten testing packets is taken for an unmarked packet when it is acknowledged, although it was sent with a mark: an acknowledgment of this packet alone
  without ECN counts, which reveals a path or a peer without ECN, goes unnoticed, while it fails the validation for the packet before.
\<close>

lemma last_testing_packet_taken_for_unmarked:
  "let e = send_marked 10 newECNTracker in
     snd (ecn_Mode (send_marked 9 newECNTracker)) = ECT0 \<and> isTestingPacket e 9 \<and> ecnMarking e 9 = ECNNon \<and>
     et_state (fst (HandleNewlyAcked e [9] 0 0 0)) = ecnStateUnknown \<and> et_state (fst (HandleNewlyAcked e [8] 0 0 0)) = ecnStateFailed"
  by code_simp

end
