(* ===== verification/Sent_History.thy ===== *)
theory Sent_History
  imports Frame_Parser
begin

text \<open>
  Sent packets that are not acknowledged yet (\<open>packet.go\<close>, \<open>sent_packet_history.go\<close>) and the generators of packet numbers (\<open>packet_number_generator.go\<close>). A packet
  pointer in the history is an optional packet: \<open>None\<close> is the nil pointer, and following it is a panic. The pool of packets
  is left out: \<open>getPacket\<close> resets every field of a packet but \<open>isPathProbePacket\<close>, and path probe packets are never put back. A frame handler is known by a number.
\<close>

section \<open>Packets\<close>

record ack_Frame =
  af_Frame :: "Frame option"
  af_Handler :: "nat option"

record ack_StreamFrame =
  asf_Frame :: StreamFrame
  asf_Handler :: "nat option"

record packet =
  pk_SendTime :: Time
  pk_PacketNumber :: PacketNumber
  pk_StreamFrames :: "ack_StreamFrame list"
  pk_Frames :: "ack_Frame list"
  pk_LargestAcked :: PacketNumber
  pk_Length :: ByteCount
  pk_EncryptionLevel :: "EncryptionLevel option"
  pk_IsPathMTUProbePacket :: bool
  pk_includedInBytesInFlight :: bool
  pk_declaredLost :: bool
  pk_skippedPacket :: bool
  pk_isPathProbePacket :: bool

definition outstanding :: "packet \<Rightarrow> bool" where
  "outstanding p \<longleftrightarrow> \<not> pk_declaredLost p \<and> \<not> pk_skippedPacket p \<and> \<not> pk_IsPathMTUProbePacket p \<and> \<not> pk_isPathProbePacket p"

text \<open>
  A packet from the pool, and the literal \<open>&packet{...}\<close>, in which every field that is not named is zero. The zero encryption level is not one of the
  four levels: it is \<open>None\<close>.
\<close>

definition getPacket :: packet where
  "getPacket = \<lparr>pk_SendTime = 0, pk_PacketNumber = 0, pk_StreamFrames = [], pk_Frames = [], pk_LargestAcked = 0, pk_Length = 0,
     pk_EncryptionLevel = None, pk_IsPathMTUProbePacket = False, pk_includedInBytesInFlight = False, pk_declaredLost = False,
     pk_skippedPacket = False, pk_isPathProbePacket = False\<rparr>"

section \<open>Packet number generators\<close>

datatype packetNumberGenerator =
    sequentialPacketNumberGenerator PacketNumber
  | skippingPacketNumberGenerator (sk_period: PacketNumber) (sk_maxPeriod: PacketNumber) (sk_next: PacketNumber) (sk_nextToSkip: PacketNumber)

definition newSequentialPacketNumberGenerator :: "PacketNumber \<Rightarrow> packetNumberGenerator" where
  "newSequentialPacketNumberGenerator i = sequentialPacketNumberGenerator i"

text \<open>\<open>rnd\<close> is the random number below twice the period.\<close>

definition generateNewSkip :: "PacketNumber \<Rightarrow> PacketNumber \<Rightarrow> PacketNumber \<Rightarrow> int \<Rightarrow> packetNumberGenerator" where
  "generateNewSkip period maxPeriod next_pn rnd =
     skippingPacketNumberGenerator (min (2 * period) maxPeriod) maxPeriod next_pn (next_pn + 3 + rnd)"

definition newSkippingPacketNumberGenerator :: "PacketNumber \<Rightarrow> PacketNumber \<Rightarrow> PacketNumber \<Rightarrow> int \<Rightarrow> packetNumberGenerator" where
  "newSkippingPacketNumberGenerator i initialPeriod maxPeriod rnd = generateNewSkip initialPeriod maxPeriod i rnd"

fun pn_Peek :: "packetNumberGenerator \<Rightarrow> PacketNumber" where
  "pn_Peek (sequentialPacketNumberGenerator n) = n"
| "pn_Peek (skippingPacketNumberGenerator period maxPeriod n skip) = (if n = skip then n + 1 else n)"

fun pn_Pop :: "packetNumberGenerator \<Rightarrow> int \<Rightarrow> packetNumberGenerator \<times> bool \<times> PacketNumber" where
  "pn_Pop (sequentialPacketNumberGenerator n) rnd = (sequentialPacketNumberGenerator (n + 1), False, n)"
| "pn_Pop (skippingPacketNumberGenerator period maxPeriod n skip) rnd =
     (if n = skip then (generateNewSkip period maxPeriod (n + 2) rnd, True, n + 1)
      else (skippingPacketNumberGenerator period maxPeriod (n + 1) skip, False, n))"

section \<open>The history\<close>

record sentPacketHistory =
  sh_packets :: "packet option list"
  sh_pathProbePackets :: "packet list"
  sh_numOutstanding :: int
  sh_highestPacketNumber :: PacketNumber

definition newSentPacketHistory :: sentPacketHistory where
  "newSentPacketHistory = \<lparr>sh_packets = [], sh_pathProbePackets = [], sh_numOutstanding = 0, sh_highestPacketNumber = InvalidPacketNumber\<rparr>"

definition checkSequentialPacketNumberUse :: "sentPacketHistory \<Rightarrow> PacketNumber \<Rightarrow> sentPacketHistory result" where
  "checkSequentialPacketNumberUse h pn =
     (if sh_highestPacketNumber h \<noteq> InvalidPacketNumber \<and> pn \<noteq> sh_highestPacketNumber h + 1
      then Inl (Panic ''non-sequential packet number use'')
      else Inr (h\<lparr>sh_highestPacketNumber := pn\<rparr>))"

definition SkippedPacket :: "sentPacketHistory \<Rightarrow> PacketNumber \<Rightarrow> sentPacketHistory result" where
  "SkippedPacket h pn =
     rbind (checkSequentialPacketNumberUse h pn) (\<lambda>h.
       Inr (h\<lparr>sh_packets := sh_packets h @ [Some (getPacket\<lparr>pk_PacketNumber := pn, pk_skippedPacket := True\<rparr>)]\<rparr>))"

definition SentNonAckElicitingPacket :: "sentPacketHistory \<Rightarrow> PacketNumber \<Rightarrow> sentPacketHistory result" where
  "SentNonAckElicitingPacket h pn =
     rbind (checkSequentialPacketNumberUse h pn) (\<lambda>h.
       Inr (if length (sh_packets h) > 0 then h\<lparr>sh_packets := sh_packets h @ [None]\<rparr> else h))"

definition SentAckElicitingPacket :: "sentPacketHistory \<Rightarrow> packet \<Rightarrow> sentPacketHistory result" where
  "SentAckElicitingPacket h p =
     rbind (checkSequentialPacketNumberUse h (pk_PacketNumber p)) (\<lambda>h.
       Inr (h\<lparr>sh_packets := sh_packets h @ [Some p],
              sh_numOutstanding := if outstanding p then sh_numOutstanding h + 1 else sh_numOutstanding h\<rparr>))"

definition SentPathProbePacket :: "sentPacketHistory \<Rightarrow> packet \<Rightarrow> sentPacketHistory result" where
  "SentPathProbePacket h p =
     rbind (checkSequentialPacketNumberUse h (pk_PacketNumber p)) (\<lambda>h.
       Inr (h\<lparr>sh_packets := sh_packets h @ [Some (getPacket\<lparr>pk_PacketNumber := pk_PacketNumber p, pk_isPathProbePacket := True\<rparr>)],
              sh_pathProbePackets := sh_pathProbePackets h @ [p]\<rparr>))"

text \<open>The packets that the iterator \<open>Packets\<close> yields.\<close>

definition history_Packets :: "sentPacketHistory \<Rightarrow> packet list" where
  "history_Packets h = List.map_filter id (sh_packets h)"

definition HasOutstandingPackets :: "sentPacketHistory \<Rightarrow> bool" where
  "HasOutstandingPackets h \<longleftrightarrow> sh_numOutstanding h > 0"

definition HasOutstandingPathProbes :: "sentPacketHistory \<Rightarrow> bool" where
  "HasOutstandingPathProbes h \<longleftrightarrow> length (sh_pathProbePackets h) > 0"

definition FirstOutstanding :: "sentPacketHistory \<Rightarrow> packet option" where
  "FirstOutstanding h = (if \<not> HasOutstandingPackets h then None else find outstanding (history_Packets h))"

definition FirstOutstandingPathProbe :: "sentPacketHistory \<Rightarrow> packet option" where
  "FirstOutstandingPathProbe h = (case sh_pathProbePackets h of [] \<Rightarrow> None | p # _ \<Rightarrow> Some p)"

definition history_Len :: "sentPacketHistory \<Rightarrow> int" where
  "history_Len h = int (length (sh_packets h))"

definition nil_dereference :: go_error where
  "nil_dereference = Panic ''invalid memory address or nil pointer dereference''"

definition getIndex :: "sentPacketHistory \<Rightarrow> PacketNumber \<Rightarrow> nat option result" where
  "getIndex h p =
     (case sh_packets h of
        [] \<Rightarrow> Inr None
      | None # _ \<Rightarrow> Inl nil_dereference
      | Some q # _ \<Rightarrow>
          let first = pk_PacketNumber q in
          if p < first then Inr None
          else let index = p - first in
          if index > int (length (sh_packets h)) - 1 then Inr None else Inr (Some (nat index)))"

definition cleanupStart :: "packet option list \<Rightarrow> packet option list" where
  "cleanupStart ps = dropWhile (\<lambda>p. p = None) ps"

text \<open>Skipped packets directly before an index are removed; the index where the loop stops matters.\<close>

fun clean_skipped :: "packet option list \<Rightarrow> nat \<Rightarrow> packet option list \<times> nat" where
  "clean_skipped ps 0 = (ps, 0)"
| "clean_skipped ps (Suc idx) =
     (case ps ! idx of
        None \<Rightarrow> (ps, idx)
      | Some p \<Rightarrow> if \<not> pk_skippedPacket p then (ps, idx) else clean_skipped (ps[idx := None]) idx)"

text \<open>Taking a packet out at an index, with the count of outstanding packets.\<close>

definition take_out :: "sentPacketHistory \<Rightarrow> nat \<Rightarrow> sentPacketHistory result" where
  "take_out h idx =
     (case sh_packets h ! idx of
        None \<Rightarrow> Inl nil_dereference
      | Some p \<Rightarrow>
          let n = (if outstanding p then sh_numOutstanding h - 1 else sh_numOutstanding h) in
          if outstanding p \<and> n < 0 then Inl (Panic ''negative number of outstanding packets'')
          else Inr (h\<lparr>sh_packets := (sh_packets h)[idx := None], sh_numOutstanding := n\<rparr>))"

definition history_Remove :: "sentPacketHistory \<Rightarrow> PacketNumber \<Rightarrow> sentPacketHistory result" where
  "history_Remove h pn =
     rbind (getIndex h pn) (\<lambda>i.
     case i of
       None \<Rightarrow> Inl (ErrorNew ''packet %d not found in sent packet history'')
     | Some idx \<Rightarrow> rbind (take_out h idx) (\<lambda>h.
         let (ps, idx) = clean_skipped (sh_packets h) idx;
             ps = (if idx = 0 then cleanupStart ps else ps) in
         if ps \<noteq> [] \<and> hd ps = None then Inl (Panic ''remove failed'') else Inr (h\<lparr>sh_packets := ps\<rparr>)))"

definition DeclareLost :: "sentPacketHistory \<Rightarrow> PacketNumber \<Rightarrow> sentPacketHistory result" where
  "DeclareLost h pn =
     rbind (getIndex h pn) (\<lambda>i.
     case i of
       None \<Rightarrow> Inr h
     | Some idx \<Rightarrow> rbind (take_out h idx) (\<lambda>h.
         Inr (if idx = 0 then h\<lparr>sh_packets := cleanupStart (sh_packets h)\<rparr> else h)))"

definition RemovePathProbe :: "sentPacketHistory \<Rightarrow> PacketNumber \<Rightarrow> sentPacketHistory \<times> packet option" where
  "RemovePathProbe h pn =
     (case find (\<lambda>p. pk_PacketNumber p = pn) (sh_pathProbePackets h) of
        None \<Rightarrow> (h, None)
      | Some p \<Rightarrow> (h\<lparr>sh_pathProbePackets := remove1 p (sh_pathProbePackets h)\<rparr>, Some p))"

definition LowestPacketNumber :: "sentPacketHistory \<Rightarrow> PacketNumber result" where
  "LowestPacketNumber h =
     (case sh_packets h of [] \<Rightarrow> Inr InvalidPacketNumber | None # _ \<Rightarrow> Inl nil_dereference | Some p # _ \<Rightarrow> Inr (pk_PacketNumber p))"

section \<open>The history as a map\<close>

text \<open>The entry of a packet number, and the sum of a quantity over the packets.\<close>

definition history_first :: "sentPacketHistory \<Rightarrow> PacketNumber" where
  "history_first h = sh_highestPacketNumber h + 1 - int (length (sh_packets h))"

definition entry :: "sentPacketHistory \<Rightarrow> PacketNumber \<Rightarrow> packet option" where
  "entry h pn = (if history_first h \<le> pn \<and> pn \<le> sh_highestPacketNumber h then sh_packets h ! nat (pn - history_first h) else None)"

definition weight :: "(packet \<Rightarrow> int) \<Rightarrow> packet option list \<Rightarrow> int" where
  "weight f ps = sum_list (map (case_option 0 f) ps)"

definition numbered :: "PacketNumber \<Rightarrow> packet option list \<Rightarrow> bool" where
  "numbered n ps \<longleftrightarrow> (\<forall>i<length ps. \<forall>p. ps ! i = Some p \<longrightarrow> pk_PacketNumber p = n + int i)"

definition sent_pre :: "sentPacketHistory \<Rightarrow> bool" where
  "sent_pre h \<longleftrightarrow> numbered (history_first h) (sh_packets h) \<and>
     sh_numOutstanding h = weight (\<lambda>p. of_bool (outstanding p)) (sh_packets h) \<and> 0 \<le> history_first h"

definition sent_ok :: "sentPacketHistory \<Rightarrow> bool" where
  "sent_ok h \<longleftrightarrow> sent_pre h \<and> (sh_packets h \<noteq> [] \<longrightarrow> hd (sh_packets h) \<noteq> None)"

lemma weight_simps [simp]:
  "weight f [] = 0" "weight f (x # ps) = (case x of None \<Rightarrow> 0 | Some p \<Rightarrow> f p) + weight f ps" "weight f (ps @ qs) = weight f ps + weight f qs"
  by (simp_all add: weight_def)

lemma weight_update: "i < length ps \<Longrightarrow> ps ! i = Some p \<Longrightarrow> weight f (ps[i := None]) = weight f ps - f p"
proof -
  assume i: "i < length ps" and p: "ps ! i = Some p"
  have "weight f ps = weight f (take i ps @ ps ! i # drop (Suc i) ps)"
    using i by (simp add: id_take_nth_drop [symmetric])
  then show ?thesis
    using i p by (simp add: upd_conv_take_nth_drop)
qed

lemma weight_nonneg: "(\<And>p. 0 \<le> f p) \<Longrightarrow> 0 \<le> weight f ps"
  by (induction ps) (auto split: option.split)

lemma weight_member: "(\<And>p. 0 \<le> f p) \<Longrightarrow> Some p \<in> set ps \<Longrightarrow> f p \<le> weight f ps"
proof (induction ps)
  case (Cons x ps)
  have "0 \<le> weight f ps"
    using weight_nonneg Cons.prems(1) by blast
  moreover have "0 \<le> (case x of None \<Rightarrow> 0 | Some p \<Rightarrow> f p)"
    using Cons.prems(1) by (simp split: option.split)
  moreover have "x = Some p \<or> f p \<le> weight f ps"
    using Cons by auto
  ultimately show ?case
    by auto
qed simp

lemma weight_cleanupStart [simp]: "weight f (cleanupStart ps) = weight f ps"
  by (induction ps) (auto simp: cleanupStart_def)

lemma cleanupStart_hd: "cleanupStart ps \<noteq> [] \<Longrightarrow> hd (cleanupStart ps) \<noteq> None"
  unfolding cleanupStart_def using hd_dropWhile by blast

lemma numberedD: "numbered n ps \<Longrightarrow> i < length ps \<Longrightarrow> ps ! i = Some p \<Longrightarrow> pk_PacketNumber p = n + int i"
  by (simp add: numbered_def)

lemma numberedI: "(\<And>i p. i < length ps \<Longrightarrow> ps ! i = Some p \<Longrightarrow> pk_PacketNumber p = n + int i) \<Longrightarrow> numbered n ps"
  by (simp add: numbered_def)

lemma numbered_drop: "numbered n ps \<Longrightarrow> numbered (n + int k) (drop k ps)"
proof (rule numberedI)
  fix i p
  assume n: "numbered n ps" and i: "i < length (drop k ps)" "drop k ps ! i = Some p"
  then have "pk_PacketNumber p = n + int (k + i)"
    by (intro numberedD [OF n]) simp_all
  then show "pk_PacketNumber p = n + int k + int i"
    by simp
qed

lemma numbered_update: "numbered n ps \<Longrightarrow> numbered n (ps[i := None])"
proof (rule numberedI)
  fix j p
  assume n: "numbered n ps" and j: "j < length (ps[i := None])" "ps[i := None] ! j = Some p"
  then have "ps ! j = Some p"
    by (cases "j = i") simp_all
  then show "pk_PacketNumber p = n + int j"
    using numberedD [OF n] j by simp
qed

lemma numbered_snoc: "numbered n ps \<Longrightarrow> (\<And>p. x = Some p \<Longrightarrow> pk_PacketNumber p = n + int (length ps)) \<Longrightarrow> numbered n (ps @ [x])"
  by (rule numberedI) (auto simp: nth_append less_Suc_eq dest: numberedD)

lemma cleanupStart_drop: obtains k where "cleanupStart ps = drop k ps" "k \<le> length ps" "\<And>i. i < k \<Longrightarrow> ps ! i = None"
proof
  let ?k = "length (takeWhile (\<lambda>p. p = None) ps)"
  show "cleanupStart ps = drop ?k ps"
    by (simp add: cleanupStart_def dropWhile_eq_drop)
  show "?k \<le> length ps"
    by (rule length_takeWhile_le)
  show "ps ! i = None" if "i < ?k" for i
    using that set_takeWhileD [of "takeWhile (\<lambda>p. p = None) ps ! i" "\<lambda>p. p = None" ps] nth_mem [OF that] by (simp add: takeWhile_nth)
qed

lemma sent_ok_first:
  assumes "sent_ok h" and "sh_packets h = Some q # ps"
  shows "pk_PacketNumber q = history_first h"
proof -
  have "numbered (history_first h) (sh_packets h)"
    using assms(1) by (simp add: sent_ok_def sent_pre_def)
  from this [unfolded numbered_def, rule_format, of 0 q] show ?thesis
    using assms(2) by simp
qed

lemma getIndex_eq:
  assumes "sent_ok h"
  shows "getIndex h pn = Inr (if history_first h \<le> pn \<and> pn \<le> sh_highestPacketNumber h then Some (nat (pn - history_first h)) else None)"
proof (cases "sh_packets h")
  case Nil
  then show ?thesis
    by (auto simp: getIndex_def history_first_def)
next
  case (Cons x ps)
  then obtain q where "x = Some q"
    using assms by (auto simp: sent_ok_def)
  then show ?thesis
    using Cons sent_ok_first [OF assms, of q ps] by (auto simp: getIndex_def Let_def history_first_def)
qed

lemma entry_index:
  assumes "sent_ok h" and "entry h pn = Some p"
  obtains i where "getIndex h pn = Inr (Some i)" "i < length (sh_packets h)" "sh_packets h ! i = Some p" "pn = history_first h + int i"
proof
  let ?i = "nat (pn - history_first h)"
  have r: "history_first h \<le> pn" "pn \<le> sh_highestPacketNumber h" and e: "sh_packets h ! ?i = Some p"
    using assms(2) by (auto simp: entry_def split: if_splits)
  show "getIndex h pn = Inr (Some ?i)"
    using r by (simp add: getIndex_eq [OF assms(1)])
  show "?i < length (sh_packets h)"
    using r by (simp add: history_first_def)
  show "sh_packets h ! ?i = Some p" "pn = history_first h + int ?i"
    using e r by simp_all
qed

lemma entry_number:
  assumes "sent_ok h" and "entry h pn = Some p"
  shows "pk_PacketNumber p = pn"
proof -
  obtain i where "i < length (sh_packets h)" "sh_packets h ! i = Some p" "pn = history_first h + int i"
    using entry_index [OF assms] by blast
  then show ?thesis
    using numberedD [of "history_first h" "sh_packets h" i p] assms(1) by (simp add: sent_ok_def sent_pre_def)
qed

lemma entry_nth: "i < length (sh_packets h) \<Longrightarrow> entry h (history_first h + int i) = sh_packets h ! i"
  by (simp add: entry_def history_first_def)


section \<open>Operations on the map\<close>

lemma cleanup_ok:
  assumes "sent_pre h"
  shows "sent_ok (h\<lparr>sh_packets := cleanupStart (sh_packets h)\<rparr>)"
    and "entry (h\<lparr>sh_packets := cleanupStart (sh_packets h)\<rparr>) pn = entry h pn"
proof -
  obtain k where k: "cleanupStart (sh_packets h) = drop k (sh_packets h)" "k \<le> length (sh_packets h)" "\<And>i. i < k \<Longrightarrow> sh_packets h ! i = None"
    using cleanupStart_drop [of "sh_packets h"] by blast
  let ?h = "h\<lparr>sh_packets := cleanupStart (sh_packets h)\<rparr>"
  have first: "history_first ?h = history_first h + int k"
    using k(1,2) by (simp add: history_first_def)
  have "numbered (history_first h + int k) (drop k (sh_packets h))"
    using assms by (intro numbered_drop) (simp add: sent_pre_def)
  then have "numbered (history_first ?h) (sh_packets ?h)"
    using first k(1) by simp
  moreover have "0 \<le> history_first h + int k"
    using assms by (simp add: sent_pre_def)
  ultimately show "sent_ok ?h"
    using assms cleanupStart_hd [of "sh_packets h"] unfolding sent_ok_def sent_pre_def first by simp
  show "entry ?h pn = entry h pn"
  proof (cases "history_first h \<le> pn \<and> pn \<le> sh_highestPacketNumber h")
    case True
    have "nat (pn - history_first h) = k + nat (pn - (history_first h + int k))" if "history_first h + int k \<le> pn"
      using that by simp
    moreover have "sh_packets h ! nat (pn - history_first h) = None" if "pn < history_first h + int k"
      using that True by (intro k(3)) linarith
    ultimately show ?thesis
      using True k(1,2) unfolding entry_def first by (cases "history_first h + int k \<le> pn") simp_all
  next
    case False
    then show ?thesis
      by (auto simp: entry_def first)
  qed
qed

definition without :: "sentPacketHistory \<Rightarrow> nat \<Rightarrow> packet \<Rightarrow> sentPacketHistory" where
  "without h i p = h\<lparr>sh_packets := (sh_packets h)[i := None], sh_numOutstanding := sh_numOutstanding h - of_bool (outstanding p)\<rparr>"

lemma without_simps [simp]:
  "sh_packets (without h i p) = (sh_packets h)[i := None]" "sh_highestPacketNumber (without h i p) = sh_highestPacketNumber h"
  "sh_pathProbePackets (without h i p) = sh_pathProbePackets h" "history_first (without h i p) = history_first h"
  by (simp_all add: without_def history_first_def)

lemma without_ok:
  assumes "sent_pre h" and "i < length (sh_packets h)" and "sh_packets h ! i = Some p"
  shows "sent_pre (without h i p)" and "entry (without h i p) = (entry h)(history_first h + int i := None)"
proof -
  have "sh_numOutstanding (without h i p) = weight (\<lambda>p. of_bool (outstanding p)) ((sh_packets h)[i := None])"
    using assms(1) weight_update [OF assms(2,3), of "\<lambda>p. of_bool (outstanding p)"] by (simp add: without_def sent_pre_def)
  then show "sent_pre (without h i p)"
    using assms(1) numbered_update [of "history_first h" "sh_packets h" i] by (simp add: sent_pre_def)
  show "entry (without h i p) = (entry h)(history_first h + int i := None)"
  proof
    fix pn
    have "nat (pn - history_first h) = i \<longleftrightarrow> pn = history_first h + int i" if "history_first h \<le> pn"
      using that by auto
    moreover have "history_first h + int i \<le> sh_highestPacketNumber h"
      using assms(2) by (simp add: history_first_def)
    ultimately show "entry (without h i p) pn = ((entry h)(history_first h + int i := None)) pn"
      using assms(2) by (simp add: entry_def nth_list_update)
  qed
qed

lemma take_out_eq:
  assumes "sent_pre h" and "i < length (sh_packets h)" and "sh_packets h ! i = Some p"
  shows "take_out h i = Inr (without h i p)"
proof -
  have "of_bool (outstanding p) \<le> sh_numOutstanding h"
    using assms weight_member [of "\<lambda>p. of_bool (outstanding p)" p "sh_packets h"] nth_mem [of i "sh_packets h"]
    by (simp add: sent_pre_def)
  then show ?thesis
    using assms(3) by (auto simp: take_out_def Let_def without_def)
qed

lemma clean_skipped_props:
  assumes "clean_skipped ps idx = (ps', idx')" and "idx \<le> length ps"
  shows "length ps' = length ps \<and> (0 < idx' \<longrightarrow> ps' ! 0 = ps ! 0) \<and> (idx' \<le> idx) \<and>
    (\<forall>j<length ps. ps' ! j = ps ! j \<or> ps' ! j = None \<and> j < idx \<and> (\<exists>p. ps ! j = Some p \<and> pk_skippedPacket p)) \<and>
    (\<forall>f. (\<forall>p. pk_skippedPacket p \<longrightarrow> f p = 0) \<longrightarrow> weight f ps' = weight f ps) \<and> (\<forall>n. numbered n ps \<longrightarrow> numbered n ps')"
  using assms
proof (induction idx arbitrary: ps)
  case (Suc idx)
  show ?case
  proof (cases "\<exists>p. ps ! idx = Some p \<and> pk_skippedPacket p")
    case True
    then obtain p where p: "ps ! idx = Some p" "pk_skippedPacket p"
      by blast
    let ?ps = "ps[idx := None]"
    have c: "clean_skipped ?ps idx = (ps', idx')"
      using Suc.prems(1) p by simp
    have "idx \<le> length ?ps"
      using Suc.prems(2) by simp
    note IH = Suc.IH [OF c this, unfolded length_list_update]
    have f: "weight f ?ps = weight f ps" if "\<forall>p. pk_skippedPacket p \<longrightarrow> f p = 0" for f
      using that p Suc.prems(2) by (simp add: weight_update)
    have "ps' ! 0 = ps ! 0" if "0 < idx'"
      using IH that Suc.prems(2) by (cases idx) simp_all
    moreover have "ps' ! j = ps ! j \<or> ps' ! j = None \<and> j < Suc idx \<and> (\<exists>p. ps ! j = Some p \<and> pk_skippedPacket p)" if "j < length ps" for j
    proof (cases "j = idx")
      case True
      then show ?thesis
        using IH p that by auto
    next
      case False
      then have e: "?ps ! j = ps ! j"
        by simp
      have "ps' ! j = ?ps ! j \<or> ps' ! j = None \<and> j < idx \<and> (\<exists>p. ?ps ! j = Some p \<and> pk_skippedPacket p)"
        using IH that Suc.prems(2) by blast
      then show ?thesis
        unfolding e by auto
    qed
    ultimately show ?thesis
      using IH f numbered_update [of _ ps idx] Suc.prems(2) by simp
  next
    case False
    then have "ps' = ps \<and> idx' = idx"
      using Suc.prems(1) by (auto split: option.splits if_splits)
    then show ?thesis
      by simp
  qed
qed simp

lemma clean_skipped_ok:
  assumes pre: "sent_pre h" and c: "clean_skipped (sh_packets h) i = (ps, j)" and i: "i \<le> length (sh_packets h)"
  shows "sent_pre (h\<lparr>sh_packets := ps\<rparr>)"
    and "entry (h\<lparr>sh_packets := ps\<rparr>) q = entry h q \<or> entry (h\<lparr>sh_packets := ps\<rparr>) q = None \<and> (\<exists>s. entry h q = Some s \<and> pk_skippedPacket s)"
proof -
  note cs = clean_skipped_props [OF c i]
  let ?h = "h\<lparr>sh_packets := ps\<rparr>"
  have first: "history_first ?h = history_first h"
    using cs by (simp add: history_first_def)
  have "weight (\<lambda>p. of_bool (outstanding p)) ps = weight (\<lambda>p. of_bool (outstanding p)) (sh_packets h)"
    using cs by (simp add: outstanding_def)
  then show "sent_pre ?h"
    using pre cs unfolding sent_pre_def first by simp
  show "entry ?h q = entry h q \<or> entry ?h q = None \<and> (\<exists>s. entry h q = Some s \<and> pk_skippedPacket s)"
  proof (cases "history_first h \<le> q \<and> q \<le> sh_highestPacketNumber h")
    case True
    then have "nat (q - history_first h) < length (sh_packets h)"
      unfolding history_first_def by linarith
    with cs have "ps ! nat (q - history_first h) = sh_packets h ! nat (q - history_first h) \<or>
      ps ! nat (q - history_first h) = None \<and> (\<exists>p. sh_packets h ! nat (q - history_first h) = Some p \<and> pk_skippedPacket p)"
      by blast
    then show ?thesis
      using True unfolding entry_def first by simp
  next
    case False
    then show ?thesis
      unfolding entry_def first by auto
  qed
qed

text \<open>Removing a packet, which also forgets skipped packets directly before it, and declaring it lost, which does not.\<close>

lemma history_Remove_ok:
  assumes "sent_ok h" and "entry h pn = Some p"
  obtains h' where "history_Remove h pn = Inr h'" "sent_ok h'" "sh_highestPacketNumber h' = sh_highestPacketNumber h"
    "sh_pathProbePackets h' = sh_pathProbePackets h" "entry h' pn = None"
    "\<forall>q. entry h' q = entry h q \<or> entry h' q = None \<and> (q = pn \<or> (\<exists>s. entry h q = Some s \<and> pk_skippedPacket s))"
    "\<forall>f. (\<forall>p. pk_skippedPacket p \<longrightarrow> f p = 0) \<longrightarrow> weight f (sh_packets h') = weight f (sh_packets h) - f p"
proof -
  obtain i where i: "getIndex h pn = Inr (Some i)" "i < length (sh_packets h)" "sh_packets h ! i = Some p" "pn = history_first h + int i"
    using entry_index [OF assms] by blast
  have pre: "sent_pre h"
    using assms(1) by (simp add: sent_ok_def)
  define h1 where "h1 = without h i p"
  have h1: "sent_pre h1" "entry h1 = (entry h)(pn := None)"
    using without_ok [OF pre i(2,3)] i(4) by (simp_all add: h1_def)
  obtain ps j where c: "clean_skipped (sh_packets h1) i = (ps, j)"
    by fastforce
  have i1: "i \<le> length (sh_packets h1)"
    using i(2) by (simp add: h1_def)
  note cs = clean_skipped_props [OF c i1]
  define h2 where "h2 = h1\<lparr>sh_packets := ps\<rparr>"
  have pre2: "sent_pre h2" and e2: "\<And>q. entry h2 q = entry h1 q \<or> entry h2 q = None \<and> (\<exists>s. entry h1 q = Some s \<and> pk_skippedPacket s)"
    using clean_skipped_ok [OF h1(1) c i1] by (auto simp: h2_def)
  have w2: "weight f ps = weight f (sh_packets h) - f p" if "\<And>p. pk_skippedPacket p \<Longrightarrow> f p = 0" for f
    using cs that weight_update [OF i(2,3), of f] by (simp add: h1_def)
  define h' where "h' = (if j = 0 then h2\<lparr>sh_packets := cleanupStart (sh_packets h2)\<rparr> else h2)"
  have "hd ps \<noteq> None" if "0 < j"
  proof -
    have "ps \<noteq> []" "sh_packets h \<noteq> []"
      using cs i(2) by (auto simp: h1_def)
    moreover have "ps ! 0 = sh_packets h ! 0"
      using cs that by (simp add: h1_def)
    ultimately show ?thesis
      using assms(1) by (simp add: sent_ok_def hd_conv_nth)
  qed
  then have ok: "sent_ok h'"
    using cleanup_ok(1) [OF pre2] pre2 by (cases "j = 0") (simp_all add: h'_def sent_ok_def h2_def)
  have e': "entry h' q = entry h2 q" for q
    using cleanup_ok(2) [OF pre2] by (simp add: h'_def)
  have "history_Remove h pn = Inr h'"
    using ok c by (auto simp: history_Remove_def i(1) take_out_eq [OF pre i(2,3)] h1_def [symmetric] Let_def h'_def h2_def sent_ok_def)
  moreover have "sh_highestPacketNumber h' = sh_highestPacketNumber h" "sh_pathProbePackets h' = sh_pathProbePackets h"
    by (simp_all add: h'_def h2_def h1_def)
  moreover have "entry h' pn = None"
    using e2 [of pn] h1(2) e' [of pn] by auto
  moreover have "entry h' q = entry h q \<or> entry h' q = None \<and> (q = pn \<or> (\<exists>s. entry h q = Some s \<and> pk_skippedPacket s))" for q
    using e2 [of q] h1(2) e' [of q] by (auto split: if_splits)
  moreover have "weight f (sh_packets h') = weight f (sh_packets h) - f p" if "\<And>p. pk_skippedPacket p \<Longrightarrow> f p = 0" for f
    using w2 [OF that] by (simp add: h'_def h2_def)
  ultimately show ?thesis
    using ok that by blast
qed

lemma DeclareLost_ok:
  assumes "sent_ok h" and "entry h pn = Some p"
  obtains h' where "DeclareLost h pn = Inr h'" "sent_ok h'" "sh_highestPacketNumber h' = sh_highestPacketNumber h"
    "sh_pathProbePackets h' = sh_pathProbePackets h" "entry h' = (entry h)(pn := None)"
    "\<forall>f. weight f (sh_packets h') = weight f (sh_packets h) - f p"
proof -
  obtain i where i: "getIndex h pn = Inr (Some i)" "i < length (sh_packets h)" "sh_packets h ! i = Some p" "pn = history_first h + int i"
    using entry_index [OF assms] by blast
  have pre: "sent_pre h"
    using assms(1) by (simp add: sent_ok_def)
  define h1 where "h1 = without h i p"
  have h1: "sent_pre h1" "entry h1 = (entry h)(pn := None)" and p1: "sh_packets h1 = (sh_packets h)[i := None]"
    using without_ok [OF pre i(2,3)] i(4) by (simp_all add: h1_def)
  define h' where "h' = (if i = 0 then h1\<lparr>sh_packets := cleanupStart (sh_packets h1)\<rparr> else h1)"
  have "hd (sh_packets h1) = hd (sh_packets h)" if "i \<noteq> 0"
    using that i(2) p1 by (cases "sh_packets h") (auto split: nat.split)
  then have "sent_ok h'"
    using cleanup_ok(1) [OF h1(1)] h1(1) assms(1) i(2) by (auto simp: h'_def sent_ok_def)
  moreover have "entry h' = (entry h)(pn := None)"
    using cleanup_ok(2) [OF h1(1)] h1(2) by (auto simp: h'_def fun_eq_iff)
  moreover have "DeclareLost h pn = Inr h'"
    by (simp add: DeclareLost_def i(1) take_out_eq [OF pre i(2,3)] h1_def [symmetric] h'_def)
  moreover have "weight f (sh_packets h') = weight f (sh_packets h) - f p" for f
    using weight_update [OF i(2,3), of f] by (cases "i = 0") (simp_all add: h'_def p1)
  moreover have "sh_highestPacketNumber h' = sh_highestPacketNumber h" "sh_pathProbePackets h' = sh_pathProbePackets h"
    by (simp_all add: h'_def h1_def)
  ultimately show ?thesis
    using that by blast
qed

text \<open>The next packet number of the history, and what sending does.\<close>

definition next_number :: "sentPacketHistory \<Rightarrow> PacketNumber \<Rightarrow> bool" where
  "next_number h pn \<longleftrightarrow> 0 \<le> pn \<and> (sh_highestPacketNumber h = InvalidPacketNumber \<or> pn = sh_highestPacketNumber h + 1)"

lemma next_number_check:
  "next_number h pn \<Longrightarrow> checkSequentialPacketNumberUse h pn = Inr (h\<lparr>sh_highestPacketNumber := pn\<rparr>)"
  by (auto simp: next_number_def checkSequentialPacketNumberUse_def)

lemma next_number_first:
  assumes "sent_ok h" and "next_number h pn" and "sh_packets h \<noteq> []"
  shows "pn = history_first h + int (length (sh_packets h))" and "pn = sh_highestPacketNumber h + 1"
  using assms by (cases "sh_packets h"; auto simp: next_number_def history_first_def sent_ok_def sent_pre_def InvalidPacketNumber_def)+

lemma append_ok:
  assumes ok: "sent_ok h" and pn: "next_number h pn" and x: "\<And>p. x = Some p \<Longrightarrow> pk_PacketNumber p = pn" "sh_packets h = [] \<Longrightarrow> x \<noteq> None"
    and h': "sh_packets h' = sh_packets h @ [x]" "sh_highestPacketNumber h' = pn"
      "sh_numOutstanding h' = sh_numOutstanding h + (case x of None \<Rightarrow> 0 | Some p \<Rightarrow> of_bool (outstanding p))"
  shows "sent_ok h'" and "entry h' = (entry h)(pn := x)"
proof -
  have "0 \<le> pn"
    using pn by (simp add: next_number_def)
  consider "sh_packets h = []" | "sh_packets h \<noteq> []" "pn = history_first h + int (length (sh_packets h))" "pn = sh_highestPacketNumber h + 1"
    using next_number_first [OF ok pn] by blast
  then have "sent_ok h' \<and> entry h' = (entry h)(pn := x)"
  proof cases
    case 1
    then have first: "history_first h' = pn"
      using h' by (simp add: history_first_def)
    then have "entry h' q = ((entry h)(pn := x)) q" for q
      using 1 h' by (auto simp: entry_def history_first_def)
    moreover have "numbered pn [x]"
      using x(1) by (auto simp: numbered_def)
    ultimately show ?thesis
      using 1 ok h' first x \<open>0 \<le> pn\<close> by (auto simp: sent_ok_def sent_pre_def fun_eq_iff)
  next
    case 2
    then have first: "history_first h' = history_first h"
      using h' by (simp add: history_first_def)
    have "numbered (history_first h) (sh_packets h @ [x])"
      using ok x(1) 2 by (intro numbered_snoc) (auto simp: sent_ok_def sent_pre_def)
    then have "sent_ok h'"
      using 2 ok h' unfolding sent_ok_def sent_pre_def first by simp
    moreover have "entry h' q = ((entry h)(pn := x)) q" for q
    proof (cases "history_first h \<le> q \<and> q < pn")
      case True
      then have "nat (q - history_first h) < length (sh_packets h)"
        using 2 by linarith
      then show ?thesis
        using True 2(3) h' unfolding entry_def first by (simp add: nth_append)
    next
      case False
      then show ?thesis
        using 2 h' unfolding entry_def first by auto
    qed
    ultimately show ?thesis
      by auto
  qed
  then show "sent_ok h'" and "entry h' = (entry h)(pn := x)"
    by blast+
qed

lemma no_entry_above: "sh_highestPacketNumber h < pn \<Longrightarrow> entry h pn = None"
  by (simp add: entry_def)

lemma SkippedPacket_ok:
  assumes "sent_ok h" and "next_number h pn"
  obtains h' where "SkippedPacket h pn = Inr h'" "sent_ok h'" "sh_highestPacketNumber h' = pn" "sh_pathProbePackets h' = sh_pathProbePackets h"
    "entry h' = (entry h)(pn \<mapsto> getPacket\<lparr>pk_PacketNumber := pn, pk_skippedPacket := True\<rparr>)"
    "\<forall>f. (\<forall>p. pk_skippedPacket p \<longrightarrow> f p = 0) \<longrightarrow> weight f (sh_packets h') = weight f (sh_packets h)"
proof -
  let ?p = "getPacket\<lparr>pk_PacketNumber := pn, pk_skippedPacket := True\<rparr>"
  let ?h = "h\<lparr>sh_highestPacketNumber := pn, sh_packets := sh_packets h @ [Some ?p]\<rparr>"
  have "sent_ok ?h \<and> entry ?h = (entry h)(pn \<mapsto> ?p)"
    using append_ok [OF assms, of "Some ?p" ?h] by (simp add: outstanding_def)
  then show ?thesis
    using that [of ?h] by (simp add: SkippedPacket_def next_number_check [OF assms(2)])
qed

lemma SentNonAckElicitingPacket_ok:
  assumes "sent_ok h" and "next_number h pn"
  obtains h' where "SentNonAckElicitingPacket h pn = Inr h'" "sent_ok h'" "sh_highestPacketNumber h' = pn" "sh_pathProbePackets h' = sh_pathProbePackets h"
    "\<forall>q. q \<noteq> pn \<longrightarrow> entry h' q = entry h q" "entry h' pn = None" "\<forall>f. weight f (sh_packets h') = weight f (sh_packets h)"
proof (cases "sh_packets h = []")
  case True
  let ?h = "h\<lparr>sh_highestPacketNumber := pn\<rparr>"
  have "sent_ok ?h"
    using True assms by (auto simp: sent_ok_def sent_pre_def history_first_def next_number_def numbered_def)
  moreover have "entry ?h q = None" "entry h q = None" for q
    using True by (auto simp: entry_def history_first_def)
  ultimately show ?thesis
    using True that [of ?h] by (simp add: SentNonAckElicitingPacket_def next_number_check [OF assms(2)])
next
  case False
  let ?h = "h\<lparr>sh_highestPacketNumber := pn, sh_packets := sh_packets h @ [None]\<rparr>"
  have "sent_ok ?h \<and> entry ?h = (entry h)(pn := None)"
    using append_ok [OF assms, of None ?h] False by simp
  then show ?thesis
    using False that [of ?h] by (simp add: SentNonAckElicitingPacket_def next_number_check [OF assms(2)])
qed

lemma SentAckElicitingPacket_ok:
  assumes "sent_ok h" and "next_number h (pk_PacketNumber p)"
  obtains h' where "SentAckElicitingPacket h p = Inr h'" "sent_ok h'" "sh_highestPacketNumber h' = pk_PacketNumber p"
    "sh_pathProbePackets h' = sh_pathProbePackets h"
    "entry h' = (entry h)(pk_PacketNumber p \<mapsto> p)" "\<forall>f. weight f (sh_packets h') = weight f (sh_packets h) + f p"
proof -
  let ?h = "h\<lparr>sh_highestPacketNumber := pk_PacketNumber p, sh_packets := sh_packets h @ [Some p],
    sh_numOutstanding := if outstanding p then sh_numOutstanding h + 1 else sh_numOutstanding h\<rparr>"
  have "sent_ok ?h \<and> entry ?h = (entry h)(pk_PacketNumber p \<mapsto> p)"
    using append_ok [OF assms, of "Some p" ?h] by (cases "outstanding p") simp_all
  then show ?thesis
    using that [of ?h] by (simp add: SentAckElicitingPacket_def next_number_check [OF assms(2)])
qed

lemma SentPathProbePacket_ok:
  assumes "sent_ok h" and "next_number h (pk_PacketNumber p)"
  obtains h' where "SentPathProbePacket h p = Inr h'" "sent_ok h'" "sh_highestPacketNumber h' = pk_PacketNumber p"
    "sh_pathProbePackets h' = sh_pathProbePackets h @ [p]"
    "entry h' = (entry h)(pk_PacketNumber p \<mapsto> getPacket\<lparr>pk_PacketNumber := pk_PacketNumber p, pk_isPathProbePacket := True\<rparr>)"
    "\<forall>f. weight f (sh_packets h') = weight f (sh_packets h) + f (getPacket\<lparr>pk_PacketNumber := pk_PacketNumber p, pk_isPathProbePacket := True\<rparr>)"
proof -
  let ?p = "getPacket\<lparr>pk_PacketNumber := pk_PacketNumber p, pk_isPathProbePacket := True\<rparr>"
  let ?h = "h\<lparr>sh_highestPacketNumber := pk_PacketNumber p, sh_packets := sh_packets h @ [Some ?p], sh_pathProbePackets := sh_pathProbePackets h @ [p]\<rparr>"
  have "sent_ok ?h \<and> entry ?h = (entry h)(pk_PacketNumber p \<mapsto> ?p)"
    using append_ok [OF assms, of "Some ?p" ?h] by (simp add: outstanding_def)
  then show ?thesis
    using that [of ?h] by (simp add: SentPathProbePacket_def next_number_check [OF assms(2)])
qed

text \<open>The packets of the history in the order of their numbers.\<close>

lemma map_filter_id_append: "List.map_filter id (xs @ ys) = List.map_filter id xs @ List.map_filter id ys"
  by (simp add: List.map_filter_def)

lemma numbered_sorted:
  "numbered n ps \<Longrightarrow> sorted_wrt (\<lambda>p q. pk_PacketNumber p < pk_PacketNumber q) (List.map_filter id ps) \<and>
     (\<forall>p\<in>set (List.map_filter id ps). n \<le> pk_PacketNumber p)"
proof (induction ps arbitrary: n)
  case (Cons x ps)
  have "numbered (n + int 1) (drop 1 (x # ps))"
    using Cons.prems by (rule numbered_drop)
  then have "numbered (n + 1) ps"
    by simp
  note IH = Cons.IH [OF this]
  have "pk_PacketNumber p = n" if "x = Some p" for p
    using numberedD [OF Cons.prems, of 0 p] that by simp
  with IH show ?case
    by (cases x) (auto dest: bspec)
qed simp

lemma history_Packets_sorted: "sent_ok h \<Longrightarrow> sorted_wrt (\<lambda>p q. pk_PacketNumber p < pk_PacketNumber q) (history_Packets h)"
  using numbered_sorted unfolding sent_ok_def sent_pre_def history_Packets_def by blast

lemma history_Packets_entry:
  assumes "sent_ok h"
  shows "p \<in> set (history_Packets h) \<longleftrightarrow> entry h (pk_PacketNumber p) = Some p"
proof
  assume "p \<in> set (history_Packets h)"
  then obtain i where i: "i < length (sh_packets h)" "sh_packets h ! i = Some p"
    by (auto simp: history_Packets_def List.map_filter_def in_set_conv_nth)
  then have "pk_PacketNumber p = history_first h + int i"
    using assms by (auto simp: sent_ok_def sent_pre_def dest: numberedD)
  then show "entry h (pk_PacketNumber p) = Some p"
    using i entry_nth [of i h] by simp
next
  assume "entry h (pk_PacketNumber p) = Some p"
  then obtain i where "i < length (sh_packets h)" "sh_packets h ! i = Some p"
    using entry_index [OF assms] by blast
  then show "p \<in> set (history_Packets h)"
    using nth_mem [of i "sh_packets h"] by (force simp: history_Packets_def List.map_filter_def)
qed

lemma weight_Packets: "weight f (sh_packets h) = sum_list (map f (history_Packets h))"
proof -
  have "weight f ps = sum_list (map f (List.map_filter id ps))" for ps
    by (induction ps) (auto split: option.split)
  then show ?thesis
    by (simp add: history_Packets_def)
qed

lemma FirstOutstanding_entry:
  assumes "sent_ok h" and "FirstOutstanding h = Some p"
  shows "entry h (pk_PacketNumber p) = Some p" and "outstanding p"
  using assms by (auto simp: FirstOutstanding_def find_Some_iff history_Packets_entry [OF assms(1), symmetric] split: if_splits)

lemma HasOutstandingPackets_iff:
  assumes "sent_ok h"
  shows "HasOutstandingPackets h \<longleftrightarrow> (\<exists>p\<in>set (history_Packets h). outstanding p)"
proof -
  have "(0 :: int) < sum_list (map (\<lambda>p. of_bool (outstanding p)) ps) \<longleftrightarrow> (\<exists>p\<in>set ps. outstanding p)" for ps :: "packet list"
  proof (induction ps)
    case (Cons p ps)
    have "0 \<le> sum_list (map (\<lambda>p. of_bool (outstanding p)) ps :: int list)"
      by (rule sum_list_nonneg) auto
    with Cons show ?case
      by auto
  qed simp
  then show ?thesis
    using assms by (simp add: HasOutstandingPackets_def sent_ok_def sent_pre_def weight_Packets)
qed

lemma FirstOutstanding_iff: "sent_ok h \<Longrightarrow> FirstOutstanding h \<noteq> None \<longleftrightarrow> HasOutstandingPackets h"
  by (cases "find outstanding (history_Packets h)") (auto simp: FirstOutstanding_def find_None_iff HasOutstandingPackets_iff)

text \<open>The packet numbers that a generator hands out.\<close>

fun pn_next :: "packetNumberGenerator \<Rightarrow> PacketNumber" where
  "pn_next (sequentialPacketNumberGenerator n) = n"
| "pn_next (skippingPacketNumberGenerator period maxPeriod n skip) = n"

lemma pn_Pop_next:
  assumes "pn_Pop g rnd = (g', skipped, pn)"
  shows "pn = pn_next g + of_bool skipped" and "pn_next g' = pn + 1" and "pn_Peek g = pn"
  using assms by (cases g; auto simp: generateNewSkip_def split: if_splits)+

end
