(* ===== verification/Sent_Packets.thy ===== *)
theory Sent_Packets
  imports Sent_History ECN_Tracker Congestion Received_Packets
begin

text \<open>
  The sent packet handler (\<open>internal/ackhandler/sent_packet_handler.go\<close>): packet number spaces, loss detection, the loss detection timer, probe timeouts,
  the amplification limit and the bytes in flight. Calls of frame handlers are returned as a list of events, in the order of the calls. Logging and tracing are left out.
  Iterating over the history while packets are removed from it is iterating over the packets it held before: a removal clears the entry of the current packet
  or of an earlier one and reslices the array, and the iterator keeps the slice it started with. What becomes of the path probes in \<open>MigratedPath\<close>, where this is not
  so, is modelled on the array.
\<close>

section \<open>Definitions\<close>

definition timeThreshold :: rat where "timeThreshold = 9 / 8"
definition packetThreshold :: PacketNumber where "packetThreshold = 3"
definition amplificationFactor :: ByteCount where "amplificationFactor = 3"
definition minRTTAfterRetry :: Duration where "minRTTAfterRetry = 5 * Millisecond"
definition maxPTODuration :: Duration where "maxPTODuration = 60 * 1000 * Millisecond"
definition pathProbePacketLossTimeout :: Duration where "pathProbePacketLossTimeout = 1000 * Millisecond"
definition MaxOutstandingSentPackets :: int where "MaxOutstandingSentPackets = 2 * MaxCongestionWindowPackets"
definition MaxTrackedSentPackets :: int where "MaxTrackedSentPackets = MaxOutstandingSentPackets * 5 div 4"

datatype SendMode = SendNone | SendAck | SendPTOInitial | SendPTOHandshake | SendPTOAppData | SendPacingLimited | SendAny

datatype frame_event = OnAcked nat "Frame option" | OnLost nat "Frame option"

record packetNumberSpace =
  ns_history :: sentPacketHistory
  ns_pns :: packetNumberGenerator
  ns_lossTime :: Time
  ns_lastAckElicitingPacketTime :: Time
  ns_largestAcked :: PacketNumber
  ns_largestSent :: PacketNumber

definition newPacketNumberSpace :: "PacketNumber \<Rightarrow> bool \<Rightarrow> int \<Rightarrow> packetNumberSpace" where
  "newPacketNumberSpace initialPN isAppData rnd =
     \<lparr>ns_history = newSentPacketHistory,
      ns_pns = (if isAppData then newSkippingPacketNumberGenerator initialPN SkipPacketInitialPeriod SkipPacketMaxPeriod rnd
                else newSequentialPacketNumberGenerator initialPN),
      ns_lossTime = 0, ns_lastAckElicitingPacketTime = 0, ns_largestAcked = InvalidPacketNumber, ns_largestSent = InvalidPacketNumber\<rparr>"

datatype TimerType = TimerTypeACK | TimerTypePTO | TimerTypePathProbe

record alarmTimer =
  al_Time :: Time
  al_TimerType :: "TimerType option"
  al_EncryptionLevel :: "EncryptionLevel option"

definition no_alarm :: alarmTimer where
  "no_alarm = \<lparr>al_Time = 0, al_TimerType = None, al_EncryptionLevel = None\<rparr>"

record sentPacketHandler =
  sp_initialPackets :: "packetNumberSpace option"
  sp_handshakePackets :: "packetNumberSpace option"
  sp_appDataPackets :: packetNumberSpace
  sp_peerCompletedAddressValidation :: bool
  sp_bytesReceived :: ByteCount
  sp_bytesSent :: ByteCount
  sp_peerAddressValidated :: bool
  sp_handshakeConfirmed :: bool
  sp_lowestNotConfirmedAcked :: PacketNumber
  sp_bytesInFlight :: ByteCount
  sp_congestion :: cubicSender
  sp_rttStats :: RTTStats
  sp_ptoCount :: u32
  sp_ptoMode :: SendMode
  sp_numProbesToSend :: int
  sp_alarm :: alarmTimer
  sp_enableECN :: bool
  sp_ecnTracker :: "ecnTracker option"
  sp_perspective :: Perspective

text \<open>\<open>rnd\<close> is the random number of the first skipped packet number.\<close>

definition newSentPacketHandler :: "PacketNumber \<Rightarrow> ByteCount \<Rightarrow> RTTStats \<Rightarrow> bool \<Rightarrow> bool \<Rightarrow> Perspective \<Rightarrow> int \<Rightarrow> sentPacketHandler" where
  "newSentPacketHandler initialPN initialMaxDatagramSize rttStats clientAddressValidated enableECN pers rnd =
     \<lparr>sp_initialPackets = Some (newPacketNumberSpace initialPN False 0), sp_handshakePackets = Some (newPacketNumberSpace 0 False 0),
      sp_appDataPackets = newPacketNumberSpace 0 True rnd, sp_peerCompletedAddressValidation = (pers = PerspectiveServer),
      sp_bytesReceived = 0, sp_bytesSent = 0, sp_peerAddressValidated = (pers = PerspectiveClient \<or> clientAddressValidated),
      sp_handshakeConfirmed = False, sp_lowestNotConfirmedAcked = 0, sp_bytesInFlight = 0,
      sp_congestion = NewCubicSender rttStats initialMaxDatagramSize True, sp_rttStats = rttStats,
      sp_ptoCount = 0, sp_ptoMode = SendNone, sp_numProbesToSend = 0, sp_alarm = no_alarm,
      sp_enableECN = enableECN, sp_ecnTracker = (if enableECN then Some newECNTracker else None), sp_perspective = pers\<rparr>"

definition NewAckHandler ::
  "PacketNumber \<Rightarrow> ByteCount \<Rightarrow> RTTStats \<Rightarrow> bool \<Rightarrow> bool \<Rightarrow> Perspective \<Rightarrow> int \<Rightarrow> sentPacketHandler \<times> receivedPacketHandler" where
  "NewAckHandler initialPN initialMaxDatagramSize rttStats clientAddressValidated enableECN pers rnd =
     (newSentPacketHandler initialPN initialMaxDatagramSize rttStats clientAddressValidated enableECN pers rnd, newReceivedPacketHandler)"

definition removeFromBytesInFlight :: "sentPacketHandler \<Rightarrow> packet \<Rightarrow> (sentPacketHandler \<times> packet) result" where
  "removeFromBytesInFlight h p =
     (if pk_includedInBytesInFlight p then
        if pk_Length p > sp_bytesInFlight h then Inl (Panic ''negative bytes_in_flight'')
        else Inr (h\<lparr>sp_bytesInFlight := sp_bytesInFlight h - pk_Length p\<rparr>, p\<lparr>pk_includedInBytesInFlight := False\<rparr>)
      else Inr (h, p))"

definition getPacketNumberSpace :: "sentPacketHandler \<Rightarrow> EncryptionLevel \<Rightarrow> packetNumberSpace option" where
  "getPacketNumberSpace h encLevel =
     (case encLevel of
        EncryptionInitial \<Rightarrow> sp_initialPackets h
      | EncryptionHandshake \<Rightarrow> sp_handshakePackets h
      | Encryption0RTT \<Rightarrow> Some (sp_appDataPackets h)
      | Encryption1RTT \<Rightarrow> Some (sp_appDataPackets h))"

text \<open>Writing through the pointer that \<open>getPacketNumberSpace\<close> returned.\<close>

definition set_space :: "sentPacketHandler \<Rightarrow> EncryptionLevel \<Rightarrow> packetNumberSpace \<Rightarrow> sentPacketHandler" where
  "set_space h encLevel s =
     (case encLevel of
        EncryptionInitial \<Rightarrow> h\<lparr>sp_initialPackets := Some s\<rparr>
      | EncryptionHandshake \<Rightarrow> h\<lparr>sp_handshakePackets := Some s\<rparr>
      | Encryption0RTT \<Rightarrow> h\<lparr>sp_appDataPackets := s\<rparr>
      | Encryption1RTT \<Rightarrow> h\<lparr>sp_appDataPackets := s\<rparr>)"

definition the_space :: "sentPacketHandler \<Rightarrow> EncryptionLevel \<Rightarrow> packetNumberSpace result" where
  "the_space h encLevel = (case getPacketNumberSpace h encLevel of None \<Rightarrow> Inl nil_dereference | Some s \<Rightarrow> Inr s)"

subsection \<open>The loss detection timer\<close>

definition hasOutstandingCryptoPackets :: "sentPacketHandler \<Rightarrow> bool" where
  "hasOutstandingCryptoPackets h \<longleftrightarrow>
     (case sp_initialPackets h of None \<Rightarrow> False | Some s \<Rightarrow> HasOutstandingPackets (ns_history s)) \<or>
     (case sp_handshakePackets h of None \<Rightarrow> False | Some s \<Rightarrow> HasOutstandingPackets (ns_history s))"

definition isAmplificationLimited :: "sentPacketHandler \<Rightarrow> bool" where
  "isAmplificationLimited h \<longleftrightarrow> \<not> sp_peerAddressValidated h \<and> sp_bytesSent h \<ge> amplificationFactor * sp_bytesReceived h"

definition getLossTimeAndSpace :: "sentPacketHandler \<Rightarrow> Time \<times> EncryptionLevel option" where
  "getLossTimeAndSpace h =
     (let (lossTime, encLevel) =
            (case sp_initialPackets h of None \<Rightarrow> (0, None) | Some s \<Rightarrow> (ns_lossTime s, Some EncryptionInitial));
          (lossTime, encLevel) =
            (case sp_handshakePackets h of
               None \<Rightarrow> (lossTime, encLevel)
             | Some s \<Rightarrow> if lossTime = 0 \<or> ns_lossTime s \<noteq> 0 \<and> ns_lossTime s < lossTime
                 then (ns_lossTime s, Some EncryptionHandshake) else (lossTime, encLevel));
          appLossTime = ns_lossTime (sp_appDataPackets h) in
      if lossTime = 0 \<or> appLossTime \<noteq> 0 \<and> appLossTime < lossTime then (appLossTime, Some Encryption1RTT) else (lossTime, encLevel))"

definition getScaledPTO :: "sentPacketHandler \<Rightarrow> bool \<Rightarrow> Duration" where
  "getScaledPTO h includeMaxAckDelay =
     (let pto = wrap64 (PTO (sp_rttStats h) includeMaxAckDelay * 2 ^ unat (sp_ptoCount h)) in
      if pto > maxPTODuration \<or> pto \<le> 0 then maxPTODuration else pto)"

text \<open>One packet number space in \<open>getPTOTimeAndSpace\<close>: the earlier of the time so far and that of the space.\<close>

definition pto_of_space :: "packetNumberSpace \<Rightarrow> EncryptionLevel \<Rightarrow> Duration \<Rightarrow> Time \<times> EncryptionLevel option \<Rightarrow> Time \<times> EncryptionLevel option" where
  "pto_of_space s level d r =
     (if HasOutstandingPackets (ns_history s) \<and> ns_lastAckElicitingPacketTime s \<noteq> 0 then
        let t = ns_lastAckElicitingPacketTime s + d in
        if fst r = 0 \<or> t \<noteq> 0 \<and> t < fst r then (t, Some level) else r
      else r)"

definition getPTOTimeAndSpace :: "sentPacketHandler \<Rightarrow> Time \<Rightarrow> Time \<times> EncryptionLevel option" where
  "getPTOTimeAndSpace h now =
     (if \<not> sp_handshakeConfirmed h \<and> \<not> hasOutstandingCryptoPackets h then
        if sp_peerCompletedAddressValidation h then (0, None)
        else let t = now + getScaledPTO h False in
          if sp_initialPackets h \<noteq> None then (t, Some EncryptionInitial) else (t, Some EncryptionHandshake)
      else
        let r = (case sp_initialPackets h of None \<Rightarrow> (0, None) | Some s \<Rightarrow> pto_of_space s EncryptionInitial (getScaledPTO h False) (0, None));
            r = (case sp_handshakePackets h of None \<Rightarrow> r | Some s \<Rightarrow> pto_of_space s EncryptionHandshake (getScaledPTO h False) r) in
        if sp_handshakeConfirmed h then pto_of_space (sp_appDataPackets h) Encryption1RTT (getScaledPTO h True) r else r)"

definition lossDetectionTime :: "sentPacketHandler \<Rightarrow> Time \<Rightarrow> alarmTimer" where
  "lossDetectionTime h now =
     (let hist = ns_history (sp_appDataPackets h) in
      if sp_peerCompletedAddressValidation h \<and> \<not> hasOutstandingCryptoPackets h \<and>
         \<not> HasOutstandingPackets hist \<and> \<not> HasOutstandingPathProbes hist then no_alarm
      else if isAmplificationLimited h then no_alarm
      else
        let pathProbeLossTime =
              (if HasOutstandingPathProbes hist
               then (case FirstOutstandingPathProbe hist of None \<Rightarrow> 0 | Some p \<Rightarrow> pk_SendTime p + pathProbePacketLossTimeout) else 0);
            (lossTime, encLevel) = getLossTimeAndSpace h in
        if lossTime \<noteq> 0 \<and> (pathProbeLossTime = 0 \<or> lossTime < pathProbeLossTime)
        then \<lparr>al_Time = lossTime, al_TimerType = Some TimerTypeACK, al_EncryptionLevel = encLevel\<rparr>
        else
          let (ptoTime, encLevel) = getPTOTimeAndSpace h now in
          if ptoTime \<noteq> 0 \<and> (pathProbeLossTime = 0 \<or> ptoTime < pathProbeLossTime)
          then \<lparr>al_Time = ptoTime, al_TimerType = Some TimerTypePTO, al_EncryptionLevel = encLevel\<rparr>
          else if pathProbeLossTime \<noteq> 0
          then \<lparr>al_Time = pathProbeLossTime, al_TimerType = Some TimerTypePathProbe, al_EncryptionLevel = encLevel\<rparr>
          else no_alarm)"

definition setLossDetectionTimer :: "sentPacketHandler \<Rightarrow> Time \<Rightarrow> sentPacketHandler" where
  "setLossDetectionTimer h now = h\<lparr>sp_alarm := lossDetectionTime h now\<rparr>"

definition GetLossDetectionTimeout :: "sentPacketHandler \<Rightarrow> Time" where
  "GetLossDetectionTimeout h = al_Time (sp_alarm h)"

subsection \<open>Sending\<close>

primrec rfold :: "('s \<Rightarrow> 'a \<Rightarrow> 's result) \<Rightarrow> 's \<Rightarrow> 'a list \<Rightarrow> 's result" where
  "rfold f s [] = Inr s"
| "rfold f s (x # xs) = rbind (f s x) (\<lambda>s. rfold f s xs)"

definition sent_congestion :: "sentPacketHandler \<Rightarrow> Time \<Rightarrow> PacketNumber \<Rightarrow> ByteCount \<Rightarrow> bool \<Rightarrow> sentPacketHandler" where
  "sent_congestion h t pn sz isAckEliciting =
     h\<lparr>sp_congestion := sender_OnPacketSent (sp_congestion h) (sp_rttStats h) t pn sz isAckEliciting\<rparr>"

definition sent_ecn :: "sentPacketHandler \<Rightarrow> PacketNumber \<Rightarrow> EncryptionLevel \<Rightarrow> ECN \<Rightarrow> sentPacketHandler result" where
  "sent_ecn h pn encLevel ecn =
     (case sp_ecnTracker h of
        Some e \<Rightarrow> if encLevel = Encryption1RTT then rbind (ecn_SentPacket e pn ecn) (\<lambda>e. Inr (h\<lparr>sp_ecnTracker := Some e\<rparr>)) else Inr h
      | None \<Rightarrow> Inr h)"

definition sent_packet :: "Time \<Rightarrow> PacketNumber \<Rightarrow> PacketNumber \<Rightarrow> ack_StreamFrame list \<Rightarrow> ack_Frame list \<Rightarrow> EncryptionLevel \<Rightarrow> ByteCount \<Rightarrow> bool \<Rightarrow> packet" where
  "sent_packet t pn largestAcked streamFrames frames encLevel sz isPathMTUProbePacket =
     getPacket\<lparr>pk_SendTime := t, pk_PacketNumber := pn, pk_EncryptionLevel := Some encLevel, pk_Length := sz, pk_LargestAcked := largestAcked,
       pk_StreamFrames := streamFrames, pk_Frames := frames, pk_IsPathMTUProbePacket := isPathMTUProbePacket, pk_includedInBytesInFlight := True\<rparr>"

definition sent_probe :: "Time \<Rightarrow> PacketNumber \<Rightarrow> ack_Frame list \<Rightarrow> EncryptionLevel \<Rightarrow> ByteCount \<Rightarrow> packet" where
  "sent_probe t pn frames encLevel sz =
     getPacket\<lparr>pk_SendTime := t, pk_PacketNumber := pn, pk_EncryptionLevel := Some encLevel, pk_Length := sz, pk_Frames := frames,
       pk_isPathProbePacket := True\<rparr>"

definition SentPacket ::
  "sentPacketHandler \<Rightarrow> Time \<Rightarrow> PacketNumber \<Rightarrow> PacketNumber \<Rightarrow> ack_StreamFrame list \<Rightarrow> ack_Frame list \<Rightarrow> EncryptionLevel \<Rightarrow> ECN \<Rightarrow>
   ByteCount \<Rightarrow> bool \<Rightarrow> bool \<Rightarrow> sentPacketHandler result" where
  "SentPacket h t pn largestAcked streamFrames frames encLevel ecn sz isPathMTUProbePacket isPathProbePacket =
     (let h = h\<lparr>sp_bytesSent := sp_bytesSent h + sz\<rparr> in
      rbind (the_space h encLevel) (\<lambda>pnSpace.
      let pnSpace = pnSpace\<lparr>ns_largestSent := pn\<rparr>;
          isAckEliciting = (length streamFrames > 0 \<or> length frames > 0) in
      if isPathProbePacket then
        rbind (SentPathProbePacket (ns_history pnSpace) (sent_probe t pn frames encLevel sz)) (\<lambda>hist.
        Inr (setLossDetectionTimer (set_space h encLevel (pnSpace\<lparr>ns_history := hist\<rparr>)) t))
      else if \<not> isAckEliciting then
        rbind (sent_ecn (sent_congestion h t pn sz False) pn encLevel ecn) (\<lambda>h.
        rbind (SentNonAckElicitingPacket (ns_history pnSpace) pn) (\<lambda>hist.
        let h = set_space h encLevel (pnSpace\<lparr>ns_history := hist\<rparr>) in
        Inr (if \<not> sp_peerCompletedAddressValidation h then setLossDetectionTimer h t else h)))
      else
        let pnSpace = pnSpace\<lparr>ns_lastAckElicitingPacketTime := t\<rparr>;
            h = h\<lparr>sp_bytesInFlight := sp_bytesInFlight h + sz,
                  sp_numProbesToSend := if sp_numProbesToSend h > 0 then sp_numProbesToSend h - 1 else sp_numProbesToSend h\<rparr> in
        rbind (sent_ecn (sent_congestion h t pn sz True) pn encLevel ecn) (\<lambda>h.
        rbind (SentAckElicitingPacket (ns_history pnSpace)
                 (sent_packet t pn largestAcked streamFrames frames encLevel sz isPathMTUProbePacket)) (\<lambda>hist.
        Inr (setLossDetectionTimer (set_space h encLevel (pnSpace\<lparr>ns_history := hist\<rparr>)) t)))))"

definition PeekPacketNumber :: "sentPacketHandler \<Rightarrow> EncryptionLevel \<Rightarrow> (PacketNumber \<times> nat) result" where
  "PeekPacketNumber h encLevel =
     rbind (the_space h encLevel) (\<lambda>pnSpace.
       let pn = pn_Peek (ns_pns pnSpace) in Inr (pn, PacketNumberLengthForHeader pn (ns_largestAcked pnSpace)))"

definition PopPacketNumber :: "sentPacketHandler \<Rightarrow> EncryptionLevel \<Rightarrow> int \<Rightarrow> (sentPacketHandler \<times> PacketNumber) result" where
  "PopPacketNumber h encLevel rnd =
     rbind (the_space h encLevel) (\<lambda>pnSpace.
       let (pns, skipped, pn) = pn_Pop (ns_pns pnSpace) rnd;
           pnSpace = pnSpace\<lparr>ns_pns := pns\<rparr> in
       if skipped then
         rbind (SkippedPacket (ns_history pnSpace) (pn - 1)) (\<lambda>hist. Inr (set_space h encLevel (pnSpace\<lparr>ns_history := hist\<rparr>), pn))
       else Inr (set_space h encLevel pnSpace, pn))"

definition handler_ECNMode :: "sentPacketHandler \<Rightarrow> bool \<Rightarrow> (sentPacketHandler \<times> ECN) result" where
  "handler_ECNMode h isShortHeaderPacket =
     (if \<not> sp_enableECN h then Inr (h, ECNUnsupported)
      else if \<not> isShortHeaderPacket then Inr (h, ECNNon)
      else case sp_ecnTracker h of
        None \<Rightarrow> Inl nil_dereference
      | Some e \<Rightarrow> let (e, ecn) = ecn_Mode e in Inr (h\<lparr>sp_ecnTracker := Some e\<rparr>, ecn))"

definition packetsInFlight :: "sentPacketHandler \<Rightarrow> int" where
  "packetsInFlight h =
     history_Len (ns_history (sp_appDataPackets h)) +
     (case sp_handshakePackets h of None \<Rightarrow> 0 | Some s \<Rightarrow> history_Len (ns_history s)) +
     (case sp_initialPackets h of None \<Rightarrow> 0 | Some s \<Rightarrow> history_Len (ns_history s))"

definition handler_SendMode :: "sentPacketHandler \<Rightarrow> Time \<Rightarrow> SendMode" where
  "handler_SendMode h now =
     (let numTrackedPackets =
            history_Len (ns_history (sp_appDataPackets h)) +
            (case sp_initialPackets h of None \<Rightarrow> 0 | Some s \<Rightarrow> history_Len (ns_history s)) +
            (case sp_handshakePackets h of None \<Rightarrow> 0 | Some s \<Rightarrow> history_Len (ns_history s)) in
      if isAmplificationLimited h then SendNone
      else if numTrackedPackets \<ge> MaxTrackedSentPackets then SendNone
      else if sp_numProbesToSend h > 0 then sp_ptoMode h
      else if \<not> CanSend (sp_congestion h) (sp_bytesInFlight h) then SendAck
      else if numTrackedPackets \<ge> MaxOutstandingSentPackets then SendAck
      else if \<not> HasPacingBudget (sp_congestion h) (sp_rttStats h) now then SendPacingLimited
      else SendAny)"

definition handler_TimeUntilSend :: "sentPacketHandler \<Rightarrow> Time result" where
  "handler_TimeUntilSend h = sender_TimeUntilSend (sp_congestion h) (sp_rttStats h)"

definition handler_SetMaxDatagramSize :: "sentPacketHandler \<Rightarrow> ByteCount \<Rightarrow> sentPacketHandler result" where
  "handler_SetMaxDatagramSize h s = rbind (sender_SetMaxDatagramSize (sp_congestion h) s) (\<lambda>c. Inr (h\<lparr>sp_congestion := c\<rparr>))"

definition ReceivedBytes :: "sentPacketHandler \<Rightarrow> ByteCount \<Rightarrow> Time \<Rightarrow> sentPacketHandler" where
  "ReceivedBytes h n t =
     (let wasAmplificationLimit = isAmplificationLimited h;
          h = h\<lparr>sp_bytesReceived := sp_bytesReceived h + n\<rparr> in
      if wasAmplificationLimit \<and> \<not> isAmplificationLimited h then setLossDetectionTimer h t else h)"

definition sent_ReceivedPacket :: "sentPacketHandler \<Rightarrow> EncryptionLevel \<Rightarrow> Time \<Rightarrow> sentPacketHandler" where
  "sent_ReceivedPacket h l t =
     (if sp_perspective h = PerspectiveServer \<and> l = EncryptionHandshake \<and> \<not> sp_peerAddressValidated h
      then setLossDetectionTimer (h\<lparr>sp_peerAddressValidated := True\<rparr>) t else h)"

definition GetLowestPacketNotConfirmedAcked :: "sentPacketHandler \<Rightarrow> PacketNumber" where
  "GetLowestPacketNotConfirmedAcked h = sp_lowestNotConfirmedAcked h"

subsection \<open>Losses\<close>

text \<open>The calls of the frame handlers; a frame without a handler is passed over.\<close>

definition handler_events :: "(nat \<Rightarrow> Frame option \<Rightarrow> frame_event) \<Rightarrow> packet \<Rightarrow> frame_event list" where
  "handler_events ev p =
     List.map_filter (\<lambda>f. map_option (\<lambda>n. ev n (af_Frame f)) (af_Handler f)) (pk_Frames p) @
     List.map_filter (\<lambda>f. map_option (\<lambda>n. ev n (Some (FStream (asf_Frame f)))) (asf_Handler f)) (pk_StreamFrames p)"

definition queueFramesForRetransmission :: "packet \<Rightarrow> frame_event list result" where
  "queueFramesForRetransmission p =
     (if length (pk_Frames p) = 0 \<and> length (pk_StreamFrames p) = 0 then Inl (Panic ''no frames'') else Inr (handler_events OnLost p))"

definition probe_lost_events :: "ack_Frame list \<Rightarrow> frame_event list result" where
  "probe_lost_events fs =
     (if list_ex (\<lambda>f. af_Handler f = None) fs then Inl nil_dereference
      else Inr (map (\<lambda>f. OnLost (the (af_Handler f)) (af_Frame f)) fs))"

definition set_app_history :: "sentPacketHandler \<Rightarrow> sentPacketHistory \<Rightarrow> sentPacketHandler" where
  "set_app_history h hist = h\<lparr>sp_appDataPackets := (sp_appDataPackets h)\<lparr>ns_history := hist\<rparr>\<rparr>"

definition detectLostPathProbes :: "sentPacketHandler \<Rightarrow> Time \<Rightarrow> (sentPacketHandler \<times> frame_event list) result" where
  "detectLostPathProbes h now =
     (let hist = ns_history (sp_appDataPackets h) in
      if \<not> HasOutstandingPathProbes hist then Inr (h, [])
      else
        let lossTime = now - pathProbePacketLossTimeout;
            lostPathProbes = filter (\<lambda>p. \<not> pk_SendTime p > lossTime) (sh_pathProbePackets hist) in
        rfold (\<lambda>(h, evs) p.
            rbind (probe_lost_events (pk_Frames p)) (\<lambda>es.
            Inr (set_app_history h (fst (RemovePathProbe (ns_history (sp_appDataPackets h)) (pk_PacketNumber p))), evs @ es)))
          (h, []) lostPathProbes)"

definition lossDelay :: "RTTStats \<Rightarrow> Duration" where
  "lossDelay r =
     (let maxRTT = fl64 (of_int (max (rtt_latestRTT r) (rtt_smoothedRTT r))) in
      max (float_to_int (fl64 (timeThreshold * maxRTT))) TimerGranularity)"

definition lost_ecn :: "sentPacketHandler \<Rightarrow> PacketNumber \<Rightarrow> EncryptionLevel \<Rightarrow> sentPacketHandler" where
  "lost_ecn h pn encLevel =
     (case sp_ecnTracker h of
        Some e \<Rightarrow> if encLevel = Encryption1RTT then h\<lparr>sp_ecnTracker := Some (ecn_LostPacket e pn)\<rparr> else h
      | None \<Rightarrow> h)"

definition declare_lost :: "sentPacketHandler \<Rightarrow> EncryptionLevel \<Rightarrow> packet \<Rightarrow> (sentPacketHandler \<times> frame_event list) result" where
  "declare_lost h encLevel p =
     rbind (the_space h encLevel) (\<lambda>pnSpace.
     rbind (DeclareLost (ns_history pnSpace) (pk_PacketNumber p)) (\<lambda>hist.
     let h = set_space h encLevel (pnSpace\<lparr>ns_history := hist\<rparr>) in
     if \<not> pk_skippedPacket p \<and> \<not> pk_isPathProbePacket p then
       rbind (removeFromBytesInFlight h p) (\<lambda>(h, p).
       rbind (queueFramesForRetransmission p) (\<lambda>evs.
       let h = (if \<not> pk_IsPathMTUProbePacket p then h\<lparr>sp_congestion := OnCongestionEvent (sp_congestion h) (pk_PacketNumber p)\<rparr> else h) in
       Inr (lost_ecn h (pk_PacketNumber p) encLevel, evs)))
     else Inr (h, [])))"

fun detect_lost ::
  "Time \<Rightarrow> Duration \<Rightarrow> EncryptionLevel \<Rightarrow> packet list \<Rightarrow> sentPacketHandler \<Rightarrow> frame_event list \<Rightarrow> (sentPacketHandler \<times> frame_event list) result" where
  "detect_lost lostSendTime delay encLevel [] h evs = Inr (h, evs)"
| "detect_lost lostSendTime delay encLevel (p # ps) h evs =
     rbind (the_space h encLevel) (\<lambda>pnSpace.
     if pk_PacketNumber p > ns_largestAcked pnSpace then Inr (h, evs)
     else if \<not> pk_SendTime p > lostSendTime \<or> ns_largestAcked pnSpace \<ge> pk_PacketNumber p + packetThreshold then
       rbind (declare_lost h encLevel p) (\<lambda>(h, es). detect_lost lostSendTime delay encLevel ps h (evs @ es))
     else
       detect_lost lostSendTime delay encLevel ps
         (if ns_lossTime pnSpace = 0 then set_space h encLevel (pnSpace\<lparr>ns_lossTime := pk_SendTime p + delay\<rparr>) else h) evs)"

definition detectLostPackets :: "sentPacketHandler \<Rightarrow> Time \<Rightarrow> EncryptionLevel \<Rightarrow> (sentPacketHandler \<times> frame_event list) result" where
  "detectLostPackets h now encLevel =
     rbind (the_space h encLevel) (\<lambda>pnSpace.
     let h = set_space h encLevel (pnSpace\<lparr>ns_lossTime := 0\<rparr>);
         delay = lossDelay (sp_rttStats h) in
     detect_lost (now - delay) delay encLevel (history_Packets (ns_history pnSpace)) h [])"

definition pto_fired :: "sentPacketHandler \<Rightarrow> EncryptionLevel \<Rightarrow> int \<Rightarrow> sentPacketHandler result" where
  "pto_fired h encLevel rnd =
     (let h = h\<lparr>sp_ptoCount := sp_ptoCount h + 1, sp_numProbesToSend := sp_numProbesToSend h + 2\<rparr> in
      case encLevel of
        EncryptionInitial \<Rightarrow> Inr (h\<lparr>sp_ptoMode := SendPTOInitial\<rparr>)
      | EncryptionHandshake \<Rightarrow> Inr (h\<lparr>sp_ptoMode := SendPTOHandshake\<rparr>)
      | Encryption1RTT \<Rightarrow>
          rbind (PopPacketNumber h Encryption1RTT rnd) (\<lambda>(h, pn).
          rbind (SkippedPacket (ns_history (sp_appDataPackets h)) pn) (\<lambda>hist.
          Inr ((set_app_history h hist)\<lparr>sp_ptoMode := SendPTOAppData\<rparr>)))
      | Encryption0RTT \<Rightarrow> Inl (ErrorNew ''PTO timer in unexpected encryption level: %s''))"

definition timeout_pto :: "sentPacketHandler \<Rightarrow> Time \<Rightarrow> int \<Rightarrow> sentPacketHandler result" where
  "timeout_pto h now rnd =
     (if sp_bytesInFlight h = 0 \<and> \<not> sp_peerCompletedAddressValidation h then
        let h = h\<lparr>sp_ptoCount := sp_ptoCount h + 1, sp_numProbesToSend := sp_numProbesToSend h + 1\<rparr> in
        if sp_initialPackets h \<noteq> None then Inr (h\<lparr>sp_ptoMode := SendPTOInitial\<rparr>)
        else if sp_handshakePackets h \<noteq> None then Inr (h\<lparr>sp_ptoMode := SendPTOHandshake\<rparr>)
        else Inl (ErrorNew ''sentPacketHandler BUG: PTO fired, but bytes_in_flight is 0 and Initial and Handshake already dropped'')
      else case getPTOTimeAndSpace h now of
        (ptoTime, Some encLevel) \<Rightarrow>
          if ptoTime = 0 then Inr h
          else rbind (the_space h encLevel) (\<lambda>ps.
            if \<not> HasOutstandingPackets (ns_history ps) \<and> \<not> HasOutstandingPathProbes (ns_history ps) \<and> \<not> sp_peerCompletedAddressValidation h
            then Inr h else pto_fired h encLevel rnd)
      | (ptoTime, None) \<Rightarrow> if ptoTime = 0 then Inr h else Inl (Panic ''invalid packet number space''))"

definition OnLossDetectionTimeout :: "sentPacketHandler \<Rightarrow> Time \<Rightarrow> int \<Rightarrow> (sentPacketHandler \<times> frame_event list) result" where
  "OnLossDetectionTimeout h now rnd =
     rbind (if sp_handshakeConfirmed h then detectLostPathProbes h now else Inr (h, [])) (\<lambda>(h, evs).
     case getLossTimeAndSpace h of
       (earliestLossTime, Some encLevel) \<Rightarrow>
         if earliestLossTime \<noteq> 0
         then rbind (detectLostPackets h now encLevel) (\<lambda>(h, es). Inr (setLossDetectionTimer h now, evs @ es))
         else rbind (timeout_pto h now rnd) (\<lambda>h. Inr (setLossDetectionTimer h now, evs))
     | (earliestLossTime, None) \<Rightarrow> Inl (Panic ''invalid packet number space''))"

definition QueueProbePacket :: "sentPacketHandler \<Rightarrow> EncryptionLevel \<Rightarrow> (sentPacketHandler \<times> frame_event list \<times> bool) result" where
  "QueueProbePacket h encLevel =
     rbind (the_space h encLevel) (\<lambda>pnSpace.
     case FirstOutstanding (ns_history pnSpace) of
       None \<Rightarrow> Inr (h, [], False)
     | Some p \<Rightarrow>
         rbind (queueFramesForRetransmission p) (\<lambda>evs.
         rbind (removeFromBytesInFlight h p) (\<lambda>(h, _).
         rbind (DeclareLost (ns_history pnSpace) (pk_PacketNumber p)) (\<lambda>hist.
         Inr (set_space h encLevel (pnSpace\<lparr>ns_history := hist\<rparr>), evs, True)))))"

subsection \<open>Acknowledgments\<close>

text \<open>The difference of two times saturates: from the zero time to any other it is the largest duration.\<close>

definition time_Sub :: "Time \<Rightarrow> Time \<Rightarrow> Duration" where
  "time_Sub t u = (if u = 0 then 2 ^ 63 - 1 else t - u)"

text \<open>The range of the frame that is compared with a packet number: they are gone through from the last to the first.\<close>

function next_range :: "AckRange list \<Rightarrow> nat \<Rightarrow> PacketNumber \<Rightarrow> nat" where
  "next_range rs ackRangeIndex pn =
     (if pn > Largest (rs ! (length rs - 1 - ackRangeIndex)) \<and> ackRangeIndex < length rs - 1
      then next_range rs (ackRangeIndex + 1) pn else ackRangeIndex)"
  by pat_completeness auto
termination
  by (relation "measure (\<lambda>(rs, i, pn). length rs - i)") auto

declare next_range.simps [simp del]

definition skipped_acked :: go_error where
  "skipped_acked = TransportError ProtocolViolation 0 ''received an ACK for skipped packet number: %d (%s)''"

fun find_acked :: "AckFrame \<Rightarrow> PacketNumber \<Rightarrow> PacketNumber \<Rightarrow> packet list \<Rightarrow> nat \<Rightarrow> sentPacketHistory \<Rightarrow> packet list \<Rightarrow>
    (sentPacketHistory \<times> packet list) result" where
  "find_acked ack lowestAcked largestAcked [] ackRangeIndex hist acked = Inr (hist, acked)"
| "find_acked ack lowestAcked largestAcked (p # ps) ackRangeIndex hist acked =
     (if pk_PacketNumber p < lowestAcked then find_acked ack lowestAcked largestAcked ps ackRangeIndex hist acked
      else if pk_PacketNumber p > largestAcked then Inr (hist, acked)
      else
        let rs = AckRanges ack;
            ackRangeIndex = (if HasMissingRanges ack then next_range rs ackRangeIndex (pk_PacketNumber p) else ackRangeIndex);
            ackRange = rs ! (length rs - 1 - ackRangeIndex) in
        if HasMissingRanges ack \<and> pk_PacketNumber p < Smallest ackRange
        then find_acked ack lowestAcked largestAcked ps ackRangeIndex hist acked
        else if HasMissingRanges ack \<and> pk_PacketNumber p > Largest ackRange
        then Inl (ErrorNew ''BUG: ackhandler would have acked wrong packet %d, while evaluating range %d -> %d'')
        else if pk_skippedPacket p then Inl skipped_acked
        else if pk_isPathProbePacket p then
          (case RemovePathProbe hist (pk_PacketNumber p) of
             (hist, Some probe) \<Rightarrow> find_acked ack lowestAcked largestAcked ps ackRangeIndex hist (acked @ [probe])
           | (hist, None) \<Rightarrow> find_acked ack lowestAcked largestAcked ps ackRangeIndex hist acked)
        else find_acked ack lowestAcked largestAcked ps ackRangeIndex hist (acked @ [p]))"

text \<open>What is done for an acknowledged packet in the second loop.\<close>

definition acked_packet ::
  "EncryptionLevel \<Rightarrow> PacketNumber \<times> sentPacketHistory \<times> frame_event list \<Rightarrow> packet \<Rightarrow> (PacketNumber \<times> sentPacketHistory \<times> frame_event list) result" where
  "acked_packet encLevel s p =
     (case s of (lowest, hist, evs) \<Rightarrow>
      let lowest = (if pk_LargestAcked p \<noteq> InvalidPacketNumber \<and> encLevel = Encryption1RTT then max lowest (pk_LargestAcked p + 1) else lowest) in
      rbind (history_Remove hist (pk_PacketNumber p)) (\<lambda>hist. Inr (lowest, hist, evs @ handler_events OnAcked p)))"

definition detectAndRemoveAckedPackets ::
  "sentPacketHandler \<Rightarrow> AckFrame \<Rightarrow> EncryptionLevel \<Rightarrow> (sentPacketHandler \<times> packet list \<times> frame_event list) result" where
  "detectAndRemoveAckedPackets h ack encLevel =
     rbind (LowestAcked ack) (\<lambda>lowestAcked.
     rbind (LargestAcked ack) (\<lambda>largestAcked.
     rbind (the_space h encLevel) (\<lambda>pnSpace.
     rbind (find_acked ack lowestAcked largestAcked (history_Packets (ns_history pnSpace)) 0 (ns_history pnSpace) []) (\<lambda>(hist, acked).
     rbind (rfold (acked_packet encLevel) (sp_lowestNotConfirmedAcked h, hist, []) acked) (\<lambda>(lowest, hist, evs).
     Inr ((set_space h encLevel (pnSpace\<lparr>ns_history := hist\<rparr>))\<lparr>sp_lowestNotConfirmedAcked := lowest\<rparr>, acked, evs))))))"

definition update_rtt :: "sentPacketHandler \<Rightarrow> AckFrame \<Rightarrow> PacketNumber \<Rightarrow> EncryptionLevel \<Rightarrow> Time \<Rightarrow> packet list \<Rightarrow> sentPacketHandler" where
  "update_rtt h ack largestAcked encLevel rcvTime acked =
     (let p = last acked in
      if pk_PacketNumber p = largestAcked \<and> \<not> pk_isPathProbePacket p then
        let ackDelay = (if encLevel = Encryption1RTT then min (DelayTime ack) (rtt_maxAckDelay (sp_rttStats h)) else 0);
            h = h\<lparr>sp_rttStats := UpdateRTT (sp_rttStats h) (time_Sub rcvTime (pk_SendTime p)) ackDelay\<rparr> in
        h\<lparr>sp_congestion := MaybeExitSlowStart (sp_congestion h) (sp_rttStats h)\<rparr>
      else h)"

definition acked_ecn :: "sentPacketHandler \<Rightarrow> AckFrame \<Rightarrow> PacketNumber \<Rightarrow> EncryptionLevel \<Rightarrow> packet list \<Rightarrow> sentPacketHandler result" where
  "acked_ecn h ack largestAcked encLevel acked =
     rbind (the_space h encLevel) (\<lambda>pnSpace.
     case sp_ecnTracker h of
       Some e \<Rightarrow>
         if encLevel = Encryption1RTT \<and> largestAcked > ns_largestAcked pnSpace then
           let (e, congested) = HandleNewlyAcked e (map pk_PacketNumber acked) (int64 (af_ECT0 ack)) (int64 (af_ECT1 ack)) (int64 (af_ECNCE ack));
               h = h\<lparr>sp_ecnTracker := Some e\<rparr> in
           Inr (if congested then h\<lparr>sp_congestion := OnCongestionEvent (sp_congestion h) largestAcked\<rparr> else h)
         else Inr h
     | None \<Rightarrow> Inr h)"

text \<open>The last loop of \<open>ReceivedAck\<close>; \<open>cbrt\<close> is the cube root that the congestion controller uses.\<close>

definition acked_in_flight ::
  "(rat \<Rightarrow> rat) \<Rightarrow> ByteCount \<Rightarrow> Time \<Rightarrow> sentPacketHandler \<times> bool \<Rightarrow> packet \<Rightarrow> (sentPacketHandler \<times> bool) result" where
  "acked_in_flight cbrt priorInFlight rcvTime s p =
     (case s of (h, acked1RTT) \<Rightarrow>
      let h = (if pk_includedInBytesInFlight p \<and> \<not> pk_declaredLost p
               then h\<lparr>sp_congestion := sender_OnPacketAcked cbrt (sp_congestion h) (sp_rttStats h) (pk_PacketNumber p) (pk_Length p) priorInFlight rcvTime\<rparr>
               else h) in
      rbind (removeFromBytesInFlight h p) (\<lambda>(h, _). Inr (h, acked1RTT \<or> pk_EncryptionLevel p = Some Encryption1RTT)))"

definition set_largest_acked :: "sentPacketHandler \<Rightarrow> EncryptionLevel \<Rightarrow> PacketNumber \<Rightarrow> sentPacketHandler result" where
  "set_largest_acked h encLevel largestAcked =
     rbind (the_space h encLevel) (\<lambda>pnSpace.
       Inr (set_space h encLevel (pnSpace\<lparr>ns_largestAcked := max (ns_largestAcked pnSpace) largestAcked\<rparr>)))"

definition confirm_validation :: "sentPacketHandler \<Rightarrow> EncryptionLevel \<Rightarrow> Time \<Rightarrow> sentPacketHandler" where
  "confirm_validation h encLevel rcvTime =
     (if sp_perspective h = PerspectiveClient \<and> \<not> sp_peerCompletedAddressValidation h \<and> (encLevel = EncryptionHandshake \<or> encLevel = Encryption1RTT)
      then setLossDetectionTimer (h\<lparr>sp_peerCompletedAddressValidation := True\<rparr>) rcvTime else h)"

definition finish_ack :: "sentPacketHandler \<Rightarrow> Time \<Rightarrow> sentPacketHandler" where
  "finish_ack h rcvTime =
     setLossDetectionTimer
       (h\<lparr>sp_ptoCount := if sp_peerCompletedAddressValidation h then 0 else sp_ptoCount h, sp_numProbesToSend := 0\<rparr>) rcvTime"

definition ReceivedAck ::
  "(rat \<Rightarrow> rat) \<Rightarrow> sentPacketHandler \<Rightarrow> AckFrame \<Rightarrow> EncryptionLevel \<Rightarrow> Time \<Rightarrow> (sentPacketHandler \<times> frame_event list \<times> bool) result" where
  "ReceivedAck cbrt h ack encLevel rcvTime =
     rbind (LargestAcked ack) (\<lambda>largestAcked.
     rbind (the_space h encLevel) (\<lambda>pnSpace.
     if largestAcked > ns_largestSent pnSpace then Inl (TransportError ProtocolViolation 0 ''received ACK for an unsent packet'')
     else
       let h = confirm_validation h encLevel rcvTime;
           priorInFlight = sp_bytesInFlight h in
       rbind (detectAndRemoveAckedPackets h ack encLevel) (\<lambda>(h, acked, evs).
       if length acked = 0 then Inr (h, evs, False)
       else
         rbind (acked_ecn (update_rtt h ack largestAcked encLevel rcvTime acked) ack largestAcked encLevel acked) (\<lambda>h.
         rbind (set_largest_acked h encLevel largestAcked) (\<lambda>h.
         rbind (detectLostPackets h rcvTime encLevel) (\<lambda>(h, evs1).
         rbind (if encLevel = Encryption1RTT then detectLostPathProbes h rcvTime else Inr (h, [])) (\<lambda>(h, evs2).
         rbind (rfold (acked_in_flight cbrt priorInFlight rcvTime) (h, False) acked) (\<lambda>(h, acked1RTT).
         Inr (finish_ack h rcvTime, evs @ evs1 @ evs2, acked1RTT)))))))))"

subsection \<open>Dropping keys, Retry and migration\<close>

definition drop_in_flight :: "sentPacketHandler \<Rightarrow> packet \<Rightarrow> sentPacketHandler result" where
  "drop_in_flight h p = rbind (removeFromBytesInFlight h p) (\<lambda>(h, _). Inr h)"

text \<open>The error of \<open>Remove\<close> is not looked at; a panic is passed on.\<close>

fun drop_0RTT :: "packet list \<Rightarrow> sentPacketHandler \<Rightarrow> sentPacketHandler result" where
  "drop_0RTT [] h = Inr h"
| "drop_0RTT (p # ps) h =
     (if pk_EncryptionLevel p \<noteq> Some Encryption0RTT \<and> \<not> pk_skippedPacket p then Inr h
      else rbind (drop_in_flight h p) (\<lambda>h.
        case history_Remove (ns_history (sp_appDataPackets h)) (pk_PacketNumber p) of
          Inr hist \<Rightarrow> drop_0RTT ps (set_app_history h hist)
        | Inl (Panic m) \<Rightarrow> Inl (Panic m)
        | Inl _ \<Rightarrow> drop_0RTT ps h))"

definition reset_pto :: "sentPacketHandler \<Rightarrow> Time \<Rightarrow> sentPacketHandler" where
  "reset_pto h now = setLossDetectionTimer (h\<lparr>sp_ptoCount := 0, sp_numProbesToSend := 0, sp_ptoMode := SendNone\<rparr>) now"

definition DropPackets :: "sentPacketHandler \<Rightarrow> EncryptionLevel \<Rightarrow> Time \<Rightarrow> sentPacketHandler result" where
  "DropPackets h encLevel now =
     (let h = (if sp_perspective h = PerspectiveClient \<and> encLevel = EncryptionHandshake then h\<lparr>sp_peerCompletedAddressValidation := True\<rparr> else h) in
      case encLevel of
        EncryptionInitial \<Rightarrow>
          (case sp_initialPackets h of
             None \<Rightarrow> Inr h
           | Some s \<Rightarrow> rbind (rfold drop_in_flight h (history_Packets (ns_history s))) (\<lambda>h. Inr (reset_pto (h\<lparr>sp_initialPackets := None\<rparr>) now)))
      | EncryptionHandshake \<Rightarrow>
          (case sp_handshakePackets h of
             None \<Rightarrow> Inr h
           | Some s \<Rightarrow> rbind (rfold drop_in_flight h (history_Packets (ns_history s))) (\<lambda>h.
               Inr (reset_pto (h\<lparr>sp_handshakeConfirmed := True, sp_handshakePackets := None\<rparr>) now)))
      | Encryption0RTT \<Rightarrow>
          rbind (drop_0RTT (history_Packets (ns_history (sp_appDataPackets h))) h) (\<lambda>h. Inr (reset_pto h now))
      | Encryption1RTT \<Rightarrow> Inl (Panic ''Cannot drop keys for encryption level %s''))"

definition retry_queue :: "packet list \<Rightarrow> frame_event list result" where
  "retry_queue ps =
     rfold (\<lambda>evs p. rbind (queueFramesForRetransmission p) (\<lambda>es. Inr (evs @ es))) []
       (filter (\<lambda>p. \<not> pk_declaredLost p \<and> \<not> pk_skippedPacket p) ps)"

definition first_send_time :: "packet list \<Rightarrow> Time" where
  "first_send_time ps = foldl (\<lambda>t p. if t = 0 then pk_SendTime p else t) 0 ps"

definition ResetForRetry :: "sentPacketHandler \<Rightarrow> Time \<Rightarrow> int \<Rightarrow> (sentPacketHandler \<times> frame_event list) result" where
  "ResetForRetry h now rnd =
     (let h = h\<lparr>sp_bytesInFlight := 0\<rparr> in
      case sp_initialPackets h of
        None \<Rightarrow> Inl nil_dereference
      | Some initial \<Rightarrow>
          let firstPacketSendTime = first_send_time (history_Packets (ns_history initial)) in
          rbind (retry_queue (history_Packets (ns_history initial))) (\<lambda>evs1.
          rbind (retry_queue (history_Packets (ns_history (sp_appDataPackets h)))) (\<lambda>evs2.
          let h = (if sp_ptoCount h = 0
                   then h\<lparr>sp_rttStats := UpdateRTT (sp_rttStats h) (max minRTTAfterRetry (time_Sub now firstPacketSendTime)) 0\<rparr> else h);
              h = h\<lparr>sp_initialPackets := Some (newPacketNumberSpace (pn_Peek (ns_pns initial)) False 0),
                    sp_appDataPackets := newPacketNumberSpace (pn_Peek (ns_pns (sp_appDataPackets h))) True rnd,
                    sp_alarm := no_alarm, sp_ptoCount := 0\<rparr> in
          Inr (h, evs1 @ evs2))))"

text \<open>
  \<open>RemovePathProbe\<close> on the array behind the slice: the slice has \<open>n\<close> elements, those behind the removed one move up, and the last place of the slice keeps what
  it had. \<open>MigratedPath\<close> reads the places of the array one after the other while this goes on.
\<close>

definition remove_in_array :: "packet list \<times> nat \<Rightarrow> PacketNumber \<Rightarrow> packet list \<times> nat" where
  "remove_in_array s pn =
     (case s of (arr, n) \<Rightarrow>
      (case List.find (\<lambda>i. pk_PacketNumber (arr ! i) = pn) [0..<n] of
        None \<Rightarrow> (arr, n)
      | Some i \<Rightarrow> (take i arr @ take (n - 1 - i) (drop (i + 1) arr) @ drop (n - 1) arr, n - 1)))"

definition remove_all_probes :: "packet list \<Rightarrow> packet list" where
  "remove_all_probes probes =
     (let (arr, n) = foldl (\<lambda>(arr, n) i. remove_in_array (arr, n) (pk_PacketNumber (arr ! i))) (probes, length probes) [0..<length probes] in
      take n arr)"

definition migrate_packet :: "sentPacketHandler \<times> frame_event list \<Rightarrow> packet \<Rightarrow> (sentPacketHandler \<times> frame_event list) result" where
  "migrate_packet s p =
     (case s of (h, evs) \<Rightarrow>
      rbind (DeclareLost (ns_history (sp_appDataPackets h)) (pk_PacketNumber p)) (\<lambda>hist.
      let h = set_app_history h hist in
      if \<not> pk_skippedPacket p \<and> \<not> pk_isPathProbePacket p then
        rbind (removeFromBytesInFlight h p) (\<lambda>(h, p).
        rbind (queueFramesForRetransmission p) (\<lambda>es. Inr (h, evs @ es)))
      else Inr (h, evs)))"

definition MigratedPath :: "sentPacketHandler \<Rightarrow> Time \<Rightarrow> ByteCount \<Rightarrow> (sentPacketHandler \<times> frame_event list) result" where
  "MigratedPath h now initialMaxDatagramSize =
     (let h = h\<lparr>sp_rttStats := ResetForPathMigration (sp_rttStats h)\<rparr> in
      rbind (rfold migrate_packet (h, []) (history_Packets (ns_history (sp_appDataPackets h)))) (\<lambda>(h, evs).
      let hist = ns_history (sp_appDataPackets h);
          h = set_app_history h (hist\<lparr>sh_pathProbePackets := remove_all_probes (sh_pathProbePackets hist)\<rparr>);
          h = h\<lparr>sp_congestion := NewCubicSender (sp_rttStats h) initialMaxDatagramSize True\<rparr> in
      Inr (setLossDetectionTimer h now, evs)))"

subsection \<open>The handler of uQUIC\<close>

record uSentPacketHandler =
  us_sentPacketHandler :: sentPacketHandler
  us_initialPacketNumberLength :: nat

definition NewUAckHandler ::
  "PacketNumber \<Rightarrow> ByteCount \<Rightarrow> RTTStats \<Rightarrow> bool \<Rightarrow> bool \<Rightarrow> Perspective \<Rightarrow> int \<Rightarrow> uSentPacketHandler \<times> receivedPacketHandler" where
  "NewUAckHandler initialPN initialMaxDatagramSize rttStats clientAddressValidated enableECN pers rnd =
     (\<lparr>us_sentPacketHandler = newSentPacketHandler initialPN initialMaxDatagramSize rttStats clientAddressValidated enableECN pers rnd,
       us_initialPacketNumberLength = 0\<rparr>, newReceivedPacketHandler)"

definition u_PeekPacketNumber :: "uSentPacketHandler \<Rightarrow> EncryptionLevel \<Rightarrow> (PacketNumber \<times> nat) result" where
  "u_PeekPacketNumber u encLevel =
     rbind (the_space (us_sentPacketHandler u) encLevel) (\<lambda>pnSpace.
       let pn = pn_Peek (ns_pns pnSpace) in
       if encLevel = EncryptionInitial \<and> us_initialPacketNumberLength u \<noteq> 0 then Inr (pn, us_initialPacketNumberLength u)
       else Inr (pn, PacketNumberLengthForHeader pn (ns_largestAcked pnSpace)))"

definition SetInitialPacketNumberLength :: "uSentPacketHandler \<Rightarrow> nat \<Rightarrow> uSentPacketHandler" where
  "SetInitialPacketNumberLength u pnLen = u\<lparr>us_initialPacketNumberLength := pnLen\<rparr>"

definition IsFrameAckEliciting :: "Frame option \<Rightarrow> bool" where
  "IsFrameAckEliciting f \<longleftrightarrow> (case f of Some (FAck a) \<Rightarrow> False | Some (FConnectionClose c) \<Rightarrow> False | _ \<Rightarrow> True)"

definition HasAckElicitingFrames :: "ack_Frame list \<Rightarrow> bool" where
  "HasAckElicitingFrames fs \<longleftrightarrow> list_ex (\<lambda>f. IsFrameAckEliciting (af_Frame f)) fs"

end
