(* ===== verification/Sent_Acks.thy ===== *)
theory Sent_Acks
  imports Sent_Packets
begin

text \<open>
  What an ACK frame acknowledges: the walk through the history and the ranges of the frame side by side finds the packets whose numbers the frame contains.
\<close>

section \<open>The ranges of a frame\<close>

definition range_at :: "AckRange list \<Rightarrow> nat \<Rightarrow> AckRange" where
  "range_at rs i = rs ! (length rs - 1 - i)"

definition passed :: "AckRange list \<Rightarrow> nat \<Rightarrow> PacketNumber \<Rightarrow> bool" where
  "passed rs i pn \<longleftrightarrow> i < length rs \<and> (\<forall>j<i. Largest (range_at rs j) < pn)"

lemma passed_mono: "passed rs i pn \<Longrightarrow> pn \<le> pn' \<Longrightarrow> passed rs i pn'"
  by (force simp: passed_def)

lemma next_range_passed:
  "passed rs i pn \<Longrightarrow> passed rs (next_range rs i pn) pn \<and>
     (pn \<le> Largest (range_at rs (next_range rs i pn)) \<or> next_range rs i pn = length rs - 1)"
proof (induction rs i pn rule: next_range.induct)
  case (1 rs i pn)
  show ?case
  proof (cases "pn > Largest (rs ! (length rs - 1 - i)) \<and> i < length rs - 1")
    case True
    then have "passed rs (i + 1) pn"
      using 1(2) by (auto simp: passed_def range_at_def less_Suc_eq)
    then show ?thesis
      using 1(1) [OF True] True by (subst (1 2 3) next_range.simps) simp
  next
    case False
    then show ?thesis
      using 1(2) by (subst (1 2 3) next_range.simps) (auto simp: passed_def range_at_def)
  qed
qed

lemma ack_chain_range_at:
  assumes "ack_chain rs" and "i < j" and "j < length rs"
  shows "Largest (range_at rs i) + 1 < Smallest (range_at rs j)"
  unfolding range_at_def using assms by (intro ack_chain_nth) auto

lemma mem_ack_set_range_at: "pn \<in> ack_set rs \<longleftrightarrow> (\<exists>i<length rs. Smallest (range_at rs i) \<le> pn \<and> pn \<le> Largest (range_at rs i))"
proof -
  have "(\<exists>r\<in>set rs. P r) \<longleftrightarrow> (\<exists>i<length rs. P (range_at rs i))" for P
  proof
    assume "\<exists>r\<in>set rs. P r"
    then obtain k where "k < length rs" "P (rs ! k)"
      by (auto simp: in_set_conv_nth)
    then show "\<exists>i<length rs. P (range_at rs i)"
      by (intro exI [of _ "length rs - 1 - k"]) (simp add: range_at_def)
  qed (auto simp: range_at_def)
  then show ?thesis
    by (simp add: ack_set_def)
qed

lemma passed_acked:
  assumes "ack_chain rs" and "passed rs i pn" and "pn \<le> Largest (range_at rs i)"
  shows "pn \<in> ack_set rs \<longleftrightarrow> Smallest (range_at rs i) \<le> pn"
proof
  assume "pn \<in> ack_set rs"
  then obtain j where j: "j < length rs" "Smallest (range_at rs j) \<le> pn" "pn \<le> Largest (range_at rs j)"
    by (auto simp: mem_ack_set_range_at)
  have "\<not> j < i"
    using assms(2) j(3) by (force simp: passed_def)
  moreover have "\<not> i < j"
    using ack_chain_range_at [OF assms(1) _ j(1), of i] assms(3) j(2) by force
  ultimately show "Smallest (range_at rs i) \<le> pn"
    using j(2) by (cases "i = j") auto
qed (use assms in \<open>auto simp: mem_ack_set_range_at passed_def\<close>)

section \<open>The packets a frame acknowledges\<close>

text \<open>The packets of the history in the set of packet numbers of the frame, one after the other.\<close>

fun acked_by :: "PacketNumber set \<Rightarrow> packet list \<Rightarrow> sentPacketHistory \<Rightarrow> packet list \<Rightarrow> (sentPacketHistory \<times> packet list) result" where
  "acked_by S [] hist acked = Inr (hist, acked)"
| "acked_by S (p # ps) hist acked =
     (if pk_PacketNumber p \<notin> S then acked_by S ps hist acked
      else if pk_skippedPacket p then Inl skipped_acked
      else if pk_isPathProbePacket p then
        (case RemovePathProbe hist (pk_PacketNumber p) of
           (hist, Some probe) \<Rightarrow> acked_by S ps hist (acked @ [probe])
         | (hist, None) \<Rightarrow> acked_by S ps hist acked)
      else acked_by S ps hist (acked @ [p]))"

lemma acked_by_none: "\<forall>p\<in>set ps. pk_PacketNumber p \<notin> S \<Longrightarrow> acked_by S ps hist acked = Inr (hist, acked)"
  by (induction ps) auto

lemma ack_set_bounds:
  assumes "ack_chain rs" and "rs \<noteq> []" and "pn \<in> ack_set rs"
  shows "Smallest (last rs) \<le> pn" and "pn \<le> Largest (hd rs)"
proof -
  obtain j where j: "j < length rs" "Smallest (rs ! j) \<le> pn" "pn \<le> Largest (rs ! j)"
    using assms(3) by (auto simp: ack_set_def in_set_conv_nth)
  show "Smallest (last rs) \<le> pn"
    using ack_chain_Smallest_antimono [OF assms(1), of j "length rs - 1"] j assms(2) by (force simp: last_conv_nth)
  show "pn \<le> Largest (hd rs)"
  proof (cases j)
    case 0
    then show ?thesis
      using j assms(2) by (simp add: hd_conv_nth)
  next
    case (Suc k)
    then show ?thesis
      using ack_chain_nth [OF assms(1), of 0 j] j assms(2) ack_chain_nonempty [OF assms(1), of "rs ! 0"] by (simp add: hd_conv_nth)
  qed
qed

lemma find_acked_step:
  assumes "ack_chain rs" and "rs \<noteq> []" and "passed rs i pn" and "Smallest (last rs) \<le> pn" and "pn \<le> Largest (hd rs)"
    and j: "j = (if length rs > 1 then next_range rs i pn else i)"
  shows "passed rs j pn" and "length rs > 1 \<Longrightarrow> pn \<le> Largest (rs ! (length rs - 1 - j))"
    and "(length rs > 1 \<and> pn < Smallest (rs ! (length rs - 1 - j))) \<longleftrightarrow> pn \<notin> ack_set rs"
proof -
  have top: "range_at rs (length rs - 1) = hd rs" "range_at rs 0 = last rs"
    using assms(2) by (simp_all add: range_at_def hd_conv_nth last_conv_nth)
  have "passed rs j pn \<and> pn \<le> Largest (range_at rs j)"
  proof (cases "length rs > 1")
    case True
    then show ?thesis
      using next_range_passed [OF assms(3)] j top assms(5) by auto
  next
    case False
    then have "length rs = 1"
      using assms(2) by (cases rs) auto
    moreover have "i = 0"
      using assms(3) \<open>length rs = 1\<close> by (simp add: passed_def)
    ultimately show ?thesis
      using assms(3,5) j top False by simp
  qed
  then have p: "passed rs j pn" and l: "pn \<le> Largest (range_at rs j)"
    by auto
  show "passed rs j pn"
    by (rule p)
  show "pn \<le> Largest (rs ! (length rs - 1 - j))"
    using l by (simp add: range_at_def)
  have "Smallest (range_at rs j) \<le> pn" if "\<not> length rs > 1"
    using that p assms(2,4) top by (cases rs) (auto simp: passed_def)
  then show "(length rs > 1 \<and> pn < Smallest (rs ! (length rs - 1 - j))) \<longleftrightarrow> pn \<notin> ack_set rs"
    unfolding range_at_def [symmetric] using passed_acked [OF assms(1) p l] by auto
qed

lemma find_acked_eq:
  assumes "ack_chain (AckRanges ack)" and "AckRanges ack \<noteq> []"
    and "sorted_wrt (\<lambda>p q. pk_PacketNumber p < pk_PacketNumber q) ps"
    and "\<forall>p\<in>set ps. Smallest (last (AckRanges ack)) \<le> pk_PacketNumber p \<longrightarrow> passed (AckRanges ack) i (pk_PacketNumber p)"
  shows "find_acked ack (Smallest (last (AckRanges ack))) (Largest (hd (AckRanges ack))) ps i hist acked = acked_by (ack_set (AckRanges ack)) ps hist acked"
  using assms(3,4)
proof (induction ps arbitrary: i hist acked)
  case (Cons p ps)
  let ?rs = "AckRanges ack" and ?pn = "pk_PacketNumber p"
  have later: "?pn < pk_PacketNumber q" if "q \<in> set ps" for q
    using Cons.prems(1) that by simp
  consider "?pn < Smallest (last ?rs)" | "Smallest (last ?rs) \<le> ?pn" "Largest (hd ?rs) < ?pn" | "Smallest (last ?rs) \<le> ?pn" "?pn \<le> Largest (hd ?rs)"
    by linarith
  then show ?case
  proof cases
    case 1
    then show ?thesis
      using Cons ack_set_bounds [OF assms(1,2), of ?pn] by auto
  next
    case 2
    have "\<forall>q\<in>set (p # ps). pk_PacketNumber q \<notin> ack_set ?rs"
    proof
      fix q assume "q \<in> set (p # ps)"
      then have "Largest (hd ?rs) < pk_PacketNumber q"
        using 2(2) later [of q] by auto
      then show "pk_PacketNumber q \<notin> ack_set ?rs"
        using ack_set_bounds [OF assms(1,2), of "pk_PacketNumber q"] by auto
    qed
    from acked_by_none [OF this] show ?thesis
      using 2 by simp
  next
    case 3
    define j where "j = (if length ?rs > 1 then next_range ?rs i ?pn else i)"
    note step = find_acked_step [OF assms(1,2) _ 3 j_def]
    have pi: "passed ?rs i ?pn"
      using Cons.prems(2) 3 by simp
    have "\<forall>q\<in>set ps. Smallest (last ?rs) \<le> pk_PacketNumber q \<longrightarrow> passed ?rs j (pk_PacketNumber q)"
      using step(1) [OF pi] later by (auto intro: passed_mono less_imp_le)
    note IH = Cons.IH [OF _ this]
    have s: "sorted_wrt (\<lambda>p q. pk_PacketNumber p < pk_PacketNumber q) ps"
      using Cons.prems(1) by simp
    define r where "r = ?rs ! (length ?rs - 1 - j)"
    have "\<not> (HasMissingRanges ack \<and> ?pn > Largest r)" and "(HasMissingRanges ack \<and> ?pn < Smallest r) \<longleftrightarrow> ?pn \<notin> ack_set ?rs"
      using step(2,3) [OF pi] by (auto simp: HasMissingRanges_def r_def)
    moreover have J: "(if HasMissingRanges ack then next_range ?rs i ?pn else i) = j"
      by (simp add: j_def HasMissingRanges_def)
    ultimately show ?thesis
      using 3 IH [OF s] unfolding find_acked.simps acked_by.simps Let_def J r_def [symmetric]
      by (auto split: prod.split option.split)
  qed
qed simp

section \<open>The state of a history\<close>

definition regular :: "packet \<Rightarrow> bool" where
  "regular p \<longleftrightarrow> \<not> pk_skippedPacket p \<and> \<not> pk_isPathProbePacket p"

definition packet_ok :: "packet \<Rightarrow> bool" where
  "packet_ok p \<longleftrightarrow> \<not> pk_declaredLost p \<and>
     (if regular p then pk_includedInBytesInFlight p \<and> 0 \<le> pk_Length p \<and> (pk_Frames p \<noteq> [] \<or> pk_StreamFrames p \<noteq> [])
      else \<not> pk_includedInBytesInFlight p)"

definition probe_ok :: "packet \<Rightarrow> bool" where
  "probe_ok p \<longleftrightarrow> pk_isPathProbePacket p \<and> \<not> pk_skippedPacket p \<and> \<not> pk_includedInBytesInFlight p \<and> (\<forall>f\<in>set (pk_Frames p). af_Handler f \<noteq> None)"

definition flight :: "packet \<Rightarrow> int" where
  "flight p = (if pk_includedInBytesInFlight p then pk_Length p else 0)"

definition hist_inv :: "sentPacketHistory \<Rightarrow> bool" where
  "hist_inv hist \<longleftrightarrow> sent_ok hist \<and> (\<forall>pn p. entry hist pn = Some p \<longrightarrow> packet_ok p) \<and> (\<forall>p\<in>set (sh_pathProbePackets hist). probe_ok p)"

lemma hist_invD:
  assumes "hist_inv hist"
  shows "sent_ok hist" and "entry hist pn = Some p \<Longrightarrow> packet_ok p" and "p \<in> set (sh_pathProbePackets hist) \<Longrightarrow> probe_ok p"
  using assms by (auto simp: hist_inv_def)

lemma hist_inv_Packets: "hist_inv hist \<Longrightarrow> p \<in> set (history_Packets hist) \<Longrightarrow> packet_ok p"
  using hist_invD(1,2) history_Packets_entry by blast

lemma hist_inv_shrink:
  assumes "hist_inv hist" and "sent_ok hist'" and "\<And>pn. entry hist' pn = entry hist pn \<or> entry hist' pn = None"
    and "set (sh_pathProbePackets hist') \<subseteq> set (sh_pathProbePackets hist)"
  shows "hist_inv hist'"
proof -
  have "packet_ok p" if "entry hist' pn = Some p" for pn p
    using assms(3) [of pn] hist_invD(2) [OF assms(1), of pn p] that by auto
  then show ?thesis
    using assms(1,2,4) by (auto simp: hist_inv_def)
qed

lemma flight_nonneg: "packet_ok p \<Longrightarrow> 0 \<le> flight p"
  by (cases "regular p") (auto simp: packet_ok_def flight_def)

lemma flight_irregular: "packet_ok p \<Longrightarrow> \<not> regular p \<Longrightarrow> flight p = 0"
  by (auto simp: packet_ok_def flight_def)

section \<open>Removing the acknowledged packets\<close>

text \<open>
  The entry of an acknowledged packet: the packet itself, or the placeholder of a path probe. It is there until it is removed.
\<close>

definition acked_entry :: "sentPacketHistory \<Rightarrow> packet \<Rightarrow> bool" where
  "acked_entry hist q \<longleftrightarrow> (\<exists>e. entry hist (pk_PacketNumber q) = Some e \<and> \<not> pk_skippedPacket e \<and>
     (if pk_isPathProbePacket q then pk_isPathProbePacket e \<and> probe_ok q else q = e))"

definition same_packets :: "sentPacketHistory \<Rightarrow> sentPacketHistory \<Rightarrow> bool" where
  "same_packets hist hist' \<longleftrightarrow> sh_packets hist' = sh_packets hist \<and> sh_highestPacketNumber hist' = sh_highestPacketNumber hist \<and>
     sh_numOutstanding hist' = sh_numOutstanding hist \<and> set (sh_pathProbePackets hist') \<subseteq> set (sh_pathProbePackets hist)"

lemma same_packets_refl: "same_packets hist hist"
  by (simp add: same_packets_def)

lemma same_packets_trans: "same_packets a b \<Longrightarrow> same_packets b c \<Longrightarrow> same_packets a c"
  by (auto simp: same_packets_def)

lemma same_packetsD:
  assumes "same_packets hist hist'"
  shows "entry hist' = entry hist" and "sent_ok hist' \<longleftrightarrow> sent_ok hist" and "acked_entry hist' = acked_entry hist"
    and "hist_inv hist \<Longrightarrow> hist_inv hist'"
proof -
  have f: "history_first hist' = history_first hist"
    using assms by (simp add: same_packets_def history_first_def)
  then show e: "entry hist' = entry hist"
    using assms by (auto simp: same_packets_def entry_def fun_eq_iff)
  show "sent_ok hist' \<longleftrightarrow> sent_ok hist"
    using assms f by (simp add: same_packets_def sent_ok_def sent_pre_def)
  then show "hist_inv hist \<Longrightarrow> hist_inv hist'"
    using assms e by (auto simp: hist_inv_def same_packets_def)
  show "acked_entry hist' = acked_entry hist"
    using e by (simp add: acked_entry_def fun_eq_iff)
qed

lemma RemovePathProbe_props:
  assumes "RemovePathProbe hist pn = (hist', r)"
  shows "same_packets hist hist'" and "r = Some q \<Longrightarrow> q \<in> set (sh_pathProbePackets hist) \<and> pk_PacketNumber q = pn"
proof -
  show "same_packets hist hist'"
  proof (cases "find (\<lambda>p. pk_PacketNumber p = pn) (sh_pathProbePackets hist)")
    case (Some q)
    then have "hist' = hist\<lparr>sh_pathProbePackets := remove1 q (sh_pathProbePackets hist)\<rparr>"
      using assms by (simp add: RemovePathProbe_def)
    then show ?thesis
      by (simp add: same_packets_def set_remove1_subset)
  qed (use assms in \<open>simp add: RemovePathProbe_def same_packets_def\<close>)
  show "q \<in> set (sh_pathProbePackets hist) \<and> pk_PacketNumber q = pn" if "r = Some q"
    using assms that by (auto simp: RemovePathProbe_def find_Some_iff split: option.splits)
qed

lemma acked_by_Cons:
  "acked_by S (p # ps) hist acked =
     (if pk_PacketNumber p \<notin> S then acked_by S ps hist acked
      else if pk_skippedPacket p then Inl skipped_acked
      else if pk_isPathProbePacket p then
        acked_by S ps (fst (RemovePathProbe hist (pk_PacketNumber p)))
          (acked @ (case snd (RemovePathProbe hist (pk_PacketNumber p)) of None \<Rightarrow> [] | Some q \<Rightarrow> [q]))
      else acked_by S ps hist (acked @ [p]))"
  by (cases "RemovePathProbe hist (pk_PacketNumber p)"; cases "snd (RemovePathProbe hist (pk_PacketNumber p))") simp_all

lemma acked_by_error: "acked_by S ps hist acked = Inl e \<Longrightarrow> e = skipped_acked \<and> (\<exists>p\<in>set ps. pk_skippedPacket p \<and> pk_PacketNumber p \<in> S)"
proof (induction ps arbitrary: hist acked)
  case (Cons p ps)
  then show ?case
    unfolding acked_by_Cons by (cases "pk_skippedPacket p \<and> pk_PacketNumber p \<in> S") (auto split: if_splits)
qed simp

lemma acked_by_no_skipped:
  "acked_by S ps hist acked = Inr r \<Longrightarrow> p \<in> set ps \<Longrightarrow> pk_PacketNumber p \<in> S \<Longrightarrow> \<not> pk_skippedPacket p"
proof (induction ps arbitrary: hist acked)
  case (Cons q ps)
  then show ?case
    unfolding acked_by_Cons by (cases "p = q") (auto split: if_splits)
qed simp

lemma acked_by_props:
  assumes "hist_inv hist" and "\<forall>p\<in>set ps. entry hist (pk_PacketNumber p) = Some p"
    and "sorted_wrt (\<lambda>p q. pk_PacketNumber p < pk_PacketNumber q) (acked @ ps)" and "\<forall>q\<in>set acked. acked_entry hist q"
    and "acked_by S ps hist acked = Inr (hist', acked')"
  shows "same_packets hist hist'" and "sorted_wrt (\<lambda>p q. pk_PacketNumber p < pk_PacketNumber q) acked'" and "\<forall>q\<in>set acked'. acked_entry hist q"
    and "filter regular acked' = filter regular acked @ filter (\<lambda>p. regular p \<and> pk_PacketNumber p \<in> S) ps"
    and "\<forall>q\<in>set acked'. q \<in> set acked \<or> pk_PacketNumber q \<in> S"
proof -
  have "same_packets hist hist' \<and> sorted_wrt (\<lambda>p q. pk_PacketNumber p < pk_PacketNumber q) acked' \<and> (\<forall>q\<in>set acked'. acked_entry hist q) \<and>
    filter regular acked' = filter regular acked @ filter (\<lambda>p. regular p \<and> pk_PacketNumber p \<in> S) ps \<and>
    (\<forall>q\<in>set acked'. q \<in> set acked \<or> pk_PacketNumber q \<in> S)"
    using assms
  proof (induction ps arbitrary: hist acked)
    case Nil
    then show ?case
      by (simp add: same_packets_refl)
  next
    case (Cons p ps)
    have e: "entry hist (pk_PacketNumber p) = Some p" and rest: "\<forall>p\<in>set ps. entry hist (pk_PacketNumber p) = Some p"
      using Cons.prems(2) by auto
    consider "pk_PacketNumber p \<notin> S" | "pk_PacketNumber p \<in> S" "\<not> pk_skippedPacket p" "pk_isPathProbePacket p" | "pk_PacketNumber p \<in> S" "regular p"
      using Cons.prems(5) by (auto simp: regular_def split: if_splits)
    then show ?case
    proof cases
      case 1
      have "sorted_wrt (\<lambda>p q. pk_PacketNumber p < pk_PacketNumber q) (acked @ ps)"
        using Cons.prems(3) by (simp add: sorted_wrt_append)
      from Cons.IH [OF Cons.prems(1) rest this Cons.prems(4)] show ?thesis
        using Cons.prems(5) 1 by simp
    next
      case 2
      obtain hist1 r where r: "RemovePathProbe hist (pk_PacketNumber p) = (hist1, r)"
        by fastforce
      note same = RemovePathProbe_props(1) [OF r]
      note sd = same_packetsD [OF same]
      have probe: "acked_entry hist q \<and> \<not> regular q \<and> pk_PacketNumber q = pk_PacketNumber p" if "r = Some q" for q
        using RemovePathProbe_props(2) [OF r that] hist_invD(3) [OF Cons.prems(1), of q] e 2 by (auto simp: acked_entry_def probe_ok_def regular_def)
      define acked1 where "acked1 = (case r of None \<Rightarrow> acked | Some q \<Rightarrow> acked @ [q])"
      have eq: "acked_by S ps hist1 acked1 = Inr (hist', acked')"
        using Cons.prems(5) 2 r by (cases r) (simp_all add: acked1_def)
      have "acked1 = acked \<or> (\<exists>q. acked1 = acked @ [q] \<and> acked_entry hist q \<and> \<not> regular q \<and> pk_PacketNumber q = pk_PacketNumber p)"
        using probe by (cases r) (simp_all add: acked1_def)
      then have sorted1: "sorted_wrt (\<lambda>p q. pk_PacketNumber p < pk_PacketNumber q) (acked1 @ ps)"
        and entries1: "\<forall>q\<in>set acked1. acked_entry hist1 q"
        and reg: "filter regular acked1 = filter regular acked" "\<forall>q\<in>set acked1. q \<in> set acked \<or> pk_PacketNumber q \<in> S"
        using Cons.prems(3,4) 2(1) unfolding sd(3) by (auto simp: sorted_wrt_append)
      have "\<forall>p\<in>set ps. entry hist1 (pk_PacketNumber p) = Some p"
        using rest by (simp add: sd(1))
      note IH = Cons.IH [OF sd(4) [OF Cons.prems(1)] this sorted1 entries1 eq]
      have "same_packets hist hist'"
        using IH same same_packets_trans by blast
      moreover have "\<not> regular p"
        using 2 by (simp add: regular_def)
      ultimately show ?thesis
        using IH reg unfolding sd(3) by auto
    next
      case 3
      have "acked_entry hist p"
        using e 3 by (auto simp: acked_entry_def regular_def)
      then have entries1: "\<forall>q\<in>set (acked @ [p]). acked_entry hist q"
        using Cons.prems(4) by auto
      have "sorted_wrt (\<lambda>p q. pk_PacketNumber p < pk_PacketNumber q) ((acked @ [p]) @ ps)"
        using Cons.prems(3) by simp
      from Cons.IH [OF Cons.prems(1) rest this entries1] show ?thesis
        using Cons.prems(5) 3 by (auto simp: regular_def)
    qed
  qed
  then show "same_packets hist hist'" and "sorted_wrt (\<lambda>p q. pk_PacketNumber p < pk_PacketNumber q) acked'" and "\<forall>q\<in>set acked'. acked_entry hist q"
    and "filter regular acked' = filter regular acked @ filter (\<lambda>p. regular p \<and> pk_PacketNumber p \<in> S) ps"
    and "\<forall>q\<in>set acked'. q \<in> set acked \<or> pk_PacketNumber q \<in> S"
    by blast+
qed

text \<open>In a history all of whose packets are in order, the weight of the bytes in flight does not count skipped packets.\<close>

definition in_flight :: "sentPacketHistory \<Rightarrow> int" where
  "in_flight hist = weight (\<lambda>p. if pk_skippedPacket p then 0 else flight p) (sh_packets hist)"

lemma acked_entry_flight:
  assumes "hist_inv hist" and "acked_entry hist q"
  obtains e where "entry hist (pk_PacketNumber q) = Some e" "\<not> pk_skippedPacket e" "flight e = flight q"
proof -
  obtain e where e: "entry hist (pk_PacketNumber q) = Some e" "\<not> pk_skippedPacket e" "if pk_isPathProbePacket q then pk_isPathProbePacket e \<and> probe_ok q else q = e"
    using assms(2) by (auto simp: acked_entry_def)
  have "flight e = flight q"
  proof (cases "pk_isPathProbePacket q")
    case True
    then have "\<not> regular e" "flight q = 0"
      using e(3) by (auto simp: regular_def probe_ok_def flight_def)
    then show ?thesis
      using flight_irregular [OF hist_invD(2) [OF assms(1) e(1)]] by simp
  qed (use e(3) in simp)
  with e show thesis
    using that by blast
qed

lemma acked_entry_keep:
  assumes "entry hist' (pk_PacketNumber q) = entry hist (pk_PacketNumber q)"
  shows "acked_entry hist' q = acked_entry hist q"
  using assms by (simp add: acked_entry_def)

lemma acked_fold:
  assumes "hist_inv hist" and "\<forall>q\<in>set qs. acked_entry hist q" and "distinct (map pk_PacketNumber qs)"
  obtains lowest' hist' where "rfold (acked_packet l) (lowest, hist, evs) qs = Inr (lowest', hist', evs @ concat (map (handler_events OnAcked) qs))"
    "hist_inv hist'" "sh_highestPacketNumber hist' = sh_highestPacketNumber hist" "sh_pathProbePackets hist' = sh_pathProbePackets hist"
    "in_flight hist' = in_flight hist - sum_list (map flight qs)"
    "\<forall>pn\<in>pk_PacketNumber ` set qs. entry hist' pn = None"
    "\<forall>pn. pn \<notin> pk_PacketNumber ` set qs \<longrightarrow> entry hist' pn = entry hist pn \<or> entry hist' pn = None \<and> (\<exists>s. entry hist pn = Some s \<and> pk_skippedPacket s)"
  using assms
proof (induction qs arbitrary: hist lowest evs thesis)
  case Nil
  then show ?case
    by (simp add: Nil.prems(1) [of lowest hist])
next
  case (Cons q qs)
  obtain e where e: "entry hist (pk_PacketNumber q) = Some e" "\<not> pk_skippedPacket e" "flight e = flight q"
    using acked_entry_flight [OF Cons.prems(2), of q] Cons.prems(3) by auto
  obtain hist1 where h1: "history_Remove hist (pk_PacketNumber q) = Inr hist1" "sent_ok hist1" "sh_highestPacketNumber hist1 = sh_highestPacketNumber hist"
    "sh_pathProbePackets hist1 = sh_pathProbePackets hist" "entry hist1 (pk_PacketNumber q) = None"
    "\<forall>pn. entry hist1 pn = entry hist pn \<or> entry hist1 pn = None \<and> (pn = pk_PacketNumber q \<or> (\<exists>s. entry hist pn = Some s \<and> pk_skippedPacket s))"
    "\<forall>f. (\<forall>p. pk_skippedPacket p \<longrightarrow> f p = 0) \<longrightarrow> weight f (sh_packets hist1) = weight f (sh_packets hist) - f e"
    by (rule history_Remove_ok [OF hist_invD(1) [OF Cons.prems(2)] e(1)]) (rule that)
  have inv1: "hist_inv hist1"
  proof (rule hist_inv_shrink [OF Cons.prems(2) h1(2)])
    show "entry hist1 pn = entry hist pn \<or> entry hist1 pn = None" for pn
      using h1(6) [rule_format, of pn] by auto
  qed (simp add: h1(4))
  have w1: "in_flight hist1 = in_flight hist - flight q"
    using h1(7) [rule_format, of "\<lambda>p. if pk_skippedPacket p then 0 else flight p"] e by (simp add: in_flight_def)
  have rest: "\<forall>r\<in>set qs. acked_entry hist1 r"
  proof
    fix r assume r: "r \<in> set qs"
    then obtain e' where e': "entry hist (pk_PacketNumber r) = Some e'" "\<not> pk_skippedPacket e'"
      using Cons.prems(3) by (auto simp: acked_entry_def)
    have "pk_PacketNumber r \<noteq> pk_PacketNumber q"
      using Cons.prems(4) imageI [OF r, of pk_PacketNumber] by auto
    then have "entry hist1 (pk_PacketNumber r) = entry hist (pk_PacketNumber r)"
      using h1(6) [rule_format, of "pk_PacketNumber r"] e' by auto
    then show "acked_entry hist1 r"
      using acked_entry_keep [of hist1 r hist] Cons.prems(3) r by simp
  qed
  have d: "distinct (map pk_PacketNumber qs)"
    using Cons.prems(4) by simp
  define lowest1 where "lowest1 = (if pk_LargestAcked q \<noteq> InvalidPacketNumber \<and> l = Encryption1RTT then max lowest (pk_LargestAcked q + 1) else lowest)"
  obtain lowest' hist' where h': "rfold (acked_packet l) (lowest1, hist1, evs @ handler_events OnAcked q) qs =
      Inr (lowest', hist', (evs @ handler_events OnAcked q) @ concat (map (handler_events OnAcked) qs))"
    "hist_inv hist'" "sh_highestPacketNumber hist' = sh_highestPacketNumber hist1" "sh_pathProbePackets hist' = sh_pathProbePackets hist1"
    "in_flight hist' = in_flight hist1 - sum_list (map flight qs)"
    "\<forall>pn\<in>pk_PacketNumber ` set qs. entry hist' pn = None"
    "\<forall>pn. pn \<notin> pk_PacketNumber ` set qs \<longrightarrow> entry hist' pn = entry hist1 pn \<or> entry hist' pn = None \<and> (\<exists>s. entry hist1 pn = Some s \<and> pk_skippedPacket s)"
    by (rule Cons.IH [OF _ inv1 rest d, of lowest1 "evs @ handler_events OnAcked q"]) (rule that)
  have "acked_packet l (lowest, hist, evs) q = Inr (lowest1, hist1, evs @ handler_events OnAcked q)"
    by (simp add: acked_packet_def h1(1) lowest1_def)
  then have "rfold (acked_packet l) (lowest, hist, evs) (q # qs) = Inr (lowest', hist', evs @ concat (map (handler_events OnAcked) (q # qs)))"
    using h'(1) by simp
  then show ?case
  proof (rule Cons.prems(1) [OF _ h'(2)])
    show "\<forall>pn\<in>pk_PacketNumber ` set (q # qs). entry hist' pn = None"
    proof
      fix pn assume "pn \<in> pk_PacketNumber ` set (q # qs)"
      then show "entry hist' pn = None"
        using h'(6) h'(7) [rule_format, of pn] h1(5) by (cases "pn \<in> pk_PacketNumber ` set qs") auto
    qed
    show "\<forall>pn. pn \<notin> pk_PacketNumber ` set (q # qs) \<longrightarrow>
        entry hist' pn = entry hist pn \<or> entry hist' pn = None \<and> (\<exists>s. entry hist pn = Some s \<and> pk_skippedPacket s)"
    proof (intro allI impI)
      fix pn assume "pn \<notin> pk_PacketNumber ` set (q # qs)"
      then show "entry hist' pn = entry hist pn \<or> entry hist' pn = None \<and> (\<exists>s. entry hist pn = Some s \<and> pk_skippedPacket s)"
        using h'(7) [rule_format, of pn] h1(6) [rule_format, of pn] by auto
    qed
  qed (use h'(3,4,5) h1(3,4) w1 in simp_all)
qed

end
