(* ===== verification/Sent_Loss.thy ===== *)
theory Sent_Loss
  imports Sent_Acks
begin

text \<open>
  The bytes in flight are those of the packets in the histories, and which packets loss detection declares lost. While an ACK frame is processed, the packets
  that it acknowledges are no longer in the history but still counted: \<open>D\<close> is what they amount to.
\<close>

section \<open>The invariant of the handler\<close>

definition space_inv :: "packetNumberSpace \<Rightarrow> bool" where
  "space_inv s \<longleftrightarrow> hist_inv (ns_history s) \<and> 0 \<le> pn_next (ns_pns s) \<and>
     (sh_highestPacketNumber (ns_history s) = InvalidPacketNumber \<or> sh_highestPacketNumber (ns_history s) + 1 = pn_next (ns_pns s))"

definition space_flight :: "packetNumberSpace option \<Rightarrow> int" where
  "space_flight s = (case s of None \<Rightarrow> 0 | Some s \<Rightarrow> in_flight (ns_history s))"

definition flights :: "sentPacketHandler \<Rightarrow> int" where
  "flights h = space_flight (sp_initialPackets h) + space_flight (sp_handshakePackets h) + space_flight (Some (sp_appDataPackets h))"

definition handler_inv :: "int \<Rightarrow> sentPacketHandler \<Rightarrow> bool" where
  "handler_inv D h \<longleftrightarrow> (\<forall>l s. getPacketNumberSpace h l = Some s \<longrightarrow> space_inv s) \<and> sp_bytesInFlight h = flights h + D \<and>
     (sp_enableECN h \<longrightarrow> sp_ecnTracker h \<noteq> None)"

lemma handler_invD:
  assumes "handler_inv D h"
  shows "getPacketNumberSpace h l = Some s \<Longrightarrow> space_inv s" and "sp_bytesInFlight h = flights h + D"
  using assms by (auto simp: handler_inv_def)

lemma the_space_Some [simp]: "getPacketNumberSpace h l = Some s \<Longrightarrow> the_space h l = Inr s"
  by (simp add: the_space_def)

lemma get_set_space [simp]: "getPacketNumberSpace (set_space h l s) l = Some s"
  by (cases l) (simp_all add: getPacketNumberSpace_def set_space_def)

lemma get_set_space_cases: "getPacketNumberSpace (set_space h l s) l' = Some t \<Longrightarrow> t = s \<or> getPacketNumberSpace h l' = Some t"
  by (cases l; cases l') (simp_all add: getPacketNumberSpace_def set_space_def)

lemma set_space_fields [simp]:
  "sp_bytesInFlight (set_space h l s) = sp_bytesInFlight h" "sp_rttStats (set_space h l s) = sp_rttStats h"
  "sp_enableECN (set_space h l s) = sp_enableECN h" "sp_ecnTracker (set_space h l s) = sp_ecnTracker h"
  "sp_lowestNotConfirmedAcked (set_space h l s) = sp_lowestNotConfirmedAcked h" "sp_congestion (set_space h l s) = sp_congestion h"
  by (cases l; simp add: set_space_def)+

lemma flights_set_space:
  "getPacketNumberSpace h l = Some s \<Longrightarrow> flights (set_space h l s') = flights h - in_flight (ns_history s) + in_flight (ns_history s')"
  by (cases l) (auto simp: getPacketNumberSpace_def set_space_def flights_def space_flight_def)

lemma handler_inv_set_space:
  assumes "handler_inv D h" and "getPacketNumberSpace h l = Some s" and "space_inv s'"
    and "D' = D + in_flight (ns_history s) - in_flight (ns_history s')"
  shows "handler_inv D' (set_space h l s')"
  using assms flights_set_space [OF assms(2), of s'] by (auto simp: handler_inv_def dest: get_set_space_cases)

text \<open>The fields that the invariant does not depend on.\<close>

lemma getPacketNumberSpace_cong:
  "sp_initialPackets h' = sp_initialPackets h \<Longrightarrow> sp_handshakePackets h' = sp_handshakePackets h \<Longrightarrow> sp_appDataPackets h' = sp_appDataPackets h \<Longrightarrow>
   getPacketNumberSpace h' = getPacketNumberSpace h"
  by (simp add: getPacketNumberSpace_def fun_eq_iff split: EncryptionLevel.split)

lemma handler_inv_cong:
  assumes "handler_inv D h" and "sp_initialPackets h' = sp_initialPackets h" and "sp_handshakePackets h' = sp_handshakePackets h"
    and "sp_appDataPackets h' = sp_appDataPackets h" and "sp_bytesInFlight h' = sp_bytesInFlight h + d" and "sp_enableECN h' = sp_enableECN h"
    and "sp_ecnTracker h' = None \<longleftrightarrow> sp_ecnTracker h = None"
  shows "handler_inv (D + d) h'"
  using assms(1,5-7) getPacketNumberSpace_cong [OF assms(2-4)] by (simp add: handler_inv_def flights_def assms(2-4))

lemmas handler_inv_same = handler_inv_cong [where d = 0, simplified]

lemma sum_list_member: "p \<in> set ps \<Longrightarrow> \<forall>q\<in>set ps. 0 \<le> f q \<Longrightarrow> f p \<le> sum_list (map f ps)" for f :: "'a \<Rightarrow> int"
proof (induction ps)
  case (Cons q ps)
  have "0 \<le> sum_list (map f ps)"
    using Cons.prems(2) by (intro sum_list_nonneg) auto
  with Cons show ?case
    by auto
qed simp

lemma in_flight_Packets: "in_flight hist = sum_list (map (\<lambda>p. if pk_skippedPacket p then 0 else flight p) (history_Packets hist))"
  by (simp add: in_flight_def weight_Packets)

lemma in_flight_nonneg: "hist_inv hist \<Longrightarrow> 0 \<le> in_flight hist"
  unfolding in_flight_Packets by (intro sum_list_nonneg) (auto dest: hist_inv_Packets flight_nonneg)

lemma flights_nonneg: "handler_inv D h \<Longrightarrow> 0 \<le> flights h"
proof -
  assume "handler_inv D h"
  then have "getPacketNumberSpace h l = Some s \<Longrightarrow> 0 \<le> in_flight (ns_history s)" for l s
    by (intro in_flight_nonneg) (auto simp: handler_inv_def space_inv_def)
  from this [of EncryptionInitial] this [of EncryptionHandshake] this [of Encryption1RTT] show ?thesis
    by (auto simp: flights_def space_flight_def getPacketNumberSpace_def split: option.split)
qed

lemma removeFromBytesInFlight_eq:
  assumes "handler_inv (D + flight p) h" and "0 \<le> D"
  shows "removeFromBytesInFlight h p = Inr (h\<lparr>sp_bytesInFlight := sp_bytesInFlight h - flight p\<rparr>, p\<lparr>pk_includedInBytesInFlight := False\<rparr>)"
    and "handler_inv D (h\<lparr>sp_bytesInFlight := sp_bytesInFlight h - flight p\<rparr>)"
proof -
  have "flight p \<le> sp_bytesInFlight h"
    using flights_nonneg [OF assms(1)] assms by (simp add: handler_inv_def)
  then show "removeFromBytesInFlight h p = Inr (h\<lparr>sp_bytesInFlight := sp_bytesInFlight h - flight p\<rparr>, p\<lparr>pk_includedInBytesInFlight := False\<rparr>)"
    by (auto simp: removeFromBytesInFlight_def flight_def)
  show "handler_inv D (h\<lparr>sp_bytesInFlight := sp_bytesInFlight h - flight p\<rparr>)"
    using handler_inv_cong [OF assms(1), of "h\<lparr>sp_bytesInFlight := sp_bytesInFlight h - flight p\<rparr>" "- flight p"] by simp
qed

section \<open>Declaring packets lost\<close>

definition lost_events :: "packet \<Rightarrow> frame_event list" where
  "lost_events p = (if regular p then handler_events OnLost p else [])"

lemma queueFramesForRetransmission_eq:
  "packet_ok p \<Longrightarrow> regular p \<Longrightarrow> queueFramesForRetransmission (p\<lparr>pk_includedInBytesInFlight := b\<rparr>) = Inr (handler_events OnLost p)"
  by (auto simp: queueFramesForRetransmission_def packet_ok_def handler_events_def)

lemma lost_space:
  assumes "space_inv s" and "entry (ns_history s) (pk_PacketNumber p) = Some p"
  obtains hist where "DeclareLost (ns_history s) (pk_PacketNumber p) = Inr hist" "space_inv (s\<lparr>ns_history := hist\<rparr>)"
    "entry hist = (entry (ns_history s))(pk_PacketNumber p := None)" "sh_pathProbePackets hist = sh_pathProbePackets (ns_history s)"
    "in_flight hist = in_flight (ns_history s) - flight p"
proof -
  have inv: "hist_inv (ns_history s)"
    using assms(1) by (simp add: space_inv_def)
  obtain hist where h: "DeclareLost (ns_history s) (pk_PacketNumber p) = Inr hist" "sent_ok hist"
    "sh_highestPacketNumber hist = sh_highestPacketNumber (ns_history s)" "sh_pathProbePackets hist = sh_pathProbePackets (ns_history s)"
    "entry hist = (entry (ns_history s))(pk_PacketNumber p := None)" "\<forall>f. weight f (sh_packets hist) = weight f (sh_packets (ns_history s)) - f p"
    by (rule DeclareLost_ok [OF hist_invD(1) [OF inv] assms(2)]) (rule that)
  have "hist_inv hist"
    by (rule hist_inv_shrink [OF inv h(2)]) (simp_all add: h(4,5))
  moreover have "pk_skippedPacket p \<Longrightarrow> flight p = 0"
    using flight_irregular [OF hist_invD(2) [OF inv assms(2)]] by (auto simp: regular_def)
  ultimately show thesis
    using assms(1) h(3,6) by (intro that [OF h(1) _ h(5,4)]) (auto simp: space_inv_def in_flight_def)
qed

lemma lost_ecn_fields [simp]:
  "sp_initialPackets (lost_ecn h pn l) = sp_initialPackets h" "sp_handshakePackets (lost_ecn h pn l) = sp_handshakePackets h"
  "sp_appDataPackets (lost_ecn h pn l) = sp_appDataPackets h" "sp_bytesInFlight (lost_ecn h pn l) = sp_bytesInFlight h"
  "sp_enableECN (lost_ecn h pn l) = sp_enableECN h" "sp_ecnTracker (lost_ecn h pn l) = None \<longleftrightarrow> sp_ecnTracker h = None"
  by (auto simp: lost_ecn_def split: option.split)

lemma declare_lost_ok:
  assumes inv: "handler_inv D h" and D: "0 \<le> D" and s: "getPacketNumberSpace h l = Some s" and p: "entry (ns_history s) (pk_PacketNumber p) = Some p"
  obtains h' hist where "declare_lost h l p = Inr (h', lost_events p)" "handler_inv D h'" "getPacketNumberSpace h' l = Some (s\<lparr>ns_history := hist\<rparr>)"
    "entry hist = (entry (ns_history s))(pk_PacketNumber p := None)" "sh_pathProbePackets hist = sh_pathProbePackets (ns_history s)"
proof -
  have sinv: "space_inv s"
    using handler_invD(1) [OF inv s] .
  then have ok: "packet_ok p"
    using hist_invD(2) p by (auto simp: space_inv_def)
  obtain hist where hist: "DeclareLost (ns_history s) (pk_PacketNumber p) = Inr hist" "space_inv (s\<lparr>ns_history := hist\<rparr>)"
    "entry hist = (entry (ns_history s))(pk_PacketNumber p := None)" "sh_pathProbePackets hist = sh_pathProbePackets (ns_history s)"
    "in_flight hist = in_flight (ns_history s) - flight p"
    by (rule lost_space [OF sinv p]) (rule that)
  define h1 where "h1 = set_space h l (s\<lparr>ns_history := hist\<rparr>)"
  have inv1: "handler_inv (D + flight p) h1"
    unfolding h1_def by (rule handler_inv_set_space [OF inv s hist(2)]) (simp add: hist(5))
  have g1: "getPacketNumberSpace h1 l = Some (s\<lparr>ns_history := hist\<rparr>)"
    by (simp add: h1_def)
  show thesis
  proof (cases "regular p")
    case False
    then have "declare_lost h l p = Inr (h1, lost_events p)" "flight p = 0"
      using s hist(1) flight_irregular [OF ok] by (auto simp: declare_lost_def h1_def lost_events_def regular_def)
    with inv1 g1 hist(3,4) show ?thesis
      using that by auto
  next
    case True
    note rm = removeFromBytesInFlight_eq [OF inv1 D]
    define h2 where "h2 = h1\<lparr>sp_bytesInFlight := sp_bytesInFlight h1 - flight p\<rparr>"
    define h3 where "h3 = (if \<not> pk_IsPathMTUProbePacket p then h2\<lparr>sp_congestion := OnCongestionEvent (sp_congestion h2) (pk_PacketNumber p)\<rparr> else h2)"
    have f: "sp_initialPackets h3 = sp_initialPackets h2" "sp_handshakePackets h3 = sp_handshakePackets h2" "sp_appDataPackets h3 = sp_appDataPackets h2"
      "sp_bytesInFlight h3 = sp_bytesInFlight h2" "sp_enableECN h3 = sp_enableECN h2" "sp_ecnTracker h3 = sp_ecnTracker h2"
      by (simp_all add: h3_def)
    have "declare_lost h l p = Inr (lost_ecn h3 (pk_PacketNumber p) l, lost_events p)"
      using True s hist(1) rm(1)
      by (simp add: declare_lost_def h1_def [symmetric] h2_def [symmetric] regular_def queueFramesForRetransmission_eq [OF ok True] lost_events_def h3_def)
    moreover have "handler_inv D h2"
      unfolding h2_def by (rule rm(2))
    then have "handler_inv D (lost_ecn h3 (pk_PacketNumber p) l)"
      by (rule handler_inv_same) (simp_all add: f)
    moreover have "getPacketNumberSpace (lost_ecn h3 (pk_PacketNumber p) l) l = Some (s\<lparr>ns_history := hist\<rparr>)"
      using g1 getPacketNumberSpace_cong [of "lost_ecn h3 (pk_PacketNumber p) l" h1] by (simp add: f) (simp add: h2_def)
    ultimately show ?thesis
      using that hist(3,4) by blast
  qed
qed

section \<open>Which packets are lost\<close>

definition is_lost :: "Time \<Rightarrow> PacketNumber \<Rightarrow> packet \<Rightarrow> bool" where
  "is_lost lostSendTime largestAcked p \<longleftrightarrow>
     pk_PacketNumber p \<le> largestAcked \<and> (pk_SendTime p \<le> lostSendTime \<or> pk_PacketNumber p + packetThreshold \<le> largestAcked)"

definition first_kept :: "Time \<Rightarrow> PacketNumber \<Rightarrow> packet list \<Rightarrow> packet option" where
  "first_kept lostSendTime largestAcked ps = List.find (\<lambda>p. pk_PacketNumber p \<le> largestAcked \<and> \<not> is_lost lostSendTime largestAcked p) ps"

definition loss_time :: "Time \<Rightarrow> Duration \<Rightarrow> PacketNumber \<Rightarrow> packet list \<Rightarrow> Time" where
  "loss_time lostSendTime delay largestAcked ps =
     (case first_kept lostSendTime largestAcked ps of None \<Rightarrow> 0 | Some p \<Rightarrow> pk_SendTime p + delay)"

definition without_packets :: "packet list \<Rightarrow> (PacketNumber \<Rightarrow> packet option) \<Rightarrow> PacketNumber \<Rightarrow> packet option" where
  "without_packets ps m pn = (if pn \<in> pk_PacketNumber ` set ps then None else m pn)"

lemma without_packets_Cons: "without_packets (p # ps) m = without_packets ps (m(pk_PacketNumber p := None))"
  by (auto simp: without_packets_def fun_eq_iff)

lemma detect_lost_ok:
  assumes "handler_inv D h" and "0 \<le> D" and "getPacketNumberSpace h l = Some s" and "0 \<le> lostSendTime + delay"
    and "\<forall>p\<in>set ps. entry (ns_history s) (pk_PacketNumber p) = Some p" and "sorted_wrt (\<lambda>p q. pk_PacketNumber p < pk_PacketNumber q) ps"
  shows "\<exists>h' hist. detect_lost lostSendTime delay l ps h evs =
      Inr (h', evs @ concat (map lost_events (filter (is_lost lostSendTime (ns_largestAcked s)) ps))) \<and> handler_inv D h' \<and>
    getPacketNumberSpace h' l = Some (s\<lparr>ns_history := hist,
      ns_lossTime := if ns_lossTime s = 0 then loss_time lostSendTime delay (ns_largestAcked s) ps else ns_lossTime s\<rparr>) \<and>
    entry hist = without_packets (filter (is_lost lostSendTime (ns_largestAcked s)) ps) (entry (ns_history s)) \<and>
    sh_pathProbePackets hist = sh_pathProbePackets (ns_history s)"
  using assms(1,3,5,6)
proof (induction ps arbitrary: h s evs)
  case Nil
  then show ?case
    by (intro exI [of _ h] exI [of _ "ns_history s"]) (auto simp: without_packets_def loss_time_def first_kept_def fun_eq_iff)
next
  case (Cons p ps)
  let ?la = "ns_largestAcked s" and ?lost = "is_lost lostSendTime (ns_largestAcked s)"
  have later: "pk_PacketNumber p < pk_PacketNumber q" if "q \<in> set ps" for q
    using Cons.prems(4) that by simp
  consider "pk_PacketNumber p > ?la" | "?lost p" | "pk_PacketNumber p \<le> ?la" "\<not> ?lost p"
    by (cases "?lost p"; cases "pk_PacketNumber p > ?la") auto
  then show ?case
  proof cases
    case 1
    have "\<forall>q\<in>set (p # ps). \<not> pk_PacketNumber q \<le> ?la"
      using 1 later by fastforce
    then have f: "filter ?lost (p # ps) = []" and "first_kept lostSendTime ?la (p # ps) = None"
      unfolding filter_empty_conv first_kept_def find_None_iff is_lost_def by blast+
    then have lt: "(if ns_lossTime s = 0 then loss_time lostSendTime delay ?la (p # ps) else ns_lossTime s) = ns_lossTime s"
      by (simp add: loss_time_def)
    have "detect_lost lostSendTime delay l (p # ps) h evs = Inr (h, evs)"
      using 1 Cons.prems(2) by simp
    then show ?thesis
      unfolding f lt using Cons.prems(1,2) by (intro exI [of _ h] exI [of _ "ns_history s"]) (simp add: without_packets_def fun_eq_iff)
  next
    case 2
    have e: "entry (ns_history s) (pk_PacketNumber p) = Some p"
      using Cons.prems(3) by simp
    obtain h1 hist1 where h1: "declare_lost h l p = Inr (h1, lost_events p)" "handler_inv D h1" "getPacketNumberSpace h1 l = Some (s\<lparr>ns_history := hist1\<rparr>)"
      "entry hist1 = (entry (ns_history s))(pk_PacketNumber p := None)" "sh_pathProbePackets hist1 = sh_pathProbePackets (ns_history s)"
      by (rule declare_lost_ok [OF Cons.prems(1) assms(2) Cons.prems(2) e]) (rule that)
    have rest: "\<forall>q\<in>set ps. entry (ns_history (s\<lparr>ns_history := hist1\<rparr>)) (pk_PacketNumber q) = Some q"
    proof
      fix q assume q: "q \<in> set ps"
      show "entry (ns_history (s\<lparr>ns_history := hist1\<rparr>)) (pk_PacketNumber q) = Some q"
        using Cons.prems(3) later [OF q] q by (simp add: h1(4))
    qed
    have sorted: "sorted_wrt (\<lambda>p q. pk_PacketNumber p < pk_PacketNumber q) ps"
      using Cons.prems(4) by simp
    have lt: "loss_time lostSendTime delay ?la (p # ps) = loss_time lostSendTime delay ?la ps"
      using 2 by (simp add: loss_time_def first_kept_def)
    have eq: "detect_lost lostSendTime delay l (p # ps) h evs = detect_lost lostSendTime delay l ps h1 (evs @ lost_events p)"
      using 2 Cons.prems(2) h1(1) by (simp add: is_lost_def not_less)
    have ev: "evs @ concat (map lost_events (filter ?lost (p # ps))) = (evs @ lost_events p) @ concat (map lost_events (filter ?lost ps))"
      and wp: "without_packets (filter ?lost (p # ps)) (entry (ns_history s)) = without_packets (filter ?lost ps) (entry hist1)"
      using 2 by (simp_all add: without_packets_Cons h1(4))
    show ?thesis
      using Cons.IH [OF h1(2,3) rest sorted, of "evs @ lost_events p"] unfolding eq ev wp lt h1(5) [symmetric] by (simp split del: if_split cong: if_cong)
  next
    case 3
    define s1 where "s1 = (if ns_lossTime s = 0 then s\<lparr>ns_lossTime := pk_SendTime p + delay\<rparr> else s)"
    define h1 where "h1 = (if ns_lossTime s = 0 then set_space h l s1 else h)"
    have nz: "pk_SendTime p + delay \<noteq> 0"
      using 3 assms(4) by (auto simp: is_lost_def)
    have si: "space_inv s1" and s1: "ns_history s1 = ns_history s" "ns_largestAcked s1 = ?la"
      using handler_invD(1) [OF Cons.prems(1,2)] by (auto simp: s1_def space_inv_def)
    have i1: "handler_inv D h1" and g1: "getPacketNumberSpace h1 l = Some s1"
      using handler_inv_set_space [OF Cons.prems(1,2) si, of D] Cons.prems(1,2) s1(1) by (auto simp: h1_def) (simp add: s1_def)
    have rest: "\<forall>q\<in>set ps. entry (ns_history s1) (pk_PacketNumber q) = Some q"
      using Cons.prems(3) by (simp add: s1)
    have sorted: "sorted_wrt (\<lambda>p q. pk_PacketNumber p < pk_PacketNumber q) ps"
      using Cons.prems(4) by simp
    have lt: "(if ns_lossTime s = 0 then loss_time lostSendTime delay ?la (p # ps) else ns_lossTime s) = ns_lossTime s1" "ns_lossTime s1 \<noteq> 0"
      using 3 nz by (auto simp: s1_def loss_time_def first_kept_def)
    have "detect_lost lostSendTime delay l (p # ps) h evs = detect_lost lostSendTime delay l ps h1 evs"
      using 3 Cons.prems(2) by (simp add: is_lost_def not_less h1_def s1_def)
    moreover have "s1\<lparr>ns_history := hist\<rparr> = s\<lparr>ns_history := hist, ns_lossTime := ns_lossTime s1\<rparr>" for hist
      by (simp add: s1_def)
    ultimately show ?thesis
      using Cons.IH [OF i1 g1 rest sorted, of evs] 3 lt s1 by simp
  qed
qed

end
