(* ===== verification/Sent_Ops.thy ===== *)
theory Sent_Ops
  imports Sent_Loss
begin

text \<open>
  Every operation of the sent packet handler returns, and keeps the bytes in flight equal to those of the packets in the histories.
\<close>

section \<open>Sending\<close>

text \<open>
  A packet as the connection sends it: it takes the next packet number, and reports the packet with this number before it takes another number of the same space.
\<close>

record out_packet =
  op_level :: EncryptionLevel
  op_rnd :: int
  op_largestAcked :: PacketNumber
  op_streamFrames :: "ack_StreamFrame list"
  op_frames :: "ack_Frame list"
  op_ecn :: ECN
  op_size :: ByteCount
  op_mtuProbe :: bool
  op_pathProbe :: bool

definition send_packet :: "sentPacketHandler \<Rightarrow> Time \<Rightarrow> out_packet \<Rightarrow> sentPacketHandler result" where
  "send_packet h t p =
     rbind (PopPacketNumber h (op_level p) (op_rnd p)) (\<lambda>(h, pn).
       SentPacket h t pn (op_largestAcked p) (op_streamFrames p) (op_frames p) (op_level p) (op_ecn p) (op_size p) (op_mtuProbe p) (op_pathProbe p))"

definition out_ok :: "sentPacketHandler \<Rightarrow> out_packet \<Rightarrow> bool" where
  "out_ok h p \<longleftrightarrow> getPacketNumberSpace h (op_level p) \<noteq> None \<and> 0 \<le> op_size p \<and> op_ecn p \<in> {ECNNon, ECT0} \<and>
     (op_pathProbe p \<longrightarrow> op_level p = Encryption1RTT \<and> (\<forall>f\<in>set (op_frames p). af_Handler f \<noteq> None))"

definition popped :: "packetNumberSpace \<Rightarrow> PacketNumber \<Rightarrow> bool" where
  "popped s pn \<longleftrightarrow> hist_inv (ns_history s) \<and> next_number (ns_history s) pn \<and> pn_next (ns_pns s) = pn + 1"

lemma hist_inv_add:
  assumes "hist_inv hist" and "sent_ok hist'" and "\<And>q. q \<noteq> pn \<Longrightarrow> entry hist' q = entry hist q" and "\<And>p. entry hist' pn = Some p \<Longrightarrow> packet_ok p"
    and "\<And>p. p \<in> set (sh_pathProbePackets hist') \<Longrightarrow> p \<in> set (sh_pathProbePackets hist) \<or> probe_ok p"
  shows "hist_inv hist'"
proof -
  have "packet_ok p" if "entry hist' q = Some p" for q p
    using assms(3) [of q] assms(4) [of p] hist_invD(2) [OF assms(1), of q p] that by (cases "q = pn") simp_all
  moreover have "probe_ok p" if "p \<in> set (sh_pathProbePackets hist')" for p
    using assms(5) [OF that] hist_invD(3) [OF assms(1), of p] by blast
  ultimately show ?thesis
    using assms(2) by (simp add: hist_inv_def)
qed

lemma skip_space:
  assumes "hist_inv hist" and "next_number hist pn"
  obtains hist' where "SkippedPacket hist pn = Inr hist'" "hist_inv hist'" "sh_highestPacketNumber hist' = pn" "in_flight hist' = in_flight hist"
    "sh_pathProbePackets hist' = sh_pathProbePackets hist"
proof -
  obtain hist' where h: "SkippedPacket hist pn = Inr hist'" "sent_ok hist'" "sh_highestPacketNumber hist' = pn" "sh_pathProbePackets hist' = sh_pathProbePackets hist"
    "entry hist' = (entry hist)(pn \<mapsto> getPacket\<lparr>pk_PacketNumber := pn, pk_skippedPacket := True\<rparr>)"
    "\<forall>f. (\<forall>p. pk_skippedPacket p \<longrightarrow> f p = 0) \<longrightarrow> weight f (sh_packets hist') = weight f (sh_packets hist)"
    by (rule SkippedPacket_ok [OF hist_invD(1) [OF assms(1)] assms(2)]) (rule that)
  have "hist_inv hist'"
    by (rule hist_inv_add [OF assms(1) h(2), of pn]) (auto simp: h(4,5) packet_ok_def regular_def getPacket_def)
  then show thesis
    using h(6) by (intro that [OF h(1) _ h(3) _ h(4)]) (auto simp: in_flight_def)
qed

lemma PopPacketNumber_ok:
  assumes "space_inv s" and "getPacketNumberSpace h l = Some s"
  obtains s' pn where "PopPacketNumber h l rnd = Inr (set_space h l s', pn)" "popped s' pn" "in_flight (ns_history s') = in_flight (ns_history s)"
    "sh_pathProbePackets (ns_history s') = sh_pathProbePackets (ns_history s)"
proof -
  obtain g sk pn where p: "pn_Pop (ns_pns s) rnd = (g, sk, pn)"
    by (cases "pn_Pop (ns_pns s) rnd") auto
  note nx = pn_Pop_next [OF p]
  have n: "next_number (ns_history s) (pn_next (ns_pns s))"
    using assms(1) by (auto simp: space_inv_def next_number_def)
  have inv: "hist_inv (ns_history s)"
    using assms(1) by (simp add: space_inv_def)
  show thesis
  proof (cases sk)
    case True
    then have pn: "pn - 1 = pn_next (ns_pns s)" "0 \<le> pn"
      using nx(1) assms(1) by (auto simp: space_inv_def)
    obtain hist where h: "SkippedPacket (ns_history s) (pn - 1) = Inr hist" "hist_inv hist" "sh_highestPacketNumber hist = pn - 1"
      "in_flight hist = in_flight (ns_history s)" "sh_pathProbePackets hist = sh_pathProbePackets (ns_history s)"
      by (rule skip_space [OF inv n [folded pn(1)]]) (rule that)
    show ?thesis
      using True assms(2) p h nx(2) pn by (intro that [of "s\<lparr>ns_pns := g, ns_history := hist\<rparr>" pn]) (simp_all add: PopPacketNumber_def popped_def next_number_def)
  next
    case False
    then show ?thesis
      using assms(2) p nx inv n by (intro that [of "s\<lparr>ns_pns := g\<rparr>" pn]) (simp_all add: PopPacketNumber_def popped_def)
  qed
qed

lemma set_space_twice: "set_space (set_space h l s) l s' = set_space h l s'"
  by (cases l) (simp_all add: set_space_def)

lemma set_space_update:
  "(set_space h l s)\<lparr>sp_bytesSent := b\<rparr> = set_space (h\<lparr>sp_bytesSent := b\<rparr>) l s"
  "(set_space h l s)\<lparr>sp_bytesInFlight := b\<rparr> = set_space (h\<lparr>sp_bytesInFlight := b\<rparr>) l s"
  "(set_space h l s)\<lparr>sp_numProbesToSend := n\<rparr> = set_space (h\<lparr>sp_numProbesToSend := n\<rparr>) l s"
  "(set_space h l s)\<lparr>sp_congestion := c\<rparr> = set_space (h\<lparr>sp_congestion := c\<rparr>) l s"
  "(set_space h l s)\<lparr>sp_ecnTracker := e\<rparr> = set_space (h\<lparr>sp_ecnTracker := e\<rparr>) l s"
  by (cases l; simp add: set_space_def)+

definition same_spaces :: "sentPacketHandler \<Rightarrow> sentPacketHandler \<Rightarrow> bool" where
  "same_spaces h h' \<longleftrightarrow> sp_initialPackets h' = sp_initialPackets h \<and> sp_handshakePackets h' = sp_handshakePackets h \<and> sp_appDataPackets h' = sp_appDataPackets h \<and>
     sp_enableECN h' = sp_enableECN h \<and> (sp_ecnTracker h' = None \<longleftrightarrow> sp_ecnTracker h = None)"

text \<open>What the operations on packets leave alone: which spaces are there, and the state of the handshake and of address validation.\<close>

definition ctx :: "sentPacketHandler \<Rightarrow> (bool \<times> bool) \<times> (bool \<times> bool \<times> Perspective) \<times> bool \<times> ByteCount \<times> ByteCount" where
  "ctx h = ((sp_initialPackets h = None, sp_handshakePackets h = None),
     (sp_handshakeConfirmed h, sp_peerCompletedAddressValidation h, sp_perspective h), sp_peerAddressValidated h, sp_bytesReceived h, sp_bytesSent h)"

lemma ctx_set_space: "getPacketNumberSpace h l \<noteq> None \<Longrightarrow> ctx (set_space h l s) = ctx h"
  by (cases l) (auto simp: ctx_def set_space_def getPacketNumberSpace_def)

lemma ctx_setLossDetectionTimer [simp]: "ctx (setLossDetectionTimer h t) = ctx h"
  by (simp add: ctx_def setLossDetectionTimer_def)

lemma ctx_get: "ctx h' = ctx h \<Longrightarrow> getPacketNumberSpace h' l = None \<longleftrightarrow> getPacketNumberSpace h l = None"
  by (cases l) (auto simp: ctx_def getPacketNumberSpace_def)

lemma same_spaces_refl [simp]: "same_spaces h h"
  by (simp add: same_spaces_def)

lemma same_spaces_trans: "same_spaces a b \<Longrightarrow> same_spaces b c \<Longrightarrow> same_spaces a c"
  by (simp add: same_spaces_def)

lemma same_spaces_set: "same_spaces (set_space h l s) h2 \<Longrightarrow> same_spaces (set_space h l s') (set_space h2 l s')"
  by (cases l) (auto simp: same_spaces_def set_space_def)

lemma same_spaces_set2: "same_spaces h h2 \<Longrightarrow> same_spaces (set_space h l s) (set_space h2 l s)"
  by (cases l) (auto simp: same_spaces_def set_space_def)

lemma same_spaces_inv: "handler_inv D h \<Longrightarrow> same_spaces h h' \<Longrightarrow> sp_bytesInFlight h' = sp_bytesInFlight h + d \<Longrightarrow> handler_inv (D + d) h'"
  by (rule handler_inv_cong) (auto simp: same_spaces_def)

lemma same_spaces_get: "same_spaces h h' \<Longrightarrow> getPacketNumberSpace h' = getPacketNumberSpace h"
  by (rule getPacketNumberSpace_cong) (simp_all add: same_spaces_def)

lemma setLossDetectionTimer_same: "same_spaces h (setLossDetectionTimer h t)" "sp_bytesInFlight (setLossDetectionTimer h t) = sp_bytesInFlight h"
  by (simp_all add: same_spaces_def setLossDetectionTimer_def)

lemma setLossDetectionTimer_inv [simp]: "handler_inv D h \<Longrightarrow> handler_inv D (setLossDetectionTimer h t)"
  using same_spaces_inv [of D h "setLossDetectionTimer h t" 0] by (simp add: setLossDetectionTimer_same)

lemma sent_ecn_ok:
  assumes "ecn \<in> {ECNNon, ECT0}"
  obtains h' where "sent_ecn h pn l ecn = Inr h'" "same_spaces h h'" "sp_bytesInFlight h' = sp_bytesInFlight h" "ctx h' = ctx h"
proof (cases "sp_ecnTracker h")
  case (Some e)
  then obtain e' where "ecn_SentPacket e pn ecn = Inr e'"
    using assms by (cases ecn) (simp_all add: ecn_SentPacket_def)
  with Some show thesis
    by (cases "l = Encryption1RTT") (auto simp: sent_ecn_def same_spaces_def ctx_def intro: that)
qed (auto simp: sent_ecn_def same_spaces_def intro: that)

lemma sent_congestion_same: "same_spaces h (sent_congestion h t pn sz b)" "sp_bytesInFlight (sent_congestion h t pn sz b) = sp_bytesInFlight h"
  "ctx (sent_congestion h t pn sz b) = ctx h"
  by (simp_all add: same_spaces_def sent_congestion_def ctx_def)

text \<open>What a packet adds to the history of its space.\<close>

lemma probe_space:
  assumes "popped s pn" and "\<forall>f\<in>set frames. af_Handler f \<noteq> None"
  obtains hist where "SentPathProbePacket (ns_history s) (sent_probe t pn frames l sz) = Inr hist" "hist_inv hist" "sh_highestPacketNumber hist = pn"
    "in_flight hist = in_flight (ns_history s)"
proof -
  let ?p = "sent_probe t pn frames l sz"
  have pn: "pk_PacketNumber ?p = pn"
    by (simp add: sent_probe_def)
  have a: "hist_inv (ns_history s)" "next_number (ns_history s) (pk_PacketNumber ?p)"
    using assms(1) by (simp_all add: popped_def pn)
  obtain hist where h: "SentPathProbePacket (ns_history s) ?p = Inr hist" "sent_ok hist" "sh_highestPacketNumber hist = pk_PacketNumber ?p"
    "sh_pathProbePackets hist = sh_pathProbePackets (ns_history s) @ [?p]"
    "entry hist = (entry (ns_history s))(pk_PacketNumber ?p \<mapsto> getPacket\<lparr>pk_PacketNumber := pk_PacketNumber ?p, pk_isPathProbePacket := True\<rparr>)"
    "\<forall>f. weight f (sh_packets hist) =
      weight f (sh_packets (ns_history s)) + f (getPacket\<lparr>pk_PacketNumber := pk_PacketNumber ?p, pk_isPathProbePacket := True\<rparr>)"
    by (rule SentPathProbePacket_ok [OF hist_invD(1) [OF a(1)] a(2)]) (rule that)
  have "hist_inv hist"
    by (rule hist_inv_add [OF a(1) h(2), of pn])
      (use assms(2) in \<open>auto simp: h(4,5) pn packet_ok_def regular_def getPacket_def probe_ok_def sent_probe_def\<close>)
  moreover have "in_flight hist = in_flight (ns_history s)"
    using h(6) by (simp add: in_flight_def flight_def getPacket_def)
  ultimately show thesis
    using that h(1,3) pn by simp
qed

lemma non_ack_space:
  assumes "popped s pn"
  obtains hist where "SentNonAckElicitingPacket (ns_history s) pn = Inr hist" "hist_inv hist" "sh_highestPacketNumber hist = pn" "in_flight hist = in_flight (ns_history s)"
proof -
  have a: "hist_inv (ns_history s)" "next_number (ns_history s) pn"
    using assms by (simp_all add: popped_def)
  obtain hist where h: "SentNonAckElicitingPacket (ns_history s) pn = Inr hist" "sent_ok hist" "sh_highestPacketNumber hist = pn"
    "sh_pathProbePackets hist = sh_pathProbePackets (ns_history s)" "\<forall>q. q \<noteq> pn \<longrightarrow> entry hist q = entry (ns_history s) q" "entry hist pn = None"
    "\<forall>f. weight f (sh_packets hist) = weight f (sh_packets (ns_history s))"
    by (rule SentNonAckElicitingPacket_ok [OF hist_invD(1) [OF a(1)] a(2)]) (rule that)
  have "hist_inv hist"
    by (rule hist_inv_add [OF a(1) h(2), of pn]) (simp_all add: h(4,5,6))
  then show thesis
    using that h(1,3,7) by (simp add: in_flight_def)
qed

lemma ack_space:
  assumes "popped s pn" and "frames \<noteq> [] \<or> streamFrames \<noteq> []" and "0 \<le> sz"
  obtains hist where "SentAckElicitingPacket (ns_history s) (sent_packet t pn la streamFrames frames l sz mtu) = Inr hist" "hist_inv hist"
    "sh_highestPacketNumber hist = pn" "in_flight hist = in_flight (ns_history s) + sz"
proof -
  let ?p = "sent_packet t pn la streamFrames frames l sz mtu"
  have pn: "pk_PacketNumber ?p = pn"
    by (simp add: sent_packet_def)
  have a: "hist_inv (ns_history s)" "next_number (ns_history s) (pk_PacketNumber ?p)"
    using assms(1) by (simp_all add: popped_def pn)
  obtain hist where h: "SentAckElicitingPacket (ns_history s) ?p = Inr hist" "sent_ok hist" "sh_highestPacketNumber hist = pk_PacketNumber ?p"
    "sh_pathProbePackets hist = sh_pathProbePackets (ns_history s)" "entry hist = (entry (ns_history s))(pk_PacketNumber ?p \<mapsto> ?p)"
    "\<forall>f. weight f (sh_packets hist) = weight f (sh_packets (ns_history s)) + f ?p"
    by (rule SentAckElicitingPacket_ok [OF hist_invD(1) [OF a(1)] a(2)]) (rule that)
  have "packet_ok ?p"
    using assms(2,3) by (auto simp: packet_ok_def sent_packet_def regular_def getPacket_def)
  then have "hist_inv hist"
    by (intro hist_inv_add [OF a(1) h(2), of pn]) (simp_all add: h(4,5) pn)
  moreover have "in_flight hist = in_flight (ns_history s) + sz"
    using h(6) by (simp add: in_flight_def flight_def getPacket_def sent_packet_def)
  ultimately show thesis
    using that h(1,3) pn by simp
qed

lemma popped_space_inv:
  "popped s pn \<Longrightarrow> hist_inv hist \<Longrightarrow> sh_highestPacketNumber hist = pn \<Longrightarrow> ns_history s' = hist \<Longrightarrow> ns_pns s' = ns_pns s \<Longrightarrow> space_inv s'"
  by (auto simp: popped_def space_inv_def next_number_def)

text \<open>The handler after a packet was sent: the space of the packet, the bytes in flight and fields that the invariant does not depend on are new.\<close>

definition sent_result :: "sentPacketHandler \<Rightarrow> EncryptionLevel \<Rightarrow> packetNumberSpace \<Rightarrow> int \<Rightarrow> ByteCount \<Rightarrow> sentPacketHandler \<Rightarrow> bool" where
  "sent_result h l s d sz h' \<longleftrightarrow> same_spaces (set_space h l s) h' \<and> sp_bytesInFlight h' = sp_bytesInFlight h + d \<and>
     ctx h' = ctx ((set_space h l s)\<lparr>sp_bytesSent := sp_bytesSent (set_space h l s) + sz\<rparr>)"

lemma ctx_set_space_present: "ctx (set_space (set_space h l s) l s') = ctx (set_space h l s')"
  by (simp add: set_space_twice)

lemma sent_result_timer: "sent_result h l s d sz h' \<Longrightarrow> sent_result h l s d sz (setLossDetectionTimer h' t)"
  by (simp add: sent_result_def same_spaces_def setLossDetectionTimer_def ctx_def)

lemma ctx_set_eq: "ctx h2 = ctx h1 \<Longrightarrow> ctx (set_space h2 l s) = ctx (set_space h1 l s)"
  by (cases l) (simp_all add: ctx_def set_space_def)

lemma ctx_set_any: "ctx (set_space h l s) = ctx (set_space h l s')"
  by (cases l) (simp_all add: ctx_def set_space_def)

lemma sent_result_elicit:
  assumes ecn: "ecn \<in> {ECNNon, ECT0}" and h1: "same_spaces h h1" "sp_bytesInFlight h1 = sp_bytesInFlight h + d" "ctx h1 = ctx (h\<lparr>sp_bytesSent := sp_bytesSent h + sz\<rparr>)"
  obtains h2 where "sent_ecn (sent_congestion (set_space h1 l s) t pn sz b) pn l ecn = Inr h2" "sent_result h l s' d sz (set_space h2 l s')"
proof -
  let ?c = "sent_congestion (set_space h1 l s) t pn sz b"
  obtain h2 where h2: "sent_ecn ?c pn l ecn = Inr h2" "same_spaces ?c h2" "sp_bytesInFlight h2 = sp_bytesInFlight ?c" "ctx h2 = ctx ?c"
    by (rule sent_ecn_ok [OF ecn]) (rule that)
  have "same_spaces (set_space h1 l s) h2"
    using sent_congestion_same(1) h2(2) by (rule same_spaces_trans)
  then have "same_spaces (set_space h1 l s') (set_space h2 l s')"
    by (rule same_spaces_set)
  then have "same_spaces (set_space h l s') (set_space h2 l s')"
    using same_spaces_set2 [OF h1(1)] same_spaces_trans by blast
  moreover have "sp_bytesInFlight h2 = sp_bytesInFlight h + d"
    using h1(2) by (simp add: h2(3) sent_congestion_same)
  moreover have "ctx (set_space h2 l s') = ctx (set_space h1 l s')"
    using ctx_set_eq [of h2 "set_space h1 l s"] h2(4) by (simp add: sent_congestion_same set_space_twice)
  moreover have "ctx (set_space h1 l s') = ctx ((set_space h l s')\<lparr>sp_bytesSent := sp_bytesSent (set_space h l s') + sz\<rparr>)"
    using h1(3) by (cases l) (simp_all add: ctx_def set_space_def)
  ultimately show thesis
    using that [OF h2(1)] by (simp add: sent_result_def)
qed

lemma SentPacket_ok:
  assumes "popped s pn" and "0 \<le> sz" and "ecn \<in> {ECNNon, ECT0}" and "probe \<longrightarrow> (\<forall>f\<in>set frames. af_Handler f \<noteq> None)"
  shows "\<exists>h' s' d. SentPacket (set_space h l s) t pn la streamFrames frames l ecn sz mtu probe = Inr h' \<and> space_inv s' \<and>
    sent_result h l s' d sz h' \<and> in_flight (ns_history s') = in_flight (ns_history s) + d"
proof -
  define h0 where "h0 = h\<lparr>sp_bytesSent := sp_bytesSent h + sz\<rparr>"
  have "sp_bytesSent (set_space h l s) = sp_bytesSent h"
    by (cases l) (simp_all add: set_space_def)
  then have e0: "(set_space h l s)\<lparr>sp_bytesSent := sp_bytesSent (set_space h l s) + sz\<rparr> = set_space h0 l s"
    by (simp add: h0_def set_space_update)
  have h0: "same_spaces h h0" "sp_bytesInFlight h0 = sp_bytesInFlight h + 0" "ctx h0 = ctx (h\<lparr>sp_bytesSent := sp_bytesSent h + sz\<rparr>)"
    by (simp_all add: same_spaces_def h0_def)
  consider "probe" | "\<not> probe" "streamFrames = []" "frames = []" | "\<not> probe" "frames \<noteq> [] \<or> streamFrames \<noteq> []"
    by auto
  then show ?thesis
  proof cases
    case 1
    obtain hist where h: "SentPathProbePacket (ns_history s) (sent_probe t pn frames l sz) = Inr hist" "hist_inv hist" "sh_highestPacketNumber hist = pn"
      "in_flight hist = in_flight (ns_history s)"
      by (rule probe_space [OF assms(1)]) (use assms(4) 1 in auto)
    let ?s = "s\<lparr>ns_largestSent := pn, ns_history := hist\<rparr>"
    have i: "space_inv ?s"
      by (rule popped_space_inv [OF assms(1) h(2,3)]) simp_all
    have "SentPacket (set_space h l s) t pn la streamFrames frames l ecn sz mtu probe = Inr (setLossDetectionTimer (set_space h0 l ?s) t)"
      using 1 h(1) by (simp add: SentPacket_def e0 Let_def set_space_twice)
    moreover have "sent_result h l ?s 0 sz (set_space h0 l ?s)"
      by (cases l) (simp_all add: sent_result_def same_spaces_def h0_def ctx_def set_space_def)
    ultimately show ?thesis
      using i h(4) sent_result_timer by (intro exI conjI) (assumption | simp)+
  next
    case 2
    obtain hist where h: "SentNonAckElicitingPacket (ns_history s) pn = Inr hist" "hist_inv hist" "sh_highestPacketNumber hist = pn"
      "in_flight hist = in_flight (ns_history s)"
      by (rule non_ack_space [OF assms(1)]) (rule that)
    let ?s = "s\<lparr>ns_largestSent := pn, ns_history := hist\<rparr>"
    have i: "space_inv ?s"
      by (rule popped_space_inv [OF assms(1) h(2,3)]) simp_all
    obtain h2 where h2: "sent_ecn (sent_congestion (set_space h0 l s) t pn sz False) pn l ecn = Inr h2" "sent_result h l ?s 0 sz (set_space h2 l ?s)"
      by (rule sent_result_elicit [OF assms(3) h0]) (rule that)
    let ?h = "set_space h2 l ?s"
    have "SentPacket (set_space h l s) t pn la streamFrames frames l ecn sz mtu probe =
        Inr (if \<not> sp_peerCompletedAddressValidation ?h then setLossDetectionTimer ?h t else ?h)"
      using 2 h(1) h2(1) by (simp add: SentPacket_def e0 Let_def)
    moreover have "sent_result h l ?s 0 sz (if \<not> sp_peerCompletedAddressValidation ?h then setLossDetectionTimer ?h t else ?h)"
      using h2(2) sent_result_timer [OF h2(2)] by simp
    ultimately show ?thesis
      using i h(4) by (intro exI conjI) (assumption | simp)+
  next
    case 3
    obtain hist where h: "SentAckElicitingPacket (ns_history s) (sent_packet t pn la streamFrames frames l sz mtu) = Inr hist" "hist_inv hist"
      "sh_highestPacketNumber hist = pn" "in_flight hist = in_flight (ns_history s) + sz"
      by (rule ack_space [OF assms(1) 3(2) assms(2)]) (rule that)
    let ?s = "s\<lparr>ns_largestSent := pn, ns_lastAckElicitingPacketTime := t, ns_history := hist\<rparr>"
    have i: "space_inv ?s"
      by (rule popped_space_inv [OF assms(1) h(2,3)]) simp_all
    define n where "n = (if sp_numProbesToSend (set_space h0 l s) > 0 then sp_numProbesToSend (set_space h0 l s) - 1 else sp_numProbesToSend (set_space h0 l s))"
    define h1 where "h1 = h0\<lparr>sp_bytesInFlight := sp_bytesInFlight h0 + sz, sp_numProbesToSend := n\<rparr>"
    have h1: "same_spaces h h1" "sp_bytesInFlight h1 = sp_bytesInFlight h + sz" "ctx h1 = ctx (h\<lparr>sp_bytesSent := sp_bytesSent h + sz\<rparr>)"
      by (simp_all add: same_spaces_def h1_def h0_def ctx_def)
    have e1: "(set_space h0 l s)\<lparr>sp_bytesInFlight := sp_bytesInFlight h0 + sz, sp_numProbesToSend := n\<rparr> = set_space h1 l s"
      by (simp add: h1_def set_space_update)
    obtain h2 where h2: "sent_ecn (sent_congestion (set_space h1 l s) t pn sz True) pn l ecn = Inr h2" "sent_result h l ?s sz sz (set_space h2 l ?s)"
      by (rule sent_result_elicit [OF assms(3) h1]) (rule that)
    have "SentPacket (set_space h l s) t pn la streamFrames frames l ecn sz mtu probe = Inr (setLossDetectionTimer (set_space h2 l ?s) t)"
      using 3 h(1) h2(1) e1 by (auto simp: SentPacket_def e0 Let_def n_def)
    then show ?thesis
      using i h(4) sent_result_timer [OF h2(2)] by (intro exI conjI) (assumption | simp)+
  qed
qed

lemma send_packet_ok:
  assumes inv: "handler_inv D h" and ok: "out_ok h p"
  obtains h' where "send_packet h t p = Inr h'" "handler_inv D h'" "ctx h' = ctx (h\<lparr>sp_bytesSent := sp_bytesSent h + op_size p\<rparr>)"
proof -
  let ?l = "op_level p"
  obtain s where s: "getPacketNumberSpace h ?l = Some s"
    using ok by (auto simp: out_ok_def)
  obtain s1 pn where pop: "PopPacketNumber h ?l (op_rnd p) = Inr (set_space h ?l s1, pn)" "popped s1 pn" "in_flight (ns_history s1) = in_flight (ns_history s)"
    by (rule PopPacketNumber_ok [OF handler_invD(1) [OF inv s] s]) (rule that)
  obtain h' s2 d where sent: "SentPacket (set_space h ?l s1) t pn (op_largestAcked p) (op_streamFrames p) (op_frames p) ?l (op_ecn p) (op_size p)
      (op_mtuProbe p) (op_pathProbe p) = Inr h'" "space_inv s2" "sent_result h ?l s2 d (op_size p) h'" "in_flight (ns_history s2) = in_flight (ns_history s1) + d"
    using SentPacket_ok [OF pop(2), of "op_size p" "op_ecn p" "op_pathProbe p" "op_frames p" h ?l t "op_largestAcked p" "op_streamFrames p" "op_mtuProbe p"] ok
    unfolding out_ok_def by blast
  have "handler_inv (D - d) (set_space h ?l s2)"
    by (rule handler_inv_set_space [OF inv s sent(2)]) (simp add: sent(4) pop(3))
  from same_spaces_inv [OF this, of h' d] sent(3) have "handler_inv D h'"
    by (simp add: sent_result_def)
  moreover have "ctx h' = ctx (h\<lparr>sp_bytesSent := sp_bytesSent h + op_size p\<rparr>)"
    using sent(3) ctx_set_space [of h ?l s2] s by (cases ?l) (auto simp: sent_result_def ctx_def set_space_def)
  ultimately show thesis
    using that pop(1) sent(1) by (simp add: send_packet_def)
qed

section \<open>Losses\<close>

lemma the_space_Inr: "the_space h l = Inr s \<longleftrightarrow> getPacketNumberSpace h l = Some s"
  by (simp add: the_space_def split: option.split)

lemma ctx_removeFromBytesInFlight: "removeFromBytesInFlight h p = Inr (h', p') \<Longrightarrow> ctx h' = ctx h"
  by (auto simp: removeFromBytesInFlight_def ctx_def split: if_splits)

lemma ctx_lost_ecn: "ctx (lost_ecn h pn l) = ctx h"
  by (simp add: lost_ecn_def ctx_def split: option.split)

lemma ctx_declare_lost:
  assumes "declare_lost h l p = Inr (h', evs)"
  shows "ctx h' = ctx h"
proof -
  obtain s hist where s: "getPacketNumberSpace h l = Some s" and hist: "DeclareLost (ns_history s) (pk_PacketNumber p) = Inr hist"
    using assms by (auto simp: declare_lost_def rbind_eq_Inr the_space_Inr)
  define h1 where "h1 = set_space h l (s\<lparr>ns_history := hist\<rparr>)"
  have c1: "ctx h1 = ctx h"
    using ctx_set_space [of h l] s by (simp add: h1_def)
  show ?thesis
  proof (cases "regular p")
    case False
    then show ?thesis
      using assms s hist c1 by (auto simp: declare_lost_def h1_def regular_def)
  next
    case True
    then obtain h2 p2 where r: "removeFromBytesInFlight h1 p = Inr (h2, p2)"
      and h': "h' = lost_ecn (if \<not> pk_IsPathMTUProbePacket p2 then h2\<lparr>sp_congestion := OnCongestionEvent (sp_congestion h2) (pk_PacketNumber p2)\<rparr> else h2) (pk_PacketNumber p2) l"
      using assms s hist by (auto simp: declare_lost_def h1_def [symmetric] regular_def rbind_eq_Inr)
    have "ctx h' = ctx h2"
      unfolding h' ctx_lost_ecn by (simp add: ctx_def)
    then show ?thesis
      using ctx_removeFromBytesInFlight [OF r] c1 by simp
  qed
qed

lemma ctx_detect_lost: "detect_lost lst delay l ps h evs = Inr (h', evs') \<Longrightarrow> ctx h' = ctx h"
proof (induction ps arbitrary: h evs)
  case (Cons p ps)
  then obtain s where s: "getPacketNumberSpace h l = Some s"
    by (auto simp: rbind_eq_Inr the_space_Inr)
  consider "pk_PacketNumber p > ns_largestAcked s"
    | "\<not> pk_PacketNumber p > ns_largestAcked s" "\<not> pk_SendTime p > lst \<or> ns_largestAcked s \<ge> pk_PacketNumber p + packetThreshold"
    | "\<not> pk_PacketNumber p > ns_largestAcked s" "\<not> (\<not> pk_SendTime p > lst \<or> ns_largestAcked s \<ge> pk_PacketNumber p + packetThreshold)"
    by blast
  then show ?case
  proof cases
    case 1
    then show ?thesis
      using Cons.prems s by simp
  next
    case 2
    then obtain h1 es where "declare_lost h l p = Inr (h1, es)" "detect_lost lst delay l ps h1 (evs @ es) = Inr (h', evs')"
      using Cons.prems s by (auto simp: rbind_eq_Inr)
    then show ?thesis
      using Cons.IH [of h1 "evs @ es"] ctx_declare_lost by simp
  next
    case 3
    then have "detect_lost lst delay l ps (if ns_lossTime s = 0 then set_space h l (s\<lparr>ns_lossTime := pk_SendTime p + delay\<rparr>) else h) evs = Inr (h', evs')"
      using Cons.prems s by simp
    from Cons.IH [OF this] show ?thesis
      using ctx_set_space [of h l] s by (simp split: if_splits)
  qed
qed simp

text \<open>What a call of \<open>detectLostPackets\<close> does to the space.\<close>

lemma detectLostPackets_ok:
  assumes inv: "handler_inv D h" and D: "0 \<le> D" and s: "getPacketNumberSpace h l = Some s" and now: "0 \<le> now"
  defines "delay \<equiv> lossDelay (sp_rttStats h)"
  defines "ps \<equiv> history_Packets (ns_history s)"
  defines "lost \<equiv> filter (is_lost (now - delay) (ns_largestAcked s)) ps"
  shows "\<exists>h' hist. detectLostPackets h now l = Inr (h', concat (map lost_events lost)) \<and> handler_inv D h' \<and> ctx h' = ctx h \<and>
    getPacketNumberSpace h' l = Some (s\<lparr>ns_history := hist, ns_lossTime := loss_time (now - delay) delay (ns_largestAcked s) ps\<rparr>) \<and>
    entry hist = without_packets lost (entry (ns_history s)) \<and> sh_pathProbePackets hist = sh_pathProbePackets (ns_history s)"
proof -
  define s1 where "s1 = s\<lparr>ns_lossTime := 0\<rparr>"
  define h1 where "h1 = set_space h l s1"
  have s1: "ns_history s1 = ns_history s" "ns_largestAcked s1 = ns_largestAcked s" "ns_lossTime s1 = 0"
    by (simp_all add: s1_def)
  have si: "space_inv s"
    using handler_invD(1) [OF inv s] .
  then have ok: "sent_ok (ns_history s)"
    by (simp add: space_inv_def hist_inv_def)
  have "space_inv s1"
    using si by (simp add: space_inv_def s1_def)
  then have inv1: "handler_inv D h1"
    unfolding h1_def by (rule handler_inv_set_space [OF inv s]) (simp add: s1_def)
  have g1: "getPacketNumberSpace h1 l = Some s1"
    by (simp add: h1_def)
  have nn: "0 \<le> now - delay + delay"
    using now by simp
  have entries: "\<forall>p\<in>set ps. entry (ns_history s1) (pk_PacketNumber p) = Some p"
    using history_Packets_entry [OF ok] by (simp add: ps_def s1)
  have sorted: "sorted_wrt (\<lambda>p q. pk_PacketNumber p < pk_PacketNumber q) ps"
    unfolding ps_def by (rule history_Packets_sorted [OF ok])
  have e: "detectLostPackets h now l = detect_lost (now - delay) delay l ps h1 []"
    by (simp add: detectLostPackets_def the_space_Some [OF s] h1_def s1_def delay_def ps_def Let_def)
  obtain h' hist where r: "detect_lost (now - delay) delay l ps h1 [] = Inr (h', [] @ concat (map lost_events (filter (is_lost (now - delay) (ns_largestAcked s1)) ps)))"
    "handler_inv D h'" "getPacketNumberSpace h' l = Some (s1\<lparr>ns_history := hist,
      ns_lossTime := if ns_lossTime s1 = 0 then loss_time (now - delay) delay (ns_largestAcked s1) ps else ns_lossTime s1\<rparr>)"
    "entry hist = without_packets (filter (is_lost (now - delay) (ns_largestAcked s1)) ps) (entry (ns_history s1))"
    "sh_pathProbePackets hist = sh_pathProbePackets (ns_history s1)"
    using detect_lost_ok [OF inv1 D g1 nn entries sorted, of "[]"] by blast
  have "ctx h' = ctx h"
    using ctx_detect_lost [OF r(1)] ctx_set_space [of h l s1] s by (simp add: h1_def)
  then show ?thesis
    using r unfolding e s1 lost_def by (intro exI [of _ h'] exI [of _ hist]) (simp add: s1_def)
qed

lemma set_app_history_eq: "set_app_history h hist = set_space h Encryption1RTT ((sp_appDataPackets h)\<lparr>ns_history := hist\<rparr>)"
  by (simp add: set_app_history_def set_space_def)

lemma get_app: "getPacketNumberSpace h Encryption1RTT = Some (sp_appDataPackets h)"
  by (simp add: getPacketNumberSpace_def)

lemma same_packets_flight: "same_packets hist hist' \<Longrightarrow> in_flight hist' = in_flight hist"
  by (simp add: same_packets_def in_flight_def)

lemma same_packets_space: "space_inv s \<Longrightarrow> same_packets (ns_history s) hist \<Longrightarrow> space_inv (s\<lparr>ns_history := hist\<rparr>)"
  using same_packetsD(4) by (auto simp: space_inv_def same_packets_def)

lemma set_app_history_inv:
  assumes "handler_inv D h" and "same_packets (ns_history (sp_appDataPackets h)) hist"
  shows "handler_inv D (set_app_history h hist)" and "ctx (set_app_history h hist) = ctx h"
proof -
  have "space_inv ((sp_appDataPackets h)\<lparr>ns_history := hist\<rparr>)"
    using same_packets_space [OF handler_invD(1) [OF assms(1) get_app] assms(2)] .
  then show "handler_inv D (set_app_history h hist)"
    unfolding set_app_history_eq by (rule handler_inv_set_space [OF assms(1) get_app]) (simp add: same_packets_flight [OF assms(2)])
  show "ctx (set_app_history h hist) = ctx h"
    unfolding set_app_history_eq by (rule ctx_set_space) (simp add: get_app)
qed

lemma probe_lost_events_ok: "probe_ok p \<Longrightarrow> \<exists>evs. probe_lost_events (pk_Frames p) = Inr evs"
  by (auto simp: probe_lost_events_def probe_ok_def list_ex_iff)

lemma lost_probes_fold:
  assumes "handler_inv D h" and "\<forall>p\<in>set qs. probe_ok p"
  shows "\<exists>h' evs'. rfold (\<lambda>(h, evs) p. rbind (probe_lost_events (pk_Frames p)) (\<lambda>es.
      Inr (set_app_history h (fst (RemovePathProbe (ns_history (sp_appDataPackets h)) (pk_PacketNumber p))), evs @ es))) (h, evs) qs = Inr (h', evs') \<and>
    handler_inv D h' \<and> ctx h' = ctx h"
  using assms
proof (induction qs arbitrary: h evs)
  case (Cons p qs)
  obtain es where es: "probe_lost_events (pk_Frames p) = Inr es"
    using probe_lost_events_ok Cons.prems(2) by auto
  obtain hist r where hr: "RemovePathProbe (ns_history (sp_appDataPackets h)) (pk_PacketNumber p) = (hist, r)"
    by fastforce
  note inv = set_app_history_inv [OF Cons.prems(1) RemovePathProbe_props(1) [OF hr]]
  show ?case
    using Cons.IH [OF inv(1), of "evs @ es"] Cons.prems(2) inv(2) by (simp add: es hr)
qed simp

lemma detectLostPathProbes_ok:
  assumes "handler_inv D h"
  obtains h' evs where "detectLostPathProbes h now = Inr (h', evs)" "handler_inv D h'" "ctx h' = ctx h"
proof -
  let ?hist = "ns_history (sp_appDataPackets h)"
  let ?qs = "filter (\<lambda>p. \<not> pk_SendTime p > now - pathProbePacketLossTimeout) (sh_pathProbePackets ?hist)"
  have "hist_inv ?hist"
    using handler_invD(1) [OF assms get_app] by (simp add: space_inv_def)
  then have "\<forall>p\<in>set ?qs. probe_ok p"
    using hist_invD(3) by auto
  from lost_probes_fold [OF assms this, of "[]"] show thesis
    using that assms by (cases "HasOutstandingPathProbes ?hist") (auto simp: detectLostPathProbes_def Let_def)
qed

section \<open>Acknowledgments\<close>

lemma acked_entry_flight_nonneg: "hist_inv hist \<Longrightarrow> acked_entry hist q \<Longrightarrow> 0 \<le> flight q"
  using acked_entry_flight [of hist q] flight_nonneg hist_invD(2) by metis

lemma LowestAcked_eq: "AckRanges ack \<noteq> [] \<Longrightarrow> LowestAcked ack = Inr (Smallest (last (AckRanges ack)))"
  by (cases "AckRanges ack") (simp_all add: LowestAcked_def last_conv_nth)

lemma LargestAcked_eq: "AckRanges ack \<noteq> [] \<Longrightarrow> LargestAcked ack = Inr (Largest (hd (AckRanges ack)))"
  by (cases "AckRanges ack") (simp_all add: LargestAcked_def)

lemma sorted_distinct: "sorted_wrt (\<lambda>p q. pk_PacketNumber p < pk_PacketNumber q) ps \<Longrightarrow> distinct (map pk_PacketNumber ps)"
  by (induction ps) auto

text \<open>The outcome of \<open>detectAndRemoveAckedPackets\<close>, for the packet numbers \<open>S\<close> of the frame.\<close>

definition acked_outcome ::
  "sentPacketHandler \<Rightarrow> EncryptionLevel \<Rightarrow> packetNumberSpace \<Rightarrow> PacketNumber set \<Rightarrow> sentPacketHandler \<times> packet list \<times> frame_event list \<Rightarrow> bool" where
  "acked_outcome h l s S r \<longleftrightarrow> (case r of (h', acked, evs) \<Rightarrow>
     (\<forall>p\<in>set (history_Packets (ns_history s)). pk_PacketNumber p \<in> S \<longrightarrow> \<not> pk_skippedPacket p) \<and>
     filter regular acked = filter (\<lambda>p. regular p \<and> pk_PacketNumber p \<in> S) (history_Packets (ns_history s)) \<and>
     (\<forall>q\<in>set acked. pk_PacketNumber q \<in> S \<and> 0 \<le> flight q) \<and> evs = concat (map (handler_events OnAcked) acked) \<and>
     (\<exists>hist. getPacketNumberSpace h' l = Some (s\<lparr>ns_history := hist\<rparr>) \<and>
       (\<forall>pn\<in>pk_PacketNumber ` set acked. entry hist pn = None) \<and>
       (\<forall>pn. pn \<notin> pk_PacketNumber ` set acked \<longrightarrow> entry hist pn = entry (ns_history s) pn \<or>
         entry hist pn = None \<and> (\<exists>p. entry (ns_history s) pn = Some p \<and> pk_skippedPacket p))))"

lemma detectAndRemoveAckedPackets_ok:
  assumes inv: "handler_inv 0 h" and s: "getPacketNumberSpace h l = Some s" and ack: "validateAckRanges ack"
  defines "S \<equiv> ack_set (AckRanges ack)"
  shows "(\<exists>r. detectAndRemoveAckedPackets h ack l = Inr r \<and> acked_outcome h l s S r \<and>
      handler_inv (sum_list (map flight (fst (snd r)))) (fst r) \<and> ctx (fst r) = ctx h) \<or>
    detectAndRemoveAckedPackets h ack l = Inl skipped_acked \<and> (\<exists>p\<in>set (history_Packets (ns_history s)). pk_skippedPacket p \<and> pk_PacketNumber p \<in> S)"
proof -
  have chain: "ack_chain (AckRanges ack)" "AckRanges ack \<noteq> []"
    using ack by (simp_all add: validateAckRanges_iff)
  have si: "space_inv s"
    using handler_invD(1) [OF inv s] .
  then have hi: "hist_inv (ns_history s)"
    by (simp add: space_inv_def)
  note ok = hist_invD(1) [OF hi]
  let ?ps = "history_Packets (ns_history s)"
  have sorted: "sorted_wrt (\<lambda>p q. pk_PacketNumber p < pk_PacketNumber q) ?ps"
    by (rule history_Packets_sorted [OF ok])
  have "\<forall>p\<in>set ?ps. Smallest (last (AckRanges ack)) \<le> pk_PacketNumber p \<longrightarrow> passed (AckRanges ack) 0 (pk_PacketNumber p)"
    using chain(2) by (simp add: passed_def)
  note find = find_acked_eq [OF chain sorted this, of "ns_history s" "[]", folded S_def]
  show ?thesis
  proof (cases "acked_by S ?ps (ns_history s) []")
    case (Inl e)
    then show ?thesis
      using acked_by_error [OF Inl] by (simp add: detectAndRemoveAckedPackets_def LowestAcked_eq LargestAcked_eq chain(2) s find)
  next
    case (Inr r)
    obtain hist1 acked where r: "r = (hist1, acked)"
      by fastforce
    have entries: "\<forall>p\<in>set ?ps. entry (ns_history s) (pk_PacketNumber p) = Some p"
      using history_Packets_entry [OF ok] by simp
    note ab = acked_by_props [OF hi entries _ _ Inr [unfolded r], simplified, OF sorted]
    note sd = same_packetsD [OF ab(1)]
    have entries1: "\<forall>q\<in>set acked. acked_entry hist1 q"
      using ab(3) by (simp add: sd(3))
    obtain lowest hist where f: "rfold (acked_packet l) (sp_lowestNotConfirmedAcked h, hist1, []) acked =
        Inr (lowest, hist, [] @ concat (map (handler_events OnAcked) acked))" "hist_inv hist" "sh_highestPacketNumber hist = sh_highestPacketNumber hist1"
      "sh_pathProbePackets hist = sh_pathProbePackets hist1" "in_flight hist = in_flight hist1 - sum_list (map flight acked)"
      "\<forall>pn\<in>pk_PacketNumber ` set acked. entry hist pn = None"
      "\<forall>pn. pn \<notin> pk_PacketNumber ` set acked \<longrightarrow> entry hist pn = entry hist1 pn \<or> entry hist pn = None \<and> (\<exists>s. entry hist1 pn = Some s \<and> pk_skippedPacket s)"
      by (rule acked_fold [OF sd(4) [OF hi] entries1 sorted_distinct [OF ab(2)], of l "sp_lowestNotConfirmedAcked h" "[]"]) (rule that)
    define s1 where "s1 = s\<lparr>ns_history := hist\<rparr>"
    define h1 where "h1 = (set_space h l s1)\<lparr>sp_lowestNotConfirmedAcked := lowest\<rparr>"
    have e: "detectAndRemoveAckedPackets h ack l = Inr (h1, acked, concat (map (handler_events OnAcked) acked))"
      using f(1) by (simp add: detectAndRemoveAckedPackets_def LowestAcked_eq LargestAcked_eq chain(2) s find Inr r h1_def s1_def)
    have "space_inv s1"
      using si f(2,3) ab(1) by (simp add: space_inv_def s1_def same_packets_def)
    then have "handler_inv (sum_list (map flight acked)) (set_space h l s1)"
      by (rule handler_inv_set_space [OF inv s]) (simp add: s1_def f(5) same_packets_flight [OF ab(1)])
    then have i1: "handler_inv (sum_list (map flight acked)) h1"
      by (rule handler_inv_same) (simp_all add: h1_def)
    have g1: "getPacketNumberSpace h1 l = Some s1"
      using getPacketNumberSpace_cong [of h1 "set_space h l s1"] by (simp add: h1_def)
    have c1: "ctx h1 = ctx h"
      using ctx_set_space [of h l s1] s by (simp add: h1_def ctx_def)
    have "acked_outcome h l s S (h1, acked, concat (map (handler_events OnAcked) acked))"
      unfolding acked_outcome_def prod.case
    proof (intro conjI exI [of _ hist])
      show "\<forall>p\<in>set ?ps. pk_PacketNumber p \<in> S \<longrightarrow> \<not> pk_skippedPacket p"
        using acked_by_no_skipped [OF Inr] by blast
      show "\<forall>q\<in>set acked. pk_PacketNumber q \<in> S \<and> 0 \<le> flight q"
        using ab(3,5) acked_entry_flight_nonneg [OF hi] by blast
    qed (use ab(4) g1 f(6,7) in \<open>simp_all add: s1_def sd(1)\<close>)
    then show ?thesis
      using e i1 c1 by simp
  qed
qed

text \<open>Changes that neither the invariant nor the context notices.\<close>

definition quiet :: "sentPacketHandler \<Rightarrow> sentPacketHandler \<Rightarrow> bool" where
  "quiet h h' \<longleftrightarrow> same_spaces h h' \<and> sp_bytesInFlight h' = sp_bytesInFlight h \<and> ctx h' = ctx h"

lemma quiet_inv: "quiet h h' \<Longrightarrow> handler_inv D h \<Longrightarrow> handler_inv D h'"
  using same_spaces_inv [of D h h' 0] by (simp add: quiet_def)

lemma quiet_ctx: "quiet h h' \<Longrightarrow> ctx h' = ctx h"
  by (simp add: quiet_def)

lemma quiet_get: "quiet h h' \<Longrightarrow> getPacketNumberSpace h' l = getPacketNumberSpace h l"
  using same_spaces_get [of h h'] by (simp add: quiet_def)

lemma quiet_update_rtt: "quiet h (update_rtt h ack la l t acked)"
  by (simp add: quiet_def same_spaces_def ctx_def update_rtt_def Let_def)

lemma quiet_timer: "quiet h (setLossDetectionTimer h t)"
  by (simp add: quiet_def same_spaces_def ctx_def setLossDetectionTimer_def)

lemma quiet_finish_ack: "quiet h (finish_ack h t)"
  by (simp add: quiet_def same_spaces_def ctx_def finish_ack_def setLossDetectionTimer_def)

lemma acked_ecn_ok:
  assumes "getPacketNumberSpace h l \<noteq> None"
  obtains h' where "acked_ecn h ack la l acked = Inr h'" "quiet h h'"
proof -
  obtain s where s: "getPacketNumberSpace h l = Some s"
    using assms by blast
  show thesis
  proof (cases "\<exists>e. sp_ecnTracker h = Some e \<and> l = Encryption1RTT \<and> la > ns_largestAcked s")
    case True
    then obtain e where e: "sp_ecnTracker h = Some e" "l = Encryption1RTT" "la > ns_largestAcked s"
      by blast
    obtain e' c where "HandleNewlyAcked e (map pk_PacketNumber acked) (int64 (af_ECT0 ack)) (int64 (af_ECT1 ack)) (int64 (af_ECNCE ack)) = (e', c)"
      by fastforce
    with e s show ?thesis
      by (intro that [of "if c then h\<lparr>sp_ecnTracker := Some e', sp_congestion := OnCongestionEvent (sp_congestion h) la\<rparr> else h\<lparr>sp_ecnTracker := Some e'\<rparr>"])
        (simp_all add: acked_ecn_def quiet_def same_spaces_def ctx_def)
  next
    case False
    then have "acked_ecn h ack la l acked = Inr h"
      using s by (cases "sp_ecnTracker h") (auto simp: acked_ecn_def)
    then show ?thesis
      by (rule that) (simp add: quiet_def)
  qed
qed

lemma set_largest_acked_ok:
  assumes "handler_inv D h" and "getPacketNumberSpace h l = Some s"
  shows "set_largest_acked h l la = Inr (set_space h l (s\<lparr>ns_largestAcked := max (ns_largestAcked s) la\<rparr>))"
    and "handler_inv D (set_space h l (s\<lparr>ns_largestAcked := max (ns_largestAcked s) la\<rparr>))"
    and "ctx (set_space h l (s\<lparr>ns_largestAcked := max (ns_largestAcked s) la\<rparr>)) = ctx h"
proof -
  let ?s = "s\<lparr>ns_largestAcked := max (ns_largestAcked s) la\<rparr>"
  show "set_largest_acked h l la = Inr (set_space h l ?s)"
    using assms(2) by (simp add: set_largest_acked_def)
  have "space_inv ?s"
    using handler_invD(1) [OF assms] by (simp add: space_inv_def)
  then show "handler_inv D (set_space h l ?s)"
    by (rule handler_inv_set_space [OF assms]) simp
  show "ctx (set_space h l ?s) = ctx h"
    using assms(2) by (intro ctx_set_space) simp
qed

lemma acked_in_flight_fold:
  assumes "handler_inv (sum_list (map flight acked)) h" and "\<forall>q\<in>set acked. 0 \<le> flight q"
  shows "\<exists>h' b'. rfold (acked_in_flight cbrt prior t) (h, b) acked = Inr (h', b') \<and> handler_inv 0 h' \<and> ctx h' = ctx h"
  using assms
proof (induction acked arbitrary: h b)
  case (Cons p ps)
  define h1 where "h1 = (if pk_includedInBytesInFlight p \<and> \<not> pk_declaredLost p
    then h\<lparr>sp_congestion := sender_OnPacketAcked cbrt (sp_congestion h) (sp_rttStats h) (pk_PacketNumber p) (pk_Length p) prior t\<rparr> else h)"
  have q1: "quiet h h1"
    by (simp add: h1_def quiet_def same_spaces_def ctx_def)
  have inv1: "handler_inv (sum_list (map flight ps) + flight p) h1"
    using quiet_inv [OF q1 Cons.prems(1)] by (simp add: add.commute)
  have "0 \<le> sum_list (map flight ps)"
    using Cons.prems(2) by (intro sum_list_nonneg) auto
  note rm = removeFromBytesInFlight_eq [OF inv1 this]
  let ?h2 = "h1\<lparr>sp_bytesInFlight := sp_bytesInFlight h1 - flight p\<rparr>"
  have "acked_in_flight cbrt prior t (h, b) p = Inr (?h2, b \<or> pk_EncryptionLevel p = Some Encryption1RTT)"
    using rm(1) by (simp add: acked_in_flight_def h1_def [symmetric] Let_def)
  moreover have "ctx ?h2 = ctx h"
    using quiet_ctx [OF q1] by (simp add: ctx_def)
  ultimately show ?case
    using Cons.IH [OF rm(2), of "b \<or> pk_EncryptionLevel p = Some Encryption1RTT"] Cons.prems(2) by simp
qed simp

definition unsent_acked :: go_error where
  "unsent_acked = TransportError ProtocolViolation 0 ''received ACK for an unsent packet''"

lemma confirm_validation_ok:
  "same_spaces h (confirm_validation h l t)" "sp_bytesInFlight (confirm_validation h l t) = sp_bytesInFlight h"
  "ctx (confirm_validation h l t) = ctx h \<or> ctx (confirm_validation h l t) = ctx (h\<lparr>sp_peerCompletedAddressValidation := True\<rparr>)"
  by (simp_all add: confirm_validation_def same_spaces_def setLossDetectionTimer_def ctx_def)

lemma ReceivedAck_ok:
  assumes inv: "handler_inv 0 h" and s: "getPacketNumberSpace h l = Some s" and ack: "validateAckRanges ack" and t: "0 \<le> t"
  shows "(\<exists>h' evs b. ReceivedAck cbrt h ack l t = Inr (h', evs, b) \<and> handler_inv 0 h' \<and>
      (ctx h' = ctx h \<or> ctx h' = ctx (h\<lparr>sp_peerCompletedAddressValidation := True\<rparr>))) \<or>
    ReceivedAck cbrt h ack l t = Inl unsent_acked \<and> Largest (hd (AckRanges ack)) > ns_largestSent s \<or>
    ReceivedAck cbrt h ack l t = Inl skipped_acked \<and>
      (\<exists>p\<in>set (history_Packets (ns_history s)). pk_skippedPacket p \<and> pk_PacketNumber p \<in> ack_set (AckRanges ack))"
proof -
  define la where "la = Largest (hd (AckRanges ack))"
  have la: "LargestAcked ack = Inr la"
    using ack LargestAcked_eq by (simp add: la_def validateAckRanges_iff)
  define h1 where "h1 = confirm_validation h l t"
  have inv1: "handler_inv 0 h1"
    using same_spaces_inv [OF inv confirm_validation_ok(1), of l t 0] by (simp add: h1_def confirm_validation_ok(2))
  have s1: "getPacketNumberSpace h1 l = Some s"
    using same_spaces_get [OF confirm_validation_ok(1) [of h l t]] s by (simp add: h1_def)
  have c1: "ctx h1 = ctx h \<or> ctx h1 = ctx (h\<lparr>sp_peerCompletedAddressValidation := True\<rparr>)"
    unfolding h1_def by (rule confirm_validation_ok(3))
  note def = ReceivedAck_def [of cbrt h ack l t, unfolded la rbind_simps the_space_Some [OF s] h1_def [symmetric] Let_def]
  consider "la > ns_largestSent s" | "\<not> la > ns_largestSent s" "detectAndRemoveAckedPackets h1 ack l = Inl skipped_acked"
      "\<exists>p\<in>set (history_Packets (ns_history s)). pk_skippedPacket p \<and> pk_PacketNumber p \<in> ack_set (AckRanges ack)"
    | r where "\<not> la > ns_largestSent s" "detectAndRemoveAckedPackets h1 ack l = Inr r" "acked_outcome h1 l s (ack_set (AckRanges ack)) r"
      "handler_inv (sum_list (map flight (fst (snd r)))) (fst r)" "ctx (fst r) = ctx h1"
    using detectAndRemoveAckedPackets_ok [OF inv1 s1 ack] by blast
  then show ?thesis
  proof cases
    case 1
    then show ?thesis
      by (simp add: def unsent_acked_def la_def)
  next
    case 2
    then show ?thesis
      by (simp add: def)
  next
    case (3 r)
    obtain h2 acked evs where r: "r = (h2, acked, evs)"
      by (cases r) auto
    have inv2: "handler_inv (sum_list (map flight acked)) h2" and c2: "ctx h2 = ctx h1"
      using 3(4,5) by (simp_all add: r)
    have nn: "\<forall>q\<in>set acked. 0 \<le> flight q"
      using 3(3) by (simp add: acked_outcome_def r)
    show ?thesis
    proof (cases "length acked = 0")
      case True
      then show ?thesis
        using 3(1,2) inv2 c2 c1 by (auto simp: def r)
    next
      case False
      have g2: "getPacketNumberSpace h2 l \<noteq> None"
        using ctx_get [OF c2, of l] s1 by simp
      note q3 = quiet_update_rtt [of h2 ack la l t acked]
      have "getPacketNumberSpace (update_rtt h2 ack la l t acked) l \<noteq> None"
        using g2 quiet_get [OF q3] by simp
      then obtain h4 where h4: "acked_ecn (update_rtt h2 ack la l t acked) ack la l acked = Inr h4" "quiet (update_rtt h2 ack la l t acked) h4"
        by (rule acked_ecn_ok)
      have inv4: "handler_inv (sum_list (map flight acked)) h4" and c4: "ctx h4 = ctx h1"
        using quiet_inv [OF h4(2) quiet_inv [OF q3 inv2]] quiet_ctx [OF h4(2)] quiet_ctx [OF q3] c2 by simp_all
      obtain s4 where s4: "getPacketNumberSpace h4 l = Some s4"
        using ctx_get [OF c4, of l] s1 by fastforce
      note sl = set_largest_acked_ok [OF inv4 s4, of la]
      define h5 where "h5 = set_space h4 l (s4\<lparr>ns_largestAcked := max (ns_largestAcked s4) la\<rparr>)"
      have g5: "getPacketNumberSpace h5 l = Some (s4\<lparr>ns_largestAcked := max (ns_largestAcked s4) la\<rparr>)"
        by (simp add: h5_def)
      have D: "0 \<le> sum_list (map flight acked)"
        using nn by (intro sum_list_nonneg) auto
      obtain h6 evs1 where h6: "detectLostPackets h5 t l = Inr (h6, evs1)" "handler_inv (sum_list (map flight acked)) h6" "ctx h6 = ctx h5"
        using detectLostPackets_ok [OF sl(2) [folded h5_def] D g5 t] by blast
      obtain h7 evs2 where h7: "(if l = Encryption1RTT then detectLostPathProbes h6 t else Inr (h6, [])) = Inr (h7, evs2)"
        "handler_inv (sum_list (map flight acked)) h7" "ctx h7 = ctx h6"
        by (rule detectLostPathProbes_ok [OF h6(2), of t]) (use that h6(2) in \<open>cases "l = Encryption1RTT"; simp\<close>)
      obtain h8 b where h8: "rfold (acked_in_flight cbrt (sp_bytesInFlight h1) t) (h7, False) acked = Inr (h8, b)" "handler_inv 0 h8" "ctx h8 = ctx h7"
        using acked_in_flight_fold [OF h7(2) nn] by blast
      have "ReceivedAck cbrt h ack l t = Inr (finish_ack h8 t, evs @ evs1 @ evs2, b)"
        using 3(1,2) False h4(1) sl(1) h6(1) h7(1) h8(1) by (simp add: def r h5_def)
      moreover have "handler_inv 0 (finish_ack h8 t)" "ctx (finish_ack h8 t) = ctx h1"
        using quiet_inv [OF quiet_finish_ack h8(2)] quiet_ctx [OF quiet_finish_ack, of h8 t] h8(3) h7(3) h6(3) sl(3) c4 by (simp_all add: h5_def)
      ultimately show ?thesis
        using c1 by auto
    qed
  qed
qed

end
