(* ===== verification/Sent_Run.thy ===== *)
theory Sent_Run
  imports Sent_Ops
begin

text \<open>
  The remaining operations of the sent packet handler: probes, dropped keys, Retry and migration, each of which returns and keeps the invariant.
\<close>

section \<open>Probes, dropped keys and migration\<close>

lemma take_regular:
  assumes inv: "handler_inv D h" and D: "0 \<le> D" and s: "getPacketNumberSpace h l = Some s" and p: "entry (ns_history s) (pk_PacketNumber p) = Some p"
  obtains hist where "DeclareLost (ns_history s) (pk_PacketNumber p) = Inr hist"
    "removeFromBytesInFlight h p = Inr (h\<lparr>sp_bytesInFlight := sp_bytesInFlight h - flight p\<rparr>, p\<lparr>pk_includedInBytesInFlight := False\<rparr>)"
    "handler_inv D (set_space (h\<lparr>sp_bytesInFlight := sp_bytesInFlight h - flight p\<rparr>) l (s\<lparr>ns_history := hist\<rparr>))"
    "entry hist = (entry (ns_history s))(pk_PacketNumber p := None)" "sh_pathProbePackets hist = sh_pathProbePackets (ns_history s)"
proof -
  obtain hist where hist: "DeclareLost (ns_history s) (pk_PacketNumber p) = Inr hist" "space_inv (s\<lparr>ns_history := hist\<rparr>)"
    "entry hist = (entry (ns_history s))(pk_PacketNumber p := None)" "sh_pathProbePackets hist = sh_pathProbePackets (ns_history s)"
    "in_flight hist = in_flight (ns_history s) - flight p"
    by (rule lost_space [OF handler_invD(1) [OF inv s] p]) (rule that)
  define h1 where "h1 = set_space h l (s\<lparr>ns_history := hist\<rparr>)"
  have inv1: "handler_inv (D + flight p) h1"
    unfolding h1_def by (rule handler_inv_set_space [OF inv s hist(2)]) (simp add: hist(5))
  note rm = removeFromBytesInFlight_eq [OF inv1 D]
  have "flight p \<le> sp_bytesInFlight h"
    using flights_nonneg [OF inv1] handler_invD(2) [OF inv1] D by (simp add: h1_def)
  then have "removeFromBytesInFlight h p = Inr (h\<lparr>sp_bytesInFlight := sp_bytesInFlight h - flight p\<rparr>, p\<lparr>pk_includedInBytesInFlight := False\<rparr>)"
    by (auto simp: removeFromBytesInFlight_def flight_def)
  moreover have "handler_inv D (set_space (h\<lparr>sp_bytesInFlight := sp_bytesInFlight h - flight p\<rparr>) l (s\<lparr>ns_history := hist\<rparr>))"
    using rm(2) by (simp add: h1_def set_space_update)
  ultimately show thesis
    using that hist(1,3,4) by blast
qed

lemma QueueProbePacket_ok:
  assumes inv: "handler_inv 0 h" and s: "getPacketNumberSpace h l = Some s"
  obtains h' evs where "QueueProbePacket h l = Inr (h', evs, HasOutstandingPackets (ns_history s))" "handler_inv 0 h'" "ctx h' = ctx h"
proof -
  have hi: "hist_inv (ns_history s)"
    using handler_invD(1) [OF inv s] by (simp add: space_inv_def)
  note ok = hist_invD(1) [OF hi]
  show thesis
  proof (cases "FirstOutstanding (ns_history s)")
    case None
    then show ?thesis
      using FirstOutstanding_iff [OF ok] inv s by (intro that [of h "[]"]) (simp_all add: QueueProbePacket_def)
  next
    case (Some p)
    note e = FirstOutstanding_entry [OF ok Some]
    have pk: "packet_ok p" "regular p"
      using hist_invD(2) [OF hi e(1)] e(2) by (simp_all add: outstanding_def regular_def)
    obtain hist where hist: "DeclareLost (ns_history s) (pk_PacketNumber p) = Inr hist"
      "removeFromBytesInFlight h p = Inr (h\<lparr>sp_bytesInFlight := sp_bytesInFlight h - flight p\<rparr>, p\<lparr>pk_includedInBytesInFlight := False\<rparr>)"
      "handler_inv 0 (set_space (h\<lparr>sp_bytesInFlight := sp_bytesInFlight h - flight p\<rparr>) l (s\<lparr>ns_history := hist\<rparr>))"
      by (rule take_regular [OF inv _ s e(1)]) (simp, rule that)
    have "queueFramesForRetransmission p = Inr (handler_events OnLost p)"
      using queueFramesForRetransmission_eq [OF pk, of "pk_includedInBytesInFlight p"] by simp
    then have "QueueProbePacket h l = Inr (set_space (h\<lparr>sp_bytesInFlight := sp_bytesInFlight h - flight p\<rparr>) l (s\<lparr>ns_history := hist\<rparr>), handler_events OnLost p, True)"
      using s Some hist(1,2) by (simp add: QueueProbePacket_def)
    moreover have "HasOutstandingPackets (ns_history s)"
      using FirstOutstanding_iff [OF ok] Some by simp
    moreover have "ctx (set_space (h\<lparr>sp_bytesInFlight := sp_bytesInFlight h - flight p\<rparr>) l (s\<lparr>ns_history := hist\<rparr>)) = ctx h"
      using s by (cases l) (auto simp: ctx_def set_space_def getPacketNumberSpace_def)
    ultimately show ?thesis
      using that hist(3) by simp
  qed
qed

lemma drop_in_flight_fold:
  assumes "\<forall>p\<in>set ps. 0 \<le> flight p" and "sum_list (map flight ps) \<le> sp_bytesInFlight h"
  shows "rfold drop_in_flight h ps = Inr (h\<lparr>sp_bytesInFlight := sp_bytesInFlight h - sum_list (map flight ps)\<rparr>)"
  using assms
proof (induction ps arbitrary: h)
  case (Cons p ps)
  have "0 \<le> sum_list (map flight ps)"
    using Cons.prems(1) by (intro sum_list_nonneg) auto
  then have "flight p \<le> sp_bytesInFlight h"
    using Cons.prems(2) by simp
  then have "drop_in_flight h p = Inr (h\<lparr>sp_bytesInFlight := sp_bytesInFlight h - flight p\<rparr>)"
    by (auto simp: drop_in_flight_def removeFromBytesInFlight_def flight_def)
  then show ?case
    using Cons.IH [of "h\<lparr>sp_bytesInFlight := sp_bytesInFlight h - flight p\<rparr>"] Cons.prems by (simp add: algebra_simps)
qed simp

lemma in_flight_sum: "hist_inv hist \<Longrightarrow> in_flight hist = sum_list (map flight (history_Packets hist))"
proof -
  assume hi: "hist_inv hist"
  have "(if pk_skippedPacket p then 0 else flight p) = flight p" if "p \<in> set (history_Packets hist)" for p
    using flight_irregular [OF hist_inv_Packets [OF hi that]] by (auto simp: regular_def)
  then show ?thesis
    unfolding in_flight_Packets by (intro arg_cong [where f = sum_list] map_cong) simp_all
qed

lemma drop_space:
  assumes inv: "handler_inv 0 h" and s: "getPacketNumberSpace h l = Some s"
  shows "rfold drop_in_flight h (history_Packets (ns_history s)) = Inr (h\<lparr>sp_bytesInFlight := sp_bytesInFlight h - in_flight (ns_history s)\<rparr>)"
    and "in_flight (ns_history s) \<le> flights h"
proof -
  have hi: "hist_inv (ns_history s)"
    using handler_invD(1) [OF inv s] by (simp add: space_inv_def)
  have "getPacketNumberSpace h l' = Some s' \<Longrightarrow> 0 \<le> in_flight (ns_history s')" for l' s'
    using handler_invD(1) [OF inv] in_flight_nonneg by (auto simp: space_inv_def)
  from this [of EncryptionInitial] this [of EncryptionHandshake] this [of Encryption1RTT] s
  show le: "in_flight (ns_history s) \<le> flights h"
    by (cases l) (auto simp: flights_def space_flight_def getPacketNumberSpace_def split: option.splits)
  show "rfold drop_in_flight h (history_Packets (ns_history s)) = Inr (h\<lparr>sp_bytesInFlight := sp_bytesInFlight h - in_flight (ns_history s)\<rparr>)"
    unfolding in_flight_sum [OF hi] using le inv hi
    by (intro drop_in_flight_fold) (auto simp: in_flight_sum [OF hi] handler_inv_def dest: hist_inv_Packets flight_nonneg)
qed

lemma reset_pto_same: "same_spaces h (reset_pto h t)" "sp_bytesInFlight (reset_pto h t) = sp_bytesInFlight h" "ctx (reset_pto h t) = ctx h"
  by (simp_all add: reset_pto_def same_spaces_def setLossDetectionTimer_def ctx_def)

lemma reset_pto_inv: "handler_inv D h \<Longrightarrow> handler_inv D (reset_pto h t)"
  using same_spaces_inv [OF _ reset_pto_same(1), of D h t 0] by (simp add: reset_pto_same(2))

lemma drop_initial_ok:
  assumes inv: "handler_inv 0 h"
  obtains h' where "DropPackets h EncryptionInitial now = Inr h'" "handler_inv 0 h'"
    "ctx h' = ctx (h\<lparr>sp_initialPackets := None\<rparr>)"
proof (cases "sp_initialPackets h")
  case None
  then show thesis
    using inv by (intro that [of h]) (simp_all add: DropPackets_def ctx_def)
next
  case (Some s)
  then have s: "getPacketNumberSpace h EncryptionInitial = Some s"
    by (simp add: getPacketNumberSpace_def)
  let ?h = "h\<lparr>sp_bytesInFlight := sp_bytesInFlight h - in_flight (ns_history s), sp_initialPackets := None\<rparr>"
  have "getPacketNumberSpace ?h l = Some t \<Longrightarrow> getPacketNumberSpace h l = Some t" for l t
    by (cases l) (simp_all add: getPacketNumberSpace_def)
  then have "handler_inv 0 ?h"
    using inv Some by (auto simp: handler_inv_def flights_def space_flight_def)
  moreover have "DropPackets h EncryptionInitial now = Inr (reset_pto ?h now)"
    using drop_space(1) [OF inv s] Some by (simp add: DropPackets_def)
  ultimately show thesis
    using reset_pto_same(3) by (intro that [of "reset_pto ?h now"]) (simp_all add: reset_pto_inv reset_pto_same(3) ctx_def)
qed

lemma drop_handshake_ok:
  assumes inv: "handler_inv 0 h"
  obtains h' where "DropPackets h EncryptionHandshake now = Inr h'" "handler_inv 0 h'"
    "ctx h' = ctx (h\<lparr>sp_handshakePackets := None, sp_handshakeConfirmed := sp_handshakeConfirmed h \<or> sp_handshakePackets h \<noteq> None,
      sp_peerCompletedAddressValidation := sp_peerCompletedAddressValidation h \<or> sp_perspective h = PerspectiveClient\<rparr>)"
proof -
  define h1 where "h1 = (if sp_perspective h = PerspectiveClient then h\<lparr>sp_peerCompletedAddressValidation := True\<rparr> else h)"
  have same: "same_spaces h h1" "sp_bytesInFlight h1 = sp_bytesInFlight h"
    by (simp_all add: h1_def same_spaces_def)
  have inv1: "handler_inv 0 h1"
    using same_spaces_inv [OF inv same(1), of 0] same(2) by simp
  have hs: "sp_handshakePackets h1 = sp_handshakePackets h"
    by (simp add: h1_def)
  show thesis
  proof (cases "sp_handshakePackets h")
    case None
    then show ?thesis
      using inv1 hs by (intro that [of h1]) (auto simp: DropPackets_def ctx_def h1_def)
  next
    case (Some s)
    then have s: "getPacketNumberSpace h1 EncryptionHandshake = Some s"
      by (simp add: getPacketNumberSpace_def hs)
    let ?h = "h1\<lparr>sp_bytesInFlight := sp_bytesInFlight h1 - in_flight (ns_history s), sp_handshakeConfirmed := True, sp_handshakePackets := None\<rparr>"
    have "getPacketNumberSpace ?h l = Some t \<Longrightarrow> getPacketNumberSpace h1 l = Some t" for l t
      by (cases l) (simp_all add: getPacketNumberSpace_def)
    then have "handler_inv 0 ?h"
      using inv1 Some hs by (auto simp: handler_inv_def flights_def space_flight_def)
    moreover have "DropPackets h EncryptionHandshake now = Inr (reset_pto ?h now)"
      using drop_space(1) [OF inv1 s] Some hs by (simp add: DropPackets_def h1_def [symmetric] Let_def)
    ultimately show ?thesis
      using Some by (intro that [of "reset_pto ?h now"]) (simp_all add: reset_pto_inv reset_pto_same(3), auto simp: ctx_def h1_def)
  qed
qed

text \<open>Removing a packet does not touch the entries above it.\<close>

lemma clean_skipped_above: "clean_skipped ps i = (ps', j) \<Longrightarrow> i \<le> k \<Longrightarrow> ps' ! k = ps ! k"
proof (induction i arbitrary: ps)
  case (Suc i)
  then show ?case
    by (cases "ps ! i") (auto split: if_splits)
qed simp

lemma history_Remove_above:
  assumes "sent_ok hist" and "entry hist pn = Some p" and "history_Remove hist pn = Inr hist'" and "pn < q"
  shows "entry hist' q = entry hist q"
proof -
  obtain i where i: "getIndex hist pn = Inr (Some i)" "i < length (sh_packets hist)" "sh_packets hist ! i = Some p" "pn = history_first hist + int i"
    using entry_index [OF assms(1,2)] by blast
  have pre: "sent_pre hist"
    using assms(1) by (simp add: sent_ok_def)
  define h1 where "h1 = without hist i p"
  have h1: "sent_pre h1" "entry h1 = (entry hist)(pn := None)"
    using without_ok [OF pre i(2,3)] i(4) by (simp_all add: h1_def)
  obtain ps j where c: "clean_skipped (sh_packets h1) i = (ps, j)"
    by fastforce
  have i1: "i \<le> length (sh_packets h1)"
    using i(2) by (simp add: h1_def)
  define h2 where "h2 = h1\<lparr>sh_packets := ps\<rparr>"
  have pre2: "sent_pre h2"
    using clean_skipped_ok(1) [OF h1(1) c i1] by (simp add: h2_def)
  have first: "history_first h2 = history_first h1" "sh_highestPacketNumber h2 = sh_highestPacketNumber h1" "history_first h1 = history_first hist"
    using clean_skipped_props [OF c i1] by (simp_all add: h2_def h1_def history_first_def)
  have "entry h2 q = entry h1 q"
  proof (cases "history_first h1 \<le> q \<and> q \<le> sh_highestPacketNumber h1")
    case True
    then have "i \<le> nat (q - history_first h1)"
      using assms(4) i(4) first(3) by linarith
    then have "ps ! nat (q - history_first h1) = sh_packets h1 ! nat (q - history_first h1)"
      by (rule clean_skipped_above [OF c])
    then show ?thesis
      using True unfolding entry_def first(1,2) by (simp add: h2_def)
  next
    case False
    then show ?thesis
      unfolding entry_def first(1,2) by auto
  qed
  moreover have "hist' = (if j = 0 then h2\<lparr>sh_packets := cleanupStart (sh_packets h2)\<rparr> else h2)"
    using assms(3) c by (auto simp: history_Remove_def i(1) take_out_eq [OF pre i(2,3)] h1_def [symmetric] Let_def h2_def split: if_splits)
  ultimately show ?thesis
    using cleanup_ok(2) [OF pre2, of q] h1(2) assms(4) by (auto split: if_splits)
qed

lemma drop_0RTT_ok:
  assumes "handler_inv D h" and "0 \<le> D" and "\<forall>p\<in>set ps. entry (ns_history (sp_appDataPackets h)) (pk_PacketNumber p) = Some p"
    and "sorted_wrt (\<lambda>p q. pk_PacketNumber p < pk_PacketNumber q) ps"
  shows "\<exists>h'. drop_0RTT ps h = Inr h' \<and> handler_inv D h' \<and> ctx h' = ctx h"
  using assms(1,3,4)
proof (induction ps arbitrary: h)
  case (Cons p ps)
  let ?s = "sp_appDataPackets h"
  have e: "entry (ns_history ?s) (pk_PacketNumber p) = Some p"
    using Cons.prems(2) by simp
  have si: "space_inv ?s" and hi: "hist_inv (ns_history ?s)"
    using handler_invD(1) [OF Cons.prems(1) get_app] by (simp_all add: space_inv_def)
  obtain hist where hist: "history_Remove (ns_history ?s) (pk_PacketNumber p) = Inr hist" "sent_ok hist"
    "sh_highestPacketNumber hist = sh_highestPacketNumber (ns_history ?s)" "sh_pathProbePackets hist = sh_pathProbePackets (ns_history ?s)"
    "entry hist (pk_PacketNumber p) = None"
    "\<forall>q. entry hist q = entry (ns_history ?s) q \<or> entry hist q = None \<and> (q = pk_PacketNumber p \<or> (\<exists>s. entry (ns_history ?s) q = Some s \<and> pk_skippedPacket s))"
    "\<forall>f. (\<forall>p. pk_skippedPacket p \<longrightarrow> f p = 0) \<longrightarrow> weight f (sh_packets hist) = weight f (sh_packets (ns_history ?s)) - f p"
    by (rule history_Remove_ok [OF hist_invD(1) [OF hi] e]) (rule that)
  have "hist_inv hist"
  proof (rule hist_inv_shrink [OF hi hist(2)])
    show "entry hist pn = entry (ns_history ?s) pn \<or> entry hist pn = None" for pn
      using hist(6) [rule_format, of pn] by auto
  qed (simp add: hist(4))
  then have si': "space_inv (?s\<lparr>ns_history := hist\<rparr>)"
    using si by (simp add: space_inv_def hist(3))
  have fl: "in_flight hist = in_flight (ns_history ?s) - flight p"
    using hist(7) [rule_format, of "\<lambda>p. if pk_skippedPacket p then 0 else flight p"] flight_irregular [OF hist_invD(2) [OF hi e]]
    by (auto simp: in_flight_def regular_def)
  define h1 where "h1 = set_app_history h hist"
  have inv1: "handler_inv (D + flight p) h1"
    unfolding h1_def set_app_history_eq by (rule handler_inv_set_space [OF Cons.prems(1) get_app si']) (simp add: fl)
  have "flight p \<le> sp_bytesInFlight h"
    using flights_nonneg [OF inv1] handler_invD(2) [OF inv1] assms(2) by (simp add: h1_def set_app_history_def)
  then have d: "drop_in_flight h p = Inr (h\<lparr>sp_bytesInFlight := sp_bytesInFlight h - flight p\<rparr>)"
    by (auto simp: drop_in_flight_def removeFromBytesInFlight_def flight_def)
  define h2 where "h2 = set_app_history (h\<lparr>sp_bytesInFlight := sp_bytesInFlight h - flight p\<rparr>) hist"
  have "h2 = h1\<lparr>sp_bytesInFlight := sp_bytesInFlight h1 - flight p\<rparr>"
    by (simp add: h1_def h2_def set_app_history_def)
  then have inv2: "handler_inv D h2"
    using removeFromBytesInFlight_eq(2) [OF inv1 assms(2)] by simp
  have "\<forall>q\<in>set ps. entry (ns_history (sp_appDataPackets h2)) (pk_PacketNumber q) = Some q"
  proof
    fix q assume q: "q \<in> set ps"
    then have "pk_PacketNumber p < pk_PacketNumber q"
      using Cons.prems(3) by simp
    from history_Remove_above [OF hist_invD(1) [OF hi] e hist(1) this] show "entry (ns_history (sp_appDataPackets h2)) (pk_PacketNumber q) = Some q"
      using Cons.prems(2) q by (simp add: h2_def set_app_history_def)
  qed
  from Cons.IH [OF inv2 this] obtain h' where h': "drop_0RTT ps h2 = Inr h'" "handler_inv D h'" "ctx h' = ctx h2"
    using Cons.prems(3) by auto
  have "ctx h2 = ctx h"
    by (simp add: h2_def set_app_history_def ctx_def)
  then show ?case
    using h' d hist(1) Cons.prems(1) by (auto simp: h2_def)
qed simp

lemma DropPackets_0RTT_ok:
  assumes inv: "handler_inv 0 h"
  obtains h' where "DropPackets h Encryption0RTT now = Inr h'" "handler_inv 0 h'" "ctx h' = ctx h"
proof -
  let ?hist = "ns_history (sp_appDataPackets h)"
  have ok: "sent_ok ?hist"
    using handler_invD(1) [OF inv get_app] by (simp add: space_inv_def hist_inv_def)
  obtain h' where h': "drop_0RTT (history_Packets ?hist) h = Inr h'" "handler_inv 0 h'" "ctx h' = ctx h"
    using drop_0RTT_ok [OF inv, of "history_Packets ?hist"] history_Packets_entry [OF ok] history_Packets_sorted [OF ok] by auto
  then show thesis
    by (intro that [of "reset_pto h' now"]) (simp_all add: DropPackets_def reset_pto_inv reset_pto_same(3))
qed

section \<open>Timeouts\<close>

lemma getLossTimeAndSpace_present:
  obtains t l where "getLossTimeAndSpace h = (t, Some l)" "t \<noteq> 0 \<Longrightarrow> getPacketNumberSpace h l \<noteq> None" "l \<noteq> Encryption0RTT"
proof -
  have "\<exists>t l. getLossTimeAndSpace h = (t, Some l) \<and> (t \<noteq> 0 \<longrightarrow> getPacketNumberSpace h l \<noteq> None) \<and> l \<noteq> Encryption0RTT"
    by (cases "sp_initialPackets h"; cases "sp_handshakePackets h") (auto simp: getLossTimeAndSpace_def getPacketNumberSpace_def Let_def)
  then show thesis
    using that by blast
qed

text \<open>The state of the handshake: without a space for Handshake packets it is confirmed, and a server need not wait for address validation.\<close>

definition conf_inv :: "sentPacketHandler \<Rightarrow> bool" where
  "conf_inv h \<longleftrightarrow> (sp_handshakePackets h = None \<longrightarrow> sp_handshakeConfirmed h \<and> sp_peerCompletedAddressValidation h) \<and>
     (sp_perspective h = PerspectiveServer \<longrightarrow> sp_peerCompletedAddressValidation h)"

lemma conf_inv_ctx: "ctx h' = ctx h \<Longrightarrow> conf_inv h' \<longleftrightarrow> conf_inv h"
  by (auto simp: ctx_def conf_inv_def)

lemma getPTOTimeAndSpace_present:
  assumes "conf_inv h" and "getPTOTimeAndSpace h now = (t, r)"
  shows "(r = None \<longrightarrow> t = 0) \<and> (\<forall>l. r = Some l \<longrightarrow> getPacketNumberSpace h l \<noteq> None \<and> l \<noteq> Encryption0RTT)"
proof (cases "\<not> sp_handshakeConfirmed h \<and> \<not> hasOutstandingCryptoPackets h")
  case True
  then show ?thesis
    using assms by (auto simp: getPTOTimeAndSpace_def getPacketNumberSpace_def conf_inv_def Let_def split: if_splits)
next
  case False
  define good :: "Time \<times> EncryptionLevel option \<Rightarrow> bool" where
    "good r = ((snd r = None \<longrightarrow> fst r = 0) \<and> (\<forall>l. snd r = Some l \<longrightarrow> getPacketNumberSpace h l \<noteq> None \<and> l \<noteq> Encryption0RTT))" for r
  have step: "good (pto_of_space s l d r)" if "good r" "getPacketNumberSpace h l \<noteq> None" "l \<noteq> Encryption0RTT" for s l d r
    using that by (auto simp: good_def pto_of_space_def Let_def)
  define r1 where "r1 = (case sp_initialPackets h of None \<Rightarrow> (0, None) | Some s \<Rightarrow> pto_of_space s EncryptionInitial (getScaledPTO h False) (0, None))"
  define r2 where "r2 = (case sp_handshakePackets h of None \<Rightarrow> r1 | Some s \<Rightarrow> pto_of_space s EncryptionHandshake (getScaledPTO h False) r1)"
  define r3 where "r3 = (if sp_handshakeConfirmed h then pto_of_space (sp_appDataPackets h) Encryption1RTT (getScaledPTO h True) r2 else r2)"
  have z: "good (0, None)"
    by (simp add: good_def)
  have "good r1"
    using step [OF z, of EncryptionInitial] z by (auto simp: r1_def getPacketNumberSpace_def split: option.split)
  then have "good r2"
    using step [of r1 EncryptionHandshake] by (auto simp: r2_def getPacketNumberSpace_def split: option.split)
  then have "good r3"
    using step [of r2 Encryption1RTT] by (auto simp: r3_def getPacketNumberSpace_def)
  moreover have "getPTOTimeAndSpace h now = r3"
    unfolding getPTOTimeAndSpace_def if_not_P [OF False] Let_def r3_def r2_def r1_def by (rule refl)
  ultimately have "good (t, r)"
    using assms(2) by simp
  then show ?thesis
    by (simp add: good_def)
qed

lemma pto_fired_ok:
  assumes inv: "handler_inv 0 h" and l: "l \<noteq> Encryption0RTT"
  obtains h' where "pto_fired h l rnd = Inr h'" "handler_inv 0 h'" "ctx h' = ctx h" "sp_numProbesToSend h' = sp_numProbesToSend h + 2"
    "sp_ptoMode h' = (case l of EncryptionInitial \<Rightarrow> SendPTOInitial | EncryptionHandshake \<Rightarrow> SendPTOHandshake | _ \<Rightarrow> SendPTOAppData)"
proof -
  define h1 where "h1 = h\<lparr>sp_ptoCount := sp_ptoCount h + 1, sp_numProbesToSend := sp_numProbesToSend h + 2\<rparr>"
  have q1: "quiet h h1"
    by (simp add: h1_def quiet_def same_spaces_def ctx_def)
  have inv1: "handler_inv 0 h1"
    by (rule quiet_inv [OF q1 inv])
  have mode: "quiet h2 (h2\<lparr>sp_ptoMode := m\<rparr>)" for h2 m
    by (simp add: quiet_def same_spaces_def ctx_def)
  show thesis
  proof (cases "l = Encryption1RTT")
    case False
    define m where "m = (if l = EncryptionInitial then SendPTOInitial else SendPTOHandshake)"
    have "pto_fired h l rnd = Inr (h1\<lparr>sp_ptoMode := m\<rparr>)"
      using False l by (cases l) (simp_all add: pto_fired_def Let_def h1_def m_def)
    moreover have "ctx (h1\<lparr>sp_ptoMode := m\<rparr>) = ctx h"
      using quiet_ctx [OF mode] quiet_ctx [OF q1] by simp
    moreover have "m = (case l of EncryptionInitial \<Rightarrow> SendPTOInitial | EncryptionHandshake \<Rightarrow> SendPTOHandshake | _ \<Rightarrow> SendPTOAppData)"
      using False l by (cases l) (simp_all add: m_def)
    ultimately show ?thesis
      using quiet_inv [OF mode inv1] by (intro that [of "h1\<lparr>sp_ptoMode := m\<rparr>"]) (simp_all add: h1_def)
  next
    case True
    obtain s pn where pop: "PopPacketNumber h1 Encryption1RTT rnd = Inr (set_space h1 Encryption1RTT s, pn)" "popped s pn"
      "in_flight (ns_history s) = in_flight (ns_history (sp_appDataPackets h1))"
      by (rule PopPacketNumber_ok [OF handler_invD(1) [OF inv1 get_app] get_app]) (rule that)
    have p: "hist_inv (ns_history s)" "next_number (ns_history s) pn"
      using pop(2) by (simp_all add: popped_def)
    obtain hist where hist: "SkippedPacket (ns_history s) pn = Inr hist" "hist_inv hist" "sh_highestPacketNumber hist = pn" "in_flight hist = in_flight (ns_history s)"
      by (rule skip_space [OF p]) (rule that)
    have si: "space_inv (s\<lparr>ns_history := hist\<rparr>)"
      by (rule popped_space_inv [OF pop(2) hist(2,3)]) simp_all
    define h2 where "h2 = set_space h1 Encryption1RTT (s\<lparr>ns_history := hist\<rparr>)"
    have inv2: "handler_inv 0 h2"
      unfolding h2_def by (rule handler_inv_set_space [OF inv1 get_app si]) (simp add: hist(4) pop(3))
    have "pto_fired h l rnd = Inr (h2\<lparr>sp_ptoMode := SendPTOAppData\<rparr>)"
      using True pop(1) hist(1) by (simp add: pto_fired_def Let_def h1_def [symmetric] h2_def set_app_history_def set_space_def)
    moreover have "ctx h2 = ctx h"
      using ctx_set_space [of h1 Encryption1RTT] quiet_ctx [OF q1] get_app by (simp add: h2_def)
    ultimately show ?thesis
      using quiet_inv [OF mode inv2] True by (intro that) (assumption | simp add: ctx_def h2_def set_space_def h1_def)+
  qed
qed

lemma timeout_pto_ok:
  assumes inv: "handler_inv 0 h" and conf: "conf_inv h"
  obtains h' where "timeout_pto h now rnd = Inr h'" "handler_inv 0 h'" "ctx h' = ctx h"
proof (cases "sp_bytesInFlight h = 0 \<and> \<not> sp_peerCompletedAddressValidation h")
  case True
  then have "sp_handshakePackets h \<noteq> None"
    using conf by (auto simp: conf_inv_def)
  have "quiet h (h\<lparr>sp_ptoCount := c, sp_numProbesToSend := n, sp_ptoMode := m\<rparr>)" for c n m
    by (simp add: quiet_def same_spaces_def ctx_def)
  from quiet_inv [OF this inv] quiet_ctx [OF this] show thesis
    using True \<open>sp_handshakePackets h \<noteq> None\<close> by (cases "sp_initialPackets h \<noteq> None") (auto simp: timeout_pto_def Let_def intro: that)
next
  case False
  obtain t r where r: "getPTOTimeAndSpace h now = (t, r)"
    by fastforce
  note pres = getPTOTimeAndSpace_present [OF conf r]
  show thesis
  proof (cases r)
    case None
    then show ?thesis
      using False r pres inv by (intro that [of h]) (auto simp: timeout_pto_def)
  next
    case (Some l)
    then obtain s where s: "getPacketNumberSpace h l = Some s" and l: "l \<noteq> Encryption0RTT"
      using pres by auto
    obtain h' where h': "pto_fired h l rnd = Inr h'" "handler_inv 0 h'" "ctx h' = ctx h"
      by (rule pto_fired_ok [OF inv l]) (rule that)
    have "timeout_pto h now rnd = (if t = 0 \<or> \<not> HasOutstandingPackets (ns_history s) \<and> \<not> HasOutstandingPathProbes (ns_history s) \<and>
        \<not> sp_peerCompletedAddressValidation h then Inr h else Inr h')"
      using r Some the_space_Some [OF s] h'(1) unfolding timeout_pto_def if_not_P [OF False] by simp
    then show ?thesis
      using that [of h] that [of h'] inv h'(2,3) by (simp split: if_splits)
  qed
qed

lemma OnLossDetectionTimeout_ok:
  assumes inv: "handler_inv 0 h" and conf: "conf_inv h" and now: "0 \<le> now"
  obtains h' evs where "OnLossDetectionTimeout h now rnd = Inr (h', evs)" "handler_inv 0 h'" "ctx h' = ctx h"
proof -
  obtain h1 evs where h1: "(if sp_handshakeConfirmed h then detectLostPathProbes h now else Inr (h, [])) = Inr (h1, evs)" "handler_inv 0 h1" "ctx h1 = ctx h"
    by (rule detectLostPathProbes_ok [OF inv, of now]) (use that inv in \<open>cases "sp_handshakeConfirmed h"; simp\<close>)
  obtain t l where tl: "getLossTimeAndSpace h1 = (t, Some l)" "t \<noteq> 0 \<Longrightarrow> getPacketNumberSpace h1 l \<noteq> None"
    by (rule getLossTimeAndSpace_present) (rule that)
  show thesis
  proof (cases "t = 0")
    case False
    then obtain s where s: "getPacketNumberSpace h1 l = Some s"
      using tl(2) by auto
    obtain h2 es where h2: "detectLostPackets h1 now l = Inr (h2, es)" "handler_inv 0 h2" "ctx h2 = ctx h1"
      using detectLostPackets_ok [OF h1(2) _ s now] by auto
    then show ?thesis
      using False h1 tl(1) by (intro that [of "setLossDetectionTimer h2 now" "evs @ es"]) (simp_all add: OnLossDetectionTimeout_def)
  next
    case True
    have "conf_inv h1"
      using conf conf_inv_ctx [OF h1(3)] by simp
    then obtain h2 where h2: "timeout_pto h1 now rnd = Inr h2" "handler_inv 0 h2" "ctx h2 = ctx h1"
      by (rule timeout_pto_ok [OF h1(2)])
    then show ?thesis
      using True h1 tl(1) by (intro that [of "setLossDetectionTimer h2 now" evs]) (simp_all add: OnLossDetectionTimeout_def)
  qed
qed

section \<open>Retry and migration\<close>

lemma space_inv_new: "0 \<le> pn \<Longrightarrow> space_inv (newPacketNumberSpace pn b rnd)"
proof -
  assume "0 \<le> pn"
  have "entry newSentPacketHistory q = None" for q
    by (auto simp: entry_def newSentPacketHistory_def history_first_def InvalidPacketNumber_def)
  moreover have "sent_ok newSentPacketHistory"
    by (simp add: sent_ok_def sent_pre_def newSentPacketHistory_def numbered_def history_first_def InvalidPacketNumber_def)
  ultimately have "hist_inv newSentPacketHistory"
    by (simp add: hist_inv_def) (simp add: newSentPacketHistory_def)
  then show ?thesis
    using \<open>0 \<le> pn\<close> by (simp add: space_inv_def newPacketNumberSpace_def newSequentialPacketNumberGenerator_def newSkippingPacketNumberGenerator_def
      generateNewSkip_def) (simp add: newSentPacketHistory_def)
qed

lemma in_flight_new: "in_flight (ns_history (newPacketNumberSpace pn b rnd)) = 0"
  by (simp add: in_flight_def newPacketNumberSpace_def newSentPacketHistory_def)

lemma pn_Peek_nonneg: "0 \<le> pn_next g \<Longrightarrow> 0 \<le> pn_Peek g"
  by (cases g) auto

lemma retry_queue_ok:
  assumes "\<forall>p\<in>set ps. packet_ok p \<and> \<not> pk_isPathProbePacket p"
  shows "\<exists>evs. retry_queue ps = Inr evs"
proof -
  have "\<exists>evs'. rfold (\<lambda>evs p. rbind (queueFramesForRetransmission p) (\<lambda>es. Inr (evs @ es))) evs
      (filter (\<lambda>p. \<not> pk_declaredLost p \<and> \<not> pk_skippedPacket p) ps) = Inr evs'" for evs
    using assms
  proof (induction ps arbitrary: evs)
    case (Cons p ps)
    show ?case
    proof (cases "\<not> pk_declaredLost p \<and> \<not> pk_skippedPacket p")
      case True
      then have "packet_ok p" "regular p"
        using Cons.prems by (simp_all add: regular_def)
      from queueFramesForRetransmission_eq [OF this, of "pk_includedInBytesInFlight p"] show ?thesis
        using True Cons.IH [of "evs @ handler_events OnLost p"] Cons.prems by simp
    next
      case False
      then show ?thesis
        using Cons.IH [of evs] Cons.prems by auto
    qed
  qed simp
  then show ?thesis
    by (simp add: retry_queue_def)
qed

text \<open>A client gets a Retry when it has only sent Initial and 0-RTT packets.\<close>

definition before_retry :: "sentPacketHandler \<Rightarrow> bool" where
  "before_retry h \<longleftrightarrow> (case sp_initialPackets h of None \<Rightarrow> False | Some s \<Rightarrow> \<forall>p\<in>set (history_Packets (ns_history s)). \<not> pk_isPathProbePacket p) \<and>
     (case sp_handshakePackets h of None \<Rightarrow> False | Some s \<Rightarrow> history_Packets (ns_history s) = []) \<and>
     (\<forall>p\<in>set (history_Packets (ns_history (sp_appDataPackets h))). \<not> pk_isPathProbePacket p)"

lemma ResetForRetry_ok:
  assumes inv: "handler_inv 0 h" and r: "before_retry h"
  obtains h' evs where "ResetForRetry h now rnd = Inr (h', evs)" "handler_inv 0 h'" "ctx h' = ctx h"
proof -
  obtain i where i: "sp_initialPackets h = Some i" "\<forall>p\<in>set (history_Packets (ns_history i)). \<not> pk_isPathProbePacket p"
    using r by (auto simp: before_retry_def split: option.splits)
  obtain hs where hs: "sp_handshakePackets h = Some hs" "history_Packets (ns_history hs) = []"
    using r by (auto simp: before_retry_def split: option.splits)
  let ?a = "sp_appDataPackets h"
  have si: "space_inv i" and sa: "space_inv ?a" and sh: "space_inv hs"
    using handler_invD(1) [OF inv, of EncryptionInitial] handler_invD(1) [OF inv get_app] handler_invD(1) [OF inv, of EncryptionHandshake] i(1) hs(1)
    by (simp_all add: getPacketNumberSpace_def)
  obtain e1 e2 where e: "retry_queue (history_Packets (ns_history i)) = Inr e1" "retry_queue (history_Packets (ns_history ?a)) = Inr e2"
    using retry_queue_ok [of "history_Packets (ns_history i)"] retry_queue_ok [of "history_Packets (ns_history ?a)"] i(2) r hist_inv_Packets si sa
    by (auto simp: before_retry_def space_inv_def)
  define r' where "r' = (if sp_ptoCount h = 0 then UpdateRTT (sp_rttStats h) (max minRTTAfterRetry (time_Sub now (first_send_time (history_Packets (ns_history i))))) 0
    else sp_rttStats h)"
  define i' where "i' = newPacketNumberSpace (pn_Peek (ns_pns i)) False 0"
  define a' where "a' = newPacketNumberSpace (pn_Peek (ns_pns ?a)) True rnd"
  define h' where "h' = h\<lparr>sp_bytesInFlight := 0, sp_rttStats := r', sp_initialPackets := Some i', sp_appDataPackets := a', sp_alarm := no_alarm, sp_ptoCount := 0\<rparr>"
  have "ResetForRetry h now rnd = Inr (h', e1 @ e2)"
    using i(1) e by (simp add: ResetForRetry_def h'_def r'_def i'_def a'_def Let_def)
  moreover have "space_inv i'" "space_inv a'"
    using si sa pn_Peek_nonneg by (auto simp: i'_def a'_def space_inv_def [of i] space_inv_def [of ?a] intro!: space_inv_new)
  moreover have "getPacketNumberSpace h' l = Some t \<Longrightarrow> t = i' \<or> t = hs \<or> t = a'" for l t
    using hs(1) by (cases l) (simp_all add: getPacketNumberSpace_def h'_def)
  moreover have "flights h' = 0"
    using hs in_flight_Packets [of "ns_history hs"] by (simp add: flights_def space_flight_def h'_def i'_def a'_def in_flight_new)
  ultimately have "ResetForRetry h now rnd = Inr (h', e1 @ e2)" "handler_inv 0 h'"
    using sh inv by (auto simp: handler_inv_def h'_def)
  moreover have "ctx h' = ctx h"
    using i(1) by (simp add: ctx_def h'_def)
  ultimately show thesis
    using that by blast
qed

lemma remove_in_array_props:
  assumes "n \<le> length arr" and "remove_in_array (arr, n) pn = (arr', n')"
  shows "length arr' = length arr \<and> n' \<le> n \<and> set arr' \<subseteq> set arr"
proof (cases "List.find (\<lambda>i. pk_PacketNumber (arr ! i) = pn) [0..<n]")
  case (Some i)
  then have "i < n"
    by (auto simp: find_Some_iff)
  moreover have "arr' = take i arr @ take (n - 1 - i) (drop (i + 1) arr) @ drop (n - 1) arr" "n' = n - 1"
    using Some assms(2) by (auto simp: remove_in_array_def)
  ultimately show ?thesis
    using assms(1) by (auto dest: in_set_takeD in_set_dropD)
qed (use assms(2) in \<open>simp add: remove_in_array_def\<close>)

lemma remove_all_probes_subset: "set (remove_all_probes qs) \<subseteq> set qs"
proof -
  have "foldl (\<lambda>(arr, n) i. remove_in_array (arr, n) (pk_PacketNumber (arr ! i))) (arr, n) is = (arr', n') \<Longrightarrow> n \<le> length arr \<Longrightarrow>
      n' \<le> length arr' \<and> set arr' \<subseteq> set arr" for "is" arr n arr' n'
  proof (induction "is" arbitrary: arr n)
    case (Cons i "is")
    obtain a m where am: "remove_in_array (arr, n) (pk_PacketNumber (arr ! i)) = (a, m)"
      by fastforce
    have p: "length a = length arr" "m \<le> n" "set a \<subseteq> set arr"
      using remove_in_array_props [OF Cons.prems(2) am] by auto
    have "n' \<le> length arr' \<and> set arr' \<subseteq> set a"
      using Cons.prems(1,2) am p by (intro Cons.IH [of a m]) simp_all
    then show ?case
      using p(3) by blast
  qed simp
  note fold = this
  obtain a m where am: "foldl (\<lambda>(arr, n) i. remove_in_array (arr, n) (pk_PacketNumber (arr ! i))) (qs, length qs) [0..<length qs] = (a, m)"
    by fastforce
  have "set a \<subseteq> set qs"
    using fold [OF am] by simp
  then show ?thesis
    using set_take_subset [of m a] by (simp add: remove_all_probes_def am)
qed

lemma migrate_fold:
  assumes "handler_inv D h" and "0 \<le> D" and "\<forall>p\<in>set ps. entry (ns_history (sp_appDataPackets h)) (pk_PacketNumber p) = Some p"
    and "sorted_wrt (\<lambda>p q. pk_PacketNumber p < pk_PacketNumber q) ps"
  shows "\<exists>h' evs'. rfold migrate_packet (h, evs) ps = Inr (h', evs') \<and> handler_inv D h' \<and> ctx h' = ctx h \<and>
    entry (ns_history (sp_appDataPackets h')) = without_packets ps (entry (ns_history (sp_appDataPackets h))) \<and>
    sh_pathProbePackets (ns_history (sp_appDataPackets h')) = sh_pathProbePackets (ns_history (sp_appDataPackets h))"
  using assms(1,3,4)
proof (induction ps arbitrary: h evs)
  case Nil
  then show ?case
    by (simp add: without_packets_def fun_eq_iff)
next
  case (Cons p ps)
  let ?s = "sp_appDataPackets h"
  have e: "entry (ns_history ?s) (pk_PacketNumber p) = Some p"
    using Cons.prems(2) by simp
  have ok: "packet_ok p"
    using handler_invD(1) [OF Cons.prems(1) get_app] hist_invD(2) e by (auto simp: space_inv_def)
  obtain hist where hist: "DeclareLost (ns_history ?s) (pk_PacketNumber p) = Inr hist"
    "removeFromBytesInFlight h p = Inr (h\<lparr>sp_bytesInFlight := sp_bytesInFlight h - flight p\<rparr>, p\<lparr>pk_includedInBytesInFlight := False\<rparr>)"
    "handler_inv D (set_space (h\<lparr>sp_bytesInFlight := sp_bytesInFlight h - flight p\<rparr>) Encryption1RTT (?s\<lparr>ns_history := hist\<rparr>))"
    "entry hist = (entry (ns_history ?s))(pk_PacketNumber p := None)" "sh_pathProbePackets hist = sh_pathProbePackets (ns_history ?s)"
    by (rule take_regular [OF Cons.prems(1) assms(2) get_app e]) (rule that)
  define h1 where "h1 = set_app_history (h\<lparr>sp_bytesInFlight := sp_bytesInFlight h - flight p\<rparr>) hist"
  have inv1: "handler_inv D h1"
    using hist(3) by (simp add: h1_def set_app_history_def set_space_def)
  have m: "migrate_packet (h, evs) p = Inr (h1, evs @ lost_events p)"
  proof (cases "regular p")
    case True
    have "removeFromBytesInFlight (set_app_history h hist) p = Inr (h1, p\<lparr>pk_includedInBytesInFlight := False\<rparr>)"
      using hist(2) by (auto simp: removeFromBytesInFlight_def set_app_history_def h1_def flight_def split: if_splits)
    then show ?thesis
      using True hist(1) by (simp add: migrate_packet_def Let_def regular_def queueFramesForRetransmission_eq [OF ok True] lost_events_def)
  next
    case False
    then show ?thesis
      using hist(1) flight_irregular [OF ok] by (auto simp: migrate_packet_def Let_def regular_def h1_def lost_events_def)
  qed
  have h1: "ns_history (sp_appDataPackets h1) = hist" "ctx h1 = ctx h"
    by (simp_all add: h1_def set_app_history_def ctx_def)
  have "\<forall>q\<in>set ps. entry (ns_history (sp_appDataPackets h1)) (pk_PacketNumber q) = Some q"
  proof
    fix q assume q: "q \<in> set ps"
    then have "pk_PacketNumber p < pk_PacketNumber q"
      using Cons.prems(3) by simp
    then show "entry (ns_history (sp_appDataPackets h1)) (pk_PacketNumber q) = Some q"
      using Cons.prems(2) q by (simp add: h1 hist(4))
  qed
  from Cons.IH [OF inv1 this, of "evs @ lost_events p"] show ?case
    using Cons.prems(3) m h1 hist(4,5) by (simp add: without_packets_Cons fun_upd_def)
qed

lemma MigratedPath_ok:
  assumes inv: "handler_inv 0 h"
  obtains h' evs where "MigratedPath h now sz = Inr (h', evs)" "handler_inv 0 h'" "ctx h' = ctx h"
    "\<forall>pn. entry (ns_history (sp_appDataPackets h')) pn = None" "sp_congestion h' = NewCubicSender (sp_rttStats h') sz True"
    "sh_pathProbePackets (ns_history (sp_appDataPackets h')) = remove_all_probes (sh_pathProbePackets (ns_history (sp_appDataPackets h)))"
proof -
  define h0 where "h0 = h\<lparr>sp_rttStats := ResetForPathMigration (sp_rttStats h)\<rparr>"
  have q0: "quiet h h0"
    by (simp add: h0_def quiet_def same_spaces_def ctx_def)
  let ?hist = "ns_history (sp_appDataPackets h0)"
  have inv0: "handler_inv 0 h0"
    by (rule quiet_inv [OF q0 inv])
  then have ok: "sent_ok ?hist"
    using handler_invD(1) [OF inv0 get_app] by (simp add: space_inv_def hist_inv_def)
  obtain h1 evs where h1: "rfold migrate_packet (h0, []) (history_Packets ?hist) = Inr (h1, evs)" "handler_inv 0 h1" "ctx h1 = ctx h0"
    "entry (ns_history (sp_appDataPackets h1)) = without_packets (history_Packets ?hist) (entry ?hist)"
    "sh_pathProbePackets (ns_history (sp_appDataPackets h1)) = sh_pathProbePackets ?hist"
    using migrate_fold [OF inv0 _ _ history_Packets_sorted [OF ok], of "[]"] history_Packets_entry [OF ok] by auto
  let ?hist1 = "ns_history (sp_appDataPackets h1)"
  define hist2 where "hist2 = ?hist1\<lparr>sh_pathProbePackets := remove_all_probes (sh_pathProbePackets ?hist1)\<rparr>"
  have "same_packets ?hist1 hist2"
    using remove_all_probes_subset by (simp add: hist2_def same_packets_def)
  note inv2 = set_app_history_inv [OF h1(2) this]
  define h2 where "h2 = setLossDetectionTimer ((set_app_history h1 hist2)\<lparr>sp_congestion := NewCubicSender (sp_rttStats (set_app_history h1 hist2)) sz True\<rparr>) now"
  have q2: "quiet (set_app_history h1 hist2) h2"
    by (simp add: h2_def quiet_def same_spaces_def ctx_def setLossDetectionTimer_def)
  have "MigratedPath h now sz = Inr (h2, evs)"
    using h1(1) by (simp add: MigratedPath_def h0_def [symmetric] Let_def h2_def hist2_def)
  moreover have "handler_inv 0 h2" "ctx h2 = ctx h"
    using quiet_inv [OF q2 inv2(1)] quiet_ctx [OF q2] inv2(2) h1(3) quiet_ctx [OF q0] by simp_all
  moreover have "entry (ns_history (sp_appDataPackets h2)) pn = None" for pn
  proof -
    have "entry ?hist1 pn = None"
    proof (cases "entry ?hist pn")
      case (Some q)
      then have "pk_PacketNumber q = pn" "q \<in> set (history_Packets ?hist)"
        using entry_number [OF ok Some] history_Packets_entry [OF ok, of q] by simp_all
      then show ?thesis
        by (auto simp: h1(4) without_packets_def)
    qed (simp add: h1(4) without_packets_def)
    moreover have "entry hist2 pn = entry ?hist1 pn"
      using same_packetsD(1) [OF \<open>same_packets ?hist1 hist2\<close>] by simp
    ultimately show ?thesis
      by (simp add: h2_def setLossDetectionTimer_def set_app_history_def)
  qed
  ultimately show thesis
    using h1(5) by (intro that) (assumption | simp add: h2_def setLossDetectionTimer_def set_app_history_def hist2_def h0_def)+
qed

end
