(* ===== verification/Sent_Steps.thy ===== *)
theory Sent_Steps
  imports Sent_Run
begin

text \<open>
  The runs of the sent packet handler: the calls that the connection makes, in any order that it allows, and what holds in every state. The connection sends a datagram of
  at most \<open>M\<close> bytes, with one packet or several coalesced ones, only if \<open>SendMode\<close> allows it.
\<close>

section \<open>The calls of a connection\<close>

definition send_datagram :: "sentPacketHandler \<Rightarrow> Time \<Rightarrow> out_packet list \<Rightarrow> sentPacketHandler result" where
  "send_datagram h t ps = rfold (\<lambda>h p. send_packet h t p) h ps"

definition sent_init :: "ByteCount \<Rightarrow> sentPacketHandler \<Rightarrow> bool" where
  "sent_init M h \<longleftrightarrow> 0 < M \<and> (\<exists>pn sz r validated ecn pers rnd. 0 \<le> pn \<and> h = newSentPacketHandler pn sz r validated ecn pers rnd)"

inductive sent_step :: "(rat \<Rightarrow> rat) \<Rightarrow> ByteCount \<Rightarrow> sentPacketHandler \<Rightarrow> sentPacketHandler \<Rightarrow> bool" for cbrt M where
  send: "handler_SendMode h t \<noteq> SendNone \<or> sp_peerAddressValidated h \<Longrightarrow> list_all (out_ok h) ps \<Longrightarrow> sum_list (map op_size ps) \<le> M \<Longrightarrow>
    send_datagram h t ps = Inr h' \<Longrightarrow> sent_step cbrt M h h'"
| ack: "getPacketNumberSpace h l \<noteq> None \<Longrightarrow> validateAckRanges ack \<Longrightarrow> 0 \<le> t \<Longrightarrow> ReceivedAck cbrt h ack l t = Inr (h', evs, b) \<Longrightarrow> sent_step cbrt M h h'"
| timeout: "0 \<le> t \<Longrightarrow> OnLossDetectionTimeout h t rnd = Inr (h', evs) \<Longrightarrow> sent_step cbrt M h h'"
| probe: "getPacketNumberSpace h l \<noteq> None \<Longrightarrow> QueueProbePacket h l = Inr (h', evs, b) \<Longrightarrow> sent_step cbrt M h h'"
| drop: "DropPackets h l t = Inr h' \<Longrightarrow> sent_step cbrt M h h'"
| received_bytes: "0 \<le> n \<Longrightarrow> sent_step cbrt M h (ReceivedBytes h n t)"
| received_packet: "sent_step cbrt M h (sent_ReceivedPacket h l t)"
| ecn_mode: "handler_ECNMode h short = Inr (h', ecn) \<Longrightarrow> sent_step cbrt M h h'"
| retry: "before_retry h \<Longrightarrow> ResetForRetry h t rnd = Inr (h', evs) \<Longrightarrow> sent_step cbrt M h h'"
| migrate: "MigratedPath h t sz = Inr (h', evs) \<Longrightarrow> sent_step cbrt M h h'"
| datagram_size: "handler_SetMaxDatagramSize h sz = Inr h' \<Longrightarrow> sent_step cbrt M h h'"
| ack_delay: "sent_step cbrt M h (h\<lparr>sp_rttStats := SetMaxAckDelay (sp_rttStats h) d\<rparr>)"

text \<open>The part of the state that the context describes: key phases and address validation.\<close>

definition ctx_ok :: "ByteCount \<Rightarrow> sentPacketHandler \<Rightarrow> bool" where
  "ctx_ok M h \<longleftrightarrow> conf_inv h \<and> (sp_handshakeConfirmed h \<longrightarrow> sp_peerCompletedAddressValidation h) \<and> 0 < M \<and>
     (sp_peerAddressValidated h \<or> sp_bytesSent h < amplificationFactor * sp_bytesReceived h + M)"

definition run_ok :: "ByteCount \<Rightarrow> sentPacketHandler \<Rightarrow> bool" where
  "run_ok M h \<longleftrightarrow> handler_inv 0 h \<and> ctx_ok M h"

lemma ctx_ok_cong: "ctx h' = ctx h \<Longrightarrow> ctx_ok M h' \<longleftrightarrow> ctx_ok M h"
  using conf_inv_ctx [of h' h] by (simp add: ctx_ok_def) (simp add: ctx_def)

lemma run_ok_ctx: "handler_inv 0 h' \<Longrightarrow> ctx h' = ctx h \<Longrightarrow> run_ok M h \<Longrightarrow> run_ok M h'"
  by (simp add: run_ok_def ctx_ok_cong [of h' h])

lemma run_ok_quiet: "quiet h h' \<Longrightarrow> run_ok M h \<Longrightarrow> run_ok M h'"
  using run_ok_ctx [of h' h M] quiet_inv [of h h' 0] quiet_ctx [of h h'] by (simp add: run_ok_def)

lemma sent_init_ok: "sent_init M h \<Longrightarrow> run_ok M h"
  by (auto simp: sent_init_def run_ok_def ctx_ok_def conf_inv_def handler_inv_def newSentPacketHandler_def getPacketNumberSpace_def flights_def space_flight_def
    in_flight_new space_inv_new amplificationFactor_def split: EncryptionLevel.splits)

section \<open>Every call keeps the invariant\<close>

lemma send_datagram_ok:
  assumes "handler_inv 0 h" and "list_all (out_ok h) ps"
  shows "\<exists>h'. send_datagram h t ps = Inr h' \<and> handler_inv 0 h' \<and> ctx h' = ctx (h\<lparr>sp_bytesSent := sp_bytesSent h + sum_list (map op_size ps)\<rparr>)"
  using assms
proof (induction ps arbitrary: h)
  case (Cons p ps)
  obtain h1 where h1: "send_packet h t p = Inr h1" "handler_inv 0 h1" "ctx h1 = ctx (h\<lparr>sp_bytesSent := sp_bytesSent h + op_size p\<rparr>)"
    using send_packet_ok [OF Cons.prems(1), of p t] Cons.prems(2) by auto
  have "getPacketNumberSpace h1 l = None \<longleftrightarrow> getPacketNumberSpace h l = None" for l
    using h1(3) by (cases l) (simp_all add: ctx_def getPacketNumberSpace_def)
  then have "out_ok h1 = out_ok h"
    by (simp add: out_ok_def fun_eq_iff)
  then obtain h' where h': "send_datagram h1 t ps = Inr h'" "handler_inv 0 h'" "ctx h' = ctx (h1\<lparr>sp_bytesSent := sp_bytesSent h1 + sum_list (map op_size ps)\<rparr>)"
    using Cons.IH [OF h1(2)] Cons.prems(2) by auto
  have "ctx h' = ctx (h\<lparr>sp_bytesSent := sp_bytesSent h + sum_list (map op_size (p # ps))\<rparr>)"
    using h1(3) h'(3) by (simp add: ctx_def)
  then show ?case
    using h1(1) h'(1,2) by (auto simp: send_datagram_def)
qed (simp add: send_datagram_def)

lemma send_run_ok:
  assumes "run_ok M h" and "handler_SendMode h t \<noteq> SendNone \<or> sp_peerAddressValidated h" and "list_all (out_ok h) ps" and "sum_list (map op_size ps) \<le> M"
    and "send_datagram h t ps = Inr h'"
  shows "run_ok M h'"
proof -
  have "\<not> isAmplificationLimited h"
    using assms(2) by (auto simp: handler_SendMode_def isAmplificationLimited_def Let_def split: if_splits)
  then have "ctx_ok M (h\<lparr>sp_bytesSent := sp_bytesSent h + sum_list (map op_size ps)\<rparr>)"
    using assms(1,4) by (auto simp: run_ok_def ctx_ok_def conf_inv_def isAmplificationLimited_def)
  then show ?thesis
    using send_datagram_ok [OF _ assms(3), of t] assms(1,5) ctx_ok_cong [of h'] by (auto simp: run_ok_def)
qed

lemma ctx_ok_completed: "ctx_ok M h \<Longrightarrow> ctx_ok M (h\<lparr>sp_peerCompletedAddressValidation := True\<rparr>)"
  by (simp add: ctx_ok_def conf_inv_def)

lemma ack_run_ok:
  assumes "run_ok M h" and "getPacketNumberSpace h l \<noteq> None" and "validateAckRanges ack" and "0 \<le> t" and "ReceivedAck cbrt h ack l t = Inr (h', evs, b)"
  shows "run_ok M h'"
proof -
  obtain s where "getPacketNumberSpace h l = Some s"
    using assms(2) by blast
  from ReceivedAck_ok [OF _ this assms(3,4), of cbrt] have "handler_inv 0 h'" "ctx h' = ctx h \<or> ctx h' = ctx (h\<lparr>sp_peerCompletedAddressValidation := True\<rparr>)"
    using assms(1,5) by (auto simp: run_ok_def)
  then show ?thesis
    using assms(1) ctx_ok_cong [of h' h M] ctx_ok_cong [of h' "h\<lparr>sp_peerCompletedAddressValidation := True\<rparr>" M] ctx_ok_completed [of M h]
    by (auto simp: run_ok_def)
qed

lemma drop_run_ok:
  assumes "run_ok M h" and "DropPackets h l t = Inr h'"
  shows "run_ok M h'"
proof (cases l)
  case EncryptionInitial
  then obtain "handler_inv 0 h'" "ctx h' = ctx (h\<lparr>sp_initialPackets := None\<rparr>)"
    using drop_initial_ok [of h t] assms by (auto simp: run_ok_def)
  then show ?thesis
    using assms(1) ctx_ok_cong [of h' "h\<lparr>sp_initialPackets := None\<rparr>" M] by (simp add: run_ok_def) (simp add: ctx_ok_def conf_inv_def)
next
  case EncryptionHandshake
  define h1 where "h1 = h\<lparr>sp_handshakePackets := None, sp_handshakeConfirmed := sp_handshakeConfirmed h \<or> sp_handshakePackets h \<noteq> None,
      sp_peerCompletedAddressValidation := sp_peerCompletedAddressValidation h \<or> sp_perspective h = PerspectiveClient\<rparr>"
  obtain "handler_inv 0 h'" "ctx h' = ctx h1"
    using drop_handshake_ok [of h t] assms EncryptionHandshake by (auto simp: run_ok_def h1_def)
  moreover have "ctx_ok M h1"
    using assms(1) by (cases "sp_perspective h") (auto simp: run_ok_def ctx_ok_def conf_inv_def h1_def)
  ultimately show ?thesis
    using ctx_ok_cong [of h' h1 M] by (simp add: run_ok_def)
next
  case Encryption0RTT
  then show ?thesis
    using DropPackets_0RTT_ok [of h t] assms run_ok_ctx [of h' h M] by (auto simp: run_ok_def)
qed (use assms(2) in \<open>simp add: DropPackets_def\<close>)

lemma received_bytes_run_ok: "run_ok M h \<Longrightarrow> 0 \<le> n \<Longrightarrow> run_ok M (ReceivedBytes h n t)"
proof -
  assume ok: "run_ok M h" and n: "0 \<le> n"
  define h1 where "h1 = h\<lparr>sp_bytesReceived := sp_bytesReceived h + n\<rparr>"
  have "ctx_ok M h1"
    using ok n by (auto simp: run_ok_def ctx_ok_def conf_inv_def h1_def amplificationFactor_def)
  moreover have "handler_inv 0 h1"
    using ok by (auto simp: run_ok_def h1_def intro: handler_inv_same)
  ultimately have "run_ok M h1" "run_ok M (setLossDetectionTimer h1 t)"
    using run_ok_quiet [OF quiet_timer, of M h1 t] by (simp_all add: run_ok_def)
  then show ?thesis
    by (simp add: ReceivedBytes_def Let_def h1_def)
qed

lemma received_packet_run_ok: "run_ok M h \<Longrightarrow> run_ok M (sent_ReceivedPacket h l t)"
proof -
  assume ok: "run_ok M h"
  define h1 where "h1 = h\<lparr>sp_peerAddressValidated := True\<rparr>"
  have "run_ok M h1"
    using ok by (auto simp: run_ok_def ctx_ok_def conf_inv_def h1_def intro: handler_inv_same)
  then have "run_ok M (setLossDetectionTimer h1 t)"
    by (rule run_ok_quiet [OF quiet_timer])
  then show ?thesis
    using ok by (simp add: sent_ReceivedPacket_def h1_def)
qed

lemma sent_step_ok: "sent_step cbrt M h h' \<Longrightarrow> run_ok M h \<Longrightarrow> run_ok M h'"
proof (induction rule: sent_step.induct)
  case (timeout t h rnd h' evs)
  then show ?case
    using OnLossDetectionTimeout_ok [of h t rnd] run_ok_ctx [of h' h M] by (auto simp: run_ok_def ctx_ok_def)
next
  case (probe h l h' evs b)
  then obtain s where "getPacketNumberSpace h l = Some s"
    by blast
  then show ?case
    using QueueProbePacket_ok [of h l s] run_ok_ctx [of h' h M] probe by (auto simp: run_ok_def)
next
  case (ecn_mode h short h' ecn)
  then have "quiet h h'"
    by (auto simp: handler_ECNMode_def quiet_def same_spaces_def ctx_def Let_def split: if_splits option.splits prod.splits)
  then show ?case
    using run_ok_quiet ecn_mode by blast
next
  case (retry h t rnd h' evs)
  then show ?case
    using ResetForRetry_ok [of h t rnd] run_ok_ctx [of h' h M] by (auto simp: run_ok_def)
next
  case (migrate h t sz h' evs)
  then show ?case
    using MigratedPath_ok [of h t sz] run_ok_ctx [of h' h M] by (auto simp: run_ok_def)
next
  case (datagram_size h sz h')
  then have "quiet h h'"
    by (auto simp: handler_SetMaxDatagramSize_def quiet_def same_spaces_def ctx_def rbind_eq_Inr)
  then show ?case
    using run_ok_quiet datagram_size by blast
next
  case (ack_delay h d)
  have "quiet h (h\<lparr>sp_rttStats := SetMaxAckDelay (sp_rttStats h) d\<rparr>)"
    by (simp add: quiet_def same_spaces_def ctx_def)
  then show ?case
    using run_ok_quiet ack_delay by blast
qed (blast intro: send_run_ok ack_run_ok drop_run_ok received_bytes_run_ok received_packet_run_ok)+

lemma sent_reachable_ok: "reachable (sent_init M) (sent_step cbrt M) h \<Longrightarrow> run_ok M h"
  by (erule reachable_invariant [where I = "run_ok M"]) (auto intro: sent_init_ok sent_step_ok)

section \<open>Properties\<close>

text \<open>
  (C2) The sent packet handler keeps its books in every run. The bytes in flight are the lengths of the packets in the histories that count as in flight, never negative. The loss
  detection timer can fire at any time without an error; keys can be dropped, a probe can be queued, a datagram can be registered and the path can be migrated in any state,
  and none of the sanity checks of the handler and of its history panics.
\<close>

theorem sent_handler_safe:
  assumes "reachable (sent_init M) (sent_step cbrt M) h"
  shows "sp_bytesInFlight h = flights h \<and> 0 \<le> sp_bytesInFlight h \<and>
    (0 \<le> t \<longrightarrow> (\<exists>h' evs. OnLossDetectionTimeout h t rnd = Inr (h', evs))) \<and>
    (l \<noteq> Encryption1RTT \<longrightarrow> (\<exists>h'. DropPackets h l t = Inr h')) \<and>
    (getPacketNumberSpace h l = Some s \<longrightarrow> (\<exists>h' evs. QueueProbePacket h l = Inr (h', evs, HasOutstandingPackets (ns_history s)))) \<and>
    (list_all (out_ok h) ps \<longrightarrow> (\<exists>h'. send_datagram h t ps = Inr h')) \<and>
    (\<exists>h' evs. MigratedPath h t sz = Inr (h', evs))"
proof (intro conjI impI)
  have inv: "handler_inv 0 h" and conf: "conf_inv h"
    using sent_reachable_ok [OF assms] by (simp_all add: run_ok_def ctx_ok_def)
  show "sp_bytesInFlight h = flights h" "0 \<le> sp_bytesInFlight h"
    using handler_invD(2) [OF inv] flights_nonneg [OF inv] by simp_all
  show "\<exists>h' evs. OnLossDetectionTimeout h t rnd = Inr (h', evs)" if "0 \<le> t"
    using OnLossDetectionTimeout_ok [OF inv conf that, of rnd] by metis
  show "\<exists>h'. DropPackets h l t = Inr h'" if "l \<noteq> Encryption1RTT"
    using that drop_initial_ok [OF inv, of t] drop_handshake_ok [OF inv, of t] DropPackets_0RTT_ok [OF inv, of t] by (cases l) metis+
  show "\<exists>h' evs. QueueProbePacket h l = Inr (h', evs, HasOutstandingPackets (ns_history s))" if "getPacketNumberSpace h l = Some s"
    using QueueProbePacket_ok [OF inv that] by metis
  show "\<exists>h'. send_datagram h t ps = Inr h'" if "list_all (out_ok h) ps"
    using send_datagram_ok [OF inv that, of t] by blast
  show "\<exists>h' evs. MigratedPath h t sz = Inr (h', evs)"
    using MigratedPath_ok [OF inv, of t sz] by metis
qed

text \<open>A run of a server: 400 bytes come in, and it answers with a datagram that coalesces an Initial and a Handshake packet.\<close>

definition sample_packet :: "EncryptionLevel \<Rightarrow> out_packet" where
  "sample_packet l = \<lparr>op_level = l, op_rnd = 7, op_largestAcked = InvalidPacketNumber, op_streamFrames = [], op_frames = [\<lparr>af_Frame = None, af_Handler = Some 1\<rparr>],
     op_ecn = ECNNon, op_size = 600, op_mtuProbe = False, op_pathProbe = False\<rparr>"

definition sample_server :: "ByteCount \<Rightarrow> sentPacketHandler" where
  "sample_server n = ReceivedBytes (newSentPacketHandler 0 1200 new_RTTStats False False PerspectiveServer 9) n 5"

definition sample_sent :: sentPacketHandler where
  "sample_sent = projr (send_datagram (sample_server 400) 6 [sample_packet EncryptionInitial, sample_packet EncryptionHandshake])"

lemma sent_init_new: "0 < M \<Longrightarrow> 0 \<le> pn \<Longrightarrow> sent_init M (newSentPacketHandler pn sz r validated ecn pers rnd)"
  unfolding sent_init_def by blast

lemma sample_server_reachable: "0 \<le> n \<Longrightarrow> reachable (sent_init 1200) (sent_step cbrt 1200) (sample_server n)"
  unfolding sample_server_def
proof (rule reachable.step)
  show "reachable (sent_init 1200) (sent_step cbrt 1200) (newSentPacketHandler 0 1200 new_RTTStats False False PerspectiveServer 9)"
    by (intro reachable.start sent_init_new) simp_all
qed (rule sent_step.received_bytes)

lemma sample_sent_eq: "send_datagram (sample_server 400) 6 [sample_packet EncryptionInitial, sample_packet EncryptionHandshake] = Inr sample_sent"
  by code_simp

lemma sample_send_mode: "handler_SendMode (sample_server 400) 6 \<noteq> SendNone"
  by code_simp

lemma sample_sent_reachable: "reachable (sent_init 1200) (sent_step cbrt 1200) sample_sent"
proof (rule reachable.step [OF sample_server_reachable [of 400] sent_step.send])
  show "handler_SendMode (sample_server 400) 6 \<noteq> SendNone \<or> sp_peerAddressValidated (sample_server 400)"
    using sample_send_mode ..
  show "list_all (out_ok (sample_server 400)) [sample_packet EncryptionInitial, sample_packet EncryptionHandshake]"
    by code_simp
  show "sum_list (map op_size [sample_packet EncryptionInitial, sample_packet EncryptionHandshake]) \<le> 1200"
    by (simp add: sample_packet_def)
qed (simp_all add: sample_sent_eq)

theorem sent_handler_safe_witness:
  "sp_bytesInFlight sample_sent = 1200 \<and> flights sample_sent = 1200 \<and> (\<exists>h' evs. OnLossDetectionTimeout sample_sent 999 3 = Inr (h', evs))"
proof -
  have "sp_bytesInFlight sample_sent = 1200"
    by code_simp
  then show ?thesis
    using sent_handler_safe [OF sample_sent_reachable [of "\<lambda>x. x"], where t = 999 and rnd = 3] by simp
qed

text \<open>
  (C14) The anti-amplification limit: as long as the address of the client is not validated, a server has sent less than three times what it has received plus one datagram.
  A datagram is only started while the limit is not reached.
\<close>

theorem amplification_limit:
  assumes "reachable (sent_init M) (sent_step cbrt M) h" and "\<not> sp_peerAddressValidated h"
  shows "sp_bytesSent h < 3 * sp_bytesReceived h + M \<and> (sp_bytesSent h \<ge> 3 * sp_bytesReceived h \<longrightarrow> handler_SendMode h t = SendNone \<and> lossDetectionTime h t = no_alarm)"
proof -
  have "lossDetectionTime h t = no_alarm" if "isAmplificationLimited h"
    using that by (simp add: lossDetectionTime_def Let_def)
  moreover have "handler_SendMode h t = SendNone" if "isAmplificationLimited h"
    using that by (simp add: handler_SendMode_def Let_def)
  ultimately show ?thesis
    using sent_reachable_ok [OF assms(1)] assms(2) by (auto simp: run_ok_def ctx_ok_def amplificationFactor_def isAmplificationLimited_def)
qed

theorem amplification_limit_witness:
  "\<not> sp_peerAddressValidated sample_sent \<and> sp_bytesSent sample_sent < 3 * sp_bytesReceived sample_sent + 1200 \<and> handler_SendMode sample_sent 7 = SendNone"
proof -
  have v: "\<not> sp_peerAddressValidated sample_sent" and s: "sp_bytesSent sample_sent \<ge> 3 * sp_bytesReceived sample_sent"
    by code_simp+
  show ?thesis
    using amplification_limit [OF sample_sent_reachable [of "\<lambda>x. x"] v, of 7] v s by blast
qed

text \<open>
  A server whose address check is pending sends more than three times what it received, which the comment on the factor excludes: the limit is looked at before a datagram, not
  with its size. Here 399 bytes came in, and 1200 go out.
\<close>

lemma amplification_factor_exceeded:
  "\<exists>h. reachable (sent_init 1200) (sent_step cbrt 1200) h \<and> \<not> sp_peerAddressValidated h \<and> sp_bytesSent h > amplificationFactor * sp_bytesReceived h"
proof -
  let ?ps = "[sample_packet EncryptionInitial, sample_packet EncryptionHandshake]"
  let ?h1 = "sample_server 399"
  let ?h2 = "projr (send_datagram ?h1 6 ?ps)"
  have "reachable (sent_init 1200) (sent_step cbrt 1200) ?h2"
  proof (rule reachable.step [OF sample_server_reachable [of 399] sent_step.send])
    show "handler_SendMode ?h1 6 \<noteq> SendNone \<or> sp_peerAddressValidated ?h1"
      by code_simp
    show "list_all (out_ok ?h1) ?ps" "sum_list (map op_size ?ps) \<le> 1200" "send_datagram ?h1 6 ?ps = Inr ?h2"
      by code_simp+
  qed simp
  moreover have "\<not> sp_peerAddressValidated ?h2 \<and> sp_bytesSent ?h2 > amplificationFactor * sp_bytesReceived ?h2"
    by code_simp
  ultimately show ?thesis
    by blast
qed

text \<open>
  (C5) The side-by-side walk through the history and the ranges of an ACK frame finds exactly the acknowledged packets. An acknowledgment of a packet number that was skipped on
  purpose is an error, and there is no other error. Otherwise the packets of the history whose number is in a range are acknowledged, in the order of their numbers, their
  frame handlers are told, and they are removed; all others stay, except for records of skipped numbers.
\<close>

theorem acked_packets_exact:
  assumes "reachable (sent_init M) (sent_step cbrt M) h" and "getPacketNumberSpace h l = Some s" and "validateAckRanges ack"
  defines "S \<equiv> ack_set (AckRanges ack)" and "ps \<equiv> history_Packets (ns_history s)"
  shows "if \<exists>p\<in>set ps. pk_skippedPacket p \<and> pk_PacketNumber p \<in> S then detectAndRemoveAckedPackets h ack l = Inl skipped_acked
    else \<exists>h' acked hist. detectAndRemoveAckedPackets h ack l = Inr (h', acked, concat (map (handler_events OnAcked) acked)) \<and>
      filter regular acked = filter (\<lambda>p. regular p \<and> pk_PacketNumber p \<in> S) ps \<and> pk_PacketNumber ` set acked \<subseteq> S \<and>
      getPacketNumberSpace h' l = Some (s\<lparr>ns_history := hist\<rparr>) \<and> (\<forall>q\<in>set acked. entry hist (pk_PacketNumber q) = None) \<and>
      (\<forall>pn p. entry (ns_history s) pn = Some p \<and> pn \<notin> S \<and> \<not> pk_skippedPacket p \<longrightarrow> entry hist pn = Some p)"
proof -
  have inv: "handler_inv 0 h"
    using sent_reachable_ok [OF assms(1)] by (simp add: run_ok_def)
  consider (acked) r where "detectAndRemoveAckedPackets h ack l = Inr r" "acked_outcome h l s S r"
    | (skipped) "detectAndRemoveAckedPackets h ack l = Inl skipped_acked" "\<exists>p\<in>set ps. pk_skippedPacket p \<and> pk_PacketNumber p \<in> S"
    using detectAndRemoveAckedPackets_ok [OF inv assms(2,3)] unfolding S_def ps_def by blast
  then show ?thesis
  proof cases
    case acked
    obtain h' qs evs where r: "r = (h', qs, evs)"
      by (cases r)
    obtain hist where o: "\<forall>p\<in>set ps. pk_PacketNumber p \<in> S \<longrightarrow> \<not> pk_skippedPacket p" "filter regular qs = filter (\<lambda>p. regular p \<and> pk_PacketNumber p \<in> S) ps"
      "\<forall>q\<in>set qs. pk_PacketNumber q \<in> S \<and> 0 \<le> flight q" "evs = concat (map (handler_events OnAcked) qs)" "getPacketNumberSpace h' l = Some (s\<lparr>ns_history := hist\<rparr>)"
      "\<forall>pn\<in>pk_PacketNumber ` set qs. entry hist pn = None"
      "\<forall>pn. pn \<notin> pk_PacketNumber ` set qs \<longrightarrow> entry hist pn = entry (ns_history s) pn \<or>
         entry hist pn = None \<and> (\<exists>p. entry (ns_history s) pn = Some p \<and> pk_skippedPacket p)"
      using acked(2) unfolding acked_outcome_def r ps_def by auto
    have "entry hist pn = Some p" if "entry (ns_history s) pn = Some p \<and> pn \<notin> S \<and> \<not> pk_skippedPacket p" for pn p
    proof -
      have "pn \<notin> pk_PacketNumber ` set qs"
        using that o(3) by auto
      then show ?thesis
        using o(7) [rule_format, of pn] that by auto
    qed
    moreover have "\<not> (\<exists>p\<in>set ps. pk_skippedPacket p \<and> pk_PacketNumber p \<in> S)" "pk_PacketNumber ` set qs \<subseteq> S" "\<forall>q\<in>set qs. entry hist (pk_PacketNumber q) = None"
      using o(1,3,6) by auto
    ultimately show ?thesis
      unfolding acked(1) r o(4) using o(2,5) by auto
  qed simp
qed

lemma sample_sent_initial: "sp_initialPackets sample_sent = Some (the (sp_initialPackets sample_sent))"
  by code_simp

definition sample_ack :: AckFrame where
  "sample_ack = \<lparr>AckRanges = [\<lparr>Smallest = 0, Largest = 0\<rparr>], DelayTime = 0, af_ECT0 = 0, af_ECT1 = 0, af_ECNCE = 0\<rparr>"

theorem acked_packets_exact_witness:
  "\<exists>h' acked evs. detectAndRemoveAckedPackets sample_sent sample_ack EncryptionInitial = Inr (h', acked, evs) \<and> map pk_PacketNumber (filter regular acked) = [0]"
proof -
  let ?s = "the (sp_initialPackets sample_sent)"
  have g: "getPacketNumberSpace sample_sent EncryptionInitial = Some ?s"
    using sample_sent_initial by (simp add: getPacketNumberSpace_def)
  have v: "validateAckRanges sample_ack"
    by code_simp
  have n: "\<not> (\<exists>p\<in>set (history_Packets (ns_history ?s)). pk_skippedPacket p \<and> pk_PacketNumber p \<in> ack_set (AckRanges sample_ack))"
    and "map pk_PacketNumber (filter (\<lambda>p. regular p \<and> pk_PacketNumber p \<in> ack_set (AckRanges sample_ack)) (history_Packets (ns_history ?s))) = [0]"
    by code_simp+
  then show ?thesis
    using acked_packets_exact [OF sample_sent_reachable [of "\<lambda>x. x"] g v] unfolding if_not_P [OF n] by metis
qed

text \<open>
  (C7) Loss detection is exact: of the packets up to the largest acknowledged one, those are lost that were sent at least one loss delay ago or that are three or more below it.
  Their frames are handed back for retransmission, and they leave the history and the bytes in flight; all other packets stay. The loss time of the space is
  one loss delay after the first packet that is still waited for.
\<close>

theorem loss_detection_exact:
  assumes "reachable (sent_init M) (sent_step cbrt M) h" and "getPacketNumberSpace h l = Some s" and "0 \<le> now"
  defines "delay \<equiv> lossDelay (sp_rttStats h)" and "ps \<equiv> history_Packets (ns_history s)"
  defines "due p \<equiv> pk_PacketNumber p \<le> ns_largestAcked s \<and> (pk_SendTime p \<le> now - delay \<or> pk_PacketNumber p + 3 \<le> ns_largestAcked s)"
  shows "\<exists>h' hist. detectLostPackets h now l = Inr (h', concat (map lost_events (filter due ps))) \<and> sp_bytesInFlight h' = flights h' \<and>
    getPacketNumberSpace h' l = Some (s\<lparr>ns_history := hist,
      ns_lossTime := (case List.find (\<lambda>p. pk_PacketNumber p \<le> ns_largestAcked s \<and> \<not> due p) ps of None \<Rightarrow> 0 | Some p \<Rightarrow> pk_SendTime p + delay)\<rparr>) \<and>
    (\<forall>pn. entry hist pn = (if \<exists>p\<in>set ps. due p \<and> pk_PacketNumber p = pn then None else entry (ns_history s) pn))"
proof -
  have inv: "handler_inv 0 h"
    using sent_reachable_ok [OF assms(1)] by (simp add: run_ok_def)
  have due: "due = is_lost (now - delay) (ns_largestAcked s)"
    by (simp add: due_def is_lost_def packetThreshold_def fun_eq_iff)
  obtain h' hist where d: "detectLostPackets h now l = Inr (h', concat (map lost_events (filter due ps)))" "handler_inv 0 h'"
    "getPacketNumberSpace h' l = Some (s\<lparr>ns_history := hist, ns_lossTime := loss_time (now - delay) delay (ns_largestAcked s) ps\<rparr>)"
    "entry hist = without_packets (filter due ps) (entry (ns_history s))"
    using detectLostPackets_ok [OF inv _ assms(2,3)] unfolding due delay_def ps_def by auto
  have "entry hist pn = (if \<exists>p\<in>set ps. due p \<and> pk_PacketNumber p = pn then None else entry (ns_history s) pn)" for pn
    unfolding d(4) without_packets_def by (rule if_cong) auto
  then show ?thesis
    using d(1,3) handler_invD(2) [OF d(2)] unfolding loss_time_def first_kept_def due [symmetric] by (intro exI [of _ h'] exI [of _ hist]) simp
qed

theorem loss_detection_exact_witness:
  "\<exists>h' evs. detectLostPackets sample_sent 9 EncryptionInitial = Inr (h', evs) \<and> sp_bytesInFlight h' = flights h'"
proof -
  have g: "getPacketNumberSpace sample_sent EncryptionInitial = Some (the (sp_initialPackets sample_sent))"
    using sample_sent_initial by (simp add: getPacketNumberSpace_def)
  show ?thesis
    using loss_detection_exact [OF sample_sent_reachable [of "\<lambda>x. x"] g, of 9] by auto
qed

end
