(* ===== verification/Sent_Probes.thy ===== *)
theory Sent_Probes
  imports Sent_Steps
begin

text \<open>
  Probe timeouts: when the timer fires, probe packets are sent. Path probes: what the handler does with them when they are acknowledged and when the connection migrates.
\<close>

section \<open>Probe timeouts\<close>

lemma pto_of_space_cases:
  assumes "pto_of_space s l d r = (t, Some l')"
  shows "r = (t, Some l') \<or> l' = l \<and> HasOutstandingPackets (ns_history s)"
  using assms by (auto simp: pto_of_space_def Let_def split: if_splits)

lemma getPTOTimeAndSpace_outstanding:
  assumes "sp_handshakeConfirmed h" and "getPTOTimeAndSpace h now = (t, Some l)" and "getPacketNumberSpace h l = Some s"
  shows "HasOutstandingPackets (ns_history s)"
proof -
  define r1 where "r1 = (case sp_initialPackets h of None \<Rightarrow> (0, None) | Some s \<Rightarrow> pto_of_space s EncryptionInitial (getScaledPTO h False) (0, None))"
  define r2 where "r2 = (case sp_handshakePackets h of None \<Rightarrow> r1 | Some s \<Rightarrow> pto_of_space s EncryptionHandshake (getScaledPTO h False) r1)"
  have e: "pto_of_space (sp_appDataPackets h) Encryption1RTT (getScaledPTO h True) r2 = (t, Some l)"
    using assms(1,2) unfolding getPTOTimeAndSpace_def Let_def r2_def r1_def by simp
  have 1: "r1 = (u, Some l') \<Longrightarrow> getPacketNumberSpace h l' = Some s' \<Longrightarrow> HasOutstandingPackets (ns_history s')" for u l' s'
    by (auto simp: r1_def getPacketNumberSpace_def split: option.splits dest: pto_of_space_cases)
  have 2: "r2 = (u, Some l') \<Longrightarrow> getPacketNumberSpace h l' = Some s' \<Longrightarrow> HasOutstandingPackets (ns_history s')" for u l' s'
    using 1 by (auto simp: r2_def getPacketNumberSpace_def split: option.splits dest!: pto_of_space_cases)
  show ?thesis
    using pto_of_space_cases [OF e] 2 assms(3) by (auto simp: getPacketNumberSpace_def)
qed

lemma getScaledPTO_bounds: "0 < getScaledPTO h b \<and> getScaledPTO h b \<le> maxPTODuration"
  by (simp add: getScaledPTO_def Let_def maxPTODuration_def Millisecond_def)

lemma pto_of_space_set:
  assumes "fst r = 0 \<longleftrightarrow> snd r = None" and "0 \<le> fst r" and "0 < d" and "0 \<le> ns_lastAckElicitingPacketTime s"
  shows "fst (pto_of_space s l d r) = 0 \<longleftrightarrow> snd (pto_of_space s l d r) = None" and "0 \<le> fst (pto_of_space s l d r)"
  using assms by (auto simp: pto_of_space_def Let_def)

text \<open>The timer is set to the probe timeout of a space with outstanding packets.\<close>

lemma getPTOTimeAndSpace_set:
  assumes "sp_handshakeConfirmed h" and "HasOutstandingPackets (ns_history (sp_appDataPackets h))" and "0 < ns_lastAckElicitingPacketTime (sp_appDataPackets h)"
    and "\<And>l s. getPacketNumberSpace h l = Some s \<Longrightarrow> 0 \<le> ns_lastAckElicitingPacketTime s"
  obtains t l where "getPTOTimeAndSpace h now = (t, Some l)" "0 < t" "t \<le> ns_lastAckElicitingPacketTime (sp_appDataPackets h) + getScaledPTO h True"
proof -
  have d: "0 < getScaledPTO h b" for b
    using getScaledPTO_bounds by blast
  define r1 where "r1 = (case sp_initialPackets h of None \<Rightarrow> (0, None) | Some s \<Rightarrow> pto_of_space s EncryptionInitial (getScaledPTO h False) (0, None))"
  define r2 where "r2 = (case sp_handshakePackets h of None \<Rightarrow> r1 | Some s \<Rightarrow> pto_of_space s EncryptionHandshake (getScaledPTO h False) r1)"
  have 1: "fst r1 = 0 \<longleftrightarrow> snd r1 = None" "0 \<le> fst r1"
    using pto_of_space_set [of "(0, None)", OF _ _ d] assms(4) [of EncryptionInitial] by (auto simp: r1_def getPacketNumberSpace_def split: option.split)
  have 2: "fst r2 = 0 \<longleftrightarrow> snd r2 = None" "0 \<le> fst r2"
    using pto_of_space_set [OF 1 d] 1 assms(4) [of EncryptionHandshake] by (auto simp: r2_def getPacketNumberSpace_def split: option.split)
  have e: "getPTOTimeAndSpace h now = pto_of_space (sp_appDataPackets h) Encryption1RTT (getScaledPTO h True) r2"
    using assms(1) unfolding getPTOTimeAndSpace_def Let_def r2_def r1_def by simp
  obtain t l where r2: "r2 = (t, l)"
    by (cases r2)
  show thesis
    using assms(2,3) d [of True] 2 that e by (cases l) (auto simp: pto_of_space_def Let_def r2 split: if_splits)
qed


definition sample_confirmed :: sentPacketHandler where
  "sample_confirmed = projr (DropPackets (newSentPacketHandler 0 1200 new_RTTStats True False PerspectiveServer 9) EncryptionHandshake 3)"

definition sample_probing :: sentPacketHandler where
  "sample_probing = projr (send_datagram sample_confirmed 6 [sample_packet Encryption1RTT])"

lemma sample_confirmed_reachable: "reachable (sent_init 1200) (sent_step cbrt 1200) sample_confirmed"
proof (rule reachable.step)
  let ?h = "newSentPacketHandler 0 1200 new_RTTStats True False PerspectiveServer 9"
  show "reachable (sent_init 1200) (sent_step cbrt 1200) ?h"
    by (intro reachable.start sent_init_new) simp_all
  have "DropPackets ?h EncryptionHandshake 3 = Inr sample_confirmed"
    by code_simp
  then show "sent_step cbrt 1200 ?h sample_confirmed"
    by (rule sent_step.drop)
qed

lemma sample_probing_reachable: "reachable (sent_init 1200) (sent_step cbrt 1200) sample_probing"
proof (rule reachable.step [OF sample_confirmed_reachable sent_step.send])
  show "handler_SendMode sample_confirmed 6 \<noteq> SendNone \<or> sp_peerAddressValidated sample_confirmed"
    "list_all (out_ok sample_confirmed) [sample_packet Encryption1RTT]" "sum_list (map op_size [sample_packet Encryption1RTT]) \<le> 1200"
    "send_datagram sample_confirmed 6 [sample_packet Encryption1RTT] = Inr sample_probing"
    by code_simp+
qed


section \<open>Path probes\<close>

text \<open>
  \<open>MigratedPath\<close> does not remove every path probe: \<open>RemovePathProbe\<close> moves the probes behind the removed one to the front of the same array, while the loop goes on to
  the next place. Of three probes, the second one stays.
\<close>

lemma migration_keeps_path_probe:
  "remove_all_probes [sent_probe 1 10 [] Encryption1RTT 1200, sent_probe 2 11 [] Encryption1RTT 1200, sent_probe 3 12 [] Encryption1RTT 1200] =
   [sent_probe 2 11 [] Encryption1RTT 1200]"
  by code_simp

text \<open>
  A path probe packet carries no ACK frame, but its \<open>LargestAcked\<close> is 0 and not the invalid packet number: when it is acknowledged, packet 0
  counts as confirmed to be acknowledged.
\<close>

lemma acked_probe_confirms_packet_zero:
  assumes "acked_packet Encryption1RTT (0, hist, []) (sent_probe t pn frames Encryption1RTT sz) = Inr (lowest, hist', evs)"
  shows "lowest = 1"
  using assms by (auto simp: acked_packet_def sent_probe_def getPacket_def InvalidPacketNumber_def rbind_eq_Inr)

end
