(* ===== verification/MTU_Discovery.thy ===== *)
theory MTU_Discovery
  imports Sent_History RTT_Stats "HOL-Library.Multiset"
begin

text \<open>
  The search for the path MTU (\<open>mtu_discoverer.go\<close>): probe packets of increasing size, with the outcome of the probes as input. The search ends for every
  sequence of outcomes, and it finds the MTU of the path if no more than two probes are lost for another reason than their size. Tracing is left out.
\<close>

section \<open>The finder\<close>

definition maxMTUDiff :: ByteCount where "maxMTUDiff = 20"
definition mtuProbeDelay :: int where "mtuProbeDelay = 5"
definition maxLostMTUProbes :: nat where "maxLostMTUProbes = 3"

record mtuFinder =
  mf_lastProbeTime :: Time
  mf_inFlight :: ByteCount
  mf_min :: ByteCount
  mf_lost :: "ByteCount list"
  mf_lastProbeWasLost :: bool
  mf_generation :: "8 word"

definition mtu_init :: "mtuFinder \<Rightarrow> ByteCount \<Rightarrow> ByteCount \<Rightarrow> mtuFinder" where
  "mtu_init f start mx = f\<lparr>mf_min := start, mf_lost := map (\<lambda>i. if i = 0 then mx else InvalidByteCount) [0..<maxLostMTUProbes]\<rparr>"

definition newMTUDiscoverer :: "ByteCount \<Rightarrow> ByteCount \<Rightarrow> mtuFinder" where
  "newMTUDiscoverer start mx =
     mtu_init \<lparr>mf_lastProbeTime = 0, mf_inFlight = InvalidByteCount, mf_min = 0, mf_lost = replicate maxLostMTUProbes 0, mf_lastProbeWasLost = False,
       mf_generation = 0\<rparr> start mx"

definition mtu_max :: "mtuFinder \<Rightarrow> ByteCount result" where
  "mtu_max f =
     (case List.find (\<lambda>i. mf_lost f ! i = InvalidByteCount) [0..<length (mf_lost f)] of
        Some i \<Rightarrow> if i = 0 then Inl index_panic else Inr (mf_lost f ! (i - 1))
      | None \<Rightarrow> Inr (mf_lost f ! (length (mf_lost f) - 1)))"

definition mtu_done :: "mtuFinder \<Rightarrow> bool result" where
  "mtu_done f = rbind (mtu_max f) (\<lambda>mx. Inr (mx - mf_min f \<le> maxMTUDiff + 1))"

definition mtu_Start :: "mtuFinder \<Rightarrow> Time \<Rightarrow> mtuFinder" where
  "mtu_Start f now = f\<lparr>mf_lastProbeTime := now\<rparr>"

definition ShouldSendProbe :: "mtuFinder \<Rightarrow> RTTStats \<Rightarrow> Time \<Rightarrow> bool result" where
  "ShouldSendProbe f rttStats now =
     (if mf_lastProbeTime f = 0 then Inr False
      else if mf_inFlight f \<noteq> InvalidByteCount then Inr False
      else rbind (mtu_done f) (\<lambda>d.
        if d then Inr False else Inr (\<not> now < mf_lastProbeTime f + mtuProbeDelay * rtt_smoothedRTT rttStats)))"

text \<open>The frame handler of a probe is known by its generation.\<close>

definition GetPing :: "mtuFinder \<Rightarrow> Time \<Rightarrow> (mtuFinder \<times> 8 word \<times> ByteCount) result" where
  "GetPing f now =
     rbind (if mf_lastProbeWasLost f then Inr (go_div (mf_min f + mf_lost f ! 0) 2) else rbind (mtu_max f) (\<lambda>mx. Inr (go_div (mf_min f + mx) 2))) (\<lambda>sz.
     Inr (f\<lparr>mf_lastProbeTime := now, mf_inFlight := sz\<rparr>, mf_generation f, sz))"

definition mtu_CurrentSize :: "mtuFinder \<Rightarrow> ByteCount" where
  "mtu_CurrentSize f = mf_min f"

definition mtu_Reset :: "mtuFinder \<Rightarrow> Time \<Rightarrow> ByteCount \<Rightarrow> ByteCount \<Rightarrow> mtuFinder" where
  "mtu_Reset f now start mx =
     mtu_init (f\<lparr>mf_generation := mf_generation f + 1, mf_lastProbeTime := now, mf_lastProbeWasLost := False, mf_inFlight := InvalidByteCount\<rparr>) start mx"

definition mtu_OnAcked :: "mtuFinder \<Rightarrow> 8 word \<Rightarrow> mtuFinder result" where
  "mtu_OnAcked f generation =
     (if generation \<noteq> mf_generation f then Inr f
      else if mf_inFlight f = InvalidByteCount then Inl (Panic ''OnAcked callback called although there's no MTU probe packet in flight'')
      else
        let sz = mf_inFlight f;
            f = f\<lparr>mf_inFlight := InvalidByteCount, mf_min := sz, mf_lastProbeWasLost := False\<rparr>;
            j = (case List.find (\<lambda>i. sz < mf_lost f ! i) [0..<length (mf_lost f)] of Some i \<Rightarrow> i | None \<Rightarrow> 0) in
        Inr (if j > 0
             then f\<lparr>mf_lost := map (\<lambda>i. if i + j < length (mf_lost f) then mf_lost f ! (i + j) else InvalidByteCount) [0..<length (mf_lost f)]\<rparr>
             else f))"

definition mtu_OnLost :: "mtuFinder \<Rightarrow> 8 word \<Rightarrow> mtuFinder result" where
  "mtu_OnLost f generation =
     (if generation \<noteq> mf_generation f then Inr f
      else if mf_inFlight f = InvalidByteCount then Inl (Panic ''OnLost callback called although there's no MTU probe packet in flight'')
      else
        let sz = mf_inFlight f;
            f = f\<lparr>mf_lastProbeWasLost := True, mf_inFlight := InvalidByteCount\<rparr> in
        case List.find (\<lambda>i. sz < mf_lost f ! i) [0..<length (mf_lost f)] of
          None \<Rightarrow> Inr f
        | Some i \<Rightarrow> Inr (f\<lparr>mf_lost := take i (mf_lost f) @ sz # take (length (mf_lost f) - (i + 1)) (drop i (mf_lost f))\<rparr>))"

section \<open>The search\<close>

text \<open>
  One probe, and the search with the outcomes of the probes: \<open>acked n sz\<close> says whether the \<open>n\<close>-th probe, of size \<open>sz\<close>, is acknowledged.
\<close>

definition mtu_probe :: "(ByteCount \<Rightarrow> bool) \<Rightarrow> Time \<Rightarrow> mtuFinder \<Rightarrow> mtuFinder result" where
  "mtu_probe acked now f = rbind (GetPing f now) (\<lambda>(f, g, sz). if acked sz then mtu_OnAcked f g else mtu_OnLost f g)"

primrec mtu_search :: "(nat \<Rightarrow> ByteCount \<Rightarrow> bool) \<Rightarrow> (nat \<Rightarrow> Time) \<Rightarrow> nat \<Rightarrow> mtuFinder \<Rightarrow> mtuFinder result" where
  "mtu_search acked t 0 f = Inr f"
| "mtu_search acked t (Suc n) f =
     rbind (mtu_search acked t n f) (\<lambda>f. rbind (mtu_done f) (\<lambda>d. if d then Inr f else mtu_probe (acked n) (t n) f))"

text \<open>The array holds the sizes of lost probes in order, then invalid sizes. The first entries are never below the minimum.\<close>

definition pad :: "ByteCount list \<Rightarrow> ByteCount list" where
  "pad vs = vs @ replicate (maxLostMTUProbes - length vs) InvalidByteCount"

definition mtu_ok :: "mtuFinder \<Rightarrow> ByteCount list \<Rightarrow> bool" where
  "mtu_ok f vs \<longleftrightarrow> mf_lost f = pad vs \<and> vs \<noteq> [] \<and> length vs \<le> 3 \<and> sorted vs \<and> (\<forall>v\<in>set vs. mf_min f \<le> v) \<and> 0 \<le> mf_min f"

lemma vs_cases:
  assumes "vs \<noteq> []" and "length vs \<le> 3"
  obtains a where "vs = [a]" | a b where "vs = [a, b]" | a b c where "vs = [a, b, c]"
  using assms by (cases vs; cases "tl vs"; cases "tl (tl vs)"; cases "tl (tl (tl vs))") auto

lemma mtu_ok_ends: "mtu_ok f vs \<Longrightarrow> 0 \<le> mf_min f \<and> mf_min f \<le> hd vs \<and> hd vs \<le> last vs"
  by (cases vs) (auto simp: mtu_ok_def)

lemma mtu_ok_vs: "mtu_ok f vs \<Longrightarrow> takeWhile (\<lambda>v. v \<noteq> InvalidByteCount) (mf_lost f) = vs"
  by (auto simp: mtu_ok_def pad_def InvalidByteCount_def takeWhile_append)

lemma upt_3: "[0..<3] = [0, 1, 2 :: nat]" "[0..<Suc (Suc (Suc 0))] = [0, 1, 2 :: nat]"
  by (simp_all add: upt_rec)

lemma mtu_max_eq:
  assumes "mtu_ok f vs"
  shows "mtu_max f = Inr (last vs)"
proof -
  have "\<forall>v\<in>set vs. v \<noteq> InvalidByteCount"
    using assms by (auto simp: mtu_ok_def InvalidByteCount_def)
  moreover have "vs \<noteq> []" "length vs \<le> 3" "mf_lost f = pad vs"
    using assms by (simp_all add: mtu_ok_def)
  ultimately show ?thesis
    by (elim vs_cases) (simp_all add: mtu_max_def pad_def maxLostMTUProbes_def upt_3 numeral_3_eq_3)
qed

lemma mtu_done_eq: "mtu_ok f vs \<Longrightarrow> mtu_done f = Inr (last vs - mf_min f \<le> 21)"
  by (simp add: mtu_done_def mtu_max_eq maxMTUDiff_def)

definition probe_size :: "mtuFinder \<Rightarrow> ByteCount list \<Rightarrow> ByteCount" where
  "probe_size f vs = (mf_min f + (if mf_lastProbeWasLost f then hd vs else last vs)) div 2"

lemma GetPing_eq:
  assumes "mtu_ok f vs"
  shows "GetPing f now = Inr (f\<lparr>mf_lastProbeTime := now, mf_inFlight := probe_size f vs\<rparr>, mf_generation f, probe_size f vs)"
proof -
  have "mf_lost f ! 0 = hd vs"
    using assms by (cases vs) (auto simp: mtu_ok_def pad_def)
  moreover have "0 \<le> mf_min f + hd vs" "0 \<le> mf_min f + last vs"
    using mtu_ok_ends [OF assms] by simp_all
  ultimately show ?thesis
    using mtu_max_eq [OF assms] by (simp add: GetPing_def probe_size_def)
qed

text \<open>While the search goes on, a probe is smaller than the maximum, and it is larger than the minimum unless it follows a loss.\<close>

lemma probe_size_bounds:
  assumes "mtu_ok f vs" and "last vs - mf_min f > 21"
  shows "mf_min f \<le> probe_size f vs" "probe_size f vs < last vs" "\<not> mf_lastProbeWasLost f \<Longrightarrow> mf_min f < probe_size f vs"
    "mf_lastProbeWasLost f \<Longrightarrow> probe_size f vs \<le> hd vs"
proof -
  have "mf_min f \<le> hd vs" "hd vs \<le> last vs"
    using mtu_ok_ends [OF assms(1)] by simp_all
  then show "mf_min f \<le> probe_size f vs" "probe_size f vs < last vs" "\<not> mf_lastProbeWasLost f \<Longrightarrow> mf_min f < probe_size f vs"
    "mf_lastProbeWasLost f \<Longrightarrow> probe_size f vs \<le> hd vs"
    using assms(2) by (auto simp: probe_size_def)
qed

definition acked_vs :: "ByteCount \<Rightarrow> ByteCount list \<Rightarrow> ByteCount list" where
  "acked_vs sz vs = dropWhile (\<lambda>v. v \<le> sz) vs"

definition lost_vs :: "ByteCount \<Rightarrow> ByteCount list \<Rightarrow> ByteCount list" where
  "lost_vs sz vs = take 3 (takeWhile (\<lambda>v. v \<le> sz) vs @ sz # dropWhile (\<lambda>v. v \<le> sz) vs)"

lemma mtu_OnAcked_eq:
  assumes ok: "mtu_ok f vs" and sz: "mf_inFlight f = sz" "mf_min f \<le> sz" "sz < last vs"
  shows "mtu_OnAcked f (mf_generation f) = Inr (f\<lparr>mf_inFlight := InvalidByteCount, mf_min := sz, mf_lastProbeWasLost := False, mf_lost := pad (acked_vs sz vs)\<rparr>)"
proof -
  have "vs \<noteq> []" "length vs \<le> 3" "mf_lost f = pad vs" "sorted vs" "0 \<le> sz"
    using ok sz(2) by (simp_all add: mtu_ok_def)
  then show ?thesis
    using sz(1,3)
    by (elim vs_cases) (auto simp: mtu_OnAcked_def pad_def acked_vs_def maxLostMTUProbes_def upt_3 numeral_3_eq_3 InvalidByteCount_def Let_def)
qed

lemma mtu_OnLost_eq:
  assumes ok: "mtu_ok f vs" and sz: "mf_inFlight f = sz" "mf_min f \<le> sz" "sz < last vs"
  shows "mtu_OnLost f (mf_generation f) = Inr (f\<lparr>mf_inFlight := InvalidByteCount, mf_lastProbeWasLost := True, mf_lost := pad (lost_vs sz vs)\<rparr>)"
proof -
  have "vs \<noteq> []" "length vs \<le> 3" "mf_lost f = pad vs" "sorted vs" "0 \<le> sz"
    using ok sz(2) by (simp_all add: mtu_ok_def)
  then show ?thesis
    using sz(1,3)
    by (elim vs_cases) (auto simp: mtu_OnLost_def pad_def lost_vs_def maxLostMTUProbes_def upt_3 numeral_3_eq_3 InvalidByteCount_def Let_def)
qed

lemma acked_vs_props:
  assumes "vs \<noteq> []" and "sorted vs" and "sz < last vs"
  shows "acked_vs sz vs \<noteq> []" "length (acked_vs sz vs) \<le> length vs" "sorted (acked_vs sz vs)" "\<forall>v\<in>set (acked_vs sz vs). sz < v \<and> v \<in> set vs"
    "last (acked_vs sz vs) = last vs"
proof -
  show ne: "acked_vs sz vs \<noteq> []"
    using assms(1,3) last_in_set [of vs] by (auto simp: acked_vs_def intro: bexI [of _ "last vs"])
  show "length (acked_vs sz vs) \<le> length vs" "sorted (acked_vs sz vs)"
    using assms(2) by (simp_all add: acked_vs_def length_dropWhile_le sorted_dropWhile)
  show "last (acked_vs sz vs) = last vs"
    using ne by (metis acked_vs_def last_appendR takeWhile_dropWhile_id)
  show "\<forall>v\<in>set (acked_vs sz vs). sz < v \<and> v \<in> set vs"
  proof
    fix v assume v: "v \<in> set (acked_vs sz vs)"
    obtain w ws where w: "acked_vs sz vs = w # ws"
      using ne by (cases "acked_vs sz vs") auto
    then have "\<not> w \<le> sz"
      by (simp add: acked_vs_def dropWhile_eq_Cons_conv)
    moreover have "sorted (w # ws)"
      using w \<open>sorted (acked_vs sz vs)\<close> by simp
    ultimately show "sz < v \<and> v \<in> set vs"
      using v w set_dropWhileD [of v "\<lambda>v. v \<le> sz" vs] by (auto simp: acked_vs_def)
  qed
qed

lemma lost_vs_cases:
  assumes "vs \<noteq> []" and "length vs \<le> 3" and "sorted vs" and "sz < last vs"
  obtains (grow) "length vs < 3" "mset (lost_vs sz vs) = add_mset sz (mset vs)" "last (lost_vs sz vs) = last vs"
  | (full) "length vs = 3" "add_mset (last vs) (mset (lost_vs sz vs)) = add_mset sz (mset vs)" "last (lost_vs sz vs) \<le> last vs"
  using assms by (elim vs_cases) (auto simp: lost_vs_def numeral_3_eq_3 split: if_splits)

lemma lost_vs_sorted:
  assumes "vs \<noteq> []" and "length vs \<le> 3" and "sorted vs" and "sz < last vs"
  shows "sorted (lost_vs sz vs)" and "lost_vs sz vs \<noteq> []" and "length (lost_vs sz vs) \<le> 3" and "set (lost_vs sz vs) \<subseteq> insert sz (set vs)"
  using assms by (elim vs_cases; auto simp: lost_vs_def numeral_3_eq_3 split: if_splits)+

text \<open>The finder after a probe.\<close>

definition after_probe :: "mtuFinder \<Rightarrow> ByteCount list \<Rightarrow> bool \<Rightarrow> mtuFinder \<Rightarrow> ByteCount list \<Rightarrow> bool" where
  "after_probe f vs acked f' vs' \<longleftrightarrow> mf_min f' = (if acked then probe_size f vs else mf_min f) \<and> mf_lastProbeWasLost f' = (\<not> acked) \<and>
     vs' = (if acked then acked_vs (probe_size f vs) vs else lost_vs (probe_size f vs) vs)"

lemma mtu_probe_eq:
  assumes ok: "mtu_ok f vs" and more: "last vs - mf_min f > 21"
  obtains f' vs' where "mtu_probe acked now f = Inr f'" "mtu_ok f' vs'" "after_probe f vs (acked (probe_size f vs)) f' vs'"
proof -
  define sz where "sz = probe_size f vs"
  define f1 where "f1 = f\<lparr>mf_lastProbeTime := now, mf_inFlight := sz\<rparr>"
  have b: "mf_min f \<le> sz" "sz < last vs"
    using probe_size_bounds [OF ok more] by (simp_all add: sz_def)
  have vs: "vs \<noteq> []" "length vs \<le> 3" "sorted vs" "\<forall>v\<in>set vs. mf_min f \<le> v" "0 \<le> mf_min f" "mf_lost f = pad vs"
    using ok by (simp_all add: mtu_ok_def)
  have ok1: "mtu_ok f1 vs" and f1: "mf_inFlight f1 = sz" "mf_min f1 = mf_min f" "mf_generation f1 = mf_generation f"
    using ok by (simp_all add: mtu_ok_def f1_def)
  have p: "mtu_probe acked now f = (if acked sz then mtu_OnAcked f1 (mf_generation f1) else mtu_OnLost f1 (mf_generation f1))"
    by (simp add: mtu_probe_def GetPing_eq [OF ok] sz_def f1_def)
  show thesis
  proof (cases "acked sz")
    case True
    let ?f = "f1\<lparr>mf_inFlight := InvalidByteCount, mf_min := sz, mf_lastProbeWasLost := False, mf_lost := pad (acked_vs sz vs)\<rparr>"
    have "mtu_probe acked now f = Inr ?f"
      using p True mtu_OnAcked_eq [OF ok1 f1(1)] b f1(2) by simp
    moreover have "mtu_ok ?f (acked_vs sz vs)"
      using acked_vs_props [OF vs(1,3) b(2)] vs(2,5) b(1) by (auto simp: mtu_ok_def intro: less_imp_le)
    ultimately show ?thesis
      using True by (intro that) (assumption | simp add: after_probe_def sz_def [symmetric])+
  next
    case False
    let ?f = "f1\<lparr>mf_inFlight := InvalidByteCount, mf_lastProbeWasLost := True, mf_lost := pad (lost_vs sz vs)\<rparr>"
    have "mtu_probe acked now f = Inr ?f"
      using p False mtu_OnLost_eq [OF ok1 f1(1)] b f1(2) by simp
    moreover have "mtu_ok ?f (lost_vs sz vs)"
      using lost_vs_sorted [OF vs(1-3) b(2)] vs(4,5) b(1) f1(2) by (auto simp: mtu_ok_def)
    ultimately show ?thesis
      using False by (intro that) (assumption | simp add: after_probe_def sz_def [symmetric] f1(2))+
  qed
qed

section \<open>Termination\<close>

text \<open>
  What gets smaller with every probe: the width of the interval; the sum of the lost sizes, with the maximum for those that are not above the minimum; whether the last probe was
  lost; and the number of places for sizes that are not above the minimum.
\<close>

definition slot :: "ByteCount \<Rightarrow> ByteCount \<Rightarrow> ByteCount \<Rightarrow> int" where
  "slot mn mx v = (if v \<le> mn then mx else v)"

definition slots :: "ByteCount \<Rightarrow> ByteCount list \<Rightarrow> int" where
  "slots mn vs = sum_mset (image_mset (slot mn (last vs)) (mset vs)) + (3 - int (length vs)) * last vs"

definition low :: "ByteCount \<Rightarrow> ByteCount list \<Rightarrow> nat" where
  "low mn vs = size (filter_mset (\<lambda>v. v \<le> mn) (mset vs))"

definition mtu_rank :: "mtuFinder \<Rightarrow> ByteCount list \<Rightarrow> nat \<times> nat \<times> nat \<times> nat" where
  "mtu_rank f vs = (nat (last vs - mf_min f), nat (slots (mf_min f) vs), of_bool (mf_lastProbeWasLost f), 3 - low (mf_min f) vs)"

lemma slots_nonneg:
  assumes "mtu_ok f vs"
  shows "0 \<le> slots (mf_min f) vs"
proof -
  have "0 \<le> last vs" "vs \<noteq> []" "length vs \<le> 3" "\<forall>v\<in>set vs. 0 \<le> v"
    using mtu_ok_ends [OF assms] assms by (auto simp: mtu_ok_def intro: order_trans [of 0 "mf_min f"])
  then show ?thesis
    by (elim vs_cases) (simp_all add: slots_def slot_def)
qed

lemma acked_slots:
  assumes "vs \<noteq> []" and "length vs \<le> 3" and "sorted vs" and "mn < last vs"
  shows "slots mn (acked_vs mn vs) = slots mn vs"
  using assms by (elim vs_cases) (auto simp: slots_def slot_def acked_vs_def)

lemma lost_slots:
  assumes "vs \<noteq> []" and "length vs \<le> 3" and "sorted vs" and "mn \<le> sz" and "sz < last vs" and "mn < last vs" and "last (lost_vs sz vs) = last vs"
  shows "slots mn (lost_vs sz vs) = slots mn vs - (last vs - slot mn (last vs) sz)" "low mn (lost_vs sz vs) = low mn vs + of_bool (sz = mn)" "low mn vs < 3"
  using assms by (elim vs_cases; auto simp: slots_def slot_def low_def lost_vs_def numeral_3_eq_3 split: if_splits)+

lemma mtu_rank_decreases:
  assumes ok: "mtu_ok f vs" "mtu_ok f' vs'" and more: "last vs - mf_min f > 21" and a: "after_probe f vs b f' vs'"
  shows "(mtu_rank f' vs', mtu_rank f vs) \<in> less_than <*lex*> less_than <*lex*> less_than <*lex*> less_than"
proof -
  define sz where "sz = probe_size f vs"
  have vs: "vs \<noteq> []" "length vs \<le> 3" "sorted vs"
    using ok(1) by (simp_all add: mtu_ok_def)
  have bounds: "mf_min f \<le> sz" "sz < last vs" "\<not> mf_lastProbeWasLost f \<Longrightarrow> mf_min f < sz" "mf_min f < last vs"
    using probe_size_bounds [OF ok(1) more] more by (simp_all add: sz_def)
  show ?thesis
  proof (cases b)
    case True
    then have f': "mf_min f' = sz" "\<not> mf_lastProbeWasLost f'" "vs' = acked_vs sz vs"
      using a by (simp_all add: after_probe_def sz_def)
    have l: "last vs' = last vs"
      using acked_vs_props(5) [OF vs(1,3) bounds(2)] f'(3) by simp
    show ?thesis
    proof (cases "sz = mf_min f")
      case True
      then have "slots (mf_min f') vs' = slots (mf_min f) vs" "mf_lastProbeWasLost f"
        using acked_slots [OF vs, of sz] bounds f' by auto
      then show ?thesis
        using f' l True by (simp add: mtu_rank_def)
    qed (use f' l bounds in \<open>simp add: mtu_rank_def\<close>)
  next
    case False
    then have f': "mf_min f' = mf_min f" "mf_lastProbeWasLost f'" "vs' = lost_vs sz vs"
      using a by (simp_all add: after_probe_def sz_def)
    have le: "last vs' \<le> last vs"
      using lost_vs_cases [OF vs bounds(2)] f'(3) by (metis order_refl)
    show ?thesis
    proof (cases "last vs' = last vs")
      case True
      note s = lost_slots [OF vs bounds(1,2,4) True [unfolded f'(3)]]
      show ?thesis
      proof (cases "sz = mf_min f")
        case True
        then show ?thesis
          using \<open>last vs' = last vs\<close> s f' bounds(3) by (auto simp: mtu_rank_def slot_def)
      next
        case False
        then have "slots (mf_min f) vs' < slots (mf_min f) vs"
          using s(1) bounds(1,2) f'(3) by (simp add: slot_def)
        then show ?thesis
          using slots_nonneg [OF ok(2)] \<open>last vs' = last vs\<close> f'(1) by (simp add: mtu_rank_def)
      qed
    qed (use le f'(1) bounds(4) in \<open>simp add: mtu_rank_def\<close>)
  qed
qed

lemma newMTUDiscoverer_ok: "0 \<le> start \<Longrightarrow> start \<le> mx \<Longrightarrow> mtu_ok (newMTUDiscoverer start mx) [mx]"
  by (simp add: newMTUDiscoverer_def mtu_init_def mtu_ok_def pad_def maxLostMTUProbes_def upt_3 numeral_3_eq_3 replicate_append_same)

text \<open>Every finite part of the search returns a finder.\<close>

lemma mtu_search_ok:
  assumes "mtu_ok f vs"
  shows "\<exists>f' vs'. mtu_search acked t n f = Inr f' \<and> mtu_ok f' vs'"
proof (induction n)
  case (Suc n)
  then obtain f' vs' where f': "mtu_search acked t n f = Inr f'" "mtu_ok f' vs'"
    by blast
  show ?case
  proof (cases "last vs' - mf_min f' \<le> 21")
    case False
    then obtain f1 vs1 where "mtu_probe (acked n) (t n) f' = Inr f1" "mtu_ok f1 vs1"
      using mtu_probe_eq [OF f'(2), of "acked n" "t n"] by (metis linorder_not_le)
    then show ?thesis
      using f'(1) mtu_done_eq [OF f'(2)] False by auto
  qed (use f' mtu_done_eq [OF f'(2)] in auto)
qed (use assms in auto)

lemma mtu_done_reached:
  assumes "0 \<le> start" and "start \<le> mx"
  shows "\<exists>n f. mtu_search acked t n (newMTUDiscoverer start mx) = Inr f \<and> mtu_done f = Inr True"
proof (rule ccontr)
  assume *: "\<not> ?thesis"
  define f where "f n = projr (mtu_search acked t n (newMTUDiscoverer start mx))" for n
  define vs where "vs n = takeWhile (\<lambda>v. v \<noteq> InvalidByteCount) (mf_lost (f n))" for n
  have f: "mtu_search acked t n (newMTUDiscoverer start mx) = Inr (f n)" "mtu_ok (f n) (vs n)" for n
    using mtu_search_ok [OF newMTUDiscoverer_ok [OF assms], of acked t n] mtu_ok_vs by (auto simp: f_def vs_def)
  have more: "last (vs n) - mf_min (f n) > 21" for n
    using * f mtu_done_eq [OF f(2)] by (metis linorder_not_le)
  have "(mtu_rank (f (Suc n)) (vs (Suc n)), mtu_rank (f n) (vs n)) \<in> less_than <*lex*> less_than <*lex*> less_than <*lex*> less_than" for n
  proof -
    obtain f' vs' where f': "mtu_probe (acked n) (t n) (f n) = Inr f'" "mtu_ok f' vs'" "after_probe (f n) (vs n) (acked n (probe_size (f n) (vs n))) f' vs'"
      using mtu_probe_eq [OF f(2) more] by metis
    have "f (Suc n) = f'"
      using f(1) [of "Suc n"] f(1) [of n] mtu_done_eq [OF f(2) [of n]] more [of n] f'(1) by simp
    moreover have "vs (Suc n) = vs'"
      using mtu_ok_vs [OF f'(2)] \<open>f (Suc n) = f'\<close> by (simp add: vs_def)
    ultimately show ?thesis
      using mtu_rank_decreases [OF f(2) f'(2) more f'(3)] by simp
  qed
  moreover have "wf (less_than <*lex*> less_than <*lex*> less_than <*lex*> less_than)"
    by auto
  ultimately show False
    using wf_no_infinite_down_chainE [of _ "\<lambda>n. mtu_rank (f n) (vs n)"] by metis
qed

text \<open>
  (C20) MTU discovery terminates: whichever of the probes are acknowledged and whichever are lost, after finitely many probes the search is done. No probe in between
  runs into a panic.
\<close>

theorem mtu_discovery_terminates:
  assumes "0 \<le> start" and "start \<le> mx"
  shows "\<exists>n f. mtu_search acked t n (newMTUDiscoverer start mx) = Inr f \<and> mtu_done f = Inr True"
  by (rule mtu_done_reached [OF assms])

theorem mtu_discovery_terminates_witness:
  "\<exists>n f. mtu_search (\<lambda>n sz. sz \<le> 1400) int n (newMTUDiscoverer 1280 1452) = Inr f \<and> mtu_done f = Inr True"
  by (rule mtu_discovery_terminates) simp_all

section \<open>The MTU that is found\<close>

text \<open>
  The path carries packets of at most \<open>m\<close> bytes. The probes in \<open>D\<close> are lost for another reason.
\<close>

definition path_outcome :: "ByteCount \<Rightarrow> nat set \<Rightarrow> nat \<Rightarrow> ByteCount \<Rightarrow> bool" where
  "path_outcome m D n sz \<longleftrightarrow> sz \<le> m \<and> n \<notin> D"

definition mtu_sound :: "ByteCount \<Rightarrow> nat \<Rightarrow> mtuFinder \<Rightarrow> ByteCount list \<Rightarrow> bool" where
  "mtu_sound m k f vs \<longleftrightarrow> mtu_ok f vs \<and> mf_min f \<le> m \<and> m < last vs \<and> low m vs \<le> k"

lemma low_acked: "low m (acked_vs sz vs) \<le> low m vs"
proof -
  have "mset (acked_vs sz vs) \<subseteq># mset vs"
    unfolding acked_vs_def by (metis mset_append mset_subset_eq_add_right takeWhile_dropWhile_id)
  then show ?thesis
    unfolding low_def by (intro size_mset_mono multiset_filter_mono)
qed

lemma low_lost:
  assumes "vs \<noteq> []" and "length vs \<le> 3" and "sorted vs" and "sz < last vs" and "m < last vs"
  shows "low m (lost_vs sz vs) = low m vs + of_bool (sz \<le> m)" and "low m vs + of_bool (sz \<le> m) < 3 \<Longrightarrow> m < last (lost_vs sz vs)"
proof -
  show "low m (lost_vs sz vs) = low m vs + of_bool (sz \<le> m)"
    using assms by (elim vs_cases) (auto simp: low_def lost_vs_def numeral_3_eq_3 split: if_splits)
  show "m < last (lost_vs sz vs)" if "low m vs + of_bool (sz \<le> m) < 3"
    using assms that by (elim vs_cases) (auto simp: low_def lost_vs_def numeral_3_eq_3 split: if_splits)
qed

lemma mtu_sound_probe:
  assumes "mtu_sound m k f vs" and "mtu_ok f' vs'" and "last vs - mf_min f > 21" and "k + of_bool (n \<in> D) < 3"
    and a: "after_probe f vs (path_outcome m D n (probe_size f vs)) f' vs'"
  shows "mtu_sound m (k + of_bool (n \<in> D)) f' vs'"
proof -
  define sz where "sz = probe_size f vs"
  have ok: "mtu_ok f vs" "mf_min f \<le> m" "m < last vs" "low m vs \<le> k"
    using assms(1) by (simp_all add: mtu_sound_def)
  have vs: "vs \<noteq> []" "length vs \<le> 3" "sorted vs"
    using ok(1) by (simp_all add: mtu_ok_def)
  have sz: "sz < last vs"
    using probe_size_bounds [OF ok(1) assms(3)] by (simp add: sz_def)
  show ?thesis
  proof (cases "path_outcome m D n sz")
    case True
    then have "mf_min f' = sz" "vs' = acked_vs sz vs" "sz \<le> m"
      using a by (simp_all add: after_probe_def sz_def path_outcome_def)
    then show ?thesis
      using acked_vs_props(5) [OF vs(1,3) sz] low_acked [of m sz vs] ok assms(2) by (simp add: mtu_sound_def)
  next
    case False
    then have "mf_min f' = mf_min f" "vs' = lost_vs sz vs" "of_bool (sz \<le> m) \<le> (of_bool (n \<in> D) :: nat)"
      using a by (auto simp: after_probe_def sz_def path_outcome_def)
    moreover from this have "low m vs + of_bool (sz \<le> m) \<le> k + of_bool (n \<in> D)"
      using ok(4) by linarith
    ultimately show ?thesis
      using low_lost [OF vs sz ok(3)] ok(2) assms(2,4) unfolding mtu_sound_def by (metis order.strict_trans1)
  qed
qed

lemma mtu_search_sound:
  assumes "0 \<le> start" and "start \<le> m" and "m < mx" and "finite D" and "card D \<le> 2"
  shows "\<exists>f vs. mtu_search (path_outcome m D) t n (newMTUDiscoverer start mx) = Inr f \<and> mtu_sound m (card {i\<in>D. i < n}) f vs"
proof (induction n)
  case 0
  have "mtu_ok (newMTUDiscoverer start mx) [mx]"
    using assms by (intro newMTUDiscoverer_ok) simp_all
  then have "mtu_sound m 0 (newMTUDiscoverer start mx) [mx]"
    using assms by (simp add: mtu_sound_def low_def newMTUDiscoverer_def mtu_init_def)
  then show ?case
    by auto
next
  case (Suc n)
  then obtain f vs where f: "mtu_search (path_outcome m D) t n (newMTUDiscoverer start mx) = Inr f" "mtu_sound m (card {i\<in>D. i < n}) f vs"
    by blast
  then have ok: "mtu_ok f vs"
    by (simp add: mtu_sound_def)
  have "{i\<in>D. i < Suc n} = (if n \<in> D then insert n {i\<in>D. i < n} else {i\<in>D. i < n})"
    by (auto simp: less_Suc_eq)
  then have c: "card {i\<in>D. i < Suc n} = card {i\<in>D. i < n} + of_bool (n \<in> D)"
    using assms(4) by simp
  have "card {i\<in>D. i < Suc n} \<le> card D"
    using assms(4) by (intro card_mono) auto
  then have k: "card {i\<in>D. i < n} + of_bool (n \<in> D) < 3"
    using c assms(5) by linarith
  show ?case
  proof (cases "last vs - mf_min f \<le> 21")
    case True
    moreover have "mtu_sound m (card {i\<in>D. i < Suc n}) f vs"
      using f(2) c by (simp add: mtu_sound_def)
    ultimately show ?thesis
      using f(1) mtu_done_eq [OF ok] by auto
  next
    case False
    then obtain f' vs' where f': "mtu_probe (path_outcome m D n) (t n) f = Inr f'" "mtu_ok f' vs'" "after_probe f vs (path_outcome m D n (probe_size f vs)) f' vs'"
      using mtu_probe_eq [OF ok, of "path_outcome m D n" "t n"] by (metis linorder_not_le)
    then show ?thesis
      using mtu_sound_probe [OF f(2) f'(2) _ k f'(3)] f(1) mtu_done_eq [OF ok] False c by auto
  qed
qed

text \<open>
  (C9) MTU discovery finds the MTU of the path. If the path carries packets of up to \<open>m\<close> bytes, between the initial size and the limit of the search, then the search ends with
  a size that the path carries and that is at most 20 bytes below \<open>m\<close>, even if up to two probes that fit the path are lost.
\<close>

theorem mtu_discovery_finds_mtu:
  assumes "0 \<le> start" and "start \<le> m" and "m < mx" and "finite D" and "card D \<le> 2"
  shows "\<exists>n f. mtu_search (path_outcome m D) t n (newMTUDiscoverer start mx) = Inr f \<and> mtu_done f = Inr True \<and>
    mtu_CurrentSize f \<le> m \<and> m \<le> mtu_CurrentSize f + 20"
proof -
  obtain n f where f: "mtu_search (path_outcome m D) t n (newMTUDiscoverer start mx) = Inr f" "mtu_done f = Inr True"
    using mtu_done_reached [of start mx] assms by force
  then obtain vs where "mtu_sound m (card {i\<in>D. i < n}) f vs"
    using mtu_search_sound [OF assms, of t n] by auto
  then have "mtu_CurrentSize f \<le> m \<and> m \<le> mtu_CurrentSize f + 20"
    using f(2) mtu_done_eq [of f vs] by (simp add: mtu_sound_def mtu_CurrentSize_def)
  with f show ?thesis
    by blast
qed

theorem mtu_discovery_finds_mtu_witness:
  "\<exists>n f. mtu_search (path_outcome 1400 {0, 2}) int n (newMTUDiscoverer 1280 1452) = Inr f \<and> mtu_done f = Inr True \<and>
    mtu_CurrentSize f \<le> 1400 \<and> 1400 \<le> mtu_CurrentSize f + 20"
  by (rule mtu_discovery_finds_mtu) simp_all

text \<open>
  The comment on \<open>maxMTUDiff\<close> allows for a packet that is 10 bytes smaller than the MTU; the search stops 20 bytes below it.
\<close>

lemma mtu_twenty_bytes_short:
  "\<exists>f. mtu_search (path_outcome 1300 {}) int 0 (newMTUDiscoverer 1280 1301) = Inr f \<and> mtu_done f = Inr True \<and> mtu_CurrentSize f = 1300 - 20"
  by (intro exI [of _ "newMTUDiscoverer 1280 1301"] conjI) code_simp+

end
