(* ===== verification/Receive_Stream.thy ===== *)
theory Receive_Stream
  imports Frame_Sorter_Run Flow_Control Go_Runtime Frame_Parser
begin

text \<open>
  The receive side of a stream (\<open>receive_stream.go\<close>) on top of the frame sorter and the flow controllers. A call of \<open>Read\<close> is cut where it waits on the
  channel without holding the mutex; \<open>readOnce\<close> allows for one call at a time. The buffer given to \<open>Read\<close> is its length, and the bytes copied to it are returned. Calls
  to the sender and to the callbacks of the frames are returned as events. The connection's flow controller is passed along. An entry of the frame queue is never empty,
  so that the empty list stands for the nil frame.
\<close>

section \<open>The stream\<close>

datatype stream_err = ReadEOF | StreamError StreamID u64 bool | ErrDeadline | ErrShutdown string | ErrBug string

datatype stream_call = StreamCompleted StreamID | HasStreamControlFrame StreamID | HasConnectionData | FrameDone callback

record receiveStream =
  rv_streamID :: StreamID
  rv_frameQueue :: frameSorter
  rv_finalOffset :: ByteCount
  rv_currentFrame :: "byte list"
  rv_currentFrameDone :: "callback option"
  rv_readPosInFrame :: nat
  rv_currentFrameIsLast :: bool
  rv_queuedStopSending :: bool
  rv_queuedMaxStreamData :: bool
  rv_errorRead :: bool
  rv_completed :: bool
  rv_cancelledRemotely :: bool
  rv_cancelledLocally :: bool
  rv_cancelErr :: "(StreamID \<times> u64 \<times> bool) option"
  rv_closeForShutdownErr :: "string option"
  rv_readChan :: go_chan
  rv_deadline :: Time
  rv_flowController :: streamFlowController

definition newReceiveStream :: "StreamID \<Rightarrow> streamFlowController \<Rightarrow> receiveStream" where
  "newReceiveStream streamID flowController =
     \<lparr>rv_streamID = streamID, rv_frameQueue = newFrameSorter, rv_finalOffset = MaxByteCount, rv_currentFrame = [], rv_currentFrameDone = None,
      rv_readPosInFrame = 0, rv_currentFrameIsLast = False, rv_queuedStopSending = False, rv_queuedMaxStreamData = False, rv_errorRead = False,
      rv_completed = False, rv_cancelledRemotely = False, rv_cancelledLocally = False, rv_cancelErr = None, rv_closeForShutdownErr = None,
      rv_readChan = ChanEmpty, rv_deadline = 0, rv_flowController = flowController\<rparr>"

definition receive_isNewlyCompleted :: "receiveStream \<Rightarrow> receiveStream \<times> bool" where
  "receive_isNewlyCompleted s =
     (if rv_completed s then (s, False)
      else if rv_finalOffset s = MaxByteCount then (s, False)
      else if rv_cancelledLocally s then (s\<lparr>rv_completed := True\<rparr>, True)
      else if rv_errorRead s then (s\<lparr>rv_completed := True\<rparr>, True)
      else (s, False))"

text \<open>The error that a nil or a set \<open>cancelErr\<close> and \<open>closeForShutdownErr\<close> stand for.\<close>

definition cancel_error :: "receiveStream \<Rightarrow> stream_err option" where
  "cancel_error s = map_option (\<lambda>(i, code, remote). StreamError i code remote) (rv_cancelErr s)"

definition shutdown_error :: "receiveStream \<Rightarrow> stream_err option" where
  "shutdown_error s = map_option ErrShutdown (rv_closeForShutdownErr s)"

definition signalRead :: "receiveStream \<Rightarrow> receiveStream" where
  "signalRead s = (case rv_readChan s of ChanEmpty \<Rightarrow> s\<lparr>rv_readChan := ChanFull\<rparr> | _ \<Rightarrow> s)"

definition dequeueNextFrame :: "receiveStream \<Rightarrow> (receiveStream \<times> callback list) result" where
  "dequeueNextFrame s =
     rbind (sorter_Pop (rv_frameQueue s)) (\<lambda>(q, offset, data, cb).
     Inr (s\<lparr>rv_frameQueue := q, rv_currentFrame := data, rv_currentFrameDone := cb,
            rv_currentFrameIsLast := offset + int (length data) \<ge> rv_finalOffset s, rv_readPosInFrame := 0\<rparr>,
          call (rv_currentFrameDone s)))"

section \<open>Read\<close>

text \<open>The variables of a call of \<open>readImpl\<close>, with the stream and the flow controller of the connection, and the callbacks called so far.\<close>

record read_call =
  rc_stream :: receiveStream
  rc_conn :: baseFlowController
  rc_len :: nat
  rc_data :: "byte list"
  rc_hasStreamWindowUpdate :: bool
  rc_hasConnWindowUpdate :: bool
  rc_callbacks :: "callback list"

datatype read_outcome = ReadReturn "byte list" "stream_err option" | ReadWait | ReadMore

definition read_dequeue :: "read_call \<Rightarrow> read_call result" where
  "read_dequeue c = rbind (dequeueNextFrame (rc_stream c)) (\<lambda>(s, cbs). Inr (c\<lparr>rc_stream := s, rc_callbacks := rc_callbacks c @ cbs\<rparr>))"

text \<open>The part of the loop behind the waiting loop: copy to the buffer and account for the bytes.\<close>

definition read_account :: "read_call \<Rightarrow> nat \<Rightarrow> read_call" where
  "read_account c m =
     (let s = rc_stream c in
      if rv_cancelledRemotely s then c
      else let ((fc, conn), hasStream, hasConn) = stream_AddBytesRead (rv_flowController s) (rc_conn c) (int m) in
        c\<lparr>rc_stream := s\<lparr>rv_flowController := fc, rv_queuedMaxStreamData := rv_queuedMaxStreamData s \<or> hasStream\<rparr>, rc_conn := conn,
          rc_hasStreamWindowUpdate := rc_hasStreamWindowUpdate c \<or> hasStream, rc_hasConnWindowUpdate := rc_hasConnWindowUpdate c \<or> hasConn\<rparr>)"

definition read_copy :: "read_call \<Rightarrow> read_call \<times> read_outcome" where
  "read_copy c =
     (let s = rc_stream c; frame = rv_currentFrame s; pos = rv_readPosInFrame s in
      if length (rc_data c) > rc_len c then (c, ReadReturn (rc_data c) (Some (ErrBug ''BUG: bytesRead (%d) > len(p) (%d) in stream.Read'')))
      else if pos > length frame
      then (c, ReadReturn (rc_data c) (Some (ErrBug ''BUG: readPosInFrame (%d) > frame.DataLen (%d) in stream.Read'')))
      else
        let bytes = take (rc_len c - length (rc_data c)) (drop pos frame);
            m = length bytes;
            c = read_account (c\<lparr>rc_stream := s\<lparr>rv_readPosInFrame := pos + m\<rparr>, rc_data := rc_data c @ bytes\<rparr>) m;
            s = rc_stream c in
        if rv_readPosInFrame s \<ge> length (rv_currentFrame s) \<and> rv_currentFrameIsLast s
        then (c\<lparr>rc_stream := s\<lparr>rv_currentFrame := [], rv_errorRead := True\<rparr>, rc_callbacks := rc_callbacks c @ call (rv_currentFrameDone s)\<rparr>,
              ReadReturn (rc_data c) (Some ReadEOF))
        else (c, ReadMore))"

text \<open>The waiting loop, up to the point where it waits.\<close>

definition read_check :: "Time \<Rightarrow> read_call \<Rightarrow> read_call \<times> read_outcome" where
  "read_check now c =
     (let s = rc_stream c in
      if rv_closeForShutdownErr s \<noteq> None then (c, ReadReturn (rc_data c) (shutdown_error s))
      else if rv_cancelledRemotely s \<or> rv_cancelledLocally s
      then (c\<lparr>rc_stream := s\<lparr>rv_errorRead := True\<rparr>\<rparr>, ReadReturn [] (cancel_error s))
      else if rv_deadline s \<noteq> 0 \<and> \<not> now < rv_deadline s then (c, ReadReturn (rc_data c) (Some ErrDeadline))
      else if rv_currentFrame s \<noteq> [] \<or> rv_currentFrameIsLast s then read_copy c
      else (c, ReadWait))"

definition read_iteration :: "Time \<Rightarrow> read_call \<Rightarrow> (read_call \<times> read_outcome) result" where
  "read_iteration now c =
     (let s = rc_stream c in
      rbind (if rv_currentFrame s = [] \<or> rv_readPosInFrame s \<ge> length (rv_currentFrame s) then read_dequeue c else Inr c) (\<lambda>c.
      if rv_currentFrame (rc_stream c) = [] \<and> length (rc_data c) > 0
      then Inr (c, ReadReturn (rc_data c) (shutdown_error (rc_stream c)))
      else Inr (read_check now c)))"

lemma read_account_fields [simp]:
  "rc_data (read_account c m) = rc_data c" "rc_len (read_account c m) = rc_len c" "rc_callbacks (read_account c m) = rc_callbacks c"
  "rv_currentFrame (rc_stream (read_account c m)) = rv_currentFrame (rc_stream c)"
  "rv_currentFrameIsLast (rc_stream (read_account c m)) = rv_currentFrameIsLast (rc_stream c)"
  "rv_readPosInFrame (rc_stream (read_account c m)) = rv_readPosInFrame (rc_stream c)"
  "rv_frameQueue (rc_stream (read_account c m)) = rv_frameQueue (rc_stream c)"
  "rv_finalOffset (rc_stream (read_account c m)) = rv_finalOffset (rc_stream c)"
  "rv_cancelledRemotely (rc_stream (read_account c m)) = rv_cancelledRemotely (rc_stream c)"
  "rv_cancelledLocally (rc_stream (read_account c m)) = rv_cancelledLocally (rc_stream c)"
  "rv_closeForShutdownErr (rc_stream (read_account c m)) = rv_closeForShutdownErr (rc_stream c)"
  "rv_readChan (rc_stream (read_account c m)) = rv_readChan (rc_stream c)" "rv_deadline (rc_stream (read_account c m)) = rv_deadline (rc_stream c)"
  "rv_errorRead (rc_stream (read_account c m)) = rv_errorRead (rc_stream c)" "rv_completed (rc_stream (read_account c m)) = rv_completed (rc_stream c)"
  "rv_streamID (rc_stream (read_account c m)) = rv_streamID (rc_stream c)" "rv_cancelErr (rc_stream (read_account c m)) = rv_cancelErr (rc_stream c)"
  "rv_queuedStopSending (rc_stream (read_account c m)) = rv_queuedStopSending (rc_stream c)"
  by (simp_all add: read_account_def Let_def split: prod.split)

lemma read_check_more:
  assumes "read_check now c = (c', ReadMore)" and "length (rc_data c) < rc_len c"
    and "rv_readPosInFrame (rc_stream c) < length (rv_currentFrame (rc_stream c)) \<or> rv_currentFrame (rc_stream c) = []"
  shows "length (rc_data c) < length (rc_data c')" and "rc_len c' = rc_len c"
proof -
  have "rv_currentFrame (rc_stream c) \<noteq> [] \<or> rv_currentFrameIsLast (rc_stream c)" and r: "read_copy c = (c', ReadMore)"
    using assms(1) by (auto simp: read_check_def Let_def split: if_splits)
  then show "length (rc_data c) < length (rc_data c')" and "rc_len c' = rc_len c"
    using assms(2,3) by (auto simp: read_copy_def Let_def split: if_splits)
qed

lemma dequeue_fields:
  assumes "read_dequeue c = Inr c'"
  shows "rv_readPosInFrame (rc_stream c') = 0" "rc_data c' = rc_data c" "rc_len c' = rc_len c"
  using assms by (auto simp: read_dequeue_def dequeueNextFrame_def rbind_eq_Inr)

lemma read_iteration_more:
  assumes "read_iteration now c = Inr (c', ReadMore)" and "length (rc_data c) < rc_len c"
  shows "length (rc_data c) < length (rc_data c')" and "rc_len c' = rc_len c"
proof -
  obtain c1 where c1: "read_check now c1 = (c', ReadMore)" "rc_data c1 = rc_data c" "rc_len c1 = rc_len c"
    "rv_readPosInFrame (rc_stream c1) < length (rv_currentFrame (rc_stream c1)) \<or> rv_currentFrame (rc_stream c1) = []"
    using assms(1) dequeue_fields [of c] by (fastforce simp: read_iteration_def Let_def rbind_eq_Inr split: if_splits)
  show "length (rc_data c) < length (rc_data c')" "rc_len c' = rc_len c"
    using read_check_more [OF c1(1) _ c1(4)] c1(2,3) assms(2) by simp_all
qed

lemma read_iteration_decreases:
  "read_iteration now c = Inr (c', ReadMore) \<Longrightarrow> length (rc_data c) < rc_len c \<Longrightarrow> rc_len c' - length (rc_data c') < rc_len c - length (rc_data c)"
  using read_iteration_more [of now c c'] by linarith

function read_loop :: "Time \<Rightarrow> read_call \<Rightarrow> (read_call \<times> read_outcome) result" where
  "read_loop now c =
     (if length (rc_data c) < rc_len c then
        (case read_iteration now c of
           Inl e \<Rightarrow> Inl e
         | Inr (c, ReadMore) \<Rightarrow> read_loop now c
         | Inr (c, r) \<Rightarrow> Inr (c, r))
      else Inr (c, ReadReturn (rc_data c) None))"
  by pat_completeness auto
termination
  by (relation "measure (\<lambda>(now, c). rc_len c - length (rc_data c))") (auto dest: read_iteration_decreases)

declare read_loop.simps [simp del]

definition readImpl :: "receiveStream \<Rightarrow> baseFlowController \<Rightarrow> nat \<Rightarrow> Time \<Rightarrow> (read_call \<times> read_outcome) result" where
  "readImpl s conn len now =
     (let c = \<lparr>rc_stream = s, rc_conn = conn, rc_len = len, rc_data = [], rc_hasStreamWindowUpdate = False, rc_hasConnWindowUpdate = False, rc_callbacks = []\<rparr> in
      if rv_currentFrameIsLast s \<and> rv_currentFrame s = [] then Inr (c\<lparr>rc_stream := s\<lparr>rv_errorRead := True\<rparr>\<rparr>, ReadReturn [] (Some ReadEOF))
      else if rv_cancelledRemotely s \<or> rv_cancelledLocally s
      then Inr (c\<lparr>rc_stream := s\<lparr>rv_errorRead := True\<rparr>\<rparr>, ReadReturn [] (cancel_error s))
      else if rv_closeForShutdownErr s \<noteq> None then Inr (c, ReadReturn [] (shutdown_error s))
      else read_loop now c)"

text \<open>After the wait: the mutex is taken again, and the next frame is taken from the queue if there is none yet.\<close>

definition read_resume :: "Time \<Rightarrow> read_call \<Rightarrow> (read_call \<times> read_outcome) result" where
  "read_resume now c =
     rbind (if rv_currentFrame (rc_stream c) = [] then read_dequeue c else Inr c) (\<lambda>c.
     case read_check now c of
       (c, ReadMore) \<Rightarrow> read_loop now c
     | (c, r) \<Rightarrow> Inr (c, r))"

text \<open>What \<open>Read\<close> does with a result of \<open>readImpl\<close>: the stream and the calls of the sender.\<close>

definition finish_Read :: "read_call \<Rightarrow> receiveStream \<times> stream_call list" where
  "finish_Read c =
     (let (s, completed) = receive_isNewlyCompleted (rc_stream c) in
      (s, map FrameDone (rc_callbacks c) @ (if completed then [StreamCompleted (rv_streamID s)] else []) @
          (if rc_hasStreamWindowUpdate c then [HasStreamControlFrame (rv_streamID s)] else []) @
          (if rc_hasConnWindowUpdate c then [HasConnectionData] else [])))"

section \<open>Cancellation, frames and shutdown\<close>

definition cancelReadImpl :: "receiveStream \<Rightarrow> u64 \<Rightarrow> receiveStream \<times> bool" where
  "cancelReadImpl s errorCode =
     (if rv_cancelledLocally s then (s, False)
      else if rv_closeForShutdownErr s \<noteq> None then (s, False)
      else
        let s = s\<lparr>rv_cancelledLocally := True\<rparr> in
        if rv_errorRead s \<or> rv_cancelledRemotely s then (s, False)
        else (signalRead (s\<lparr>rv_queuedStopSending := True, rv_cancelErr := Some (rv_streamID s, errorCode, False)\<rparr>), True))"

definition receive_abandon :: "receiveStream \<Rightarrow> baseFlowController \<Rightarrow> receiveStream \<times> baseFlowController" where
  "receive_abandon s conn = (let (fc, conn) = stream_Abandon (rv_flowController s) conn in (s\<lparr>rv_flowController := fc\<rparr>, conn))"

definition CancelRead :: "receiveStream \<Rightarrow> baseFlowController \<Rightarrow> u64 \<Rightarrow> receiveStream \<times> baseFlowController \<times> stream_call list" where
  "CancelRead s conn errorCode =
     (let (s, queuedNewControlFrame) = cancelReadImpl s errorCode;
          (s, completed) = receive_isNewlyCompleted s;
          (s, conn) = (if completed then receive_abandon s conn else (s, conn)) in
      (s, conn, (if queuedNewControlFrame then [HasStreamControlFrame (rv_streamID s)] else []) @ (if completed then [StreamCompleted (rv_streamID s)] else [])))"

definition handleStreamFrameImpl ::
  "receiveStream \<Rightarrow> baseFlowController \<Rightarrow> StreamFrame \<Rightarrow> callback option \<Rightarrow> Time \<Rightarrow> (receiveStream \<times> baseFlowController \<times> callback list) result" where
  "handleStreamFrameImpl s conn frame putBack now =
     (let maxOffset = sf_Offset frame + StreamFrame_DataLen frame in
      rbind (UpdateHighestReceived (rv_flowController s) conn maxOffset (sf_Fin frame) now) (\<lambda>(fc, conn).
      let s = s\<lparr>rv_flowController := fc\<rparr>;
          s = (if sf_Fin frame then s\<lparr>rv_finalOffset := maxOffset\<rparr> else s) in
      if rv_cancelledLocally s then Inr (s, conn, [])
      else rbind (sorter_Push (rv_frameQueue s) (sf_Data frame) (sf_Offset frame) putBack) (\<lambda>(q, cbs).
        Inr (signalRead (s\<lparr>rv_frameQueue := q\<rparr>), conn, cbs))))"

text \<open>If there is an error the connection is closed with it, so that what becomes of the stream does not matter.\<close>

definition handleStreamFrame ::
  "receiveStream \<Rightarrow> baseFlowController \<Rightarrow> StreamFrame \<Rightarrow> callback option \<Rightarrow> Time \<Rightarrow> (receiveStream \<times> baseFlowController \<times> stream_call list) result" where
  "handleStreamFrame s conn frame putBack now =
     rbind (handleStreamFrameImpl s conn frame putBack now) (\<lambda>(s, conn, cbs).
     let (s, completed) = receive_isNewlyCompleted s;
         (s, conn) = (if completed then receive_abandon s conn else (s, conn)) in
     Inr (s, conn, map FrameDone cbs @ (if completed then [StreamCompleted (rv_streamID s)] else [])))"

definition handleResetStreamFrameImpl :: "receiveStream \<Rightarrow> baseFlowController \<Rightarrow> ResetStreamFrame \<Rightarrow> Time \<Rightarrow> (receiveStream \<times> baseFlowController) result" where
  "handleResetStreamFrameImpl s conn frame now =
     (if rv_closeForShutdownErr s \<noteq> None then Inr (s, conn)
      else rbind (UpdateHighestReceived (rv_flowController s) conn (rs_FinalSize frame) True now) (\<lambda>(fc, conn).
        let s = s\<lparr>rv_flowController := fc, rv_finalOffset := rs_FinalSize frame\<rparr> in
        if rv_cancelledRemotely s then Inr (s, conn)
        else
          let (s, conn) = receive_abandon s conn in
          if rv_cancelledLocally s then Inr (s, conn)
          else Inr (signalRead (s\<lparr>rv_cancelledRemotely := True, rv_cancelErr := Some (rv_streamID s, rs_ErrorCode frame, True)\<rparr>), conn)))"

definition handleResetStreamFrame ::
  "receiveStream \<Rightarrow> baseFlowController \<Rightarrow> ResetStreamFrame \<Rightarrow> Time \<Rightarrow> (receiveStream \<times> baseFlowController \<times> stream_call list) result" where
  "handleResetStreamFrame s conn frame now =
     rbind (handleResetStreamFrameImpl s conn frame now) (\<lambda>(s, conn).
     let (s, completed) = receive_isNewlyCompleted s in Inr (s, conn, if completed then [StreamCompleted (rv_streamID s)] else []))"

definition receive_getControlFrame ::
  "receiveStream \<Rightarrow> baseFlowController \<Rightarrow> Duration \<Rightarrow> Time \<Rightarrow> (receiveStream \<times> baseFlowController \<times> (Frame option \<times> bool)) result" where
  "receive_getControlFrame s conn rtt now =
     (if \<not> rv_queuedStopSending s \<and> \<not> rv_queuedMaxStreamData s then Inr (s, conn, None, False)
      else if rv_queuedStopSending s then
        (case rv_cancelErr s of
           None \<Rightarrow> Inl (Panic ''invalid memory address or nil pointer dereference'')
         | Some (_, errorCode, _) \<Rightarrow>
             Inr (s\<lparr>rv_queuedStopSending := False\<rparr>, conn, Some (FStopSending \<lparr>ss_StreamID = rv_streamID s, ss_ErrorCode = errorCode\<rparr>), rv_queuedMaxStreamData s))
      else
        rbind (stream_GetWindowUpdate (rv_flowController s) conn rtt now) (\<lambda>((fc, conn), offset).
        Inr (s\<lparr>rv_queuedMaxStreamData := False, rv_flowController := fc\<rparr>, conn,
             Some (FMaxStreamData \<lparr>msd_StreamID = rv_streamID s, msd_MaximumStreamData = offset\<rparr>), False)))"

definition SetReadDeadline :: "receiveStream \<Rightarrow> Time \<Rightarrow> receiveStream" where
  "SetReadDeadline s t = signalRead (s\<lparr>rv_deadline := t\<rparr>)"

definition receive_closeForShutdown :: "receiveStream \<Rightarrow> string \<Rightarrow> receiveStream" where
  "receive_closeForShutdown s err = signalRead (s\<lparr>rv_closeForShutdownErr := Some err\<rparr>)"

section \<open>Runs\<close>

text \<open>
  The peer sends parts of one stream \<open>S\<close> of \<open>F\<close> bytes, or resets it. Beside the stream run the flow controller of the connection, the call of \<open>Read\<close> that waits, the bytes
  returned by \<open>Read\<close> so far, the received offsets, and whether \<open>Read\<close> has reported the end of the stream.
\<close>

record receive_run =
  rr_stream :: receiveStream
  rr_conn :: baseFlowController
  rr_waiting :: "read_call option"
  rr_out :: "byte list"
  rr_received :: "ByteCount set"
  rr_eof :: bool

definition receive_init :: "receive_run \<Rightarrow> bool" where
  "receive_init x \<longleftrightarrow> (\<exists>i w m sw conn. 0 \<le> w \<and> fc_allowWindowIncrease conn \<noteq> None \<and>
     x = \<lparr>rr_stream = newReceiveStream i (NewStreamFlowController i w m sw), rr_conn = conn, rr_waiting = None, rr_out = [], rr_received = {}, rr_eof = False\<rparr>)"

text \<open>A call of \<open>Read\<close> returns or waits.\<close>

definition read_done :: "receive_run \<Rightarrow> read_call \<times> read_outcome \<Rightarrow> receive_run" where
  "read_done x r =
     (case r of
        (c, ReadReturn d e) \<Rightarrow> x\<lparr>rr_stream := fst (finish_Read c), rr_conn := rc_conn c, rr_waiting := None, rr_out := rr_out x @ d, rr_eof := rr_eof x \<or> e = Some ReadEOF\<rparr>
      | (c, _) \<Rightarrow> x\<lparr>rr_stream := rc_stream c, rr_conn := rc_conn c, rr_waiting := Some c\<rparr>)"

definition resumed :: "receive_run \<Rightarrow> read_call \<Rightarrow> read_call" where
  "resumed x c = c\<lparr>rc_stream := rr_stream x, rc_conn := rr_conn x\<rparr>"

inductive receive_step :: "(ByteCount \<Rightarrow> byte) \<Rightarrow> ByteCount \<Rightarrow> receive_run \<Rightarrow> receive_run \<Rightarrow> bool" for S F where
  frame: "0 \<le> sf_Offset f \<Longrightarrow> sf_Offset f + StreamFrame_DataLen f \<le> F \<Longrightarrow> (sf_Fin f \<longrightarrow> sf_Offset f + StreamFrame_DataLen f = F) \<Longrightarrow>
    frame_bytes S (sf_Data f) (sf_Offset f) \<Longrightarrow> handleStreamFrame (rr_stream x) (rr_conn x) f putBack now = Inr (s', conn', evs) \<Longrightarrow>
    receive_step S F x (x\<lparr>rr_stream := s', rr_conn := conn',
      rr_received := rr_received x \<union> (if rv_cancelledLocally (rr_stream x) then {} else {sf_Offset f..<sf_Offset f + StreamFrame_DataLen f})\<rparr>)"
| reset: "rs_FinalSize f = F \<Longrightarrow> handleResetStreamFrame (rr_stream x) (rr_conn x) f now = Inr (s', conn', evs) \<Longrightarrow>
    receive_step S F x (x\<lparr>rr_stream := s', rr_conn := conn'\<rparr>)"
| read: "rr_waiting x = None \<Longrightarrow> readImpl (rr_stream x) (rr_conn x) len now = Inr r \<Longrightarrow> receive_step S F x (read_done x r)"
| wake: "rr_waiting x = Some c \<Longrightarrow> chan_recv (rv_readChan (rr_stream x)) = Some ch \<Longrightarrow> x' = x\<lparr>rr_stream := (rr_stream x)\<lparr>rv_readChan := ch\<rparr>\<rparr> \<Longrightarrow>
    read_resume now (resumed x' c) = Inr r \<Longrightarrow> receive_step S F x (read_done x' r)"
| expired: "rr_waiting x = Some c \<Longrightarrow> rv_deadline (rr_stream x) \<noteq> 0 \<Longrightarrow> \<not> now < rv_deadline (rr_stream x) \<Longrightarrow>
    read_resume now (resumed x c) = Inr r \<Longrightarrow> receive_step S F x (read_done x r)"
| cancel: "CancelRead (rr_stream x) (rr_conn x) code = (s', conn', evs) \<Longrightarrow> receive_step S F x (x\<lparr>rr_stream := s', rr_conn := conn'\<rparr>)"
| control: "receive_getControlFrame (rr_stream x) (rr_conn x) rtt now = Inr (s', conn', r) \<Longrightarrow> receive_step S F x (x\<lparr>rr_stream := s', rr_conn := conn'\<rparr>)"
| deadline: "receive_step S F x (x\<lparr>rr_stream := SetReadDeadline (rr_stream x) t\<rparr>)"
| shutdown: "receive_step S F x (x\<lparr>rr_stream := receive_closeForShutdown (rr_stream x) err\<rparr>)"

end
