(* ===== verification/Receive_Run.thy ===== *)
theory Receive_Run
  imports Receive_Stream
begin

text \<open>
  The invariant of the receive side of a stream in every run, from which it follows that what \<open>Read\<close> returns are the bytes of the stream in order, the end of the stream is reported exactly at its end, a waiting call is
  woken when there is something to return, and a completed stream has given all of its flow control credit back.
\<close>

section \<open>The invariant\<close>

abbreviation highest :: "receiveStream \<Rightarrow> ByteCount" where "highest s \<equiv> fc_highestReceived (sfc_base (rv_flowController s))"
abbreviation consumed :: "receiveStream \<Rightarrow> ByteCount" where "consumed s \<equiv> fc_bytesRead (sfc_base (rv_flowController s))"
abbreviation cancelled :: "receiveStream \<Rightarrow> bool" where "cancelled s \<equiv> rv_cancelledRemotely s \<or> rv_cancelledLocally s"

text \<open>The bytes of the current frame that are not read yet.\<close>

definition pending :: "receiveStream \<Rightarrow> byte list" where
  "pending s = drop (rv_readPosInFrame s) (rv_currentFrame s)"

text \<open>The data: what was read, the current frame and the frame queue.\<close>

definition data_ok :: "(ByteCount \<Rightarrow> byte) \<Rightarrow> ByteCount \<Rightarrow> ByteCount set \<Rightarrow> byte list \<Rightarrow> receiveStream \<Rightarrow> bool" where
  "data_ok S F R out s \<longleftrightarrow> sorter_ok S (rv_frameQueue s) \<and> gap_set (fs_gaps (rv_frameQueue s)) = {0..<MaxByteCount} - R \<and>
     R \<subseteq> {0..<highest s} \<and> highest s \<le> F \<and> 0 \<le> F \<and> F < MaxByteCount \<and> (rv_currentFrame s \<noteq> [] \<longrightarrow> rv_readPosInFrame s \<le> length (rv_currentFrame s)) \<and>
     frame_bytes S (out @ pending s) 0 \<and> fs_readPos (rv_frameQueue s) = int (length (out @ pending s)) \<and>
     (rv_currentFrameIsLast s \<longrightarrow> int (length (out @ pending s)) = F \<and> rv_finalOffset s = F)"

text \<open>The final size, the flags and the flow control account.\<close>

definition flags_ok :: "ByteCount \<Rightarrow> byte list \<Rightarrow> receiveStream \<Rightarrow> bool" where
  "flags_ok F out s \<longleftrightarrow> (rv_finalOffset s = MaxByteCount \<or> rv_finalOffset s = F \<and> highest s = F) \<and>
     (sfc_receivedFinalOffset (rv_flowController s) \<longleftrightarrow> rv_finalOffset s = F) \<and>
     (rv_errorRead s \<longrightarrow> cancelled s \<or> rv_currentFrameIsLast s \<and> rv_currentFrame s = []) \<and>
     (rv_cancelledRemotely s \<longrightarrow> rv_finalOffset s = F \<and> consumed s = highest s) \<and>
     (\<not> rv_cancelledRemotely s \<and> \<not> rv_completed s \<longrightarrow> consumed s = int (length out)) \<and>
     (rv_completed s \<longrightarrow> rv_finalOffset s = F \<and> consumed s = highest s \<and> (rv_cancelledLocally s \<or> rv_errorRead s)) \<and>
     (rv_queuedStopSending s \<longrightarrow> rv_cancelErr s \<noteq> None) \<and> rv_readChan s \<noteq> ChanClosed"

text \<open>Between two calls a locally cancelled stream whose final size is known is completed, and so is one whose error or end was read.\<close>

definition stream_inv :: "(ByteCount \<Rightarrow> byte) \<Rightarrow> ByteCount \<Rightarrow> ByteCount set \<Rightarrow> byte list \<Rightarrow> receiveStream \<Rightarrow> bool" where
  "stream_inv S F R out s \<longleftrightarrow> data_ok S F R out s \<and> flags_ok F out s \<and> (rv_cancelledLocally s \<and> rv_finalOffset s = F \<longrightarrow> rv_completed s)"

definition quiescent :: "ByteCount \<Rightarrow> receiveStream \<Rightarrow> bool" where
  "quiescent F s \<longleftrightarrow> (rv_errorRead s \<and> rv_finalOffset s = F \<longrightarrow> rv_completed s)"

lemma readPos_le_highest:
  assumes "data_ok S F R out s"
  shows "fs_readPos (rv_frameQueue s) \<le> highest s \<or> fs_readPos (rv_frameQueue s) = 0"
proof -
  let ?q = "rv_frameQueue s"
  have ok: "sorter_ok S ?q" and R: "gap_set (fs_gaps ?q) = {0..<MaxByteCount} - R" "R \<subseteq> {0..<highest s}"
    using assms by (simp_all add: data_ok_def)
  show ?thesis
  proof (cases "fs_readPos ?q \<le> 0")
    case False
    then have "fs_readPos ?q - 1 \<notin> gap_set (fs_gaps ?q)"
      using readPos_le_gap [OF ok] by (fastforce simp: gap_set_def)
    then have "fs_readPos ?q - 1 \<in> R"
      using R(1) readPos_lt_Max [OF ok] False by auto
    then show ?thesis
      using R(2) by auto
  qed (use ok in \<open>simp add: sorter_ok_def\<close>)
qed

section \<open>Reading\<close>

lemma dequeueNextFrame_ok:
  assumes inv: "stream_inv S F R out s" and p: "pending s = []" and e: "\<not> rv_errorRead s \<or> cancelled s"
  obtains s' cbs where "dequeueNextFrame s = Inr (s', cbs)" "stream_inv S F R out s'" "rv_readPosInFrame s' = 0" "\<not> rv_errorRead s' \<or> cancelled s'"
    "rv_currentFrame s' = [] \<longrightarrow> fs_readPos (rv_frameQueue s') \<notin> R" "rv_currentFrameIsLast s' \<longleftrightarrow> rv_finalOffset s' \<le> fs_readPos (rv_frameQueue s')"
    "cancelled s' \<longleftrightarrow> cancelled s" "rv_closeForShutdownErr s' = rv_closeForShutdownErr s" "rv_errorRead s' = rv_errorRead s" "rv_readChan s' = rv_readChan s"
proof -
  let ?q = "rv_frameQueue s"
  have d: "sorter_ok S ?q" "gap_set (fs_gaps ?q) = {0..<MaxByteCount} - R" "fs_readPos ?q = int (length out)" "frame_bytes S out 0" "highest s \<le> F" "F < MaxByteCount"
    using inv p by (simp_all add: stream_inv_def data_ok_def)
  obtain q data cb where q: "sorter_Pop ?q = Inr (q, fs_readPos ?q, data, cb)" "sorter_ok S q" "fs_gaps q = fs_gaps ?q"
    "fs_readPos q = fs_readPos ?q + int (length data)" "frame_bytes S data (fs_readPos ?q)" "data = [] \<longleftrightarrow> fs_readPos ?q \<in> gap_set (fs_gaps ?q)"
    by (rule sorter_Pop_spec [OF d(1)])
  define s' where "s' = s\<lparr>rv_frameQueue := q, rv_currentFrame := data, rv_currentFrameDone := cb,
    rv_currentFrameIsLast := fs_readPos ?q + int (length data) \<ge> rv_finalOffset s, rv_readPosInFrame := 0\<rparr>"
  have eq: "dequeueNextFrame s = Inr (s', call (rv_currentFrameDone s))"
    by (simp add: dequeueNextFrame_def q(1) s'_def)
  have "data_ok S F R out (s'\<lparr>rv_currentFrameIsLast := False\<rparr>)"
    using inv q(2-5) d frame_bytes_append [OF d(4), of data] by (simp add: stream_inv_def data_ok_def s'_def pending_def)
  then have le: "fs_readPos q \<le> F" and data: "data_ok S F R out (s'\<lparr>rv_currentFrameIsLast := False\<rparr>)"
    using readPos_le_highest [of S F R out "s'\<lparr>rv_currentFrameIsLast := False\<rparr>"] d(5) by (auto simp: s'_def data_ok_def)
  have "rv_currentFrameIsLast s' \<Longrightarrow> fs_readPos q = F \<and> rv_finalOffset s = F"
    using inv le q(4) d(6) readPos_lt_Max [OF q(2)] by (auto simp: s'_def stream_inv_def flags_ok_def)
  then have "data_ok S F R out s'"
    using data by (auto simp: data_ok_def s'_def pending_def)
  moreover have "flags_ok F out s'"
    using inv e by (auto simp: s'_def stream_inv_def flags_ok_def)
  moreover have "rv_cancelledLocally s' \<and> rv_finalOffset s' = F \<longrightarrow> rv_completed s'"
    using inv by (simp add: s'_def stream_inv_def)
  moreover have "rv_currentFrame s' = [] \<longrightarrow> fs_readPos (rv_frameQueue s') \<notin> R"
  proof -
    have "fs_readPos ?q \<in> gap_set (fs_gaps ?q) \<longleftrightarrow> fs_readPos ?q \<notin> R"
      using d(1-3) readPos_lt_Max [OF d(1)] by auto
    then show ?thesis
      using q(4,6) by (cases data) (simp_all add: s'_def)
  qed
  ultimately show thesis
    using e q(4) by (intro that [OF eq]) (simp_all add: stream_inv_def, simp_all add: s'_def)
qed

text \<open>A call of \<open>Read\<close> in the loop: nothing is cancelled, and the data read so far extends what was returned before.\<close>

definition call_ok :: "(ByteCount \<Rightarrow> byte) \<Rightarrow> ByteCount \<Rightarrow> ByteCount set \<Rightarrow> byte list \<Rightarrow> read_call \<Rightarrow> bool" where
  "call_ok S F R out c \<longleftrightarrow> stream_inv S F R (out @ rc_data c) (rc_stream c) \<and> \<not> cancelled (rc_stream c) \<and> \<not> rv_errorRead (rc_stream c) \<and>
     rv_closeForShutdownErr (rc_stream c) = None \<and> \<not> rv_completed (rc_stream c) \<and> length (rc_data c) \<le> rc_len c"

text \<open>What a call leaves behind when it returns or waits.\<close>

definition wait_ok :: "ByteCount set \<Rightarrow> receiveStream \<Rightarrow> bool" where
  "wait_ok R s \<longleftrightarrow> \<not> cancelled s \<and> rv_closeForShutdownErr s = None \<and> fs_readPos (rv_frameQueue s) \<notin> R \<and> fs_readPos (rv_frameQueue s) < rv_finalOffset s"

fun outcome_ok :: "(ByteCount \<Rightarrow> byte) \<Rightarrow> ByteCount \<Rightarrow> ByteCount set \<Rightarrow> byte list \<Rightarrow> read_call \<times> read_outcome \<Rightarrow> bool" where
  "outcome_ok S F R out (c, ReadReturn d e) \<longleftrightarrow> stream_inv S F R (out @ d) (rc_stream c) \<and>
     (e = Some ReadEOF \<longrightarrow> int (length (out @ d)) = F \<and> rv_finalOffset (rc_stream c) = F) \<and> (\<forall>m. e \<noteq> Some (ErrBug m))"
| "outcome_ok S F R out (c, ReadWait) \<longleftrightarrow> stream_inv S F R out (rc_stream c) \<and> rc_data c = [] \<and> rv_currentFrame (rc_stream c) = [] \<and>
     \<not> rv_errorRead (rc_stream c) \<and> \<not> rv_currentFrameIsLast (rc_stream c) \<and> wait_ok R (rc_stream c)"
| "outcome_ok S F R out (c, ReadMore) \<longleftrightarrow> call_ok S F R out c"

lemma append_take_drop:
  assumes "xs = take n (drop k fr)"
  shows "xs @ drop (k + length xs) fr = drop k fr"
proof -
  have "drop (k + length xs) fr = drop n (drop k fr)"
    using assms by (cases "n \<le> length fr - k") (simp_all add: min_def add.commute)
  then show ?thesis
    using append_take_drop_id [of n "drop k fr"] by (simp only: assms)
qed

lemma read_copy_ok:
  assumes ok: "call_ok S F R out c" and pos0: "rv_readPosInFrame (rc_stream c) \<le> length (rv_currentFrame (rc_stream c))"
  shows "outcome_ok S F R out (read_copy c)"
proof -
  define s where "s = rc_stream c"
  define bytes where "bytes = take (rc_len c - length (rc_data c)) (drop (rv_readPosInFrame s) (rv_currentFrame s))"
  define c1 where "c1 = read_account (c\<lparr>rc_stream := s\<lparr>rv_readPosInFrame := rv_readPosInFrame s + length bytes\<rparr>, rc_data := rc_data c @ bytes\<rparr>) (length bytes)"
  have s: "data_ok S F R (out @ rc_data c) s" "flags_ok F (out @ rc_data c) s" "\<not> cancelled s" "\<not> rv_errorRead s" "rv_closeForShutdownErr s = None" "\<not> rv_completed s"
      "length (rc_data c) \<le> rc_len c" "rv_readPosInFrame s \<le> length (rv_currentFrame s)"
    using ok pos0 by (simp_all add: call_ok_def stream_inv_def s_def)
  have pos: "rv_readPosInFrame s + length bytes \<le> length (rv_currentFrame s)"
    using s(8) by (auto simp: bytes_def)
  have c1: "rc_data c1 = rc_data c @ bytes" "rc_len c1 = rc_len c" "rv_currentFrame (rc_stream c1) = rv_currentFrame s" "rv_currentFrameIsLast (rc_stream c1) = rv_currentFrameIsLast s"
      "rv_readPosInFrame (rc_stream c1) = rv_readPosInFrame s + length bytes"
    by (simp_all add: c1_def)
  have app: "((out @ rc_data c) @ bytes) @ pending (rc_stream c1) = (out @ rc_data c) @ pending s"
    using append_take_drop [OF bytes_def] by (simp add: pending_def c1)
  have acc: "consumed (rc_stream c1) = consumed s + int (length bytes)" "highest (rc_stream c1) = highest s"
      "sfc_receivedFinalOffset (rv_flowController (rc_stream c1)) = sfc_receivedFinalOffset (rv_flowController s)"
    using s(3) by (simp_all add: c1_def read_account_def Let_def stream_AddBytesRead_def addBytesRead_def conn_AddBytesRead_def)
  have data: "data_ok S F R (out @ rc_data c1) (rc_stream c1)"
    using s(1) pos app unfolding data_ok_def c1 acc by (simp add: c1_def)
  have flags: "flags_ok F (out @ rc_data c1) (rc_stream c1)"
    using s(2-6) unfolding flags_ok_def c1 acc by (simp add: c1_def)
  have eq: "read_copy c = (if rv_readPosInFrame (rc_stream c1) \<ge> length (rv_currentFrame (rc_stream c1)) \<and> rv_currentFrameIsLast (rc_stream c1)
      then (c1\<lparr>rc_stream := (rc_stream c1)\<lparr>rv_currentFrame := [], rv_errorRead := True\<rparr>, rc_callbacks := rc_callbacks c1 @ call (rv_currentFrameDone (rc_stream c1))\<rparr>,
            ReadReturn (rc_data c1) (Some ReadEOF))
      else (c1, ReadMore))"
    using s(7,8) by (simp add: read_copy_def Let_def s_def [symmetric] bytes_def [symmetric] c1_def)
  show ?thesis
  proof (cases "rv_readPosInFrame (rc_stream c1) \<ge> length (rv_currentFrame (rc_stream c1)) \<and> rv_currentFrameIsLast (rc_stream c1)")
    case True
    define s2 where "s2 = (rc_stream c1)\<lparr>rv_currentFrame := [], rv_errorRead := True\<rparr>"
    have p: "pending (rc_stream c1) = []" "int (length (out @ rc_data c1)) = F" "rv_finalOffset (rc_stream c1) = F" "rv_currentFrameIsLast (rc_stream c1)"
      using True data by (simp_all add: pending_def data_ok_def)
    have "\<not> rv_cancelledLocally s2"
      using s(3) by (simp add: s2_def c1_def)
    moreover have "data_ok S F R (out @ rc_data c1) s2"
      using data p(1) by (simp add: data_ok_def s2_def pending_def)
    moreover have "flags_ok F (out @ rc_data c1) s2"
      using flags p(4) by (simp add: flags_ok_def s2_def)
    ultimately show ?thesis
      using p(2,3) unfolding eq if_P [OF True] s2_def [symmetric] by (simp add: stream_inv_def) (simp add: s2_def)
  next
    case False
    then show ?thesis
      using data flags s(3-7) c1 unfolding eq if_not_P [OF False] by (auto simp: call_ok_def stream_inv_def c1_def bytes_def)
  qed
qed

lemma set_errorRead: "stream_inv S F R out s \<Longrightarrow> cancelled s \<Longrightarrow> stream_inv S F R out (s\<lparr>rv_errorRead := True\<rparr>)"
  by (auto simp: stream_inv_def data_ok_def flags_ok_def pending_def)

lemma no_eof [simp]: "cancel_error s \<noteq> Some ReadEOF" "shutdown_error s \<noteq> Some ReadEOF" "cancel_error s \<noteq> Some (ErrBug m)" "shutdown_error s \<noteq> Some (ErrBug m)"
  by (auto simp: cancel_error_def shutdown_error_def)

lemma read_check_ok:
  assumes inv: "stream_inv S F R (out @ rc_data c) (rc_stream c)" and e: "\<not> rv_errorRead (rc_stream c) \<or> cancelled (rc_stream c)"
    and data: "cancelled (rc_stream c) \<Longrightarrow> rc_data c = []" "length (rc_data c) \<le> rc_len c"
    and pos: "rv_readPosInFrame (rc_stream c) \<le> length (rv_currentFrame (rc_stream c))"
    and none: "rv_currentFrame (rc_stream c) = [] \<Longrightarrow> rc_data c = [] \<and> fs_readPos (rv_frameQueue (rc_stream c)) \<notin> R \<and>
      (rv_currentFrameIsLast (rc_stream c) \<longleftrightarrow> rv_finalOffset (rc_stream c) \<le> fs_readPos (rv_frameQueue (rc_stream c)))"
  shows "outcome_ok S F R out (read_check now c)"
proof -
  define s where "s = rc_stream c"
  consider (shutdown) "rv_closeForShutdownErr s \<noteq> None" | (cancel) "rv_closeForShutdownErr s = None" "cancelled s"
    | (expired) "rv_closeForShutdownErr s = None" "\<not> cancelled s" "rv_deadline s \<noteq> 0 \<and> \<not> now < rv_deadline s"
    | (copy) "rv_closeForShutdownErr s = None" "\<not> cancelled s" "\<not> (rv_deadline s \<noteq> 0 \<and> \<not> now < rv_deadline s)" "rv_currentFrame s \<noteq> [] \<or> rv_currentFrameIsLast s"
    | (wait) "rv_closeForShutdownErr s = None" "\<not> cancelled s" "\<not> (rv_deadline s \<noteq> 0 \<and> \<not> now < rv_deadline s)" "rv_currentFrame s = []" "\<not> rv_currentFrameIsLast s"
    by blast
  then show ?thesis
  proof cases
    case shutdown
    then show ?thesis
      using inv by (simp add: read_check_def s_def)
  next
    case cancel
    then have "read_check now c = (c\<lparr>rc_stream := s\<lparr>rv_errorRead := True\<rparr>\<rparr>, ReadReturn [] (cancel_error s))"
      unfolding read_check_def Let_def s_def [symmetric] by simp
    then show ?thesis
      using inv set_errorRead [of S F R out s] data(1) cancel by (simp add: s_def)
  next
    case expired
    then show ?thesis
      using inv by (simp add: read_check_def s_def)
  next
    case copy
    then have "read_check now c = read_copy c"
      unfolding read_check_def Let_def s_def [symmetric] by auto
    moreover have "call_ok S F R out c"
      using inv e data(2) copy by (auto simp: call_ok_def s_def stream_inv_def flags_ok_def)
    ultimately show ?thesis
      using read_copy_ok [OF _ pos] by simp
  next
    case wait
    then have "read_check now c = (c, ReadWait)"
      unfolding read_check_def Let_def s_def [symmetric] by auto
    then show ?thesis
      using inv none e wait by (simp add: s_def wait_ok_def)
  qed
qed

lemma read_dequeue_ok:
  assumes inv: "stream_inv S F R (out @ rc_data c) (rc_stream c)" and p: "pending (rc_stream c) = []" and e: "\<not> rv_errorRead (rc_stream c) \<or> cancelled (rc_stream c)"
  obtains c' where "read_dequeue c = Inr c'" "stream_inv S F R (out @ rc_data c') (rc_stream c')" "rc_data c' = rc_data c" "rc_len c' = rc_len c"
    "rv_readPosInFrame (rc_stream c') = 0" "\<not> rv_errorRead (rc_stream c') \<or> cancelled (rc_stream c')"
    "rv_currentFrame (rc_stream c') = [] \<longrightarrow> fs_readPos (rv_frameQueue (rc_stream c')) \<notin> R"
    "rv_currentFrameIsLast (rc_stream c') \<longleftrightarrow> rv_finalOffset (rc_stream c') \<le> fs_readPos (rv_frameQueue (rc_stream c'))"
    "cancelled (rc_stream c') \<longleftrightarrow> cancelled (rc_stream c)" "rv_closeForShutdownErr (rc_stream c') = rv_closeForShutdownErr (rc_stream c)"
    "rv_errorRead (rc_stream c') = rv_errorRead (rc_stream c)"
proof -
  obtain s' cbs where s': "dequeueNextFrame (rc_stream c) = Inr (s', cbs)" "stream_inv S F R (out @ rc_data c) s'" "rv_readPosInFrame s' = 0" "\<not> rv_errorRead s' \<or> cancelled s'"
    "rv_currentFrame s' = [] \<longrightarrow> fs_readPos (rv_frameQueue s') \<notin> R" "rv_currentFrameIsLast s' \<longleftrightarrow> rv_finalOffset s' \<le> fs_readPos (rv_frameQueue s')"
    "cancelled s' \<longleftrightarrow> cancelled (rc_stream c)" "rv_closeForShutdownErr s' = rv_closeForShutdownErr (rc_stream c)" "rv_errorRead s' = rv_errorRead (rc_stream c)"
    by (rule dequeueNextFrame_ok [OF inv p e]) (rule that)
  show thesis
    by (rule that [of "c\<lparr>rc_stream := s', rc_callbacks := rc_callbacks c @ cbs\<rparr>"]) (use s' in \<open>simp_all add: read_dequeue_def\<close>)
qed

lemma read_iteration_ok:
  assumes ok: "call_ok S F R out c" and len: "length (rc_data c) < rc_len c"
  shows "\<exists>r. read_iteration now c = Inr r \<and> outcome_ok S F R out r"
proof -
  let ?s = "rc_stream c"
  have inv: "stream_inv S F R (out @ rc_data c) ?s" and f: "\<not> cancelled ?s" "\<not> rv_errorRead ?s" "rv_closeForShutdownErr ?s = None"
    using ok by (simp_all add: call_ok_def)
  show ?thesis
  proof (cases "rv_currentFrame ?s = [] \<or> rv_readPosInFrame ?s \<ge> length (rv_currentFrame ?s)")
    case True
    then have p: "pending ?s = []" and e: "\<not> rv_errorRead ?s \<or> cancelled ?s"
      using f by (auto simp: pending_def)
    obtain c' where c': "read_dequeue c = Inr c'" "stream_inv S F R (out @ rc_data c') (rc_stream c')" "rc_data c' = rc_data c" "rc_len c' = rc_len c"
      "rv_readPosInFrame (rc_stream c') = 0" "\<not> rv_errorRead (rc_stream c') \<or> cancelled (rc_stream c')"
      "rv_currentFrame (rc_stream c') = [] \<longrightarrow> fs_readPos (rv_frameQueue (rc_stream c')) \<notin> R"
      "rv_currentFrameIsLast (rc_stream c') \<longleftrightarrow> rv_finalOffset (rc_stream c') \<le> fs_readPos (rv_frameQueue (rc_stream c'))"
      "cancelled (rc_stream c') \<longleftrightarrow> cancelled ?s" "rv_closeForShutdownErr (rc_stream c') = rv_closeForShutdownErr ?s"
      by (rule read_dequeue_ok [OF inv p e]) (rule that)
    have "read_iteration now c = (if rv_currentFrame (rc_stream c') = [] \<and> length (rc_data c') > 0
        then Inr (c', ReadReturn (rc_data c') (shutdown_error (rc_stream c'))) else Inr (read_check now c'))"
      using True c'(1) by (simp add: read_iteration_def Let_def)
    moreover have "outcome_ok S F R out (read_check now c')" if "\<not> (rv_currentFrame (rc_stream c') = [] \<and> length (rc_data c') > 0)"
      using that c'(3-9) f len by (intro read_check_ok [OF c'(2)]) auto
    moreover have "outcome_ok S F R out (c', ReadReturn (rc_data c') (shutdown_error (rc_stream c')))"
      using c'(2) by simp
    ultimately show ?thesis
      by metis
  next
    case False
    then have "read_iteration now c = Inr (read_check now c)"
      by (auto simp: read_iteration_def Let_def)
    moreover have "outcome_ok S F R out (read_check now c)"
      using False f len by (intro read_check_ok [OF inv]) auto
    ultimately show ?thesis
      by blast
  qed
qed

lemma read_loop_ok: "call_ok S F R out c \<Longrightarrow> \<exists>c' r. read_loop now c = Inr (c', r) \<and> outcome_ok S F R out (c', r) \<and> r \<noteq> ReadMore"
proof (induction now c rule: read_loop.induct)
  case (1 now c)
  show ?case
  proof (cases "length (rc_data c) < rc_len c")
    case True
    obtain c' r where r: "read_iteration now c = Inr (c', r)" "outcome_ok S F R out (c', r)"
      using read_iteration_ok [OF "1.prems" True] by (metis surj_pair)
    show ?thesis
    proof (cases r)
      case ReadMore
      then show ?thesis
        using "1.IH" [OF True r(1) refl ReadMore] r True by (simp add: read_loop.simps [of now c])
    qed (use r True in \<open>simp_all add: read_loop.simps [of now c]\<close>)
  next
    case False
    then show ?thesis
      using "1.prems" by (simp add: read_loop.simps [of now c] call_ok_def)
  qed
qed

lemma readImpl_ok:
  assumes inv: "stream_inv S F R out s"
  shows "\<exists>c r. readImpl s conn len now = Inr (c, r) \<and> outcome_ok S F R out (c, r) \<and> r \<noteq> ReadMore"
proof -
  define c where "c = \<lparr>rc_stream = s, rc_conn = conn, rc_len = len, rc_data = [], rc_hasStreamWindowUpdate = False, rc_hasConnWindowUpdate = False, rc_callbacks = []\<rparr>"
  consider (eof) "rv_currentFrameIsLast s" "rv_currentFrame s = []" | (cancel) "\<not> (rv_currentFrameIsLast s \<and> rv_currentFrame s = [])" "cancelled s"
    | (shutdown) "\<not> (rv_currentFrameIsLast s \<and> rv_currentFrame s = [])" "\<not> cancelled s" "rv_closeForShutdownErr s \<noteq> None"
    | (loop) "\<not> (rv_currentFrameIsLast s \<and> rv_currentFrame s = [])" "\<not> cancelled s" "rv_closeForShutdownErr s = None"
    by blast
  then show ?thesis
  proof cases
    case eof
    then have "readImpl s conn len now = Inr (c\<lparr>rc_stream := s\<lparr>rv_errorRead := True\<rparr>\<rparr>, ReadReturn [] (Some ReadEOF))"
      by (simp add: readImpl_def c_def)
    moreover have "stream_inv S F R out (s\<lparr>rv_errorRead := True\<rparr>)" "int (length out) = F \<and> rv_finalOffset s = F"
      using inv eof by (auto simp: stream_inv_def data_ok_def flags_ok_def pending_def)
    ultimately show ?thesis
      by simp
  next
    case cancel
    then have "readImpl s conn len now = Inr (c\<lparr>rc_stream := s\<lparr>rv_errorRead := True\<rparr>\<rparr>, ReadReturn [] (cancel_error s))"
      by (auto simp: readImpl_def c_def)
    then show ?thesis
      using set_errorRead [OF inv] cancel by simp
  next
    case shutdown
    then have "readImpl s conn len now = Inr (c, ReadReturn [] (shutdown_error s))"
      by (auto simp: readImpl_def c_def)
    then show ?thesis
      using inv by (simp add: c_def)
  next
    case loop
    then have "readImpl s conn len now = read_loop now c"
      by (auto simp: readImpl_def c_def)
    moreover have "call_ok S F R out c"
      using inv loop by (auto simp: call_ok_def c_def stream_inv_def flags_ok_def)
    ultimately show ?thesis
      using read_loop_ok by simp
  qed
qed

lemma read_resume_ok:
  assumes inv: "stream_inv S F R out (rc_stream c)" and w: "rc_data c = []" "rv_currentFrame (rc_stream c) = []" "\<not> rv_errorRead (rc_stream c)"
  shows "\<exists>c' r. read_resume now c = Inr (c', r) \<and> outcome_ok S F R out (c', r) \<and> r \<noteq> ReadMore"
proof -
  obtain c' where c': "read_dequeue c = Inr c'" "stream_inv S F R (out @ rc_data c') (rc_stream c')" "rc_data c' = rc_data c" "rc_len c' = rc_len c"
    "rv_readPosInFrame (rc_stream c') = 0" "\<not> rv_errorRead (rc_stream c') \<or> cancelled (rc_stream c')"
    "rv_currentFrame (rc_stream c') = [] \<longrightarrow> fs_readPos (rv_frameQueue (rc_stream c')) \<notin> R"
    "rv_currentFrameIsLast (rc_stream c') \<longleftrightarrow> rv_finalOffset (rc_stream c') \<le> fs_readPos (rv_frameQueue (rc_stream c'))"
    by (rule read_dequeue_ok [of S F R out c]) (use inv w in \<open>auto simp: pending_def\<close>)
  have ok: "outcome_ok S F R out (read_check now c')"
    using c' w by (intro read_check_ok [OF c'(2)]) auto
  obtain c1 r where r: "read_check now c' = (c1, r)"
    by fastforce
  have "read_resume now c = (case r of ReadMore \<Rightarrow> read_loop now c1 | _ \<Rightarrow> Inr (c1, r))"
    using w(2) c'(1) r by (simp add: read_resume_def split: read_outcome.split)
  then show ?thesis
    using ok r read_loop_ok [of S F R out c1 now] by (cases r) simp_all
qed

section \<open>Completion\<close>

text \<open>The fields that completing a stream leaves alone.\<close>

definition same_reading :: "receiveStream \<Rightarrow> receiveStream \<Rightarrow> bool" where
  "same_reading s s' \<longleftrightarrow> rv_frameQueue s' = rv_frameQueue s \<and> rv_currentFrame s' = rv_currentFrame s \<and> rv_finalOffset s' = rv_finalOffset s \<and>
     rv_errorRead s' = rv_errorRead s \<and> rv_currentFrameIsLast s' = rv_currentFrameIsLast s \<and> rv_readChan s' = rv_readChan s \<and>
     (cancelled s' \<longleftrightarrow> cancelled s) \<and> rv_closeForShutdownErr s' = rv_closeForShutdownErr s"

lemma completed_ok:
  assumes inv: "stream_inv S F R out s" and c: "receive_isNewlyCompleted s = (s', b)"
  shows "stream_inv S F R out s'" and "quiescent F s'" and "same_reading s s'"
proof -
  have "stream_inv S F R out (s\<lparr>rv_completed := True\<rparr>)" if "\<not> rv_completed s" "rv_finalOffset s \<noteq> MaxByteCount" "rv_errorRead s"
  proof -
    have F: "rv_finalOffset s = F" "highest s = F" "\<not> rv_cancelledLocally s"
      using inv that by (auto simp: stream_inv_def flags_ok_def)
    have "consumed s = highest s"
    proof (cases "rv_cancelledRemotely s")
      case False
      then have "rv_currentFrameIsLast s" "rv_currentFrame s = []" "consumed s = int (length out)"
        using inv that F by (simp_all add: stream_inv_def flags_ok_def)
      then show ?thesis
        using inv F by (simp add: stream_inv_def data_ok_def pending_def)
    qed (use inv in \<open>simp add: stream_inv_def flags_ok_def\<close>)
    then show ?thesis
      using inv that F by (simp add: stream_inv_def data_ok_def flags_ok_def pending_def)
  qed
  note completing = this
  have loc: "rv_cancelledLocally s \<Longrightarrow> rv_finalOffset s \<noteq> MaxByteCount \<Longrightarrow> rv_completed s" and F: "F < MaxByteCount"
    using inv by (auto simp: stream_inv_def flags_ok_def data_ok_def)
  show "stream_inv S F R out s'" "quiescent F s'" "same_reading s s'"
  proof (atomize (full), cases "\<not> rv_completed s \<and> rv_finalOffset s \<noteq> MaxByteCount \<and> rv_errorRead s")
    case True
    moreover have "s' = s\<lparr>rv_completed := True\<rparr>"
      using c True by (simp add: receive_isNewlyCompleted_def split: if_splits)
    ultimately show "stream_inv S F R out s' \<and> quiescent F s' \<and> same_reading s s'"
      using completing by (simp add: quiescent_def same_reading_def)
  next
    case False
    moreover have "s' = s"
      using c False loc by (simp add: receive_isNewlyCompleted_def split: if_splits)
    ultimately show "stream_inv S F R out s' \<and> quiescent F s' \<and> same_reading s s'"
      using inv F by (auto simp: quiescent_def same_reading_def)
  qed
qed

lemma receive_abandon_eq:
  assumes "receive_abandon s conn = (s', conn')"
  shows "s' = s\<lparr>rv_flowController := (rv_flowController s)\<lparr>sfc_base := (sfc_base (rv_flowController s))\<lparr>fc_bytesRead := highest s\<rparr>\<rparr>\<rparr>"
  using assms by (auto simp: receive_abandon_def stream_Abandon_def Let_def split: if_splits prod.splits)

text \<open>The invariant holds again when a stream that may be completed is abandoned.\<close>

lemma completed_abandon_ok:
  assumes data: "data_ok S F R out s" and flags: "flags_ok F out s" and c: "receive_isNewlyCompleted s = (s1, b)"
    and a: "(if b then receive_abandon s1 conn else (s1, conn)) = (s', conn')"
  shows "stream_inv S F R out s'" and "quiescent F s'" and "same_reading s s'"
proof -
  have F: "F < MaxByteCount"
    using data by (simp add: data_ok_def)
  show "stream_inv S F R out s'" "quiescent F s'" "same_reading s s'"
  proof (atomize (full), cases b)
    case True
    then have "rv_finalOffset s = F" "s1 = s\<lparr>rv_completed := True\<rparr>" "rv_cancelledLocally s \<or> rv_errorRead s"
      using c flags by (auto simp: receive_isNewlyCompleted_def flags_ok_def split: if_splits)
    moreover have "s' = s1\<lparr>rv_flowController := (rv_flowController s1)\<lparr>sfc_base := (sfc_base (rv_flowController s1))\<lparr>fc_bytesRead := highest s1\<rparr>\<rparr>\<rparr>"
      using a True by (simp add: receive_abandon_eq)
    ultimately show "stream_inv S F R out s' \<and> quiescent F s' \<and> same_reading s s'"
      using data flags by (simp add: stream_inv_def data_ok_def flags_ok_def pending_def quiescent_def same_reading_def)
  next
    case False
    then show "stream_inv S F R out s' \<and> quiescent F s' \<and> same_reading s s'"
      using c a data flags F by (auto simp: receive_isNewlyCompleted_def stream_inv_def quiescent_def same_reading_def split: if_splits)
  qed
qed

section \<open>Frames and cancellation\<close>

lemma UpdateHighestReceived_facts:
  assumes "UpdateHighestReceived f c offset final now = Inr (f', c')" and "0 \<le> offset"
  shows "fc_highestReceived (sfc_base f') = max (fc_highestReceived (sfc_base f)) offset" "fc_bytesRead (sfc_base f') = fc_bytesRead (sfc_base f)"
    "sfc_receivedFinalOffset f' \<longleftrightarrow> sfc_receivedFinalOffset f \<or> final" "sfc_receivedFinalOffset f \<Longrightarrow> offset \<le> fc_highestReceived (sfc_base f)"
    "final \<Longrightarrow> fc_highestReceived (sfc_base f) \<le> offset"
  using assms by (auto simp: UpdateHighestReceived_def Let_def startNewAutoTuningEpoch_def rbind_eq_Inr split: if_splits)

lemma signalRead_ok:
  "data_ok S F R out (signalRead s) \<longleftrightarrow> data_ok S F R out s" "flags_ok F out (signalRead s) \<longleftrightarrow> flags_ok F out s"
  "rv_readChan s \<noteq> ChanClosed \<Longrightarrow> rv_readChan (signalRead s) = ChanFull" "rv_currentFrame (signalRead s) = rv_currentFrame s"
  "rv_errorRead (signalRead s) = rv_errorRead s" "rv_currentFrameIsLast (signalRead s) = rv_currentFrameIsLast s"
  "rv_completed (signalRead s) = rv_completed s" "rv_finalOffset (signalRead s) = rv_finalOffset s" "rv_cancelledLocally (signalRead s) = rv_cancelledLocally s"
  by (auto simp: signalRead_def data_ok_def flags_ok_def pending_def split: go_chan.splits)

text \<open>A call waits: it will be woken, or there is nothing to return.\<close>

definition waiting_ok :: "ByteCount set \<Rightarrow> receiveStream \<Rightarrow> bool" where
  "waiting_ok R s \<longleftrightarrow> rv_currentFrame s = [] \<and> \<not> rv_errorRead s \<and> \<not> rv_currentFrameIsLast s \<and> (rv_readChan s = ChanEmpty \<longrightarrow> wait_ok R s)"

definition kept :: "(ByteCount \<Rightarrow> byte) \<Rightarrow> ByteCount \<Rightarrow> byte list \<Rightarrow> ByteCount set \<Rightarrow> receiveStream \<Rightarrow> ByteCount set \<Rightarrow> receiveStream \<Rightarrow> bool" where
  "kept S F out R s R' s' \<longleftrightarrow> stream_inv S F R' out s' \<and> quiescent F s' \<and> (waiting_ok R s \<longrightarrow> waiting_ok R' s')"

lemma waiting_same: "same_reading s s' \<Longrightarrow> waiting_ok R s' \<longleftrightarrow> waiting_ok R s"
  by (auto simp: same_reading_def waiting_ok_def wait_ok_def)

lemma waiting_signalled:
  "waiting_ok R s \<Longrightarrow> rv_readChan s' = ChanFull \<Longrightarrow> rv_currentFrame s' = rv_currentFrame s \<Longrightarrow> rv_errorRead s' = rv_errorRead s \<Longrightarrow>
   rv_currentFrameIsLast s' = rv_currentFrameIsLast s \<Longrightarrow> waiting_ok R' s'"
  by (simp add: waiting_ok_def)

lemma waiting_cancelled: "waiting_ok R s \<Longrightarrow> cancelled s \<Longrightarrow> rv_readChan s \<noteq> ChanEmpty"
  by (auto simp: waiting_ok_def wait_ok_def)

lemma handleStreamFrame_ok:
  assumes inv: "stream_inv S F R out s" and f: "0 \<le> sf_Offset f" "sf_Offset f + StreamFrame_DataLen f \<le> F" "sf_Fin f \<longrightarrow> sf_Offset f + StreamFrame_DataLen f = F"
    "frame_bytes S (sf_Data f) (sf_Offset f)" and h: "handleStreamFrame s conn f putBack now = Inr (s', conn', evs)"
  shows "kept S F out R s (R \<union> (if rv_cancelledLocally s then {} else {sf_Offset f..<sf_Offset f + StreamFrame_DataLen f})) s'"
proof -
  let ?m = "sf_Offset f + StreamFrame_DataLen f"
  obtain s1 conn1 cbs where i: "handleStreamFrameImpl s conn f putBack now = Inr (s1, conn1, cbs)"
    using h by (cases "handleStreamFrameImpl s conn f putBack now") (auto simp: handleStreamFrame_def)
  obtain s2 b where c: "receive_isNewlyCompleted s1 = (s2, b)"
    by fastforce
  have a: "(if b then receive_abandon s2 conn1 else (s2, conn1)) = (s', conn')"
    using h by (cases b) (simp_all add: handleStreamFrame_def i c split: prod.splits)
  obtain fc conn2 where u: "UpdateHighestReceived (rv_flowController s) conn ?m (sf_Fin f) now = Inr (fc, conn2)"
    using i by (cases "UpdateHighestReceived (rv_flowController s) conn ?m (sf_Fin f) now") (auto simp: handleStreamFrameImpl_def)
  have m: "0 \<le> ?m" "F < MaxByteCount"
    using f(1) inv by (simp_all add: StreamFrame_DataLen_def stream_inv_def data_ok_def)
  note uf = UpdateHighestReceived_facts [OF u m(1)]
  define s0 where "s0 = s\<lparr>rv_flowController := fc, rv_finalOffset := if sf_Fin f then ?m else rv_finalOffset s\<rparr>"
  have impl: "handleStreamFrameImpl s conn f putBack now = (if rv_cancelledLocally s then Inr (s0, conn2, [])
      else rbind (sorter_Push (rv_frameQueue s) (sf_Data f) (sf_Offset f) putBack) (\<lambda>(q, cbs). Inr (signalRead (s0\<lparr>rv_frameQueue := q\<rparr>), conn2, cbs)))"
    using u by (cases "sf_Fin f") (simp_all add: handleStreamFrameImpl_def Let_def s0_def)
  have hi: "highest s0 = max (highest s) ?m" "consumed s0 = consumed s" "rv_finalOffset s0 = (if sf_Fin f then F else rv_finalOffset s)"
    using uf f(3) by (simp_all add: s0_def)
  have same: "rv_frameQueue s0 = rv_frameQueue s" "rv_currentFrame s0 = rv_currentFrame s" "rv_readPosInFrame s0 = rv_readPosInFrame s" "pending s0 = pending s"
      "rv_currentFrameIsLast s0 = rv_currentFrameIsLast s"
    by (simp_all add: s0_def pending_def)
  have d: "data_ok S F R out s" "flags_ok F out s"
    using inv by (simp_all add: stream_inv_def)
  have data: "data_ok S F R out s0"
    using d(1) f(2) unfolding data_ok_def hi same by (auto simp: subset_iff less_max_iff_disj)
  have "rv_finalOffset s = F \<Longrightarrow> max (highest s) ?m = highest s" "sf_Fin f \<Longrightarrow> max (highest s) ?m = F" "sfc_receivedFinalOffset fc \<longleftrightarrow> sfc_receivedFinalOffset (rv_flowController s) \<or> sf_Fin f"
    "highest s \<le> F"
    using uf(3-5) d f(2,3) m(2) unfolding flags_ok_def data_ok_def by auto
  then have flags: "flags_ok F out s0"
    using d(2) m(2) unfolding flags_ok_def hi same by (auto simp: s0_def)
  show ?thesis
  proof (cases "rv_cancelledLocally s")
    case True
    then have "s1 = s0"
      using i impl by simp
    note fin = completed_abandon_ok [OF data flags c [unfolded this] a]
    show ?thesis
      using fin waiting_cancelled [of R s] True by (auto simp: kept_def same_reading_def waiting_ok_def s0_def)
  next
    case False
    then obtain q where q: "sorter_Push (rv_frameQueue s) (sf_Data f) (sf_Offset f) putBack = Inr (q, cbs)" "s1 = signalRead (s0\<lparr>rv_frameQueue := q\<rparr>)"
      using i impl by (auto simp: rbind_eq_Inr)
    have p: "sorter_ok S q" "fs_readPos q = fs_readPos (rv_frameQueue s)" "gap_set (fs_gaps q) = gap_set (fs_gaps (rv_frameQueue s)) - {sf_Offset f..<?m}"
      using sorter_Push_spec [of S "rv_frameQueue s" "sf_Offset f" "sf_Data f" putBack] d(1) f m(2) q(1) by (simp_all add: data_ok_def push_ok_def StreamFrame_DataLen_def)
    have "{sf_Offset f..<?m} \<subseteq> {0..<highest s0}"
      using f(1) hi(1) by auto
    then have "data_ok S F (R \<union> {sf_Offset f..<?m}) out (s0\<lparr>rv_frameQueue := q\<rparr>)"
      using data p same unfolding data_ok_def by (simp add: pending_def) blast
    moreover have "flags_ok F out (s0\<lparr>rv_frameQueue := q\<rparr>)"
      using flags by (simp add: flags_ok_def)
    ultimately have "data_ok S F (R \<union> {sf_Offset f..<?m}) out s1" "flags_ok F out s1"
      by (simp_all add: q(2) signalRead_ok)
    note fin = completed_abandon_ok [OF this c a]
    have "rv_readChan s1 = ChanFull" "rv_currentFrame s1 = rv_currentFrame s" "rv_errorRead s1 = rv_errorRead s" "rv_currentFrameIsLast s1 = rv_currentFrameIsLast s"
      using d(2) by (simp_all add: q(2) signalRead_ok s0_def flags_ok_def)
    then show ?thesis
      using fin waiting_signalled [of R s s1] waiting_same [OF fin(3)] False by (simp add: kept_def)
  qed
qed

lemma handleResetStreamFrame_ok:
  assumes inv: "stream_inv S F R out s" "quiescent F s" and f: "rs_FinalSize f = F" and h: "handleResetStreamFrame s conn f now = Inr (s', conn', evs)"
  shows "kept S F out R s R s'"
proof -
  obtain s1 conn1 where i: "handleResetStreamFrameImpl s conn f now = Inr (s1, conn1)"
    using h by (cases "handleResetStreamFrameImpl s conn f now") (auto simp: handleResetStreamFrame_def)
  obtain b where c: "receive_isNewlyCompleted s1 = (s', b)"
    using h by (auto simp: handleResetStreamFrame_def i split: prod.splits)
  have d: "data_ok S F R out s" "flags_ok F out s" and F: "0 \<le> F" "F < MaxByteCount" and q: "rv_readChan s \<noteq> ChanClosed"
    using inv by (simp_all add: stream_inv_def data_ok_def flags_ok_def)
  show ?thesis
  proof (cases "rv_closeForShutdownErr s \<noteq> None")
    case True
    then have "s1 = s"
      using i by (simp add: handleResetStreamFrameImpl_def)
    then show ?thesis
      using completed_ok [OF inv(1), of s' b] c waiting_same [of s s'] by (simp add: kept_def)
  next
    case False
    then obtain fc conn2 where u: "UpdateHighestReceived (rv_flowController s) conn F True now = Inr (fc, conn2)"
      using i f by (cases "UpdateHighestReceived (rv_flowController s) conn F True now") (auto simp: handleResetStreamFrameImpl_def)
    note uf = UpdateHighestReceived_facts [OF u F(1)]
    define s0 where "s0 = s\<lparr>rv_flowController := fc, rv_finalOffset := F\<rparr>"
    have hi: "highest s0 = F" "consumed s0 = consumed s" "sfc_receivedFinalOffset (rv_flowController s0)"
      using uf d(1) by (simp_all add: s0_def data_ok_def)
    have data: "data_ok S F R out s0"
      using d(1) hi(1) by (auto simp: data_ok_def s0_def pending_def)
    show ?thesis
    proof (cases "rv_cancelledRemotely s")
      case True
      then have "s1 = s0" and fs: "rv_finalOffset s = F" "highest s = F"
        using i False u f d(2) F(2) by (auto simp: handleResetStreamFrameImpl_def Let_def s0_def flags_ok_def)
      moreover have "flags_ok F out s0"
        using d(2) hi fs by (simp add: flags_ok_def) (simp add: s0_def)
      moreover have "rv_cancelledLocally s0 \<longrightarrow> rv_completed s0"
        using inv(1) fs by (simp add: stream_inv_def s0_def)
      ultimately have "stream_inv S F R out s0"
        using data by (simp add: stream_inv_def)
      moreover have "waiting_ok R s0 \<longleftrightarrow> waiting_ok R s"
        by (rule waiting_same) (simp add: same_reading_def s0_def fs)
      ultimately show ?thesis
        using completed_ok [of S F R out s0 s' b] c \<open>s1 = s0\<close> waiting_same [of s0 s'] by (simp add: kept_def)
    next
      case remote: False
      obtain sa conna where ab: "receive_abandon s0 conn2 = (sa, conna)"
        by fastforce
      note sa = receive_abandon_eq [OF ab]
      have dsa: "data_ok S F R out sa" and hsa: "highest sa = F" "consumed sa = F"
        using data hi by (simp_all add: sa data_ok_def pending_def)
      show ?thesis
      proof (cases "rv_cancelledLocally s")
        case True
        then have s1: "s1 = sa"
          using i False u f remote ab by (simp add: handleResetStreamFrameImpl_def Let_def s0_def [symmetric]) (simp add: s0_def sa)
        have loc: "rv_cancelledLocally sa" "rv_finalOffset sa = F"
          using True by (simp_all add: sa s0_def)
        have fl: "flags_ok F out (sa\<lparr>rv_completed := True\<rparr>)"
          using d(2) hsa loc hi(3) unfolding flags_ok_def by (simp add: sa s0_def)
        have "s' = sa\<lparr>rv_completed := True\<rparr>"
          using c s1 loc F(2) by (cases "rv_completed sa") (simp_all add: receive_isNewlyCompleted_def)
        moreover have "same_reading (s\<lparr>rv_finalOffset := F\<rparr>) (sa\<lparr>rv_completed := True\<rparr>)"
          by (simp add: same_reading_def sa s0_def)
        ultimately show ?thesis
          using fl dsa waiting_cancelled [of R s] True
          by (auto simp: kept_def stream_inv_def quiescent_def data_ok_def pending_def waiting_ok_def same_reading_def)
      next
        case local: False
        define sr where "sr = sa\<lparr>rv_cancelledRemotely := True, rv_cancelErr := Some (rv_streamID sa, rs_ErrorCode f, True)\<rparr>"
        have s1: "s1 = signalRead sr"
          using i False u f remote local ab by (simp add: handleResetStreamFrameImpl_def Let_def s0_def [symmetric]) (simp add: s0_def sa sr_def)
        have "data_ok S F R out sr"
          using dsa by (simp add: data_ok_def sr_def pending_def)
        moreover have "flags_ok F out sr"
          using d(2) hsa hi(3) local unfolding flags_ok_def by (simp add: sr_def sa s0_def)
        ultimately have "stream_inv S F R out s1"
          using local by (simp add: stream_inv_def s1 signalRead_ok) (simp add: sr_def sa s0_def)
        moreover have "rv_readChan s1 = ChanFull" "rv_currentFrame s1 = rv_currentFrame s" "rv_errorRead s1 = rv_errorRead s" "rv_currentFrameIsLast s1 = rv_currentFrameIsLast s"
          using q by (simp_all add: s1 signalRead_ok sr_def sa s0_def)
        ultimately show ?thesis
          using completed_ok [of S F R out s1 s' b] c waiting_same [of s1 s'] waiting_signalled [of R s s1 R] by (simp add: kept_def)
      qed
    qed
  qed
qed

lemma CancelRead_ok:
  assumes inv: "stream_inv S F R out s" "quiescent F s" and h: "CancelRead s conn code = (s', conn', evs)"
  shows "kept S F out R s R s'"
proof -
  obtain s1 k where i: "cancelReadImpl s code = (s1, k)"
    by fastforce
  obtain s2 b where c: "receive_isNewlyCompleted s1 = (s2, b)"
    by fastforce
  have a: "(if b then receive_abandon s2 conn else (s2, conn)) = (s', conn')"
    using h by (cases b) (simp_all add: CancelRead_def i c split: prod.splits)
  have d: "data_ok S F R out s" "flags_ok F out s" and q: "rv_readChan s \<noteq> ChanClosed"
    using inv by (simp_all add: stream_inv_def flags_ok_def)
  consider (same) "s1 = s" | (loc) "s1 = s\<lparr>rv_cancelledLocally := True\<rparr>" "rv_errorRead s \<or> rv_cancelledRemotely s"
    | (signal) "s1 = signalRead (s\<lparr>rv_cancelledLocally := True, rv_queuedStopSending := True, rv_cancelErr := Some (rv_streamID s, code, False)\<rparr>)"
    using i by (auto simp: cancelReadImpl_def Let_def split: if_splits)
  then have "data_ok S F R out s1 \<and> flags_ok F out s1 \<and> (waiting_ok R s \<longrightarrow> waiting_ok R s1)"
  proof cases
    case same
    then show ?thesis
      using d by simp
  next
    case loc
    then have "waiting_ok R s \<longrightarrow> rv_readChan s \<noteq> ChanEmpty"
      using waiting_cancelled [of R s] by (auto simp: waiting_ok_def)
    then show ?thesis
      using d loc(1) by (auto simp: data_ok_def flags_ok_def pending_def waiting_ok_def)
  next
    case signal
    define sl where "sl = s\<lparr>rv_cancelledLocally := True, rv_queuedStopSending := True, rv_cancelErr := Some (rv_streamID s, code, False)\<rparr>"
    have "data_ok S F R out sl" "flags_ok F out sl"
      using d by (auto simp: data_ok_def flags_ok_def pending_def sl_def)
    moreover have "rv_readChan s1 = ChanFull" "rv_currentFrame s1 = rv_currentFrame s" "rv_errorRead s1 = rv_errorRead s" "rv_currentFrameIsLast s1 = rv_currentFrameIsLast s"
      using q signal by (simp_all add: signalRead_ok)
    ultimately show ?thesis
      using waiting_signalled [of R s s1 R] signal by (simp add: signalRead_ok sl_def [symmetric])
  qed
  then show ?thesis
    using completed_abandon_ok [of S F R out s1 s2 b conn s' conn'] c a waiting_same [of s1 s'] by (simp add: kept_def)
qed

lemma stream_GetWindowUpdate_counts:
  assumes "stream_GetWindowUpdate f c rtt now = Inr ((f', c'), offset)"
  shows "fc_highestReceived (sfc_base f') = fc_highestReceived (sfc_base f)" "fc_bytesRead (sfc_base f') = fc_bytesRead (sfc_base f)"
    "sfc_receivedFinalOffset f' = sfc_receivedFinalOffset f"
  using assms maybeAdjustWindowSize_spec [of "sfc_base f" rtt now]
  by (auto simp: stream_GetWindowUpdate_def getWindowUpdate_def rbind_eq_Inr Let_def same_counts_def split: if_splits)

lemma stream_inv_core:
  assumes "stream_inv S F R out s" and "quiescent F s" and "same_reading s s'" and "rv_readPosInFrame s' = rv_readPosInFrame s" and "rv_completed s' = rv_completed s"
    and "rv_cancelledRemotely s' = rv_cancelledRemotely s" and "rv_cancelledLocally s' = rv_cancelledLocally s" and "highest s' = highest s" and "consumed s' = consumed s"
    and "sfc_receivedFinalOffset (rv_flowController s') = sfc_receivedFinalOffset (rv_flowController s)" and "rv_queuedStopSending s' \<longrightarrow> rv_cancelErr s' \<noteq> None"
  shows "stream_inv S F R out s' \<and> quiescent F s' \<and> same_reading s s'"
proof -
  have p: "pending s' = pending s"
    using assms(3,4) by (simp add: pending_def same_reading_def)
  have e: "rv_frameQueue s' = rv_frameQueue s" "rv_currentFrame s' = rv_currentFrame s" "rv_finalOffset s' = rv_finalOffset s" "rv_errorRead s' = rv_errorRead s"
    "rv_currentFrameIsLast s' = rv_currentFrameIsLast s" "rv_readChan s' = rv_readChan s"
    using assms(3) by (simp_all add: same_reading_def)
  have "data_ok S F R out s' = data_ok S F R out s"
    unfolding data_ok_def p e assms(4,8) by (rule refl)
  moreover have "flags_ok F out s' \<longleftrightarrow> flags_ok F out s"
    using assms(1,11) unfolding stream_inv_def flags_ok_def e assms(5-10) by simp
  ultimately show ?thesis
    using assms(1-3) unfolding stream_inv_def quiescent_def e assms(5,7) by simp
qed

lemma getControlFrame_ok:
  assumes inv: "stream_inv S F R out s" "quiescent F s" and h: "receive_getControlFrame s conn rtt now = Inr (s', conn', r)"
  shows "kept S F out R s R s'"
proof -
  have "stream_inv S F R out s' \<and> quiescent F s' \<and> same_reading s s'"
  proof (cases "rv_queuedStopSending s")
    case True
    then have "s' = s\<lparr>rv_queuedStopSending := False\<rparr>"
      using h by (simp add: receive_getControlFrame_def split: option.splits prod.splits)
    then show ?thesis
      by (intro stream_inv_core [OF inv]) (simp_all add: same_reading_def)
  next
    case stop: False
    show ?thesis
    proof (cases "rv_queuedMaxStreamData s")
      case True
      then obtain fc conn2 offset where g: "stream_GetWindowUpdate (rv_flowController s) conn rtt now = Inr ((fc, conn2), offset)"
        using h stop by (cases "stream_GetWindowUpdate (rv_flowController s) conn rtt now") (auto simp: receive_getControlFrame_def)
      then have "s' = s\<lparr>rv_queuedMaxStreamData := False, rv_flowController := fc\<rparr>"
        using h True stop by (simp add: receive_getControlFrame_def)
      then show ?thesis
        using stream_GetWindowUpdate_counts [OF g] stop by (intro stream_inv_core [OF inv]) (simp_all add: same_reading_def)
    next
      case False
      then show ?thesis
        using h stop inv by (simp add: receive_getControlFrame_def same_reading_def)
    qed
  qed
  then show ?thesis
    using waiting_same [of s s'] by (simp add: kept_def)
qed

text \<open>Setting the deadline and shutting down only signal.\<close>

lemma signal_ok:
  assumes inv: "stream_inv S F R out s" "quiescent F s" and "s1 = s\<lparr>rv_deadline := t\<rparr> \<or> s1 = s\<lparr>rv_closeForShutdownErr := e\<rparr>"
  shows "kept S F out R s R (signalRead s1)"
proof -
  have "data_ok S F R out s1 = data_ok S F R out s" "flags_ok F out s1 = flags_ok F out s"
    using assms(3) by (elim disjE; simp add: data_ok_def flags_ok_def pending_def)+
  moreover have "data_ok S F R out s" "flags_ok F out s" "rv_readChan s \<noteq> ChanClosed"
    using inv by (simp_all add: stream_inv_def flags_ok_def)
  moreover have "rv_readChan s1 = rv_readChan s" "rv_currentFrame s1 = rv_currentFrame s" "rv_errorRead s1 = rv_errorRead s" "rv_currentFrameIsLast s1 = rv_currentFrameIsLast s"
      "rv_cancelledLocally s1 = rv_cancelledLocally s" "rv_finalOffset s1 = rv_finalOffset s" "rv_completed s1 = rv_completed s"
    using assms(3) by auto
  ultimately show ?thesis
    using inv waiting_signalled [of R s "signalRead s1" R] by (simp add: kept_def stream_inv_def quiescent_def signalRead_ok)
qed

section \<open>Every run\<close>

definition receive_inv :: "(ByteCount \<Rightarrow> byte) \<Rightarrow> ByteCount \<Rightarrow> receive_run \<Rightarrow> bool" where
  "receive_inv S F x \<longleftrightarrow> stream_inv S F (rr_received x) (rr_out x) (rr_stream x) \<and> quiescent F (rr_stream x) \<and>
     (rr_eof x \<longrightarrow> int (length (rr_out x)) = F) \<and>
     (case rr_waiting x of None \<Rightarrow> True | Some c \<Rightarrow> rc_data c = [] \<and> waiting_ok (rr_received x) (rr_stream x))"

lemma receive_init_ok: "0 \<le> F \<Longrightarrow> F < MaxByteCount \<Longrightarrow> receive_init x \<Longrightarrow> receive_inv S F x"
  by (auto simp: receive_init_def receive_inv_def stream_inv_def data_ok_def flags_ok_def quiescent_def pending_def newReceiveStream_def NewStreamFlowController_def newFrameSorter_def
      sorter_ok_def queue_ok_def entries_ok_def gaps_ok_Cons frame_bytes_def MaxByteCount_def)

lemma receive_kept:
  assumes "receive_inv S F x" and "kept S F (rr_out x) (rr_received x) (rr_stream x) R' s'"
  shows "receive_inv S F (x\<lparr>rr_stream := s', rr_conn := c', rr_received := R'\<rparr>)"
  using assms by (auto simp: receive_inv_def kept_def split: option.splits)

lemma stream_inv_length: "stream_inv S F R out s \<Longrightarrow> int (length out) \<le> F"
  using readPos_le_highest [of S F R out s] by (auto simp: stream_inv_def data_ok_def)

lemma read_done_ok:
  assumes eof: "rr_eof x \<longrightarrow> int (length (rr_out x)) = F" and ok: "outcome_ok S F (rr_received x) (rr_out x) (c, r)" and more: "r \<noteq> ReadMore"
  shows "receive_inv S F (read_done x (c, r))"
proof (cases r)
  case (ReadReturn d e)
  obtain s' b where s': "receive_isNewlyCompleted (rc_stream c) = (s', b)"
    by fastforce
  have inv: "stream_inv S F (rr_received x) (rr_out x @ d) (rc_stream c)"
    using ok ReadReturn by simp
  have "int (length (rr_out x @ d)) = F" if "rr_eof x"
    using stream_inv_length [OF inv] eof that by simp
  then show ?thesis
    using completed_ok [OF inv s'] ok ReadReturn by (auto simp: read_done_def receive_inv_def finish_Read_def s')
next
  case ReadWait
  then show ?thesis
    using ok eof by (simp add: read_done_def receive_inv_def waiting_ok_def quiescent_def)
qed (use more in simp)

lemma set_chan_ok:
  assumes "stream_inv S F R out s" and "ch \<noteq> ChanClosed"
  shows "stream_inv S F R out (s\<lparr>rv_readChan := ch\<rparr>)"
proof -
  have "data_ok S F R out (s\<lparr>rv_readChan := ch\<rparr>) = data_ok S F R out s"
    by (simp add: data_ok_def pending_def)
  moreover have "flags_ok F out (s\<lparr>rv_readChan := ch\<rparr>)"
    using assms by (simp add: stream_inv_def flags_ok_def)
  ultimately show ?thesis
    using assms(1) by (simp add: stream_inv_def)
qed

lemma receive_step_ok:
  assumes "receive_step S F x y" and "receive_inv S F x"
  shows "receive_inv S F y"
proof -
  have inv: "stream_inv S F (rr_received x) (rr_out x) (rr_stream x)" "quiescent F (rr_stream x)" "rr_eof x \<longrightarrow> int (length (rr_out x)) = F"
    using assms(2) by (simp_all add: receive_inv_def)
  show ?thesis
    using assms(1)
  proof (cases rule: receive_step.cases)
    case (frame f putBack now s' conn' evs)
    then show ?thesis
      using receive_kept [OF assms(2) handleStreamFrame_ok [OF inv(1)]] by simp
  next
    case (reset f now s' conn' evs)
    then show ?thesis
      using receive_kept [OF assms(2) handleResetStreamFrame_ok [OF inv(1,2)], of f _ now s' conn' evs conn'] by simp
  next
    case (read len now r)
    then show ?thesis
      using readImpl_ok [OF inv(1), of "rr_conn x" len now] read_done_ok [OF inv(3)] by auto
  next
    case (wake c ch x' now r)
    have w: "rc_data c = []" "waiting_ok (rr_received x) (rr_stream x)"
      using assms(2) wake(2) by (simp_all add: receive_inv_def)
    have chan: "ch \<noteq> ChanClosed"
      using inv(1) wake(3) by (cases "rv_readChan (rr_stream x)") (auto simp: stream_inv_def flags_ok_def chan_recv_def)
    have "stream_inv S F (rr_received x) (rr_out x) (rr_stream x')" "rv_currentFrame (rr_stream x') = []" "\<not> rv_errorRead (rr_stream x')"
      using set_chan_ok [OF inv(1), of ch] chan w(2) wake(4) by (simp_all add: waiting_ok_def)
    then obtain c' q where "read_resume now (resumed x' c) = Inr (c', q)" "outcome_ok S F (rr_received x) (rr_out x) (c', q)" "q \<noteq> ReadMore"
      using read_resume_ok [of S F "rr_received x" "rr_out x" "resumed x' c" now] w(1) by (auto simp: resumed_def)
    then show ?thesis
      using read_done_ok [of x' F S c' q] inv(3) wake by simp
  next
    case (expired c now r)
    have w: "rc_data c = []" "rv_currentFrame (rr_stream x) = []" "\<not> rv_errorRead (rr_stream x)"
      using assms(2) expired(2) by (simp_all add: receive_inv_def waiting_ok_def)
    obtain c' q where "read_resume now (resumed x c) = Inr (c', q)" "outcome_ok S F (rr_received x) (rr_out x) (c', q)" "q \<noteq> ReadMore"
      using read_resume_ok [of S F "rr_received x" "rr_out x" "resumed x c" now] inv(1) w by (auto simp: resumed_def)
    then show ?thesis
      using read_done_ok [of x F S c' q] inv(3) expired by simp
  next
    case (cancel code s' conn' evs)
    then show ?thesis
      using receive_kept [OF assms(2) CancelRead_ok [OF inv(1,2)], of _ code s' conn' evs conn'] by simp
  next
    case (control rtt now s' conn' r)
    then show ?thesis
      using receive_kept [OF assms(2) getControlFrame_ok [OF inv(1,2)], of _ rtt now s' conn' r conn'] by simp
  next
    case (deadline t)
    then show ?thesis
      using receive_kept [OF assms(2) signal_ok [OF inv(1,2)], of "(rr_stream x)\<lparr>rv_deadline := t\<rparr>" t None "rr_conn x"] by (simp add: SetReadDeadline_def)
  next
    case (shutdown err)
    then show ?thesis
      using receive_kept [OF assms(2) signal_ok [OF inv(1,2)], of "(rr_stream x)\<lparr>rv_closeForShutdownErr := Some err\<rparr>" 0 "Some err" "rr_conn x"]
      by (simp add: receive_closeForShutdown_def)
  qed
qed

lemma receive_reachable_ok:
  "0 \<le> F \<Longrightarrow> F < MaxByteCount \<Longrightarrow> reachable receive_init (receive_step S F) x \<Longrightarrow> receive_inv S F x"
  by (erule reachable_invariant [where I = "receive_inv S F"]) (auto intro: receive_init_ok receive_step_ok)

end
