(* ===== verification/Receive_Delivery.thy ===== *)
theory Receive_Delivery
  imports Receive_Run
begin

text \<open>
  The properties of the receive side of a stream, with a sample run.
\<close>

section \<open>Properties\<close>

text \<open>
  (C1) The receive side of a stream delivers the stream: whatever the order and the overlaps in which its frames arrive, and whatever else happens to the stream, the bytes that
  \<open>Read\<close> has returned are its first bytes, and the end of the stream is reported only when all of them were returned. A further call neither
  panics nor reports one of its internal errors, and it returns the bytes that follow.
\<close>

theorem receive_stream_delivers:
  assumes "0 \<le> F" and "F < MaxByteCount" and "reachable receive_init (receive_step S F) x"
  shows "(\<forall>i < length (rr_out x). rr_out x ! i = S (int i)) \<and> int (length (rr_out x)) \<le> F \<and> (rr_eof x \<longrightarrow> int (length (rr_out x)) = F) \<and>
    (\<exists>c r. readImpl (rr_stream x) (rr_conn x) len now = Inr (c, r) \<and>
      (case r of ReadReturn d e \<Rightarrow> (\<forall>i < length d. d ! i = S (int (length (rr_out x) + i))) \<and> (\<forall>m. e \<noteq> Some (ErrBug m)) \<and>
          (e = Some ReadEOF \<longrightarrow> int (length (rr_out x @ d)) = F)
       | ReadWait \<Rightarrow> int (length (rr_out x)) \<notin> rr_received x | ReadMore \<Rightarrow> False))"
proof -
  have inv: "stream_inv S F (rr_received x) (rr_out x) (rr_stream x)" "rr_eof x \<longrightarrow> int (length (rr_out x)) = F"
    using receive_reachable_ok [OF assms] by (simp_all add: receive_inv_def)
  obtain c r where r: "readImpl (rr_stream x) (rr_conn x) len now = Inr (c, r)" "outcome_ok S F (rr_received x) (rr_out x) (c, r)" "r \<noteq> ReadMore"
    using readImpl_ok [OF inv(1)] by blast
  have bytes: "frame_bytes S out 0" if "stream_inv S F R out s" for R out s
  proof -
    have "frame_bytes S (out @ pending s) 0"
      using that by (simp add: stream_inv_def data_ok_def)
    from frame_bytes_take [OF this, of "length out"] show ?thesis
      by simp
  qed
  have "case r of ReadReturn d e \<Rightarrow> (\<forall>i < length d. d ! i = S (int (length (rr_out x) + i))) \<and> (\<forall>m. e \<noteq> Some (ErrBug m)) \<and>
          (e = Some ReadEOF \<longrightarrow> int (length (rr_out x @ d)) = F)
       | ReadWait \<Rightarrow> int (length (rr_out x)) \<notin> rr_received x | ReadMore \<Rightarrow> False"
  proof (cases r)
    case (ReadReturn d e)
    have b: "frame_bytes S (rr_out x @ d) 0"
      using r(2) ReadReturn bytes [of "rr_received x" "rr_out x @ d" "rc_stream c"] by simp
    have "d ! i = S (int (length (rr_out x) + i))" if "i < length d" for i
      using b [unfolded frame_bytes_def, rule_format, of "length (rr_out x) + i"] that by (simp add: nth_append)
    then show ?thesis
      using r(2) ReadReturn by simp
  next
    case ReadWait
    have "stream_inv S F (rr_received x) (rr_out x) (rc_stream c)" "rv_currentFrame (rc_stream c) = []" "wait_ok (rr_received x) (rc_stream c)"
      using r(2) ReadWait by simp_all
    then have "int (length (rr_out x)) = fs_readPos (rv_frameQueue (rc_stream c))" "fs_readPos (rv_frameQueue (rc_stream c)) \<notin> rr_received x"
      by (simp_all add: stream_inv_def data_ok_def pending_def wait_ok_def)
    then show ?thesis
      using ReadWait by simp
  qed (use r in simp)
  then show ?thesis
    using r(1) inv(2) bytes [OF inv(1)] stream_inv_length [OF inv(1)] by (auto simp: frame_bytes_def)
qed

text \<open>A stream of two bytes arrives in one frame, and is read.\<close>

definition sample_conn :: baseFlowController where
  "sample_conn = NewConnectionFlowController 100 200 (Some (\<lambda>_. True))"

definition sample_received :: "receiveStream \<times> baseFlowController \<times> stream_call list" where
  "sample_received = projr (handleStreamFrame (newReceiveStream 4 (NewStreamFlowController 4 100 200 0)) sample_conn
     \<lparr>sf_StreamID = 4, sf_Offset = 0, sf_Data = [0, 1], sf_Fin = True, sf_DataLenPresent = True\<rparr> None 5)"

definition sample_receive :: receive_run where
  "sample_receive = \<lparr>rr_stream = fst sample_received, rr_conn = fst (snd sample_received), rr_waiting = None, rr_out = [], rr_received = {0, 1}, rr_eof = False\<rparr>"

definition sample_receive_start :: receive_run where
  "sample_receive_start = \<lparr>rr_stream = newReceiveStream 4 (NewStreamFlowController 4 100 200 0), rr_conn = sample_conn, rr_waiting = None, rr_out = [], rr_received = {},
     rr_eof = False\<rparr>"

lemma sample_start_reachable: "reachable receive_init (receive_step S F) sample_receive_start"
proof (rule reachable.start)
  have "fc_allowWindowIncrease sample_conn \<noteq> None"
    by (simp add: sample_conn_def NewConnectionFlowController_def)
  then show "receive_init sample_receive_start"
    unfolding receive_init_def sample_receive_start_def
    by (intro exI [of _ 4] exI [of _ 100] exI [of _ 200] exI [of _ 0] exI [of _ sample_conn]) simp
qed

lemma sample_receive_reachable: "reachable receive_init (receive_step of_int 2) sample_receive"
proof (rule reachable.step [OF sample_start_reachable])
  let ?x = sample_receive_start
  let ?f = "\<lparr>sf_StreamID = 4, sf_Offset = 0, sf_Data = [0, 1], sf_Fin = True, sf_DataLenPresent = True\<rparr> :: StreamFrame"
  have "isl (handleStreamFrame (rr_stream ?x) (rr_conn ?x) ?f None 5) = False"
    by code_simp
  then have h: "handleStreamFrame (rr_stream ?x) (rr_conn ?x) ?f None 5 = Inr sample_received"
    by (auto simp: sample_received_def sample_receive_start_def isl_def split: sum.splits)
  obtain s' conn' evs where e: "sample_received = (s', conn', evs)"
    by (cases sample_received)
  have "frame_bytes of_int (sf_Data ?f) (sf_Offset ?f)"
    by (simp add: frame_bytes_def less_Suc_eq numeral_eq_Suc)
  then have "receive_step of_int 2 ?x (?x\<lparr>rr_stream := s', rr_conn := conn',
      rr_received := rr_received ?x \<union> (if rv_cancelledLocally (rr_stream ?x) then {} else {sf_Offset ?f..<sf_Offset ?f + StreamFrame_DataLen ?f})\<rparr>)"
    using h e by (intro receive_step.frame [where putBack = None and now = 5 and evs = evs]) (simp_all add: StreamFrame_DataLen_def)
  moreover have "{0..<2} = {0, 1 :: int}"
    by auto
  ultimately show "receive_step of_int 2 ?x sample_receive"
    by (simp add: sample_receive_def sample_receive_start_def e newReceiveStream_def StreamFrame_DataLen_def)
qed

theorem receive_stream_delivers_witness:
  "\<exists>c d e. readImpl (rr_stream sample_receive) (rr_conn sample_receive) 10 7 = Inr (c, ReadReturn d e) \<and> (\<forall>i < length d. d ! i = of_int (int i))"
proof -
  have r: "0 \<le> (2 :: ByteCount)" "(2 :: ByteCount) < MaxByteCount" "rr_out sample_receive = []" "(0 :: ByteCount) \<in> rr_received sample_receive"
    by (simp_all add: MaxByteCount_def sample_receive_def)
  show ?thesis
  proof -
    note t = receive_stream_delivers [OF r(1,2) sample_receive_reachable, of 10 7]
    obtain c q where q: "readImpl (rr_stream sample_receive) (rr_conn sample_receive) 10 7 = Inr (c, q)"
      using t by blast
    have "case q of ReadReturn d e \<Rightarrow> (\<forall>i < length d. d ! i = of_int (int i)) | ReadWait \<Rightarrow> False | ReadMore \<Rightarrow> False"
      using t q r(3,4) by (cases q) simp_all
    then show ?thesis
      using q by (cases q) auto
  qed
qed

text \<open>
  (C10) No wake-up is lost: if a call of \<open>Read\<close> waits and the channel has not been signalled, then the next byte of the stream has not arrived, the end of the stream is not reached,
  and the stream is neither cancelled by one of the sides nor shut down.
\<close>

theorem read_not_stuck:
  assumes "0 \<le> F" and "F < MaxByteCount" and "reachable receive_init (receive_step S F) x" and "rr_waiting x = Some c" and "rv_readChan (rr_stream x) = ChanEmpty"
  shows "int (length (rr_out x)) \<notin> rr_received x \<and> int (length (rr_out x)) < rv_finalOffset (rr_stream x) \<and>
    \<not> rv_cancelledRemotely (rr_stream x) \<and> \<not> rv_cancelledLocally (rr_stream x) \<and> rv_closeForShutdownErr (rr_stream x) = None"
proof -
  let ?s = "rr_stream x"
  have "stream_inv S F (rr_received x) (rr_out x) ?s" "rv_currentFrame ?s = []" "wait_ok (rr_received x) ?s"
    using receive_reachable_ok [OF assms(1-3)] assms(4,5) by (simp_all add: receive_inv_def waiting_ok_def)
  then show ?thesis
    by (simp add: stream_inv_def data_ok_def pending_def wait_ok_def)
qed

text \<open>A call of \<open>Read\<close> on the new stream waits.\<close>

lemma sample_waits:
  obtains c where "readImpl (rr_stream sample_receive_start) (rr_conn sample_receive_start) 10 7 = Inr (c, ReadWait)" "rv_readChan (rc_stream c) = ChanEmpty"
  unfolding readImpl_def sample_receive_start_def newReceiveStream_def
  by (subst (asm) read_loop.simps)
    (simp add: read_iteration_def read_dequeue_def dequeueNextFrame_def newFrameSorter_def sorter_Pop_def read_check_def MaxByteCount_def)

theorem read_not_stuck_witness:
  "\<exists>x. reachable receive_init (receive_step of_int 2) x \<and> rr_waiting x \<noteq> None \<and> rv_readChan (rr_stream x) = ChanEmpty \<and> int (length (rr_out x)) \<notin> rr_received x \<and> int (length (rr_out x)) < rv_finalOffset (rr_stream x)"
proof -
  obtain c where c: "readImpl (rr_stream sample_receive_start) (rr_conn sample_receive_start) 10 7 = Inr (c, ReadWait)" "rv_readChan (rc_stream c) = ChanEmpty"
    by (rule sample_waits)
  let ?y = "read_done sample_receive_start (c, ReadWait)"
  have "rr_waiting sample_receive_start = None"
    by (simp add: sample_receive_start_def)
  then have "reachable receive_init (receive_step of_int 2) ?y"
    using reachable.step [OF sample_start_reachable receive_step.read [OF _ c(1)]] by simp
  moreover have "rr_waiting ?y = Some c" "rv_readChan (rr_stream ?y) = ChanEmpty"
    using c(2) by (simp_all add: read_done_def)
  ultimately show ?thesis
    using read_not_stuck [of 2 of_int ?y c] by (intro exI [of _ ?y]) (simp add: MaxByteCount_def)
qed

text \<open>
  (C27) Flow control credit is given back: a stream is completed as soon as its final size is known and it was cancelled locally or its error or end was read, and the flow
  controller of a completed stream counts every byte of the stream as read, so that the connection's window is not used up by streams that are gone.
\<close>

theorem completed_stream_accounted:
  assumes "0 \<le> F" and "F < MaxByteCount" and "reachable receive_init (receive_step S F) x"
  defines "s \<equiv> rr_stream x"
  shows "(rv_completed s \<longleftrightarrow> rv_finalOffset s = F \<and> (rv_cancelledLocally s \<or> rv_errorRead s)) \<and>
    (rv_completed s \<longrightarrow> fc_bytesRead (sfc_base (rv_flowController s)) = F \<and> fc_highestReceived (sfc_base (rv_flowController s)) = F)"
proof -
  have inv: "stream_inv S F (rr_received x) (rr_out x) s" and q: "quiescent F s"
    using receive_reachable_ok [OF assms(1-3)] by (simp_all add: receive_inv_def s_def)
  have fl: "flags_ok F (rr_out x) s"
    using inv by (simp add: stream_inv_def)
  have loc: "rv_cancelledLocally s \<and> rv_finalOffset s = F \<longrightarrow> rv_completed s"
    using inv unfolding stream_inv_def by (elim conjE) assumption
  have c: "rv_completed s \<longrightarrow> rv_finalOffset s = F \<and> consumed s = highest s \<and> (rv_cancelledLocally s \<or> rv_errorRead s)"
    using fl unfolding flags_ok_def by (elim conjE) assumption
  have h: "highest s = F" if "rv_completed s"
  proof -
    have "rv_finalOffset s = MaxByteCount \<or> rv_finalOffset s = F \<and> highest s = F"
      using fl unfolding flags_ok_def by (elim conjE) assumption
    moreover have "rv_finalOffset s < MaxByteCount"
      using c that assms(2) by simp
    ultimately show ?thesis
      by linarith
  qed
  show ?thesis
  proof (intro conjI impI)
    show "rv_completed s \<longleftrightarrow> rv_finalOffset s = F \<and> (rv_cancelledLocally s \<or> rv_errorRead s)"
      using c loc q [unfolded quiescent_def] by blast
    show "highest s = F" if "rv_completed s"
      by (rule h [OF that])
    show "consumed s = F" if "rv_completed s"
      using c h [OF that] that by simp
  qed
qed

definition sample_cancelled :: receive_run where
  "sample_cancelled = (case CancelRead (rr_stream sample_receive) (rr_conn sample_receive) 3 of
     (s, conn, evs) \<Rightarrow> sample_receive\<lparr>rr_stream := s, rr_conn := conn\<rparr>)"

theorem completed_stream_accounted_witness:
  "rv_completed (rr_stream sample_cancelled) \<and> fc_bytesRead (sfc_base (rv_flowController (rr_stream sample_cancelled))) = 2"
proof -
  obtain s conn evs where c: "CancelRead (rr_stream sample_receive) (rr_conn sample_receive) 3 = (s, conn, evs)"
    by (cases "CancelRead (rr_stream sample_receive) (rr_conn sample_receive) 3")
  have "reachable receive_init (receive_step of_int 2) sample_cancelled"
    using reachable.step [OF sample_receive_reachable receive_step.cancel [OF c]] by (simp add: sample_cancelled_def c)
  moreover have "rv_completed (rr_stream sample_cancelled)"
    by code_simp
  ultimately show ?thesis
    using completed_stream_accounted [of 2 of_int sample_cancelled] by (simp add: MaxByteCount_def)
qed

end
