(* ===== verification/Spec2Isabelle.thy ===== *)
theory Spec2Isabelle
  imports Varint Protocol Frame_Parser Received_Packets Frame_Sorter_Run Flow_Control Conn_ID Streams_Manager Congestion ECN_Tracker Sent_Probes MTU_Discovery Receive_Delivery
begin

text \<open>
  A verification of the transport core of uquic, a QUIC implementation in Go.

  \<^bold>\<open>The program.\<close> A connection (\<open>connection.go\<close>) reads datagrams, removes the packet protection and gives the payload of every packet to the frame parser
  (\<open>internal/wire\<close>). The packet number goes to the received packet handler (\<open>internal/ackhandler\<close>), which decides when to send which ACK frame. STREAM and
  RESET\_STREAM frames go through the stream maps (\<open>streams_map*.go\<close>) to the receive side of a stream (\<open>receive_stream.go\<close>), which puts the data in order in its
  frame sorter (\<open>frame_sorter.go\<close>) and accounts for it with its flow controller (\<open>internal/flowcontrol\<close>). ACK frames go to the sent packet handler, which
  keeps the history of sent packets, detects losses, runs the timer and drives the RTT estimator (\<open>internal/utils/rtt_stats.go\<close>), the congestion controller
  (\<open>internal/congestion\<close>) and the validation of ECN. Connection IDs are kept by the manager and the generator (\<open>conn_id_*.go\<close>), and the MTU of the
  path is searched with probe packets (\<open>mtu_discoverer.go\<close>). All of these are modelled, except for the connection itself, which only appears as the calls it makes.

  \<^bold>\<open>How Go is modelled.\<close> A struct is a record whose fields carry a short prefix, an enumeration is a datatype, a method is a function that takes and returns the record. A fallible
  call returns \<open>'a result\<close>, with \<open>Inl\<close> for an error; a panic (also an index out of range or a nil pointer) is the error \<open>Panic\<close>, so that freedom from panics is a
  statement about results. Values on the wire are \<open>8 word\<close> to \<open>64 word\<close>, with the conversions of the code. Byte counts, packet numbers, stream numbers and times are \<open>int64\<close> in the
  code and \<open>int\<close> here; wrap-around is written out where the code depends on it (varints, ACK delays, limits of streams, pacer, cubic function, MTU generations).
  Floating point operations round as those of Go do (\<open>Go_Float\<close>). Maps are association lists with distinct keys, channels of capacity one are flags (\<open>Go_Runtime\<close>).
  Callbacks, queued frames and calls of other components are returned as lists of events. A mutex makes an operation one step; an operation that waits
  is cut where it gives up its mutex, and a step relation interleaves the pieces. Random numbers, the current time, made streams and \<open>math.Cbrt\<close> are arguments.

  \<^bold>\<open>The theories.\<close>

  \<^item> \<open>Prelude\<close>, \<open>Go_Float\<close>, \<open>Go_Runtime\<close>: results and panics, big-endian numbers, states reachable by a step relation and the induction for invariants, rounding, maps and channels.

  \<^item> \<open>Varint\<close> (\<open>quicvarint/varint.go\<close>) and \<open>Protocol\<close> (\<open>internal/protocol\<close>): varints are read back as written; truncated packet numbers are decoded exactly; stream
    IDs are a bijection.

  \<^item> \<open>Wire\<close>, \<open>Wire_Frames\<close>, \<open>Wire_Conn_Frames\<close>, \<open>Wire_Data_Frames\<close>, \<open>Wire_Ack\<close>, \<open>Frame_Parser\<close> (\<open>internal/wire/*_frame.go\<close>, \<open>frame_parser.go\<close>): one group per frame
    with its record, parser, \<open>Append\<close> and \<open>Length\<close>. The locales \<open>wire_parser\<close> (no panic, consumes within the slice), \<open>wire_frame\<close> (what is appended is parsed back, with
    the announced length) and \<open>wire_codec\<close> (both) are interpreted for every frame with a body and for the dispatch; the parser of whole packets rests on them.

  \<^item> \<open>Received_History\<close>, \<open>Received_Packets\<close> (\<open>received_packet_*.go\<close>): the list of ranges refines a set of packet numbers, as the interpretation of the locale \<open>packet_history\<close>;
    ACK frames contain only received packets and are sent in time.

  \<^item> \<open>Frame_Sorter\<close>, \<open>Frame_Sorter_Push\<close>, \<open>Frame_Sorter_Run\<close> (\<open>frame_sorter.go\<close>): definitions, preservation of the tiling of the received bytes by a push, and delivery in order.

  \<^item> \<open>RTT_Stats\<close>, \<open>Flow_Control\<close>, \<open>Conn_ID\<close>: the RTT estimator; two communicating endpoints never violate flow control; connection IDs in use and in the queue.

  \<^item> \<open>Streams_Map\<close>, \<open>Streams_Manager\<close> (\<open>streams_map*.go\<close>): limits on streams in both directions, and that blocked calls are woken up.

  \<^item> \<open>Congestion\<close>, \<open>ECN_Tracker\<close>: bounds of the congestion window, the reaction to losses, the rate of the pacer, and the phases of ECN validation.

  \<^item> \<open>Sent_History\<close>, \<open>Sent_Packets\<close> (definitions, after \<open>sent_packet_history.go\<close> and \<open>sent_packet_handler.go\<close>), \<open>Sent_Acks\<close> (the walk through an ACK frame), \<open>Sent_Loss\<close> (the
    bytes in flight and lost packets), \<open>Sent_Ops\<close> and \<open>Sent_Run\<close> (every operation returns and keeps the invariant), \<open>Sent_Steps\<close> and \<open>Sent_Probes\<close> (runs and their properties).

  \<^item> \<open>MTU_Discovery\<close> (\<open>mtu_discoverer.go\<close>): the search ends, and finds the MTU.

  \<^item> \<open>Receive_Stream\<close> (definitions, after \<open>receive_stream.go\<close>), \<open>Receive_Run\<close> (the invariant), \<open>Receive_Delivery\<close> (\<open>Read\<close> returns the bytes of the stream, and never waits for what is there).

  A component with state has an invariant (\<open>*_ok\<close> or \<open>*_inv\<close>), a lemma for every operation, a step relation (\<open>*_step\<close>) for the calls in any order that its user
  allows, and properties of all states that are \<open>reachable\<close>. Where the code does not do what it is meant to do, a lemma shows it at a concrete input.

  \<^bold>\<open>Bounds.\<close> All functions are total, without fuel: the loops end because a slice, the range of an index or the data left to read gets shorter, and \<open>termination\<close> proves it where the
  recursion is not structural. The number of probes of the MTU search is bounded by a theorem. Numbers on the wire are below \<open>2^62\<close>, which is what makes \<open>int\<close> faithful
  for the sums of the code.

  \<^bold>\<open>Not modelled.\<close> Packet headers and transport parameters, packet protection and the TLS handshake (which rest on libraries outside of the repository), the packing of packets and the framer,
  the send side of streams, crypto streams, the datagram queue, the path manager, the run loop of the connection, the server and the transport with their sockets and
  goroutines, the descriptions of Initial packets of browsers, HTTP/3, and everything that only observes (logging, tracing, qlog, metrics). Memory pools are left out where they only reuse memory.
\<close>

end
